(* ===== verification/Kernel_Prelude.thy ===== *)
theory Kernel_Prelude
  imports Main "HOL-Library.Word"
begin

text \<open>
  The shared vocabulary of the development: the machine types of kernel/types.h, the
  outcome type and the sequencing combinators in which every kernel function is written,
  the loop combinators, and the generic facts on words, memories and loops that the
  component theories use.

  A kernel function of result type \<open>'a\<close> over a state \<open>'s\<close> is a value of type
  \<open>('s, 'a) K\<close>. Running it gives \<open>Done x t\<close> (it returned \<open>x\<close> in state \<open>t\<close>),
  \<open>Panic msg\<close> (it called \<open>panic(msg)\<close>, which never returns) or \<open>Swtch t\<close> (it called
  \<open>sched()\<close>: the processor has switched to the scheduler in state \<open>t\<close>, and the rest of
  the function runs when the process is next scheduled).
\<close>

unbundle bit_operations_syntax

subsection \<open>Machine types (kernel/types.h)\<close>

type_synonym uchar = "8 word"
type_synonym ushort = "16 word"
type_synonym uint = "32 word"
type_synonym uint64 = "64 word"
type_synonym byte = "8 word"
type_synonym addr = "64 word"
type_synonym memory = "addr \<Rightarrow> byte"

subsection \<open>Outcomes and sequencing\<close>

datatype ('s, 'a) outcome = Done 'a 's | Panic string | Swtch 's

type_synonym ('s, 'a) K = "'s \<Rightarrow> ('s, 'a) outcome"

definition kret :: "'a \<Rightarrow> ('s, 'a) K" where
  "kret x s = Done x s"

definition kbind :: "('s, 'a) K \<Rightarrow> ('a \<Rightarrow> ('s, 'b) K) \<Rightarrow> ('s, 'b) K" where
  "kbind m f s = (case m s of Done x t \<Rightarrow> f x t | Panic e \<Rightarrow> Panic e | Swtch t \<Rightarrow> Swtch t)"

definition kthen :: "('s, 'a) K \<Rightarrow> ('s, 'b) K \<Rightarrow> ('s, 'b) K" where
  "kthen m n = kbind m (\<lambda>_. n)"

definition kget :: "('s \<Rightarrow> 'a) \<Rightarrow> ('s, 'a) K" where
  "kget f s = Done (f s) s"

definition kmod :: "('s \<Rightarrow> 's) \<Rightarrow> ('s, unit) K" where
  "kmod f s = Done () (f s)"

definition kpanic :: "string \<Rightarrow> ('s, 'a) K" where
  "kpanic e s = Panic e"

definition kskip :: "('s, unit) K" where
  "kskip = kret ()"

definition kwhen :: "bool \<Rightarrow> ('s, unit) K \<Rightarrow> ('s, unit) K" where
  "kwhen b m = (if b then m else kskip)"

text \<open>A \<open>for\<close> loop over a list of indices, and a \<open>for\<close> loop whose body may leave it
  (\<open>return\<close> or \<open>break\<close>) with a value.\<close>

primrec kfor :: "'i list \<Rightarrow> ('i \<Rightarrow> ('s, unit) K) \<Rightarrow> ('s, unit) K" where
  "kfor [] f = kskip"
| "kfor (x # xs) f = kthen (f x) (kfor xs f)"

primrec kscan :: "'i list \<Rightarrow> ('i \<Rightarrow> ('s, 'b option) K) \<Rightarrow> ('s, 'b option) K" where
  "kscan [] f = kret None"
| "kscan (x # xs) f =
     kbind (f x) (\<lambda>r. case r of None \<Rightarrow> kscan xs f | Some v \<Rightarrow> kret (Some v))"

text \<open>\<open>kexec\<close> runs a function symbolically on a state.\<close>

named_theorems kexec

lemma kret_apply [kexec]: "kret x s = Done x s"
  by (simp add: kret_def)

lemma kbind_apply [kexec]:
  "kbind m f s = (case m s of Done x t \<Rightarrow> f x t | Panic e \<Rightarrow> Panic e | Swtch t \<Rightarrow> Swtch t)"
  by (simp add: kbind_def)

lemma kthen_apply [kexec]:
  "kthen m n s = (case m s of Done x t \<Rightarrow> n t | Panic e \<Rightarrow> Panic e | Swtch t \<Rightarrow> Swtch t)"
  by (simp add: kthen_def kbind_def)

lemma kget_apply [kexec]: "kget f s = Done (f s) s"
  by (simp add: kget_def)

lemma kmod_apply [kexec]: "kmod f s = Done () (f s)"
  by (simp add: kmod_def)

lemma kpanic_apply [kexec]: "kpanic e s = Panic e"
  by (simp add: kpanic_def)

lemma kskip_apply [kexec]: "kskip s = Done () s"
  by (simp add: kskip_def kret_def)

lemma kwhen_apply [kexec]: "kwhen b m s = (if b then m s else Done () s)"
  by (simp add: kwhen_def kskip_def kret_def)

subsection \<open>Total correctness: the function returns, and the result satisfies Q\<close>

definition runs :: "('s, 'a) K \<Rightarrow> 's \<Rightarrow> ('a \<Rightarrow> 's \<Rightarrow> bool) \<Rightarrow> bool" where
  "runs m s Q = (case m s of Done x t \<Rightarrow> Q x t | Panic _ \<Rightarrow> False | Swtch _ \<Rightarrow> False)"

named_theorems runs_rules

lemma runs_iff: "runs m s Q \<longleftrightarrow> (\<exists>x t. m s = Done x t \<and> Q x t)"
  by (auto simp: runs_def split: outcome.splits)

lemma runs_DoneD: "runs m s Q \<Longrightarrow> \<exists>x t. m s = Done x t \<and> Q x t"
  by (simp add: runs_iff)

lemma runs_kret [runs_rules]: "runs (kret x) s Q \<longleftrightarrow> Q x s"
  by (simp add: runs_def kexec)

lemma runs_Done [runs_rules]: "runs (Done x) s Q \<longleftrightarrow> Q x s"
  by (simp add: runs_def kexec)

lemma runs_kget [runs_rules]: "runs (kget f) s Q \<longleftrightarrow> Q (f s) s"
  by (simp add: runs_def kexec)

lemma runs_kmod [runs_rules]: "runs (kmod f) s Q \<longleftrightarrow> Q () (f s)"
  by (simp add: runs_def kexec)

lemma runs_kskip [runs_rules]: "runs kskip s Q \<longleftrightarrow> Q () s"
  by (simp add: runs_def kexec)

lemma runs_kpanic [runs_rules]: "runs (kpanic e) s Q \<longleftrightarrow> False"
  by (simp add: runs_def kexec)

lemma runs_kbind [runs_rules]: "runs (kbind m f) s Q \<longleftrightarrow> runs m s (\<lambda>x t. runs (f x) t Q)"
  by (simp add: runs_def kexec split: outcome.splits)

lemma runs_kthen [runs_rules]: "runs (kthen m n) s Q \<longleftrightarrow> runs m s (\<lambda>_ t. runs n t Q)"
  by (simp add: runs_def kexec split: outcome.splits)

lemma runs_kwhen [runs_rules]: "runs (kwhen b m) s Q \<longleftrightarrow> (if b then runs m s Q else Q () s)"
  by (simp add: runs_def kexec)

lemma runs_weaken: "runs m s P \<Longrightarrow> (\<And>x t. P x t \<Longrightarrow> Q x t) \<Longrightarrow> runs m s Q"
  by (auto simp: runs_iff)

lemma runs_conj: "runs m s P \<Longrightarrow> runs m s Q \<Longrightarrow> runs m s (\<lambda>x t. P x t \<and> Q x t)"
  by (auto simp: runs_iff)

text \<open>Loop rules: an invariant indexed by the number of iterations done.\<close>

lemma runs_kfor:
  assumes "\<And>i t. i < length xs \<Longrightarrow> I i t \<Longrightarrow> runs (f (xs ! i)) t (\<lambda>_ u. I (Suc i) u)"
    and "I 0 s"
  shows "runs (kfor xs f) s (\<lambda>_ t. I (length xs) t)"
  using assms
proof (induction xs arbitrary: I s)
  case Nil
  then show ?case by (simp add: runs_rules)
next
  case (Cons x xs)
  have "runs (f x) s (\<lambda>_ u. I (Suc 0) u)"
    using Cons.prems(1)[of 0 s] Cons.prems(2) by simp
  moreover have "runs (kfor xs f) u (\<lambda>_ t. I (Suc (length xs)) t)" if "I (Suc 0) u" for u
    using Cons.IH[of "\<lambda>i. I (Suc i)" u] Cons.prems(1) that by force
  ultimately show ?case
    by (auto simp: runs_rules elim: runs_weaken)
qed

lemma runs_kfor_upt:
  assumes "\<And>i t. i < n \<Longrightarrow> I i t \<Longrightarrow> runs (f i) t (\<lambda>_ u. I (Suc i) u)" and "I 0 s"
  shows "runs (kfor [0..<n] f) s (\<lambda>_ t. I n t)"
  using runs_kfor[of "[0..<n]" I f s] assms by simp

text \<open>A loop whose body always returns is the fold of its effect.\<close>

lemma kfor_fold:
  assumes "\<And>x t. x \<in> set xs \<Longrightarrow> P t \<Longrightarrow> f x t = Done () (g x t) \<and> P (g x t)"
    and "P s"
  shows "kfor xs f s = Done () (fold g xs s) \<and> P (fold g xs s)"
  using assms
proof (induction xs arbitrary: s)
  case Nil
  then show ?case by (simp add: kexec)
next
  case (Cons x xs)
  then show ?case by (simp add: kexec)
qed

lemma kscan_append:
  "kscan (xs @ ys) f =
     kbind (kscan xs f) (\<lambda>r. case r of None \<Rightarrow> kscan ys f | Some v \<Rightarrow> kret (Some v))"
proof (induction xs)
  case Nil
  then show ?case by (simp add: fun_eq_iff kexec)
next
  case (Cons x xs)
  then show ?case
    by (auto simp: fun_eq_iff kexec split: outcome.splits option.splits)
qed

text \<open>A search loop whose body does not change the state on the entries it passes over:
  the first index at which the body returns a value decides.\<close>

lemma kscan_none:
  assumes "\<And>x. x \<in> set xs \<Longrightarrow> f x s = Done None s"
  shows "kscan xs f s = Done None s"
  using assms by (induction xs) (auto simp: kexec)

lemma kscan_first:
  assumes "i < n" and "\<And>j. j < i \<Longrightarrow> f j s = Done None s" and "f i s = Done (Some v) t"
  shows "kscan [0..<n] f s = Done (Some v) t"
proof -
  have "[0..<n] = [0..<i] @ i # [Suc i..<n]"
    using assms(1) by (metis less_imp_le_nat upt_add_eq_append upt_conv_Cons le_add_diff_inverse zero_le)
  moreover have "kscan [0..<i] f s = Done None s"
    by (rule kscan_none) (use assms(2) in auto)
  ultimately show ?thesis
    using assms(3) by (simp add: kscan_append kexec)
qed

text \<open>A loop with an early exit: \<open>I i\<close> holds before iteration \<open>i\<close>, \<open>Q i v\<close> when iteration \<open>i\<close>
  leaves with \<open>v\<close>.\<close>

lemma kscan_inv:
  assumes "\<And>i t. i < length xs \<Longrightarrow> I i t \<Longrightarrow>
      (\<exists>u. f (xs ! i) t = Done None u \<and> I (Suc i) u) \<or> (\<exists>v u. f (xs ! i) t = Done (Some v) u \<and> Q i v u)"
    and "I 0 s"
  shows "(\<exists>t. kscan xs f s = Done None t \<and> I (length xs) t)
    \<or> (\<exists>i v t. i < length xs \<and> kscan xs f s = Done (Some v) t \<and> Q i v t)"
  using assms
proof (induction xs arbitrary: I Q s)
  case Nil
  then show ?case by (simp add: kexec)
next
  case (Cons x xs)
  from Cons.prems(1)[of 0 s] Cons.prems(2) consider
      u where "f x s = Done None u" "I (Suc 0) u" | v u where "f x s = Done (Some v) u" "Q 0 v u"
    by auto
  then show ?case
  proof cases
    case (1 u)
    have e: "kscan (x # xs) f s = kscan xs f u" using 1(1) by (simp add: kexec)
    have "(\<exists>t. kscan xs f u = Done None t \<and> I (Suc (length xs)) t)
        \<or> (\<exists>i v t. i < length xs \<and> kscan xs f u = Done (Some v) t \<and> Q (Suc i) v t)"
    proof (rule Cons.IH[of "\<lambda>i. I (Suc i)" "\<lambda>i. Q (Suc i)" u])
      fix i t assume "i < length xs" "I (Suc i) t"
      then show "(\<exists>u. f (xs ! i) t = Done None u \<and> I (Suc (Suc i)) u)
          \<or> (\<exists>v u. f (xs ! i) t = Done (Some v) u \<and> Q (Suc i) v u)"
        using Cons.prems(1)[of "Suc i" t] by simp
    qed (rule 1(2))
    then show ?thesis unfolding e by (metis Suc_mono length_Cons)
  next
    case (2 v u)
    then have "kscan (x # xs) f s = Done (Some v) u" by (simp add: kexec)
    then show ?thesis using 2(2) by (metis length_greater_0_conv list.distinct(1))
  qed
qed

lemma kscan_inv_upt:
  assumes "\<And>i t. i < n \<Longrightarrow> I i t \<Longrightarrow>
      (\<exists>u. f i t = Done None u \<and> I (Suc i) u) \<or> (\<exists>v u. f i t = Done (Some v) u \<and> Q i v u)"
    and "I 0 s"
  shows "(\<exists>t. kscan [0..<n] f s = Done None t \<and> I n t)
    \<or> (\<exists>i v t. i < n \<and> kscan [0..<n] f s = Done (Some v) t \<and> Q i v t)"
  using kscan_inv[of "[0..<n]" I f Q s] assms by simp

subsection \<open>Arrays updated entry by entry\<close>

lemma fold_fun_upd_upt:
  "fold (\<lambda>i g. g(i := h i (g i))) [0..<n] f = (\<lambda>i. if i < n then h i (f i) else f i)"
  by (induction n) (auto simp: fun_eq_iff)

subsection \<open>Invariants of transition systems\<close>

text \<open>The contract of a state machine with an inductive invariant; the clients are the
  concurrent lock protocol, the process table and the log.\<close>

locale invariant_system =
  fixes init :: "'s \<Rightarrow> bool" and step :: "'s \<Rightarrow> 's \<Rightarrow> bool" and inv :: "'s \<Rightarrow> bool"
  assumes inv_init: "init s \<Longrightarrow> inv s"
    and inv_step: "inv s \<Longrightarrow> step s t \<Longrightarrow> inv t"
begin

lemma steps_inv: "step\<^sup>*\<^sup>* s t \<Longrightarrow> inv s \<Longrightarrow> inv t"
  by (induction rule: rtranclp_induct) (auto intro: inv_step)

lemma reachable_inv: "init s \<Longrightarrow> step\<^sup>*\<^sup>* s t \<Longrightarrow> inv t"
  using inv_init steps_inv by blast

end

end
