(* ===== verification/Riscv.thy ===== *)
theory Riscv
  imports Kernel_Prelude
begin

text \<open>
  The constants and address macros of kernel/riscv.h, kernel/memlayout.h and
  kernel/param.h, and their arithmetic: page rounding, the layout of page-table entries
  (Sv39), and the split of a virtual address into three nine-bit indices.
\<close>

unbundle bit_operations_syntax

subsection \<open>kernel/param.h\<close>

definition NPROC :: nat where "NPROC = 64"
definition NCPU :: nat where "NCPU = 8"
definition NOFILE :: nat where "NOFILE = 16"
definition NFILE :: nat where "NFILE = 100"
definition NINODE :: nat where "NINODE = 50"
definition NDEV :: nat where "NDEV = 10"
definition ROOTDEV :: uint where "ROOTDEV = 1"
definition MAXARG :: nat where "MAXARG = 32"
definition MAXOPBLOCKS :: nat where "MAXOPBLOCKS = 10"
definition LOGSIZE :: nat where "LOGSIZE = MAXOPBLOCKS * 3"
definition NBUF :: nat where "NBUF = MAXOPBLOCKS * 3"
definition FSSIZE :: nat where "FSSIZE = 2000"
definition MAXPATH :: nat where "MAXPATH = 128"

subsection \<open>Pages (kernel/riscv.h)\<close>

definition PGSIZE :: uint64 where "PGSIZE = 4096"

definition PGROUNDUP :: "uint64 \<Rightarrow> uint64" where
  "PGROUNDUP sz = (sz + PGSIZE - 1) AND NOT (PGSIZE - 1)"

definition PGROUNDDOWN :: "uint64 \<Rightarrow> uint64" where
  "PGROUNDDOWN a = a AND NOT (PGSIZE - 1)"

definition PTE_V :: uint64 where "PTE_V = push_bit 0 1"
definition PTE_R :: uint64 where "PTE_R = push_bit 1 1"
definition PTE_W :: uint64 where "PTE_W = push_bit 2 1"
definition PTE_X :: uint64 where "PTE_X = push_bit 3 1"
definition PTE_U :: uint64 where "PTE_U = push_bit 4 1"

definition PA2PTE :: "uint64 \<Rightarrow> uint64" where
  "PA2PTE pa = push_bit 10 (drop_bit 12 pa)"

definition PTE2PA :: "uint64 \<Rightarrow> uint64" where
  "PTE2PA pte = push_bit 12 (drop_bit 10 pte)"

definition PTE_FLAGS :: "uint64 \<Rightarrow> uint64" where
  "PTE_FLAGS pte = pte AND 0x3FF"

definition PXSHIFT :: "nat \<Rightarrow> nat" where
  "PXSHIFT level = 12 + 9 * level"

definition PX :: "nat \<Rightarrow> uint64 \<Rightarrow> uint64" where
  "PX level va = drop_bit (PXSHIFT level) va AND 0x1FF"

definition MAXVA :: uint64 where "MAXVA = push_bit (9 + 9 + 9 + 12 - 1) 1"

definition MAKE_SATP :: "uint64 \<Rightarrow> uint64" where
  "MAKE_SATP pagetable = push_bit 60 8 OR drop_bit 12 pagetable"

definition SSTATUS_SPP :: uint64 where "SSTATUS_SPP = push_bit 8 1"
definition SSTATUS_SPIE :: uint64 where "SSTATUS_SPIE = push_bit 5 1"
definition SSTATUS_SIE :: uint64 where "SSTATUS_SIE = push_bit 1 1"

subsection \<open>Memory layout (kernel/memlayout.h)\<close>

definition UART0 :: uint64 where "UART0 = 0x10000000"
definition UART0_IRQ :: uint where "UART0_IRQ = 10"
definition VIRTIO0 :: uint64 where "VIRTIO0 = 0x10001000"
definition VIRTIO0_IRQ :: uint where "VIRTIO0_IRQ = 1"
definition PLIC :: uint64 where "PLIC = 0x0c000000"
definition KERNBASE :: uint64 where "KERNBASE = 0x80000000"
definition PHYSTOP :: uint64 where "PHYSTOP = KERNBASE + 128 * 1024 * 1024"
definition TRAMPOLINE :: uint64 where "TRAMPOLINE = MAXVA - PGSIZE"

definition KSTACK :: "nat \<Rightarrow> uint64" where
  "KSTACK p = TRAMPOLINE - (of_nat p + 1) * 2 * PGSIZE"

definition TRAPFRAME :: uint64 where "TRAPFRAME = TRAMPOLINE - PGSIZE"

subsection \<open>Page rounding\<close>

lemma PGSIZE_mask: "PGSIZE - 1 = mask 12"
  by (simp add: PGSIZE_def mask_eq_exp_minus_1)

lemma MAXVA_eq: "MAXVA = 0x4000000000"
  by (simp add: MAXVA_def push_bit_eq_mult)

lemma TRAMPOLINE_eq: "TRAMPOLINE = 0x3FFFFFF000"
  by (simp add: TRAMPOLINE_def MAXVA_eq PGSIZE_def)

lemma TRAPFRAME_eq: "TRAPFRAME = 0x3FFFFFE000"
  by (simp add: TRAPFRAME_def TRAMPOLINE_eq PGSIZE_def)

lemma PHYSTOP_eq: "PHYSTOP = 0x88000000"
  by (simp add: PHYSTOP_def KERNBASE_def)

lemma PTE_bits [simp]:
  "PTE_V = 1" "PTE_R = 2" "PTE_W = 4" "PTE_X = 8" "PTE_U = 16"
  by (simp_all add: PTE_V_def PTE_R_def PTE_W_def PTE_X_def PTE_U_def push_bit_eq_mult)

lemma and_not_mask_eq: "(a :: 'a::len word) AND NOT (mask n) = push_bit n (drop_bit n a)"
  by (rule bit_word_eqI) (auto simp: bit_simps)

lemma unat_lt64: "unat (a :: uint64) < 2 ^ 64"
  by (rule order.strict_trans2[OF unsigned_less]) simp

lemma unat_mod_4096: "unat (a mod 4096) = unat (a :: addr) mod 4096"
  by (simp add: unat_mod)

lemma unat_PGROUNDDOWN: "unat (PGROUNDDOWN a) = unat a div 4096 * 4096"
proof -
  have "unat a div 4096 * 4096 < 2 ^ 64"
    using unsigned_less[of a, where ?'a = nat] by simp
  then show ?thesis
    by (simp add: PGROUNDDOWN_def PGSIZE_mask and_not_mask_eq push_bit_eq_mult drop_bit_eq_div
        unat_word_ariths unat_div mult.commute)
qed

lemma PGROUNDDOWN_le: "PGROUNDDOWN a \<le> a"
  by (simp add: word_le_nat_alt unat_PGROUNDDOWN)

lemma PGROUNDDOWN_aligned [simp]: "PGROUNDDOWN a mod 4096 = 0"
proof -
  have "unat (PGROUNDDOWN a mod 4096) = 0"
    by (simp add: unat_mod_4096 unat_PGROUNDDOWN)
  then show ?thesis by (simp add: unat_eq_zero)
qed

lemma PGROUNDDOWN_id: "a mod 4096 = 0 \<Longrightarrow> PGROUNDDOWN a = a"
proof -
  assume "a mod 4096 = 0"
  then have "unat a mod 4096 = 0"
    using unat_mod_4096[of a] by simp
  then have "unat (PGROUNDDOWN a) = unat a"
    by (auto simp: unat_PGROUNDDOWN)
  then show ?thesis by (simp add: word_unat_eq_iff)
qed

lemma PGROUNDDOWN_offset: "unat (a - PGROUNDDOWN a) = unat a mod 4096"
  using PGROUNDDOWN_le[of a]
  by (simp add: unat_sub unat_PGROUNDDOWN minus_div_mult_eq_mod)

lemma aligned_unat: "(a :: addr) mod 4096 = 0 \<longleftrightarrow> unat a mod 4096 = 0"
  by (metis unat_mod_4096 unat_eq_zero)

lemma unat_page_add:
  assumes "(p :: addr) mod 4096 = 0" and "unat x < 4096"
  shows "unat (p + x) = unat p + unat x"
proof -
  obtain k where k: "unat p = 4096 * k"
    using assms(1) by (auto simp: aligned_unat)
  have "unat p < 2 ^ 64" using unsigned_less[of p, where ?'a = nat] by simp
  then have "unat p + unat x < 2 ^ 64" using k assms(2) by auto
  then show ?thesis by (simp add: unat_word_ariths)
qed

lemma PGROUNDDOWN_add:
  assumes "p mod 4096 = 0" and "unat x < 4096"
  shows "PGROUNDDOWN (p + x) = p"
proof -
  obtain k where k: "unat p = 4096 * k"
    using assms(1) by (auto simp: aligned_unat)
  have "unat (PGROUNDDOWN (p + x)) = unat p"
    using assms(2) by (simp add: unat_PGROUNDDOWN unat_page_add[OF assms] k)
  then show ?thesis by (simp add: word_unat_eq_iff)
qed

lemma unat_PGROUNDUP:
  assumes "unat sz + 4095 < 2 ^ 64"
  shows "unat (PGROUNDUP sz) = (unat sz + 4095) div 4096 * 4096"
proof -
  have "PGROUNDUP sz = PGROUNDDOWN (sz + 4095)"
    by (simp add: PGROUNDUP_def PGROUNDDOWN_def PGSIZE_def add.commute)
  moreover have "unat (sz + 4095) = unat sz + 4095"
    using assms by (simp add: unat_word_ariths)
  ultimately show ?thesis by (simp add: unat_PGROUNDDOWN)
qed

lemma PGROUNDUP_aligned [simp]: "PGROUNDUP sz mod 4096 = 0"
proof -
  have "PGROUNDUP sz = PGROUNDDOWN (sz + 4095)"
    by (simp add: PGROUNDUP_def PGROUNDDOWN_def PGSIZE_def add.commute)
  then show ?thesis by simp
qed

subsection \<open>Page-table entries\<close>

lemma PTE2PA_aligned [simp]: "PTE2PA pte mod 4096 = 0"
proof -
  have "take_bit 12 (PTE2PA pte) = 0"
    by (rule bit_word_eqI) (auto simp: PTE2PA_def bit_simps)
  then show ?thesis by (simp add: take_bit_eq_mod)
qed

lemma small_word_bit: "(x :: uint64) < 2 ^ n \<Longrightarrow> n \<le> k \<Longrightarrow> \<not> bit x k"
proof -
  assume "x < 2 ^ n" "n \<le> k"
  show "\<not> bit x k"
  proof (cases "k < 64")
    case True
    then have "take_bit n x = x"
      using \<open>x < 2 ^ n\<close> \<open>n \<le> k\<close> by (simp add: take_bit_eq_mask less_mask_eq)
    then show ?thesis
      using \<open>n \<le> k\<close> by (metis bit_take_bit_iff leD)
  next
    case False
    then show ?thesis by (simp add: bit_word.rep_eq bit_take_bit_iff)
  qed
qed

lemma aligned_low_bits: "(p :: addr) mod 4096 = 0 \<Longrightarrow> k < 12 \<Longrightarrow> \<not> bit p k"
proof -
  assume "p mod 4096 = 0" and "k < 12"
  then have "take_bit 12 p = 0" by (simp add: take_bit_eq_mod)
  then have "\<not> bit (take_bit 12 p) k" by simp
  then show ?thesis using \<open>k < 12\<close> by (simp add: bit_simps)
qed

text \<open>A physical page address below $2^{56}$ survives the round trip through an entry,
  whatever the flags.\<close>

lemma PTE2PA_PA2PTE:
  assumes "pa mod 4096 = 0" and "pa < 2 ^ 56" and "flags < 2 ^ 10"
  shows "PTE2PA (PA2PTE pa OR flags) = pa"
proof (rule bit_word_eqI)
  fix n assume "n < LENGTH(64)"
  show "bit (PTE2PA (PA2PTE pa OR flags)) n = bit pa n"
  proof (cases "n < 12")
    case True
    then show ?thesis
      using aligned_low_bits[OF assms(1)] by (simp add: PTE2PA_def bit_simps)
  next
    case False
    moreover have "\<not> bit flags (10 + (n - 12))"
      using small_word_bit[OF assms(3)] by simp
    moreover have "\<not> bit pa n" if "\<not> n < 62"
      using small_word_bit[OF assms(2), of n] that by simp
    ultimately show ?thesis
      using \<open>n < LENGTH(64)\<close> by (auto simp: PTE2PA_def PA2PTE_def bit_simps)
  qed
qed

lemma PTE_FLAGS_PA2PTE:
  assumes "flags < 2 ^ 10"
  shows "PTE_FLAGS (PA2PTE pa OR flags) = flags"
proof -
  have m: "PTE_FLAGS pte = pte AND mask 10" for pte
    by (simp add: PTE_FLAGS_def mask_eq_exp_minus_1)
  show ?thesis
    unfolding m using small_word_bit[OF assms]
    by (auto intro!: bit_word_eqI simp: PA2PTE_def bit_simps) (meson not_le_imp_less)
qed

subsection \<open>Virtual addresses\<close>

lemma PX_less: "unat (PX l va) < 512"
proof -
  have "PX l va \<le> 0x1FF" by (simp add: PX_def word_and_le1)
  then have "unat (PX l va) \<le> unat (0x1FF :: uint64)" by (simp add: word_le_nat_alt)
  then show ?thesis by simp
qed

lemma PX_mask: "PX l va = drop_bit (PXSHIFT l) va AND mask 9"
  by (simp add: PX_def mask_eq_exp_minus_1)

lemma bit_PX: "bit (PX l va) n \<longleftrightarrow> n < 9 \<and> bit va (12 + 9 * l + n)"
  by (auto simp: PX_mask PXSHIFT_def bit_simps)

text \<open>Below MAXVA the three indices determine the page.\<close>

lemma PX_inject:
  assumes "va < MAXVA" and "vb < MAXVA"
    and "PX 2 va = PX 2 vb" and "PX 1 va = PX 1 vb" and "PX 0 va = PX 0 vb"
  shows "PGROUNDDOWN va = PGROUNDDOWN vb"
proof (rule bit_word_eqI)
  fix n assume n: "n < LENGTH(64)"
  have small: "va < 2 ^ 38" "vb < 2 ^ 38" using assms(1,2) by (simp_all add: MAXVA_eq)
  have b: "bit va (12 + 9 * l + k) \<longleftrightarrow> bit vb (12 + 9 * l + k)" if "l < 3" "k < 9" for l k
  proof -
    have "PX l va = PX l vb" using assms(3-5) \<open>l < 3\<close>
      by (auto simp: numeral_3_eq_3 less_Suc_eq numeral_2_eq_2)
    then show ?thesis using bit_PX[of l va k] bit_PX[of l vb k] \<open>k < 9\<close> by simp
  qed
  have "bit va n \<longleftrightarrow> bit vb n" if "12 \<le> n"
  proof (cases "n < 39")
    case True
    define l where "l = (n - 12) div 9"
    define k where "k = (n - 12) mod 9"
    have "n = 12 + 9 * l + k" using that by (simp add: l_def k_def)
    moreover have "l < 3" using True by (simp add: l_def)
    moreover have "k < 9" by (simp add: k_def)
    ultimately show ?thesis using b by blast
  next
    case False
    then show ?thesis using small_word_bit[OF small(1), of n] small_word_bit[OF small(2), of n] by simp
  qed
  then show "bit (PGROUNDDOWN va) n = bit (PGROUNDDOWN vb) n"
    by (auto simp: PGROUNDDOWN_def PGSIZE_mask bit_simps n)
qed

lemma PX_PGROUNDDOWN: "PX l (PGROUNDDOWN va) = PX l va"
  by (rule bit_word_eqI) (auto simp: bit_PX PGROUNDDOWN_def PGSIZE_mask bit_simps dest: bit_imp_le_length)

end
