(* ===== verification/Kstate.thy ===== *)
theory Kstate
  imports Riscv
begin

text \<open>
  The data of kernel/proc.h and the part of the kernel state that every component shares:
  the process table, the clock, the statistics counters, the console output and the spin
  locks held by this hart. Later theories extend the record (\<open>kst_scheme\<close>) with memory, the
  buffer cache, the log and the file system; a function on \<open>'a kst_scheme\<close> cannot touch them.

  One hart runs a kernel function from its start to its return, its panic or its switch to
  the scheduler. \<open>held\<close> is the set of spin locks the hart holds (\<open>noff\<close> is its size), and
  \<open>intr\<close> is the interrupt-enable bit as it is outside every \<open>push_off\<close> section. Theory
  Spinlock relates this view to struct spinlock, struct cpu and the concurrent execution of
  several harts.
\<close>

subsection \<open>Locks and sleep channels\<close>

datatype sleeplockid = BUF_SLEEP nat | INODE_SLEEP nat

datatype lockid =
    PID_LOCK | WAIT_LOCK | STATS_LOCK | HEAT_STATS_LOCK | TICKS_LOCK | KMEM_LOCK
  | PROC_LOCK nat | BCACHE_LOCK | LOG_LOCK | ITABLE_LOCK | FTABLE_LOCK | CONS_LOCK
  | UART_TX_LOCK | PR_LOCK | PIPE_LOCK addr | VDISK_LOCK | SLEEP_LK sleeplockid

datatype chan =
    ChTicks | ChProc nat | ChLog | ChNread addr | ChNwrite addr | ChSleep sleeplockid
  | ChConsR | ChUartR | ChBuf nat | ChDiskFree

subsection \<open>struct context, struct trapframe, struct proc (kernel/proc.h)\<close>

record kcontext =
  c_ra :: uint64
  c_sp :: uint64
  c_s0 :: uint64
  c_s1 :: uint64
  c_s2 :: uint64
  c_s3 :: uint64
  c_s4 :: uint64
  c_s5 :: uint64
  c_s6 :: uint64
  c_s7 :: uint64
  c_s8 :: uint64
  c_s9 :: uint64
  c_s10 :: uint64
  c_s11 :: uint64

record trapframe =
  tf_kernel_satp :: uint64
  tf_kernel_sp :: uint64
  tf_kernel_trap :: uint64
  tf_epc :: uint64
  tf_kernel_hartid :: uint64
  tf_ra :: uint64
  tf_sp :: uint64
  tf_gp :: uint64
  tf_tp :: uint64
  tf_t0 :: uint64
  tf_t1 :: uint64
  tf_t2 :: uint64
  tf_s0 :: uint64
  tf_s1 :: uint64
  tf_a0 :: uint64
  tf_a1 :: uint64
  tf_a2 :: uint64
  tf_a3 :: uint64
  tf_a4 :: uint64
  tf_a5 :: uint64
  tf_a6 :: uint64
  tf_a7 :: uint64
  tf_s2 :: uint64
  tf_s3 :: uint64
  tf_s4 :: uint64
  tf_s5 :: uint64
  tf_s6 :: uint64
  tf_s7 :: uint64
  tf_s8 :: uint64
  tf_s9 :: uint64
  tf_s10 :: uint64
  tf_s11 :: uint64
  tf_t3 :: uint64
  tf_t4 :: uint64
  tf_t5 :: uint64
  tf_t6 :: uint64

datatype procstate = UNUSED | USED | SLEEPING | RUNNABLE | RUNNING | ZOMBIE

text \<open>\<open>p_chan\<close> is \<open>None\<close> for a null channel, \<open>p_parent\<close>, \<open>p_ofile\<close> and \<open>p_cwd\<close> are indices
  into the process table, the file table and the inode table (\<open>None\<close> for a null pointer).
  \<open>p_trapframe\<close> is the address of the page that holds the trapframe, \<open>p_tf\<close> its content.\<close>

record proc =
  p_state :: procstate
  p_chan :: "chan option"
  p_killed :: bool
  p_xstate :: uint
  p_pid :: uint
  p_parent :: "nat option"
  p_kstack :: uint64
  p_sz :: uint64
  p_pagetable :: addr
  p_trapframe :: addr
  p_tf :: trapframe
  p_context :: kcontext
  p_ofile :: "nat \<Rightarrow> nat option"
  p_cwd :: "nat option"
  p_name :: string
  p_cpu_heat :: uint64
  p_total_ticks :: uint64
  p_last_scheduled :: uint64
  p_times_skipped :: uint64
  p_heat_level :: uint64

text \<open>The order of \<open>enum procstate\<close>, on which \<open>procdump\<close> indexes its table of names.\<close>

fun procstate_code :: "procstate \<Rightarrow> nat" where
  "procstate_code UNUSED = 0"
| "procstate_code USED = 1"
| "procstate_code SLEEPING = 2"
| "procstate_code RUNNABLE = 3"
| "procstate_code RUNNING = 4"
| "procstate_code ZOMBIE = 5"

lemma procstate_code_inject: "procstate_code a = procstate_code b \<longleftrightarrow> a = b"
  by (cases a; cases b) auto

instantiation procstate :: linorder
begin

definition less_eq_procstate :: "procstate \<Rightarrow> procstate \<Rightarrow> bool" where
  "less_eq_procstate a b \<longleftrightarrow> procstate_code a \<le> procstate_code b"

definition less_procstate :: "procstate \<Rightarrow> procstate \<Rightarrow> bool" where
  "less_procstate a b \<longleftrightarrow> procstate_code a < procstate_code b"

instance
  by standard (auto simp: less_eq_procstate_def less_procstate_def procstate_code_inject)

end

subsection \<open>The shared kernel state\<close>

record kst =
  held :: "lockid set"
  intr :: bool
  hartid :: nat
  cur :: "nat option"
  procs :: "nat \<Rightarrow> proc"
  nextpid :: uint
  initproc :: "nat option"
  ticks :: uint64
  g_total_ticks :: uint64
  g_cpu_active_ticks :: uint64
  g_interrupt_count :: uint64
  g_last_keypress_tick :: uint64
  total_heat_skips :: uint64
  total_schedules :: uint64
  total_heat_penalty_ticks :: uint64
  log_counter :: uint64
  pr_locking :: bool
  conout :: string

subsection \<open>Taking and dropping spin locks on this hart\<close>

definition acquire :: "lockid \<Rightarrow> ('a kst_scheme, unit) K" where
  "acquire l s = (if l \<in> held s then Panic ''acquire'' else Done () (s\<lparr>held := insert l (held s)\<rparr>))"

definition release :: "lockid \<Rightarrow> ('a kst_scheme, unit) K" where
  "release l s = (if l \<notin> held s then Panic ''release'' else Done () (s\<lparr>held := held s - {l}\<rparr>))"

definition holding :: "lockid \<Rightarrow> 'a kst_scheme \<Rightarrow> bool" where
  "holding l s \<longleftrightarrow> l \<in> held s"

definition intr_get :: "'a kst_scheme \<Rightarrow> bool" where
  "intr_get s \<longleftrightarrow> intr s \<and> held s = {}"

definition setproc :: "nat \<Rightarrow> (proc \<Rightarrow> proc) \<Rightarrow> ('a kst_scheme, unit) K" where
  "setproc i f = kmod (\<lambda>s. s\<lparr>procs := (procs s)(i := f (procs s i))\<rparr>)"

text \<open>\<open>myproc()\<close> followed by a dereference: with no current process the null pointer faults
  in the kernel, which \<open>kerneltrap\<close> turns into a panic.\<close>

definition curproc :: "('a kst_scheme, nat) K" where
  "curproc s = (case cur s of None \<Rightarrow> Panic ''kerneltrap'' | Some p \<Rightarrow> Done p s)"

lemma acquire_free [kexec]:
  "l \<notin> held s \<Longrightarrow> acquire l s = Done () (s\<lparr>held := insert l (held s)\<rparr>)"
  by (simp add: acquire_def)

lemma release_held [kexec]:
  "l \<in> held s \<Longrightarrow> release l s = Done () (s\<lparr>held := held s - {l}\<rparr>)"
  by (simp add: release_def)

lemma acquire_held: "l \<in> held s \<Longrightarrow> acquire l s = Panic ''acquire''"
  by (simp add: acquire_def)

lemma setproc_apply [kexec]:
  "setproc i f s = Done () (s\<lparr>procs := (procs s)(i := f (procs s i))\<rparr>)"
  by (simp add: setproc_def kexec)

lemma curproc_Some [kexec]: "cur s = Some p \<Longrightarrow> curproc s = Done p s"
  by (simp add: curproc_def)

lemma runs_acquire [runs_rules]:
  "runs (acquire l) s Q \<longleftrightarrow> l \<notin> held s \<and> Q () (s\<lparr>held := insert l (held s)\<rparr>)"
  by (auto simp: runs_def acquire_def)

lemma runs_release [runs_rules]:
  "runs (release l) s Q \<longleftrightarrow> l \<in> held s \<and> Q () (s\<lparr>held := held s - {l}\<rparr>)"
  by (auto simp: runs_def release_def)

lemma runs_setproc [runs_rules]:
  "runs (setproc i f) s Q \<longleftrightarrow> Q () (s\<lparr>procs := (procs s)(i := f (procs s i))\<rparr>)"
  by (simp add: runs_def kexec)

lemma runs_curproc [runs_rules]: "runs curproc s Q \<longleftrightarrow> (\<exists>p. cur s = Some p \<and> Q p s)"
  by (auto simp: runs_def curproc_def split: option.splits)

lemma held_collapse [simp]: "l \<notin> H \<Longrightarrow> insert l H - {l} = H"
  by auto

text \<open>A body that runs under one lock leaves the set of held locks as it was.\<close>

definition with_lock :: "lockid \<Rightarrow> ('a kst_scheme, 'b) K \<Rightarrow> ('a kst_scheme, 'b) K" where
  "with_lock l m = kthen (acquire l) (kbind m (\<lambda>x. kthen (release l) (kret x)))"

lemma with_lock_kget [kexec]:
  "l \<notin> held s \<Longrightarrow> (\<And>H. f (s\<lparr>held := H\<rparr>) = f s) \<Longrightarrow> with_lock l (kget f) s = Done (f s) s"
  by (simp add: with_lock_def kexec)

lemma with_lock_kmod [kexec]:
  "l \<notin> held s \<Longrightarrow> (\<And>H. f (s\<lparr>held := H\<rparr>) = (f s)\<lparr>held := H\<rparr>) \<Longrightarrow> held (f s) = held s \<Longrightarrow>
   with_lock l (kmod f) s = Done () (f s)"
  by (simp add: with_lock_def kexec)

lemma with_lock_held: "l \<in> held s \<Longrightarrow> with_lock l m s = Panic ''acquire''"
  by (simp add: with_lock_def kexec acquire_held)

lemma with_lock_setproc [kexec]:
  "l \<notin> held s \<Longrightarrow>
   with_lock l (setproc i f) s = Done () (s\<lparr>procs := (procs s)(i := f (procs s i))\<rparr>)"
  by (simp add: with_lock_def kexec)

subsection \<open>The state at boot\<close>

text \<open>The kernel's static data is zero when \<open>main()\<close> starts, except \<open>nextpid\<close>.\<close>

definition zero_context :: kcontext where
  "zero_context = \<lparr>c_ra = 0, c_sp = 0, c_s0 = 0, c_s1 = 0, c_s2 = 0, c_s3 = 0, c_s4 = 0, c_s5 = 0,
     c_s6 = 0, c_s7 = 0, c_s8 = 0, c_s9 = 0, c_s10 = 0, c_s11 = 0\<rparr>"

text \<open>A trapframe page whose every 64-bit word is \<open>v\<close>.\<close>

definition const_trapframe :: "uint64 \<Rightarrow> trapframe" where
  "const_trapframe v = \<lparr>tf_kernel_satp = v, tf_kernel_sp = v, tf_kernel_trap = v, tf_epc = v,
     tf_kernel_hartid = v, tf_ra = v, tf_sp = v, tf_gp = v, tf_tp = v, tf_t0 = v, tf_t1 = v, tf_t2 = v,
     tf_s0 = v, tf_s1 = v, tf_a0 = v, tf_a1 = v, tf_a2 = v, tf_a3 = v, tf_a4 = v, tf_a5 = v, tf_a6 = v,
     tf_a7 = v, tf_s2 = v, tf_s3 = v, tf_s4 = v, tf_s5 = v, tf_s6 = v, tf_s7 = v, tf_s8 = v, tf_s9 = v,
     tf_s10 = v, tf_s11 = v, tf_t3 = v, tf_t4 = v, tf_t5 = v, tf_t6 = v\<rparr>"

definition zero_proc :: proc where
  "zero_proc = \<lparr>p_state = UNUSED, p_chan = None, p_killed = False, p_xstate = 0, p_pid = 0,
     p_parent = None, p_kstack = 0, p_sz = 0, p_pagetable = 0, p_trapframe = 0,
     p_tf = const_trapframe 0, p_context = zero_context, p_ofile = (\<lambda>_. None), p_cwd = None,
     p_name = [], p_cpu_heat = 0, p_total_ticks = 0, p_last_scheduled = 0, p_times_skipped = 0,
     p_heat_level = 0\<rparr>"

definition boot_kst :: kst where
  "boot_kst = \<lparr>held = {}, intr = False, hartid = 0, cur = None, procs = (\<lambda>_. zero_proc), nextpid = 1,
     initproc = None, ticks = 0, g_total_ticks = 0, g_cpu_active_ticks = 0, g_interrupt_count = 0,
     g_last_keypress_tick = 0, total_heat_skips = 0, total_schedules = 0,
     total_heat_penalty_ticks = 0, log_counter = 0, pr_locking = False, conout = []\<rparr>"

end
