(* ===== verification/Spinlock.thy ===== *)
theory Spinlock
  imports Kstate
begin

text \<open>
  kernel/spinlock.c and the interrupt primitives of kernel/riscv.h, executed by several
  harts. \<open>smp_step\<close> interleaves the atomic actions of \<open>acquire\<close> and \<open>release\<close>: the hart's
  \<open>lpc\<close> says how far it is inside one of them, and the ghost field \<open>crit\<close> records the
  critical sections it is in (from the return of \<open>acquire(l)\<close> to its call of \<open>release(l)\<close>).
  The theorems are mutual exclusion with interrupts off, the nesting law of
  \<open>push_off\<close>/\<open>pop_off\<close>, and the simulation of the held-lock view of theory Kstate.
\<close>

unbundle bit_operations_syntax

subsection \<open>struct cpu, struct spinlock, interrupt enable\<close>

record cpu =
  cpu_sstatus :: uint64
  noff :: int
  intena :: bool

record spinlock =
  locked :: uint
  lk_name :: string
  lk_cpu :: "nat option"

definition intr_on :: "cpu \<Rightarrow> cpu" where
  "intr_on c = c\<lparr>cpu_sstatus := cpu_sstatus c OR SSTATUS_SIE\<rparr>"

definition intr_off :: "cpu \<Rightarrow> cpu" where
  "intr_off c = c\<lparr>cpu_sstatus := cpu_sstatus c AND NOT SSTATUS_SIE\<rparr>"

definition sie_get :: "cpu \<Rightarrow> bool" where
  "sie_get c \<longleftrightarrow> cpu_sstatus c AND SSTATUS_SIE \<noteq> 0"

definition initlock :: "string \<Rightarrow> spinlock" where
  "initlock name = \<lparr>locked = 0, lk_name = name, lk_cpu = None\<rparr>"

definition holding_c :: "nat \<Rightarrow> spinlock \<Rightarrow> bool" where
  "holding_c h lk \<longleftrightarrow> locked lk \<noteq> 0 \<and> lk_cpu lk = Some h"

definition push_off :: "cpu \<Rightarrow> cpu" where
  "push_off c =
     (let old = sie_get c;
          c1 = intr_off c;
          c2 = (if noff c1 = 0 then c1\<lparr>intena := old\<rparr> else c1)
      in c2\<lparr>noff := noff c2 + 1\<rparr>)"

definition pop_off :: "cpu \<Rightarrow> string + cpu" where
  "pop_off c =
     (if sie_get c then Inl ''pop_off - interruptible''
      else if noff c < 1 then Inl ''pop_off''
      else let c1 = c\<lparr>noff := noff c - 1\<rparr>
           in Inr (if noff c1 = 0 \<and> intena c1 then intr_on c1 else c1))"

subsection \<open>The protocol of acquire() and release()\<close>

datatype lpc = Outside | Spinning lockid | Taken lockid | Dropping lockid | Popping

record smp =
  cpus :: "nat \<Rightarrow> cpu"
  locks :: "lockid \<Rightarrow> spinlock"
  lpcs :: "nat \<Rightarrow> lpc"
  crit :: "nat \<Rightarrow> lockid set"

definition acquire_enter :: "nat \<Rightarrow> lockid \<Rightarrow> smp \<Rightarrow> string + smp" where
  "acquire_enter h l s =
     (let s1 = s\<lparr>cpus := (cpus s)(h := push_off (cpus s h))\<rparr>
      in if holding_c h (locks s1 l) then Inl ''acquire''
         else Inr (s1\<lparr>lpcs := (lpcs s1)(h := Spinning l)\<rparr>))"

definition acquire_swap :: "nat \<Rightarrow> lockid \<Rightarrow> smp \<Rightarrow> smp" where
  "acquire_swap h l s =
     (let old = locked (locks s l);
          s1 = s\<lparr>locks := (locks s)(l := (locks s l)\<lparr>locked := 1\<rparr>)\<rparr>
      in if old \<noteq> 0 then s1 else s1\<lparr>lpcs := (lpcs s1)(h := Taken l)\<rparr>)"

definition acquire_record :: "nat \<Rightarrow> lockid \<Rightarrow> smp \<Rightarrow> smp" where
  "acquire_record h l s =
     s\<lparr>locks := (locks s)(l := (locks s l)\<lparr>lk_cpu := Some h\<rparr>),
       lpcs := (lpcs s)(h := Outside), crit := (crit s)(h := insert l (crit s h))\<rparr>"

definition release_enter :: "nat \<Rightarrow> lockid \<Rightarrow> smp \<Rightarrow> string + smp" where
  "release_enter h l s =
     (if \<not> holding_c h (locks s l) then Inl ''release''
      else Inr (s\<lparr>locks := (locks s)(l := (locks s l)\<lparr>lk_cpu := None\<rparr>),
                  lpcs := (lpcs s)(h := Dropping l), crit := (crit s)(h := crit s h - {l})\<rparr>))"

definition release_swap :: "nat \<Rightarrow> lockid \<Rightarrow> smp \<Rightarrow> smp" where
  "release_swap h l s =
     s\<lparr>locks := (locks s)(l := (locks s l)\<lparr>locked := 0\<rparr>), lpcs := (lpcs s)(h := Popping)\<rparr>"

definition release_pop :: "nat \<Rightarrow> smp \<Rightarrow> string + smp" where
  "release_pop h s =
     (case pop_off (cpus s h) of
        Inl e \<Rightarrow> Inl e
      | Inr c \<Rightarrow> Inr (s\<lparr>cpus := (cpus s)(h := c), lpcs := (lpcs s)(h := Outside)\<rparr>))"

inductive smp_step :: "smp \<Rightarrow> smp \<Rightarrow> bool" where
  enter: "lpcs s h = Outside \<Longrightarrow> acquire_enter h l s = Inr t \<Longrightarrow> smp_step s t"
| swap: "lpcs s h = Spinning l \<Longrightarrow> smp_step s (acquire_swap h l s)"
| own: "lpcs s h = Taken l \<Longrightarrow> smp_step s (acquire_record h l s)"
| drop: "lpcs s h = Outside \<Longrightarrow> release_enter h l s = Inr t \<Longrightarrow> smp_step s t"
| unlock: "lpcs s h = Dropping l \<Longrightarrow> smp_step s (release_swap h l s)"
| pop: "lpcs s h = Popping \<Longrightarrow> release_pop h s = Inr t \<Longrightarrow> smp_step s t"
| enable: "lpcs s h = Outside \<Longrightarrow> noff (cpus s h) = 0 \<Longrightarrow>
    smp_step s (s\<lparr>cpus := (cpus s)(h := intr_on (cpus s h))\<rparr>)"
| disable: "lpcs s h = Outside \<Longrightarrow> smp_step s (s\<lparr>cpus := (cpus s)(h := intr_off (cpus s h))\<rparr>)"

definition smp_init :: "smp \<Rightarrow> bool" where
  "smp_init s \<longleftrightarrow>
     (\<forall>h. noff (cpus s h) = 0 \<and> lpcs s h = Outside \<and> crit s h = {})
     \<and> (\<forall>l. \<exists>name. locks s l = initlock name)"

subsection \<open>Interrupt enable bit\<close>

lemma SIE_bit: "SSTATUS_SIE = 2"
  by (simp add: SSTATUS_SIE_def push_bit_eq_mult)

lemma sie_get_bit: "sie_get c \<longleftrightarrow> bit (cpu_sstatus c) 1"
proof -
  have "cpu_sstatus c AND 2 = (if bit (cpu_sstatus c) 1 then 2 else 0)"
    by (rule bit_word_eqI) (auto simp: bit_simps bit_2_iff)
  then show ?thesis by (simp add: sie_get_def SIE_bit)
qed

lemma sie_intr_off [simp]: "\<not> sie_get (intr_off c)"
  by (simp add: sie_get_bit intr_off_def SIE_bit bit_simps bit_2_iff)

lemma sie_intr_on [simp]: "sie_get (intr_on c)"
  by (simp add: sie_get_bit intr_on_def SIE_bit bit_simps bit_2_iff)

lemma noff_intr [simp]: "noff (intr_on c) = noff c" "noff (intr_off c) = noff c"
  "intena (intr_on c) = intena c" "intena (intr_off c) = intena c"
  by (simp_all add: intr_on_def intr_off_def)

lemma sie_upd [simp]: "sie_get (c\<lparr>noff := n\<rparr>) = sie_get c" "sie_get (c\<lparr>intena := b\<rparr>) = sie_get c"
  by (simp_all add: sie_get_def)

lemma push_off_facts [simp]:
  "\<not> sie_get (push_off c)" "noff (push_off c) = noff c + 1"
  "intena (push_off c) = (if noff c = 0 then sie_get c else intena c)"
  by (simp_all add: push_off_def Let_def)

lemma pop_off_facts:
  assumes "pop_off c = Inr c'"
  shows "noff c' = noff c - 1" and "1 \<le> noff c" and "\<not> sie_get c"
    and "sie_get c' \<longleftrightarrow> noff c' = 0 \<and> intena c" and "intena c' = intena c"
  using assms by (auto simp: pop_off_def Let_def split: if_splits)

lemma pop_off_runs:
  "\<not> sie_get c \<Longrightarrow> 1 \<le> noff c \<Longrightarrow> \<exists>c'. pop_off c = Inr c'"
  by (simp add: pop_off_def Let_def)

subsection \<open>The protocol invariant\<close>

definition owns :: "smp \<Rightarrow> nat \<Rightarrow> lockid \<Rightarrow> bool" where
  "owns s h l \<longleftrightarrow> l \<in> crit s h \<or> lpcs s h = Taken l \<or> lpcs s h = Dropping l"

definition pending :: "smp \<Rightarrow> nat \<Rightarrow> int" where
  "pending s h = (if lpcs s h = Outside then 0 else 1)"

definition smp_inv :: "smp \<Rightarrow> bool" where
  "smp_inv s \<longleftrightarrow>
     (\<forall>h l. owns s h l \<longrightarrow> locked (locks s l) \<noteq> 0)
     \<and> (\<forall>h h' l. owns s h l \<longrightarrow> owns s h' l \<longrightarrow> h = h')
     \<and> (\<forall>h l. lk_cpu (locks s l) = Some h \<longleftrightarrow> l \<in> crit s h)
     \<and> (\<forall>h. finite (crit s h) \<and> noff (cpus s h) = int (card (crit s h)) + pending s h)
     \<and> (\<forall>h. noff (cpus s h) \<noteq> 0 \<longrightarrow> \<not> sie_get (cpus s h))
     \<and> (\<forall>h l. lpcs s h = Taken l \<or> lpcs s h = Dropping l \<longrightarrow> l \<notin> crit s h)"

lemma smp_invI:
  assumes "\<And>h l. owns s h l \<Longrightarrow> locked (locks s l) \<noteq> 0"
    and "\<And>h h' l. owns s h l \<Longrightarrow> owns s h' l \<Longrightarrow> h = h'"
    and "\<And>h l. lk_cpu (locks s l) = Some h \<longleftrightarrow> l \<in> crit s h"
    and "\<And>h. finite (crit s h)"
    and "\<And>h. noff (cpus s h) = int (card (crit s h)) + pending s h"
    and "\<And>h. noff (cpus s h) \<noteq> 0 \<Longrightarrow> \<not> sie_get (cpus s h)"
    and "\<And>h l. lpcs s h = Taken l \<or> lpcs s h = Dropping l \<Longrightarrow> l \<notin> crit s h"
  shows "smp_inv s"
  using assms unfolding smp_inv_def by blast

lemma smp_invD:
  assumes "smp_inv s"
  shows "owns s h l \<Longrightarrow> locked (locks s l) \<noteq> 0"
    and "owns s h l \<Longrightarrow> owns s h' l \<Longrightarrow> h = h'"
    and "lk_cpu (locks s l) = Some h \<longleftrightarrow> l \<in> crit s h"
    and "finite (crit s h)"
    and "noff (cpus s h) = int (card (crit s h)) + pending s h"
    and "noff (cpus s h) \<noteq> 0 \<Longrightarrow> \<not> sie_get (cpus s h)"
    and "lpcs s h = Taken l \<or> lpcs s h = Dropping l \<Longrightarrow> l \<notin> crit s h"
  using assms unfolding smp_inv_def by blast+

lemma smp_inv_init: "smp_init s \<Longrightarrow> smp_inv s"
  by (rule smp_invI)
    (auto simp: smp_init_def owns_def pending_def initlock_def; metis initlock_def option.distinct(1)
        spinlock.select_convs(3) empty_iff)+

lemma owns_pc: "owns s h l \<longleftrightarrow> l \<in> crit s h \<or> lpcs s h \<in> {Taken l, Dropping l}"
  by (auto simp: owns_def)

lemma holding_crit: "smp_inv s \<Longrightarrow> holding_c h (locks s l) \<longleftrightarrow> l \<in> crit s h"
  using smp_invD(1,3)[of s] by (auto simp: holding_c_def owns_def)

lemma smp_inv_enter:
  assumes i: "smp_inv s" and pc: "lpcs s h = Outside" and e: "acquire_enter h l s = Inr t"
  shows "smp_inv t"
proof -
  have t: "t = s\<lparr>cpus := (cpus s)(h := push_off (cpus s h)), lpcs := (lpcs s)(h := Spinning l)\<rparr>"
    using e by (simp add: acquire_enter_def Let_def split: if_splits)
  have ow: "owns t h' l' \<longleftrightarrow> owns s h' l'" for h' l' using pc by (auto simp: t owns_def)
  show ?thesis
    by (rule smp_invI)
      (use smp_invD[OF i] ow pc in \<open>auto simp: t pending_def split: if_splits\<close>)
qed

lemma smp_inv_swap:
  assumes i: "smp_inv s" and pc: "lpcs s h = Spinning l"
  shows "smp_inv (acquire_swap h l s)"
proof (cases "locked (locks s l) = 0")
  case False
  have ow: "owns (acquire_swap h l s) h' l' \<longleftrightarrow> owns s h' l'" for h' l'
    using False by (simp add: acquire_swap_def Let_def owns_def)
  show ?thesis
    by (rule smp_invI)
      (use smp_invD[OF i] ow False in \<open>auto simp: acquire_swap_def Let_def pending_def split: if_splits\<close>)
next
  case True
  have none: "\<not> owns s h' l" for h' using smp_invD(1)[OF i, of h' l] True by blast
  have ow: "owns (acquire_swap h l s) h' l' \<longleftrightarrow> owns s h' l' \<or> (h' = h \<and> l' = l)" for h' l'
    using True pc by (auto simp: acquire_swap_def Let_def owns_def)
  let ?t = "acquire_swap h l s"
  have sel: "cpus ?t = cpus s" "crit ?t = crit s" "lpcs ?t = (lpcs s)(h := Taken l)"
    "locks ?t = (locks s)(l := (locks s l)\<lparr>locked := 1\<rparr>)"
    using True by (simp_all add: acquire_swap_def Let_def)
  have pend: "pending ?t h' = pending s h'" for h' using pc by (simp add: pending_def sel)
  show ?thesis
  proof (rule smp_invI)
    show "locked (locks ?t l') \<noteq> 0" if "owns ?t h' l'" for h' l'
      using that smp_invD(1)[OF i, of h' l'] by (auto simp: sel ow)
    show "h1 = h2" if "owns ?t h1 l'" "owns ?t h2 l'" for h1 h2 l'
      using that none smp_invD(2)[OF i] unfolding ow by blast
    show "lk_cpu (locks ?t l') = Some h' \<longleftrightarrow> l' \<in> crit ?t h'" for h' l'
      by (simp add: sel smp_invD(3)[OF i])
    show "l' \<notin> crit ?t h'" if "lpcs ?t h' = Taken l' \<or> lpcs ?t h' = Dropping l'" for h' l'
      using that none[of h] smp_invD(7)[OF i, of h' l'] by (auto simp: sel owns_def split: if_splits)
  qed (simp_all add: sel pend smp_invD(4-6)[OF i])
qed

lemma smp_inv_own:
  assumes i: "smp_inv s" and pc: "lpcs s h = Taken l"
  shows "smp_inv (acquire_record h l s)"
proof -
  have nl: "l \<notin> crit s h" using smp_invD(7)[OF i] pc by blast
  have ho: "owns s h l" using pc by (simp add: owns_def)
  have ow: "owns (acquire_record h l s) h' l' \<longleftrightarrow> owns s h' l'" for h' l'
    using pc by (auto simp: acquire_record_def owns_def)
  have other: "l \<notin> crit s h'" for h'
    using smp_invD(2)[OF i, of h' l h] ho nl by (auto simp: owns_def)
  show ?thesis
    by (rule smp_invI)
      (use smp_invD[OF i] ow pc nl other in
        \<open>auto simp: acquire_record_def pending_def split: if_splits\<close>)
qed

lemma smp_inv_drop:
  assumes i: "smp_inv s" and pc: "lpcs s h = Outside" and e: "release_enter h l s = Inr t"
  shows "smp_inv t"
proof -
  have hc: "holding_c h (locks s l)" and t: "t = s\<lparr>locks := (locks s)(l := (locks s l)\<lparr>lk_cpu := None\<rparr>),
      lpcs := (lpcs s)(h := Dropping l), crit := (crit s)(h := crit s h - {l})\<rparr>"
    using e by (simp_all add: release_enter_def split: if_splits)
  have lin: "l \<in> crit s h" using hc holding_crit[OF i] by simp
  have ow: "owns t h' l' \<longleftrightarrow> owns s h' l'" for h' l'
    using pc lin by (auto simp: t owns_def)
  have other: "l \<in> crit s h' \<Longrightarrow> h' = h" for h'
    using smp_invD(2)[OF i, of h' l h] lin by (auto simp: owns_def)
  have c: "card (crit s h) = Suc (card (crit s h - {l}))"
    using card_Suc_Diff1[OF smp_invD(4)[OF i, of h] lin] by simp
  show ?thesis
  proof (rule smp_invI)
    show "locked (locks t l') \<noteq> 0" if "owns t h' l'" for h' l'
      using smp_invD(1)[OF i, of h' l'] that unfolding ow by (auto simp: t)
    show "h1 = h2" if "owns t h1 l'" "owns t h2 l'" for h1 h2 l'
      using that smp_invD(2)[OF i] unfolding ow by blast
    show "lk_cpu (locks t l') = Some h' \<longleftrightarrow> l' \<in> crit t h'" for h' l'
      using smp_invD(3)[OF i, of l' h'] other[of h'] by (auto simp: t)
    show "noff (cpus t h') = int (card (crit t h')) + pending t h'" for h'
      using smp_invD(5)[OF i, of h'] c pc by (simp add: t pending_def)
    show "l' \<notin> crit t h'" if "lpcs t h' = Taken l' \<or> lpcs t h' = Dropping l'" for h' l'
      using that smp_invD(7)[OF i, of h' l'] by (auto simp: t split: if_splits)
  qed (simp_all add: t smp_invD(4-6)[OF i])
qed

lemma smp_inv_unlock:
  assumes i: "smp_inv s" and pc: "lpcs s h = Dropping l"
  shows "smp_inv (release_swap h l s)"
proof -
  have nl: "l \<notin> crit s h" using smp_invD(7)[OF i] pc by blast
  have no: "h' \<noteq> h \<Longrightarrow> \<not> owns s h' l" for h'
    using smp_invD(2)[OF i, of h' l h] pc unfolding owns_def by blast
  have ow: "owns (release_swap h l s) h' l' \<longleftrightarrow> owns s h' l' \<and> l' \<noteq> l" for h' l'
  proof (cases "h' = h")
    case True
    then show ?thesis using pc nl by (auto simp: release_swap_def owns_def)
  next
    case False
    then have "owns (release_swap h l s) h' l' = owns s h' l'" by (simp add: release_swap_def owns_def)
    with no[OF False] show ?thesis by blast
  qed
  let ?t = "release_swap h l s"
  have sel: "cpus ?t = cpus s" "crit ?t = crit s" "lpcs ?t = (lpcs s)(h := Popping)"
    "locks ?t = (locks s)(l := (locks s l)\<lparr>locked := 0\<rparr>)"
    by (simp_all add: release_swap_def)
  have pend: "pending ?t h' = pending s h'" for h' using pc by (simp add: pending_def sel)
  show ?thesis
  proof (rule smp_invI)
    show "locked (locks ?t l') \<noteq> 0" if "owns ?t h' l'" for h' l'
      using that smp_invD(1)[OF i, of h' l'] by (simp add: sel ow)
    show "h1 = h2" if "owns ?t h1 l'" "owns ?t h2 l'" for h1 h2 l'
      using that smp_invD(2)[OF i] unfolding ow by blast
    show "lk_cpu (locks ?t l') = Some h' \<longleftrightarrow> l' \<in> crit ?t h'" for h' l'
      by (simp add: sel smp_invD(3)[OF i])
    show "l' \<notin> crit ?t h'" if "lpcs ?t h' = Taken l' \<or> lpcs ?t h' = Dropping l'" for h' l'
      using that smp_invD(7)[OF i, of h' l'] by (auto simp: sel split: if_splits)
  qed (simp_all add: sel pend smp_invD(4-6)[OF i])
qed

lemma smp_inv_pop:
  assumes i: "smp_inv s" and pc: "lpcs s h = Popping" and e: "release_pop h s = Inr t"
  shows "smp_inv t"
proof -
  obtain c where c: "pop_off (cpus s h) = Inr c"
    and t: "t = s\<lparr>cpus := (cpus s)(h := c), lpcs := (lpcs s)(h := Outside)\<rparr>"
    using e by (auto simp: release_pop_def split: sum.splits)
  have ow: "owns t h' l' \<longleftrightarrow> owns s h' l'" for h' l' using pc by (auto simp: t owns_def)
  show ?thesis
    by (rule smp_invI)
      (use smp_invD[OF i] ow pc pop_off_facts[OF c] in \<open>auto simp: t pending_def split: if_splits\<close>)
qed

lemma smp_inv_intr:
  assumes i: "smp_inv s" and "lpcs s h = Outside" and "noff c = noff (cpus s h)"
    and "noff c \<noteq> 0 \<Longrightarrow> \<not> sie_get c"
  shows "smp_inv (s\<lparr>cpus := (cpus s)(h := c)\<rparr>)"
  by (rule smp_invI)
    (use smp_invD[OF i] assms(2-) in \<open>auto simp: owns_def pending_def split: if_splits\<close>)

lemma smp_step_inv: "smp_inv s \<Longrightarrow> smp_step s t \<Longrightarrow> smp_inv t"
  by (erule smp_step.cases)
    (auto intro: smp_inv_enter smp_inv_swap smp_inv_own smp_inv_drop smp_inv_unlock smp_inv_pop
        intro!: smp_inv_intr)

interpretation spin: invariant_system smp_init smp_step smp_inv
  by unfold_locales (auto intro: smp_inv_init smp_step_inv)

subsection \<open>Critical sections\<close>

lemma holder_quiet:
  assumes "smp_inv s" and "l \<in> crit s h"
  shows "\<not> sie_get (cpus s h)" and "1 \<le> noff (cpus s h)"
proof -
  have "0 < card (crit s h)" using assms smp_invD(4)[of s h] by (auto simp: card_gt_0_iff)
  then show "1 \<le> noff (cpus s h)" using smp_invD(5)[OF assms(1), of h] by (simp add: pending_def)
  then show "\<not> sie_get (cpus s h)" using smp_invD(6)[OF assms(1), of h] by simp
qed

lemma popping_runs:
  assumes "smp_inv s" and "lpcs s h = Popping"
  shows "\<exists>t. release_pop h s = Inr t"
proof -
  have "1 \<le> noff (cpus s h)" using smp_invD(5)[OF assms(1), of h] assms(2) by (simp add: pending_def)
  then show ?thesis
    using pop_off_runs[of "cpus s h"] smp_invD(6)[OF assms(1), of h] by (auto simp: release_pop_def)
qed

definition boot_smp :: smp where
  "boot_smp = \<lparr>cpus = (\<lambda>_. \<lparr>cpu_sstatus = 2, noff = 0, intena = False\<rparr>),
     locks = (\<lambda>_. initlock ''lk''), lpcs = (\<lambda>_. Outside), crit = (\<lambda>_. {})\<rparr>"

lemma boot_smp_init: "smp_init boot_smp"
  by (auto simp: smp_init_def boot_smp_def)

lemma acquire_steps:
  assumes "lpcs s h = Outside" and "\<not> holding_c h (locks s l)" and "locked (locks s l) = 0"
  shows "smp_step\<^sup>*\<^sup>* s
    (s\<lparr>cpus := (cpus s)(h := push_off (cpus s h)),
       locks := (locks s)(l := (locks s l)\<lparr>locked := 1, lk_cpu := Some h\<rparr>),
       lpcs := (lpcs s)(h := Outside), crit := (crit s)(h := insert l (crit s h))\<rparr>)"
proof -
  let ?s1 = "s\<lparr>cpus := (cpus s)(h := push_off (cpus s h)), lpcs := (lpcs s)(h := Spinning l)\<rparr>"
  have 1: "smp_step s ?s1"
    by (rule smp_step.enter[of _ h l]) (use assms in \<open>simp_all add: acquire_enter_def\<close>)
  have 2: "smp_step ?s1 (acquire_swap h l ?s1)" by (rule smp_step.swap) simp
  have 3: "smp_step (acquire_swap h l ?s1) (acquire_record h l (acquire_swap h l ?s1))"
    by (rule smp_step.own) (use assms in \<open>simp add: acquire_swap_def\<close>)
  have "smp_step\<^sup>*\<^sup>* s (acquire_record h l (acquire_swap h l ?s1))"
    by (rule converse_rtranclp_into_rtranclp[of smp_step, OF 1], rule converse_rtranclp_into_rtranclp[of smp_step, OF 2],
        rule r_into_rtranclp[of smp_step, OF 3])
  then show ?thesis using assms by (simp add: acquire_record_def acquire_swap_def Let_def)
qed

lemma release_steps:
  assumes "lpcs s h = Outside" and "holding_c h (locks s l)" and "pop_off (cpus s h) = Inr c"
  shows "smp_step\<^sup>*\<^sup>* s
    (s\<lparr>crit := (crit s)(h := crit s h - {l}),
       locks := (locks s)(l := (locks s l)\<lparr>lk_cpu := None, locked := 0\<rparr>),
       cpus := (cpus s)(h := c), lpcs := (lpcs s)(h := Outside)\<rparr>)" (is "smp_step\<^sup>*\<^sup>* s ?t")
proof -
  let ?s1 = "s\<lparr>locks := (locks s)(l := (locks s l)\<lparr>lk_cpu := None\<rparr>),
                  lpcs := (lpcs s)(h := Dropping l), crit := (crit s)(h := crit s h - {l})\<rparr>"
  let ?s2 = "release_swap h l ?s1"
  have 1: "smp_step s ?s1"
    by (rule smp_step.drop[of _ h l]) (use assms in \<open>simp_all add: release_enter_def\<close>)
  have 2: "smp_step ?s1 ?s2" by (rule smp_step.unlock) simp
  have 3: "smp_step ?s2 ?t"
    by (rule smp_step.pop[of _ h]) (use assms in \<open>simp_all add: release_swap_def release_pop_def\<close>)
  show ?thesis
    by (rule converse_rtranclp_into_rtranclp[of smp_step, OF 1], rule converse_rtranclp_into_rtranclp[of smp_step, OF 2],
        rule r_into_rtranclp[of smp_step, OF 3])
qed

text \<open>C3: mutual exclusion. In every interleaving of any number of harts from the initialised
  locks, at most one hart is inside the critical section of a lock; it runs there with
  interrupts off, and neither its call of \<open>release\<close> nor the \<open>pop_off\<close> that ends it can panic.\<close>

theorem mutual_exclusion:
  assumes "smp_init s0" and "smp_step\<^sup>*\<^sup>* s0 s" and "l \<in> crit s h"
  shows "(\<forall>h'. l \<in> crit s h' \<longleftrightarrow> h' = h) \<and> \<not> sie_get (cpus s h)
    \<and> (\<exists>t. release_enter h l s = Inr t) \<and> (\<forall>h'. lpcs s h' = Popping \<longrightarrow> (\<exists>t. release_pop h' s = Inr t))"
proof -
  have i: "smp_inv s" using spin.reachable_inv[OF assms(1,2)] .
  have "l \<in> crit s h' \<longleftrightarrow> h' = h" for h'
    using smp_invD(2)[OF i, of h' l h] assms(3) by (auto simp: owns_def)
  moreover have "\<exists>t. release_enter h l s = Inr t"
    using holding_crit[OF i] assms(3) by (simp add: release_enter_def)
  ultimately show ?thesis using holder_quiet[OF i assms(3)] popping_runs[OF i] by blast
qed

theorem mutual_exclusion_witness:
  "\<exists>s. smp_step\<^sup>*\<^sup>* boot_smp s \<and> KMEM_LOCK \<in> crit s 1 \<and> KMEM_LOCK \<notin> crit s 0 \<and> \<not> sie_get (cpus s 1)"
proof -
  have f: "lpcs boot_smp 1 = Outside" "\<not> holding_c 1 (locks boot_smp KMEM_LOCK)"
    "locked (locks boot_smp KMEM_LOCK) = 0"
    by (simp_all add: boot_smp_def holding_c_def initlock_def)
  define s where "s = boot_smp\<lparr>cpus := (cpus boot_smp)(1 := push_off (cpus boot_smp 1)),
       locks := (locks boot_smp)(KMEM_LOCK := (locks boot_smp KMEM_LOCK)\<lparr>locked := 1, lk_cpu := Some 1\<rparr>),
       lpcs := (lpcs boot_smp)(1 := Outside), crit := (crit boot_smp)(1 := insert KMEM_LOCK (crit boot_smp 1))\<rparr>"
  have r: "smp_step\<^sup>*\<^sup>* boot_smp s" using acquire_steps[OF f] by (simp add: s_def)
  have c: "KMEM_LOCK \<in> crit s 1" by (simp add: s_def)
  have m: "\<forall>h'. KMEM_LOCK \<in> crit s h' \<longleftrightarrow> h' = 1" and q: "\<not> sie_get (cpus s 1)"
    using mutual_exclusion[OF boot_smp_init r c] by blast+
  have "KMEM_LOCK \<notin> crit s 0" by (simp add: m)
  then show ?thesis using r c q by blast
qed

subsection \<open>Nesting of push_off and pop_off\<close>

primrec pop_offs :: "nat \<Rightarrow> cpu \<Rightarrow> string + cpu" where
  "pop_offs 0 c = Inr c"
| "pop_offs (Suc n) c = (case pop_off c of Inl e \<Rightarrow> Inl e | Inr c' \<Rightarrow> pop_offs n c')"

lemma push_offs_facts:
  "noff ((push_off ^^ n) c) = noff c + int n"
  "noff c = 0 \<Longrightarrow> 0 < n \<Longrightarrow> \<not> sie_get ((push_off ^^ n) c) \<and> intena ((push_off ^^ n) c) = sie_get c"
  by (induction n) auto

lemma pop_offs_runs:
  "int m \<le> noff c \<Longrightarrow> \<not> sie_get c \<or> m = 0 \<Longrightarrow>
   \<exists>c'. pop_offs m c = Inr c' \<and> noff c' = noff c - int m \<and> intena c' = intena c
     \<and> (0 < m \<longrightarrow> (sie_get c' \<longleftrightarrow> noff c' = 0 \<and> intena c)) \<and> (m = 0 \<longrightarrow> c' = c)"
proof (induction m arbitrary: c)
  case 0
  then show ?case by simp
next
  case (Suc m)
  obtain c1 where c1: "pop_off c = Inr c1" using pop_off_runs[of c] Suc.prems by auto
  note f = pop_off_facts[OF c1]
  have "\<not> sie_get c1 \<or> m = 0" using f Suc.prems(1) by auto
  moreover have "int m \<le> noff c1" using f Suc.prems(1) by simp
  ultimately obtain c' where "pop_offs m c1 = Inr c'" "noff c' = noff c1 - int m" "intena c' = intena c1"
    "0 < m \<longrightarrow> (sie_get c' \<longleftrightarrow> noff c' = 0 \<and> intena c1)" "m = 0 \<longrightarrow> c' = c1"
    using Suc.IH[of c1] by blast
  then show ?case using c1 f by (cases m) auto
qed

text \<open>Push_off/pop_off nest. After n calls of \<open>push_off\<close> from interrupt level 0, m \<open>pop_off\<close>s
  (m \<le> n) return without panic, leave the nesting depth n - m, and interrupts are on again exactly
  when all n are popped and they were on before the first \<open>push_off\<close>.\<close>

theorem push_pop_nesting:
  assumes "noff c = 0" and "m \<le> n"
  shows "\<exists>c'. pop_offs m ((push_off ^^ n) c) = Inr c' \<and> noff c' = int (n - m)
    \<and> (sie_get c' \<longleftrightarrow> m = n \<and> sie_get c)"
proof (cases "n = 0")
  case True
  then show ?thesis using assms by simp
next
  case False
  then have "\<not> sie_get ((push_off ^^ n) c)" "intena ((push_off ^^ n) c) = sie_get c"
    using push_offs_facts(2)[OF assms(1), of n] by simp_all
  with pop_offs_runs[of m "(push_off ^^ n) c"] assms push_offs_facts(1)[of n c] False
  show ?thesis by (cases m) (auto simp: of_nat_diff)
qed

theorem push_pop_nesting_witness:
  "\<exists>c'. pop_offs 2 ((push_off ^^ 2) (cpus boot_smp 0)) = Inr c' \<and> sie_get c'"
  using push_pop_nesting[of "cpus boot_smp 0" 2 2]
  by (auto simp: boot_smp_def sie_get_def SIE_bit)

subsection \<open>The held-lock view of Kstate\<close>

text \<open>\<open>hart_view h s k\<close>: hart \<open>h\<close> of the concurrent state \<open>s\<close>, between two calls, as the kernel
  functions of the other theories see it.\<close>

definition hart_view :: "nat \<Rightarrow> smp \<Rightarrow> 'a kst_scheme \<Rightarrow> bool" where
  "hart_view h s k \<longleftrightarrow> smp_inv s \<and> lpcs s h = Outside \<and> held k = crit s h
     \<and> (intr k \<longleftrightarrow> (if noff (cpus s h) = 0 then sie_get (cpus s h) else intena (cpus s h)))"

lemma hart_view_noff: "hart_view h s k \<Longrightarrow> noff (cpus s h) = 0 \<longleftrightarrow> held k = {}"
  using smp_invD(4,5)[of s h] by (auto simp: hart_view_def pending_def)

lemma hart_view_intr_get:
  assumes "hart_view h s k"
  shows "intr_get k \<longleftrightarrow> sie_get (cpus s h)"
proof (cases "held k = {}")
  case True
  then show ?thesis using assms hart_view_noff[OF assms] by (simp add: hart_view_def intr_get_def)
next
  case False
  then have "\<not> sie_get (cpus s h)"
    using hart_view_noff[OF assms] assms smp_invD(6)[of s h] by (simp add: hart_view_def)
  with False show ?thesis by (simp add: intr_get_def)
qed

lemma view_acquire:
  assumes v: "hart_view h s k" and "l \<notin> held k" and "locked (locks s l) = 0"
  shows "\<exists>t. smp_step\<^sup>*\<^sup>* s t \<and> hart_view h t (k\<lparr>held := insert l (held k)\<rparr>)"
proof -
  have i: "smp_inv s" "lpcs s h = Outside" "held k = crit s h" using v by (auto simp: hart_view_def)
  have nh: "\<not> holding_c h (locks s l)" using holding_crit[OF i(1)] i(3) assms(2) by simp
  have "0 \<le> noff (cpus s h)" using smp_invD(5)[OF i(1), of h] by (simp add: pending_def)
  note n = this and st = acquire_steps[OF i(2) nh assms(3)]
  show ?thesis
    by (rule exI, rule conjI, rule st)
      (use spin.steps_inv[OF st i(1)] v n in \<open>auto simp: hart_view_def\<close>)
qed

lemma view_release:
  assumes v: "hart_view h s k" and "l \<in> held k"
  shows "\<exists>t. smp_step\<^sup>*\<^sup>* s t \<and> hart_view h t (k\<lparr>held := held k - {l}\<rparr>)"
proof -
  have i: "smp_inv s" "lpcs s h = Outside" "held k = crit s h" using v by (auto simp: hart_view_def)
  have hc: "holding_c h (locks s l)" using holding_crit[OF i(1)] i(3) assms(2) by simp
  have q: "\<not> sie_get (cpus s h)" "1 \<le> noff (cpus s h)" using holder_quiet[OF i(1)] assms(2) i(3) by auto
  obtain c where c: "pop_off (cpus s h) = Inr c" using pop_off_runs q by blast
  note st = release_steps[OF i(2) hc c]
  show ?thesis
    by (rule exI, rule conjI, rule st)
      (use spin.steps_inv[OF st i(1)] v q pop_off_facts[OF c] in \<open>auto simp: hart_view_def\<close>)
qed

text \<open>C24: the set of held locks used by the sequential kernel model is a refinement of the
  concurrent lock protocol. A call of \<open>acquire\<close> or \<open>release\<close> on a hart panics in the model exactly
  when the C code panics, and otherwise the steps of the C code (once the lock is free, for
  \<open>acquire\<close>) lead to a state that the model's result describes, interrupt state included.\<close>

theorem lock_view_refinement:
  assumes "hart_view h s k"
  shows "(case acquire l k of
            Done _ k' \<Rightarrow> locked (locks s l) = 0 \<longrightarrow> (\<exists>t. smp_step\<^sup>*\<^sup>* s t \<and> hart_view h t k')
          | Panic e \<Rightarrow> acquire_enter h l s = Inl e | Swtch _ \<Rightarrow> False)
       \<and> (case release l k of
            Done _ k' \<Rightarrow> (\<exists>t. smp_step\<^sup>*\<^sup>* s t \<and> hart_view h t k')
          | Panic e \<Rightarrow> release_enter h l s = Inl e | Swtch _ \<Rightarrow> False)
       \<and> (intr_get k \<longleftrightarrow> sie_get (cpus s h))"
proof -
  have hc: "holding_c h (locks s l) \<longleftrightarrow> l \<in> held k"
    using assms holding_crit[of s h l] by (simp add: hart_view_def)
  show ?thesis
    using view_acquire[OF assms, of l] view_release[OF assms, of l] hart_view_intr_get[OF assms] hc
    by (auto simp: acquire_def release_def acquire_enter_def release_enter_def)
qed

theorem lock_view_refinement_witness:
  "\<exists>t. smp_step\<^sup>*\<^sup>* boot_smp t \<and> (\<forall>k :: kst. held k = {} \<and> intr k \<longrightarrow> hart_view 0 t (k\<lparr>held := {KMEM_LOCK}\<rparr>))"
proof -
  define k0 :: kst where "k0 = (undefined :: kst)\<lparr>held := {}, intr := True\<rparr>"
  have v: "hart_view 0 boot_smp k" if "held k = {}" "intr k" for k :: kst
    using that smp_inv_init[OF boot_smp_init]
    by (simp add: hart_view_def boot_smp_def sie_get_def SIE_bit)
  have "\<exists>t. smp_step\<^sup>*\<^sup>* boot_smp t \<and> hart_view 0 t (k0\<lparr>held := {KMEM_LOCK}\<rparr>)"
    using lock_view_refinement[OF v, of k0 KMEM_LOCK]
    by (simp add: k0_def acquire_def boot_smp_def initlock_def)
  then show ?thesis by (force simp: hart_view_def k0_def)
qed

end
