(* ===== verification/Memory.thy ===== *)
theory Memory
  imports Riscv
begin

text \<open>
  Byte-addressed physical memory and the little-endian 64-bit loads and stores that the
  kernel's C code performs on it (page-table entries, the \<open>next\<close> field of a free page).
  The facts say when a store is seen by a load and when it is not.
\<close>

unbundle bit_operations_syntax

definition load64 :: "memory \<Rightarrow> addr \<Rightarrow> uint64" where
  "load64 m a = ucast (m a) OR push_bit 8 (ucast (m (a + 1))) OR push_bit 16 (ucast (m (a + 2)))
     OR push_bit 24 (ucast (m (a + 3))) OR push_bit 32 (ucast (m (a + 4)))
     OR push_bit 40 (ucast (m (a + 5))) OR push_bit 48 (ucast (m (a + 6)))
     OR push_bit 56 (ucast (m (a + 7)))"

definition store64 :: "memory \<Rightarrow> addr \<Rightarrow> uint64 \<Rightarrow> memory" where
  "store64 m a v = m(a := ucast v, a + 1 := ucast (drop_bit 8 v), a + 2 := ucast (drop_bit 16 v),
     a + 3 := ucast (drop_bit 24 v), a + 4 := ucast (drop_bit 32 v), a + 5 := ucast (drop_bit 40 v),
     a + 6 := ucast (drop_bit 48 v), a + 7 := ucast (drop_bit 56 v))"

lemma store64_bytes:
  "store64 m a v a = ucast v" "store64 m a v (a + 1) = ucast (drop_bit 8 v)"
  "store64 m a v (a + 2) = ucast (drop_bit 16 v)" "store64 m a v (a + 3) = ucast (drop_bit 24 v)"
  "store64 m a v (a + 4) = ucast (drop_bit 32 v)" "store64 m a v (a + 5) = ucast (drop_bit 40 v)"
  "store64 m a v (a + 6) = ucast (drop_bit 48 v)" "store64 m a v (a + 7) = ucast (drop_bit 56 v)"
  by (simp_all add: store64_def)

lemma byte_of_word:
  "push_bit k (ucast (ucast (drop_bit k v) :: byte) :: uint64) = v AND push_bit k (mask 8)"
  by (rule bit_word_eqI) (auto simp: bit_simps)

lemma load64_store64_same [simp]: "load64 (store64 m a v) a = v"
proof -
  have e: "ucast (ucast v :: byte) = v AND push_bit 0 (mask 8)"
    using byte_of_word[of 0 v] by simp
  have "load64 (store64 m a v) a = v AND (push_bit 0 (mask 8) OR push_bit 8 (mask 8)
      OR push_bit 16 (mask 8) OR push_bit 24 (mask 8) OR push_bit 32 (mask 8)
      OR push_bit 40 (mask 8) OR push_bit 48 (mask 8) OR push_bit 56 (mask 8))"
    unfolding load64_def store64_bytes byte_of_word e by (simp only: bit.conj_disj_distrib)
  also have "(push_bit 0 (mask 8) OR push_bit 8 (mask 8)
      OR push_bit 16 (mask 8) OR push_bit 24 (mask 8) OR push_bit 32 (mask 8)
      OR push_bit 40 (mask 8) OR push_bit 48 (mask 8) OR push_bit 56 (mask 8)) = (- 1 :: uint64)"
    by (simp add: mask_eq_exp_minus_1 push_bit_eq_mult)
  finally show ?thesis by simp
qed

lemma store64_other: "(\<And>i. i < 8 \<Longrightarrow> x \<noteq> a + of_nat i) \<Longrightarrow> store64 m a v x = m x"
proof -
  assume h: "\<And>i. i < 8 \<Longrightarrow> x \<noteq> a + of_nat i"
  have "x \<noteq> a" "x \<noteq> a + 1" "x \<noteq> a + 2" "x \<noteq> a + 3" "x \<noteq> a + 4" "x \<noteq> a + 5" "x \<noteq> a + 6" "x \<noteq> a + 7"
    using h[of 0] h[of 1] h[of 2] h[of 3] h[of 4] h[of 5] h[of 6] h[of 7] by auto
  then show ?thesis by (simp add: store64_def)
qed

lemma load64_cong:
  assumes "\<And>i. i < 8 \<Longrightarrow> m (a + of_nat i) = m' (a + of_nat i)"
  shows "load64 m a = load64 m' a"
  using assms[of 0] assms[of 1] assms[of 2] assms[of 3] assms[of 4] assms[of 5] assms[of 6] assms[of 7]
  by (simp add: load64_def)

text \<open>Addresses inside a page.\<close>

lemma aligned8_parts:
  assumes "(p :: addr) mod 4096 = 0" and "unat x < 512" and "i < 8"
  shows "unat (p + 8 * x + of_nat i) = unat p + 8 * unat x + i"
    and "PGROUNDDOWN (p + 8 * x + of_nat i) = p"
proof -
  have u8: "unat (8 * x) = 8 * unat x"
    using assms(2) by (simp add: unat_word_ariths)
  have ui: "unat (of_nat i :: addr) = i"
    using assms(3) by (simp add: unat_of_nat)
  have "unat (8 * x + of_nat i :: addr) = 8 * unat x + i"
    using assms(2,3) u8 ui by (simp add: unat_word_ariths)
  moreover have "8 * unat x + i < 4096" using assms(2,3) by simp
  ultimately show "unat (p + 8 * x + of_nat i) = unat p + 8 * unat x + i"
    and "PGROUNDDOWN (p + 8 * x + of_nat i) = p"
    using unat_page_add[OF assms(1), of "8 * x + of_nat i"]
      PGROUNDDOWN_add[OF assms(1), of "8 * x + of_nat i"]
    by (simp_all add: add.assoc)
qed

lemma load64_page_cong:
  assumes "(p :: addr) mod 4096 = 0" and "unat x < 512"
    and "\<And>a. PGROUNDDOWN a = p \<Longrightarrow> m a = m' a"
  shows "load64 m (p + 8 * x) = load64 m' (p + 8 * x)"
  by (rule load64_cong) (use aligned8_parts[OF assms(1,2)] assms(3) in simp)

lemma store64_page_other:
  assumes "(p :: addr) mod 4096 = 0" and "unat x < 512" and "PGROUNDDOWN a \<noteq> p"
  shows "store64 m (p + 8 * x) v a = m a"
  by (rule store64_other) (use aligned8_parts(2)[OF assms(1,2)] assms(3) in auto)

lemma load64_store64_slot:
  assumes "(p :: addr) mod 4096 = 0" and "unat x < 512" and "unat y < 512" and "x \<noteq> y"
  shows "load64 (store64 m (p + 8 * x) v) (p + 8 * y) = load64 m (p + 8 * y)"
proof (rule load64_cong)
  fix i :: nat assume i: "i < 8"
  have "unat x \<noteq> unat y" using assms(4) by (simp add: word_unat_eq_iff)
  then have ne: "unat p + 8 * unat y + i \<noteq> unat p + 8 * unat x + j" if "j < 8" for j
    using i that by linarith
  have "p + 8 * y + of_nat i \<noteq> p + 8 * x + of_nat j" if "j < 8" for j
  proof
    assume "p + 8 * y + of_nat i = p + 8 * x + of_nat j"
    then have "unat (p + 8 * y + of_nat i) = unat (p + 8 * x + of_nat j)" by (rule arg_cong)
    then show False
      using ne[OF that] aligned8_parts(1)[OF assms(1,3) i] aligned8_parts(1)[OF assms(1,2) that]
      by simp
  qed
  then show "store64 m (p + 8 * x) v (p + 8 * y + of_nat i) = m (p + 8 * y + of_nat i)"
    by (intro store64_other) blast
qed

lemma load64_store64_page:
  assumes "(p :: addr) mod 4096 = 0" and "(q :: addr) mod 4096 = 0"
    and "unat x < 512" and "unat y < 512" and "p \<noteq> q"
  shows "load64 (store64 m (p + 8 * x) v) (q + 8 * y) = load64 m (q + 8 * y)"
  by (rule load64_page_cong[OF assms(2,4)]) (use store64_page_other[OF assms(1,3)] assms(5) in auto)

lemma load64_zero: "(\<And>i. i < 8 \<Longrightarrow> m (a + of_nat i) = 0) \<Longrightarrow> load64 m a = 0"
  using load64_cong[of m a "\<lambda>_. 0"] by (simp add: load64_def)

end
