(* ===== verification/Kstring.thy ===== *)
theory Kstring
  imports Memory
begin

text \<open>
  kernel/string.c on byte memory. Lengths are the unsigned values of the C arguments; every
  loop is a recursion on the remaining count, except \<open>strlen\<close>, which runs until it meets a
  NUL and is therefore partial.
\<close>

unbundle bit_operations_syntax

definition memset :: "memory \<Rightarrow> addr \<Rightarrow> byte \<Rightarrow> nat \<Rightarrow> memory" where
  "memset m dst c n = fold (\<lambda>i m. m(dst + of_nat i := c)) [0..<n] m"

fun memcmp :: "memory \<Rightarrow> addr \<Rightarrow> addr \<Rightarrow> nat \<Rightarrow> int" where
  "memcmp m s1 s2 0 = 0"
| "memcmp m s1 s2 (Suc n) =
     (if m s1 \<noteq> m s2 then uint (m s1) - uint (m s2) else memcmp m (s1 + 1) (s2 + 1) n)"

fun copy_up :: "memory \<Rightarrow> addr \<Rightarrow> addr \<Rightarrow> nat \<Rightarrow> memory" where
  "copy_up m d s 0 = m"
| "copy_up m d s (Suc n) = copy_up (m(d := m s)) (d + 1) (s + 1) n"

fun copy_down :: "memory \<Rightarrow> addr \<Rightarrow> addr \<Rightarrow> nat \<Rightarrow> memory" where
  "copy_down m d s 0 = m"
| "copy_down m d s (Suc n) = copy_down (m(d - 1 := m (s - 1))) (d - 1) (s - 1) n"

definition memmove :: "memory \<Rightarrow> addr \<Rightarrow> addr \<Rightarrow> nat \<Rightarrow> memory" where
  "memmove m dst src n =
     (if n = 0 then m
      else if src < dst \<and> src + of_nat n > dst
      then copy_down m (dst + of_nat n) (src + of_nat n) n
      else copy_up m dst src n)"

definition memcpy :: "memory \<Rightarrow> addr \<Rightarrow> addr \<Rightarrow> nat \<Rightarrow> memory" where
  "memcpy m dst src n = memmove m dst src n"

fun strncmp :: "memory \<Rightarrow> addr \<Rightarrow> addr \<Rightarrow> nat \<Rightarrow> int" where
  "strncmp m p q 0 = 0"
| "strncmp m p q (Suc n) =
     (if m p \<noteq> 0 \<and> m p = m q then strncmp m (p + 1) (q + 1) n else uint (m p) - uint (m q))"

fun strncpy :: "memory \<Rightarrow> addr \<Rightarrow> addr \<Rightarrow> nat \<Rightarrow> memory" where
  "strncpy m s t 0 = m"
| "strncpy m s t (Suc n) =
     (let m' = m(s := m t)
      in if m t \<noteq> 0 then strncpy m' (s + 1) (t + 1) n else memset m' (s + 1) 0 n)"

fun safestrcpy_loop :: "memory \<Rightarrow> addr \<Rightarrow> addr \<Rightarrow> nat \<Rightarrow> memory" where
  "safestrcpy_loop m s t 0 = m(s := 0)"
| "safestrcpy_loop m s t (Suc n) =
     (let m' = m(s := m t)
      in if m t \<noteq> 0 then safestrcpy_loop m' (s + 1) (t + 1) n else m'(s + 1 := 0))"

definition safestrcpy :: "memory \<Rightarrow> addr \<Rightarrow> addr \<Rightarrow> int \<Rightarrow> memory" where
  "safestrcpy m s t n = (if n \<le> 0 then m else safestrcpy_loop m s t (nat (n - 1)))"

partial_function (option) strlen_loop :: "memory \<Rightarrow> addr \<Rightarrow> nat \<Rightarrow> nat option" where
  "strlen_loop m s n = (if m (s + of_nat n) = 0 then Some n else strlen_loop m s (n + 1))"

definition strlen :: "memory \<Rightarrow> addr \<Rightarrow> nat option" where
  "strlen m s = strlen_loop m s 0"

subsection \<open>Offsets into a region\<close>

lemma unat_of_nat_addr: "i < 2 ^ 64 \<Longrightarrow> unat (of_nat i :: addr) = i"
  by (simp add: unat_of_nat)

lemma offset_inject:
  assumes "i < 2 ^ 64" and "j < 2 ^ 64"
  shows "(a :: addr) + of_nat i = a + of_nat j \<longleftrightarrow> i = j"
proof
  assume "a + of_nat i = a + of_nat j"
  then have "unat (of_nat i :: addr) = unat (of_nat j :: addr)" by (simp only: add_left_cancel)
  then show "i = j" by (simp only: unat_of_nat_addr[OF assms(1)] unat_of_nat_addr[OF assms(2)])
qed simp

lemma offset_of: "(x :: addr) = a + of_nat (unat (x - a))"
  by simp

lemma offset_Suc: "(a :: addr) + of_nat (Suc k) = a + 1 + of_nat k"
  by (simp add: add.assoc)

lemma unat_offset:
  assumes "unat (a :: addr) + i < 2 ^ 64"
  shows "unat (a + of_nat i) = unat a + i"
  using assms by (simp add: unat_word_ariths unat_of_nat)

lemma memset_eq:
  assumes "n \<le> 2 ^ 64"
  shows "memset m a c n = (\<lambda>x. if unat (x - a) < n then c else m x)"
  using assms
proof (induction n)
  case 0
  then show ?case by (simp add: memset_def)
next
  case (Suc n)
  have "memset m a c (Suc n) = (memset m a c n)(a + of_nat n := c)"
    by (simp add: memset_def)
  moreover have "x = a + of_nat n \<longleftrightarrow> unat (x - a) = n" for x
  proof
    assume "x = a + of_nat n"
    then show "unat (x - a) = n" using unat_of_nat_addr[of n] Suc.prems by simp
  next
    assume "unat (x - a) = n"
    then show "x = a + of_nat n" using offset_of[of x a] by simp
  qed
  ultimately show ?case
    using Suc by (auto simp: fun_eq_iff less_Suc_eq)
qed

lemma copy_up_frame:
  "(\<And>k. k < n \<Longrightarrow> x \<noteq> d + of_nat k) \<Longrightarrow> copy_up m d s n x = m x"
proof (induction n arbitrary: m d s)
  case 0
  then show ?case by simp
next
  case (Suc n)
  have "x \<noteq> d + 1 + of_nat k" if "k < n" for k
    using Suc.prems[of "Suc k"] that by (metis Suc_mono offset_Suc)
  moreover have "x \<noteq> d" using Suc.prems[of 0] by simp
  ultimately show ?case using Suc.IH by simp
qed

lemma copy_up_at:
  assumes "\<And>k. 0 < k \<Longrightarrow> k < n \<Longrightarrow> d \<noteq> s + of_nat k" and "n \<le> 2 ^ 64" and "j < n"
  shows "copy_up m d s n (d + of_nat j) = m (s + of_nat j)"
  using assms
proof (induction n arbitrary: m d s j)
  case 0
  then show ?case by simp
next
  case (Suc n)
  have inner: "d + 1 \<noteq> s + 1 + of_nat k" if "0 < k" "k < n" for k
    using Suc.prems(1)[of k] that by (simp add: algebra_simps)
  show ?case
  proof (cases j)
    case 0
    have "d \<noteq> d + 1 + of_nat k" if "k < n" for k
      using offset_inject[of 0 "Suc k" d] that Suc.prems(2) by (simp add: offset_Suc)
    then show ?thesis using 0 by (simp add: copy_up_frame)
  next
    case (Suc i)
    have "copy_up (m(d := m s)) (d + 1) (s + 1) n (d + 1 + of_nat i) = (m(d := m s)) (s + 1 + of_nat i)"
      using Suc.IH[of "d + 1" "s + 1" i] inner Suc Suc.prems by simp
    moreover have "d \<noteq> s + of_nat j"
      using Suc.prems(1)[of j] Suc.prems(3) Suc by simp
    ultimately show ?thesis using Suc by (simp add: offset_Suc add.assoc)
  qed
qed

lemma copy_down_frame:
  "(\<And>k. k < n \<Longrightarrow> x \<noteq> d - 1 - of_nat k) \<Longrightarrow> copy_down m d s n x = m x"
proof (induction n arbitrary: m d s)
  case 0
  then show ?case by simp
next
  case (Suc n)
  have "x \<noteq> d - 1 - 1 - of_nat k" if "k < n" for k
    using Suc.prems[of "Suc k"] that by (simp add: algebra_simps)
  moreover have "x \<noteq> d - 1" using Suc.prems[of 0] by simp
  ultimately show ?case using Suc.IH by simp
qed

lemma copy_down_at:
  assumes "\<And>k. 0 < k \<Longrightarrow> k < n \<Longrightarrow> d \<noteq> s - of_nat k" and "n \<le> 2 ^ 64" and "j < n"
  shows "copy_down m d s n (d - 1 - of_nat j) = m (s - 1 - of_nat j)"
  using assms
proof (induction n arbitrary: m d s j)
  case 0
  then show ?case by simp
next
  case (Suc n)
  have inner: "d - 1 \<noteq> s - 1 - of_nat k" if "0 < k" "k < n" for k
    using Suc.prems(1)[of k] that by (simp add: algebra_simps)
  show ?case
  proof (cases j)
    case 0
    have "d - 1 \<noteq> d - 1 - 1 - of_nat k" if "k < n" for k
      using offset_inject[of 0 "Suc k" "- d"] that Suc.prems(2) by (simp add: algebra_simps)
    then show ?thesis using 0 by (simp add: copy_down_frame)
  next
    case (Suc i)
    have "copy_down (m(d - 1 := m (s - 1))) (d - 1) (s - 1) n (d - 1 - 1 - of_nat i)
        = (m(d - 1 := m (s - 1))) (s - 1 - 1 - of_nat i)"
      using Suc.IH[of "d - 1" "s - 1" i] inner Suc Suc.prems by simp
    moreover have "d - 1 \<noteq> s - 1 - of_nat j"
      using Suc.prems(1)[of j] Suc.prems(3) Suc by (simp add: algebra_simps)
    ultimately show ?thesis using Suc by (simp add: algebra_simps)
  qed
qed

subsection \<open>NUL-terminated strings\<close>

fun cstr :: "memory \<Rightarrow> addr \<Rightarrow> byte list \<Rightarrow> bool" where
  "cstr m a [] \<longleftrightarrow> m a = 0"
| "cstr m a (x # xs) \<longleftrightarrow> m a = x \<and> x \<noteq> 0 \<and> cstr m (a + 1) xs"

lemma cstr_cong:
  "(\<And>j. j \<le> length xs \<Longrightarrow> m' (a + of_nat j) = m (a + of_nat j)) \<Longrightarrow> cstr m a xs \<Longrightarrow> cstr m' a xs"
proof (induction xs arbitrary: a)
  case Nil
  then show ?case using Nil.prems(1)[of 0] by simp
next
  case (Cons x xs)
  have "m' (a + 1 + of_nat j) = m (a + 1 + of_nat j)" if "j \<le> length xs" for j
    using Cons.prems(1)[of "Suc j"] that by (simp add: offset_Suc add.assoc)
  moreover have "m' a = m a" using Cons.prems(1)[of 0] by simp
  ultimately show ?case using Cons.IH[of "a + 1"] Cons.prems(2) by simp
qed

lemma strlen_loop_cstr:
  "cstr m (s + of_nat k) xs \<Longrightarrow> strlen_loop m s k = Some (k + length xs)"
proof (induction xs arbitrary: k)
  case Nil
  then show ?case by (simp add: strlen_loop.simps)
next
  case (Cons x xs)
  then have "cstr m (s + of_nat (Suc k)) xs" by (simp add: algebra_simps)
  then show ?case using Cons by (simp add: strlen_loop.simps[of m s k])
qed

lemma safestrcpy_loop_frame:
  "(\<And>i. i \<le> n \<Longrightarrow> x \<noteq> s + of_nat i) \<Longrightarrow> safestrcpy_loop m s t n x = m x"
proof (induction n arbitrary: m s t)
  case 0
  then show ?case using 0[of 0] by simp
next
  case (Suc n)
  have "x \<noteq> s + 1 + of_nat i" if "i \<le> n" for i
    using Suc.prems[of "Suc i"] that by (simp add: offset_Suc add.assoc)
  moreover have "x \<noteq> s" "x \<noteq> s + 1" using Suc.prems[of 0] Suc.prems[of 1] by simp_all
  ultimately show ?case using Suc.IH by (simp add: Let_def)
qed

lemma safestrcpy_loop_cstr:
  assumes "cstr m t xs" and "n < 2 ^ 63"
    and "\<And>i j. i \<le> n \<Longrightarrow> j \<le> length xs \<Longrightarrow> s + of_nat i \<noteq> t + of_nat j"
  shows "cstr (safestrcpy_loop m s t n) s (take n xs)"
  using assms
proof (induction n arbitrary: m s t xs)
  case 0
  then show ?case by simp
next
  case (Suc n)
  have s0: "s \<noteq> s + 1 + of_nat i" if "i \<le> n" for i
    using offset_inject[of 0 "Suc i" s] that Suc.prems(2) by (simp add: offset_Suc add.assoc)
  show ?case
  proof (cases xs)
    case Nil
    then show ?thesis using Suc.prems(1) by (simp add: Let_def)
  next
    case (Cons x ys)
    let ?m = "m(s := m t)"
    have c: "cstr ?m (t + 1) ys"
    proof (rule cstr_cong)
      fix j assume "j \<le> length ys"
      then show "?m (t + 1 + of_nat j) = m (t + 1 + of_nat j)"
        using Suc.prems(3)[of 0 "Suc j"] Cons by (simp add: offset_Suc add.assoc)
    next
      show "cstr m (t + 1) ys" using Suc.prems(1) Cons by simp
    qed
    have apart: "s + 1 + of_nat i \<noteq> t + 1 + of_nat j" if "i \<le> n" "j \<le> length ys" for i j
      using Suc.prems(3)[of "Suc i" "Suc j"] that Cons by (simp add: offset_Suc add.assoc)
    have "n < 2 ^ 63" using Suc.prems(2) by simp
    from Suc.IH[OF c this apart]
    have "cstr (safestrcpy_loop ?m (s + 1) (t + 1) n) (s + 1) (take n ys)" .
    moreover have "safestrcpy_loop ?m (s + 1) (t + 1) n s = m t"
      using safestrcpy_loop_frame[of n s "s + 1" ?m "t + 1"] s0 by simp
    ultimately show ?thesis using Cons Suc.prems(1) by (auto simp: Let_def)
  qed
qed

subsection \<open>Properties of the string routines\<close>

lemma copy_down_eq:
  assumes n: "n < 2 ^ 64" and clear: "\<And>k. 0 < k \<Longrightarrow> k < n \<Longrightarrow> dst + of_nat n \<noteq> src + of_nat n - of_nat k"
  shows "copy_down m (dst + of_nat n) (src + of_nat n) n x =
    (if unat (x - dst) < n then m (src + (x - dst)) else m x)"
proof (cases "unat (x - dst) < n")
  case True
  define j where "j = n - 1 - unat (x - dst)"
  have e: "(of_nat n :: addr) - 1 - of_nat j = x - dst"
    using True by (simp add: j_def of_nat_diff)
  have "copy_down m (dst + of_nat n) (src + of_nat n) n (dst + of_nat n - 1 - of_nat j)
      = m (src + of_nat n - 1 - of_nat j)"
    by (rule copy_down_at) (use clear n True in \<open>auto simp: j_def\<close>)
  moreover have "dst + of_nat n - 1 - of_nat j = x" and "src + of_nat n - 1 - of_nat j = src + (x - dst)"
    using e by (simp_all add: algebra_simps)
  ultimately show ?thesis using True by simp
next
  case False
  have "x \<noteq> dst + of_nat n - 1 - of_nat k" if "k < n" for k
  proof
    assume "x = dst + of_nat n - 1 - of_nat k"
    then have "x - dst = of_nat (n - 1 - k)" using that by (simp add: of_nat_diff)
    then have "unat (x - dst) = n - 1 - k" using unat_of_nat_addr[of "n - 1 - k"] n by simp
    then show False using False that by simp
  qed
  then show ?thesis using False by (simp add: copy_down_frame)
qed

lemma copy_up_eq:
  assumes n: "n < 2 ^ 64" and clear: "\<And>k. 0 < k \<Longrightarrow> k < n \<Longrightarrow> dst \<noteq> src + of_nat k"
  shows "copy_up m dst src n x = (if unat (x - dst) < n then m (src + (x - dst)) else m x)"
proof (cases "unat (x - dst) < n")
  case True
  have "copy_up m dst src n (dst + of_nat (unat (x - dst))) = m (src + of_nat (unat (x - dst)))"
    by (rule copy_up_at) (use clear n True in auto)
  then show ?thesis using True by auto
next
  case False
  have "x \<noteq> dst + of_nat k" if "k < n" for k
    using False that unat_of_nat_addr[of k] n by auto
  then show ?thesis using False by (auto simp: copy_up_frame)
qed

lemma memmove_eq:
  assumes "unat src + n < 2 ^ 64" and "unat dst + n < 2 ^ 64"
  shows "memmove m dst src n = (\<lambda>x. if unat (x - dst) < n then m (src + (x - dst)) else m x)"
proof
  fix x
  have n: "n < 2 ^ 64" using assms by simp
  have us: "unat (src + of_nat k) = unat src + k" and ud: "unat (dst + of_nat k) = unat dst + k" if "k \<le> n" for k
    using unat_offset[of src k] unat_offset[of dst k] that assms by simp_all
  show "memmove m dst src n x = (if unat (x - dst) < n then m (src + (x - dst)) else m x)"
  proof (cases "src < dst \<and> src + of_nat n > dst")
    case True
    have "dst + of_nat n \<noteq> src + of_nat n - of_nat k" if "0 < k" "k < n" for k
    proof
      assume "dst + of_nat n = src + of_nat n - of_nat k"
      then have "dst + of_nat k = src" by (simp add: algebra_simps)
      then have "unat dst + k = unat src" using ud[of k] that by simp
      then show False using True by (simp add: word_less_nat_alt)
    qed
    from copy_down_eq[OF n this] show ?thesis using True by (simp add: memmove_def)
  next
    case False
    have "dst \<noteq> src + of_nat k" if "0 < k" "k < n" for k
    proof
      assume "dst = src + of_nat k"
      then have "unat dst = unat src + k" using us[of k] that by simp
      then show False using False that us[of n] by (simp add: word_less_nat_alt)
    qed
    from copy_up_eq[OF n this] show ?thesis using False by (auto simp: memmove_def)
  qed
qed

text \<open>C34: \<open>memmove\<close> copies the source region as it was before the call, whatever the
  overlap of the two regions, and changes nothing outside the destination (regions that do
  not reach the end of the address space).\<close>

theorem memmove_correct:
  assumes "unat src + n < 2 ^ 64" and "unat dst + n < 2 ^ 64"
  shows "(\<forall>i<n. memmove m dst src n (dst + of_nat i) = m (src + of_nat i))
    \<and> (\<forall>x. (\<forall>i<n. x \<noteq> dst + of_nat i) \<longrightarrow> memmove m dst src n x = m x)"
proof (intro conjI allI impI)
  fix i assume "i < n"
  then show "memmove m dst src n (dst + of_nat i) = m (src + of_nat i)"
    using assms by (simp add: memmove_eq unat_of_nat_addr)
next
  fix x assume "\<forall>i<n. x \<noteq> dst + of_nat i"
  then have "\<not> unat (x - dst) < n" using offset_of[of x dst] by metis
  then show "memmove m dst src n x = m x" using assms by (simp add: memmove_eq)
qed

theorem memmove_correct_witness:
  "memmove (\<lambda>x. ucast x) 1 0 3 (3 :: addr) = (2 :: byte)"
  using memmove_correct[of 0 3 1 "\<lambda>x. ucast x"] by (auto dest!: spec[of _ 2])

text \<open>\<open>safestrcpy\<close> into a buffer of \<open>n\<close> bytes leaves there the NUL-terminated string of
  the first \<open>n - 1\<close> bytes of the source (all of it, when it fits) and writes nothing outside
  the buffer.\<close>

theorem safestrcpy_correct:
  assumes "cstr m t xs" and "0 < n" and "n < 2 ^ 31"
    and "\<And>i j. i < nat n \<Longrightarrow> j \<le> length xs \<Longrightarrow> s + of_nat i \<noteq> t + of_nat j"
  shows "cstr (safestrcpy m s t n) s (take (nat n - 1) xs)
    \<and> (\<forall>x. (\<forall>i < nat n. x \<noteq> s + of_nat i) \<longrightarrow> safestrcpy m s t n x = m x)"
proof -
  define k where "k = nat (n - 1)"
  have k: "nat n - 1 = k" "nat n = Suc k" "k < 2 ^ 63" using assms(2,3) by (auto simp: k_def)
  have sc: "safestrcpy m s t n = safestrcpy_loop m s t k"
    using assms(2) by (simp add: safestrcpy_def k_def)
  have "cstr (safestrcpy_loop m s t k) s (take k xs)"
    by (rule safestrcpy_loop_cstr) (use assms(1,4) k in auto)
  moreover have "safestrcpy_loop m s t k x = m x" if "\<forall>i < nat n. x \<noteq> s + of_nat i" for x
    using safestrcpy_loop_frame[of k x s m t] that k by simp
  ultimately show ?thesis by (simp add: sc k)
qed

theorem safestrcpy_correct_witness:
  "cstr ((\<lambda>_. 0)(200 := 104, 201 := 105)) 200 [104, 105]
   \<and> cstr (safestrcpy ((\<lambda>_. 0)(200 := 104, 201 := 105)) 0 200 2) 0 [104]"
proof -
  let ?m = "(\<lambda>_. 0)(200 := 104, 201 := 105) :: memory"
  have c: "cstr ?m 200 [104, 105]" by simp
  have "(0::addr) + of_nat i \<noteq> 200 + of_nat j" if "i < nat 2" "j \<le> length [104 :: byte, 105]" for i j
  proof -
    have "i \<in> {0, 1}" "j \<in> {0, 1, 2}" using that by auto
    then show ?thesis by auto
  qed
  from safestrcpy_correct[OF c, of 2 0, OF _ _ this] show ?thesis using c by simp
qed

text \<open>\<open>strncmp\<close> of two strings with bound \<open>n\<close> returns 0 exactly when the strings agree up
  to their first \<open>n\<close> bytes, the comparison \<open>namecmp\<close> makes on directory entries.\<close>

theorem strncmp_zero_iff:
  assumes "cstr m p xs" and "cstr m q ys"
  shows "strncmp m p q n = 0 \<longleftrightarrow> take n xs = take n ys"
  using assms
proof (induction n arbitrary: p q xs ys)
  case 0
  then show ?case by simp
next
  case (Suc n)
  then show ?case
    by (cases xs; cases ys) (auto simp: word_uint_eq_iff)
qed

theorem strncmp_zero_iff_witness:
  "strncmp ((\<lambda>_. 0)(5 := 46, 9 := 46, 10 := 46)) 5 9 14 \<noteq> 0"
proof -
  let ?m = "(\<lambda>_. 0)(5 := 46, 9 := 46, 10 := 46) :: memory"
  have "cstr ?m 5 [46]" "cstr ?m 9 [46, 46]" by simp_all
  from strncmp_zero_iff[OF this, of 14] show ?thesis by simp
qed

lemma strlen_cstr: "cstr m s xs \<Longrightarrow> strlen m s = Some (length xs)"
  using strlen_loop_cstr[of m s 0 xs] by (simp add: strlen_def)

lemma memcmp_zero_iff: "memcmp m p q n = 0 \<longleftrightarrow> (\<forall>i < n. m (p + of_nat i) = m (q + of_nat i))"
proof (induction n arbitrary: p q)
  case 0
  then show ?case by simp
next
  case (Suc n)
  show ?case
    by (simp add: Suc.IH All_less_Suc2 word_uint_eq_iff add.assoc)
qed

lemma memset_in: "n \<le> 2 ^ 64 \<Longrightarrow> unat (x - a) < n \<Longrightarrow> memset m a c n x = c"
  by (simp add: memset_eq)

lemma memset_out: "n \<le> 2 ^ 64 \<Longrightarrow> \<not> unat (x - a) < n \<Longrightarrow> memset m a c n x = m x"
  by (simp add: memset_eq)

end
