(* ===== verification/Kalloc.thy ===== *)
theory Kalloc
  imports Kstring Kstate "HOL-Library.Multiset"
begin

text \<open>
  kernel/kalloc.c: the allocator of 4096-byte physical pages. The free pages form a linked
  list threaded through the pages themselves; \<open>kmem\<close> holds its head, the number of free
  pages and the number of pages found at boot. The theory gives the exact effect of
  \<open>kalloc\<close> and \<open>kfree\<close> on the list, shows that \<open>kinit\<close> hands every page between the end of
  the kernel and PHYSTOP to the list once, and interprets the interface of a page pool.
\<close>

unbundle bit_operations_syntax

text \<open>Alignment is stated as \<open>a mod 4096 = 0\<close>; keep the classical reasoner from
  rewriting it to divisibility.\<close>

declare mod_0_imp_dvd [rule del]

text \<open>\<open>k_end\<close>, \<open>k_etext\<close> and \<open>k_trampoline\<close> are the addresses that the linker script gives
  to the symbols \<open>end\<close>, \<open>etext\<close> and \<open>trampoline\<close>.\<close>

record mst = kst +
  mem :: memory
  freelist :: addr
  free_pages :: uint64
  total_pages :: uint64
  k_end :: addr
  k_etext :: addr
  k_trampoline :: addr
  kernel_pagetable :: addr

definition kfree :: "addr \<Rightarrow> ('a mst_scheme, unit) K" where
  "kfree pa =
     kbind (kget k_end) (\<lambda>end.
     if pa mod PGSIZE \<noteq> 0 \<or> pa < end \<or> PHYSTOP \<le> pa then kpanic ''kfree''
     else
       kthen (kmod (\<lambda>s. s\<lparr>mem := memset (mem s) pa 1 4096\<rparr>))
      (kthen (acquire KMEM_LOCK)
      (kthen (kmod (\<lambda>s. s\<lparr>mem := store64 (mem s) pa (freelist s)\<rparr>))
      (kthen (kmod (\<lambda>s. s\<lparr>freelist := pa\<rparr>))
      (kthen (kmod (\<lambda>s. s\<lparr>free_pages := free_pages s + 1\<rparr>))
             (release KMEM_LOCK))))))"

definition kalloc :: "('a mst_scheme, addr) K" where
  "kalloc =
     kthen (acquire KMEM_LOCK)
    (kbind (kget freelist) (\<lambda>r.
     kthen (kwhen (r \<noteq> 0)
             (kthen (kmod (\<lambda>s. s\<lparr>freelist := load64 (mem s) r\<rparr>))
                    (kmod (\<lambda>s. s\<lparr>free_pages := free_pages s - 1\<rparr>))))
    (kthen (release KMEM_LOCK)
    (kthen (kwhen (r \<noteq> 0) (kmod (\<lambda>s. s\<lparr>mem := memset (mem s) r 5 4096\<rparr>)))
           (kret r)))))"

text \<open>The pages \<open>p\<close> with \<open>p + PGSIZE <= pa_end\<close> that a loop from \<open>p\<close> in steps of PGSIZE visits.\<close>

definition page_range :: "addr \<Rightarrow> addr \<Rightarrow> addr list" where
  "page_range p e = map (\<lambda>k. p + of_nat k * PGSIZE) [0..<(unat e - unat p) div 4096]"

definition freerange :: "addr \<Rightarrow> addr \<Rightarrow> ('a mst_scheme, unit) K" where
  "freerange pa_start pa_end = kfor (page_range (PGROUNDUP pa_start) pa_end) kfree"

definition kinit :: "('a mst_scheme, unit) K" where
  "kinit =
     kthen (kmod (\<lambda>s. s\<lparr>free_pages := 0\<rparr>))
    (kthen (kmod (\<lambda>s. s\<lparr>total_pages := 0\<rparr>))
    (kbind (kget k_end) (\<lambda>end.
     kthen (freerange end PHYSTOP)
           (kmod (\<lambda>s. s\<lparr>total_pages := free_pages s\<rparr>)))))"

definition get_memory_stats :: "('a mst_scheme, uint64 \<times> uint64) K" where
  "get_memory_stats = with_lock KMEM_LOCK (kget (\<lambda>s. (free_pages s, total_pages s)))"

subsection \<open>Filling a page\<close>

definition page_fill :: "memory \<Rightarrow> addr \<Rightarrow> byte \<Rightarrow> memory" where
  "page_fill m p c = (\<lambda>a. if PGROUNDDOWN a = p then c else m a)"

lemma in_page_iff:
  assumes "p mod 4096 = 0"
  shows "unat (a - p) < 4096 \<longleftrightarrow> PGROUNDDOWN a = p"
proof
  assume "unat (a - p) < 4096"
  then show "PGROUNDDOWN a = p" using PGROUNDDOWN_add[OF assms, of "a - p"] by simp
next
  assume "PGROUNDDOWN a = p"
  then show "unat (a - p) < 4096" using PGROUNDDOWN_offset[of a] by simp
qed

lemma memset_page: "p mod 4096 = 0 \<Longrightarrow> memset m p c 4096 = page_fill m p c"
  by (simp add: memset_eq page_fill_def in_page_iff)

lemma page_fill_in [simp]: "PGROUNDDOWN a = p \<Longrightarrow> page_fill m p c a = c"
  and page_fill_out [simp]: "PGROUNDDOWN a \<noteq> p \<Longrightarrow> page_fill m p c a = m a"
  by (simp_all add: page_fill_def)

lemma store64_first_other:
  assumes "(p :: addr) mod 4096 = 0" and "PGROUNDDOWN a \<noteq> p"
  shows "store64 m p v a = m a"
  using store64_page_other[OF assms(1), of 0 a m v] assms(2) by simp

lemma load64_first_cong:
  assumes "(p :: addr) mod 4096 = 0" and "\<And>a. PGROUNDDOWN a = p \<Longrightarrow> m a = m' a"
  shows "load64 m p = load64 m' p"
  using load64_page_cong[OF assms(1), of 0 m m'] assms(2) by simp

subsection \<open>The free list\<close>

primrec fl :: "memory \<Rightarrow> addr \<Rightarrow> addr list \<Rightarrow> bool" where
  "fl m a [] \<longleftrightarrow> a = 0"
| "fl m a (x # xs) \<longleftrightarrow> a = x \<and> x \<noteq> 0 \<and> fl m (load64 m x) xs"

definition page_ok :: "addr \<Rightarrow> addr \<Rightarrow> bool" where
  "page_ok e p \<longleftrightarrow> p mod 4096 = 0 \<and> e \<le> p \<and> p < PHYSTOP \<and> 0 < e"

definition kmem_inv :: "'a mst_scheme \<Rightarrow> addr list \<Rightarrow> bool" where
  "kmem_inv s xs \<longleftrightarrow> fl (mem s) (freelist s) xs \<and> distinct xs \<and> (\<forall>x\<in>set xs. page_ok (k_end s) x)
     \<and> free_pages s = of_nat (length xs) \<and> 0 < k_end s"

lemma page_ok_facts:
  assumes "page_ok e p"
  shows "p mod 4096 = 0" "p \<noteq> 0" "PGROUNDDOWN p = p" "p < 2 ^ 56" "0 < e"
proof -
  show a: "p mod 4096 = 0" and "0 < e" and "p \<noteq> 0"
    using assms unfolding page_ok_def by (blast, blast, auto)
  show "PGROUNDDOWN p = p" using PGROUNDDOWN_id[OF a] .
  have "p < PHYSTOP" using assms unfolding page_ok_def by blast
  then show "p < 2 ^ 56" by (rule less_trans) (simp add: PHYSTOP_eq)
qed

lemma fl_cong:
  assumes "\<And>x a. x \<in> set xs \<Longrightarrow> PGROUNDDOWN a = x \<Longrightarrow> m a = m' a" and "\<forall>x\<in>set xs. x mod 4096 = 0"
  shows "fl m a xs = fl m' a xs"
  using assms
proof (induction xs arbitrary: a)
  case Nil
  then show ?case by simp
next
  case (Cons x xs)
  then have "load64 m x = load64 m' x" by (intro load64_first_cong) auto
  moreover have "fl m b xs = fl m' b xs" for b by (rule Cons.IH) (use Cons.prems in auto)
  ultimately show ?case by simp
qed

lemma kmem_invD:
  assumes "kmem_inv s xs"
  shows "fl (mem s) (freelist s) xs" "distinct xs" "x \<in> set xs \<Longrightarrow> page_ok (k_end s) x"
    "free_pages s = of_nat (length xs)" "0 < k_end s"
  using assms by (auto simp: kmem_inv_def)

lemma kmem_aligned: "kmem_inv s xs \<Longrightarrow> \<forall>x\<in>set xs. x mod 4096 = 0"
  by (meson kmem_invD(3) page_ok_facts(1))

text \<open>The invariant is insensitive to everything but the free pages themselves.\<close>

lemma kmem_inv_cong:
  assumes "kmem_inv s xs" and "freelist t = freelist s" "free_pages t = free_pages s" "k_end t = k_end s"
    and "\<And>x a. x \<in> set xs \<Longrightarrow> PGROUNDDOWN a = x \<Longrightarrow> mem t a = mem s a"
  shows "kmem_inv t xs"
proof -
  have "fl (mem t) (freelist s) xs = fl (mem s) (freelist s) xs"
    by (rule fl_cong) (use assms(5) kmem_aligned[OF assms(1)] in blast)+
  then show ?thesis using assms by (auto simp: kmem_inv_def)
qed

subsection \<open>The effect of kfree and kalloc\<close>

definition freed :: "addr \<Rightarrow> 'a mst_scheme \<Rightarrow> 'a mst_scheme" where
  "freed p s = s\<lparr>mem := store64 (page_fill (mem s) p 1) p (freelist s), freelist := p,
     free_pages := free_pages s + 1\<rparr>"

definition taken :: "addr \<Rightarrow> 'a mst_scheme \<Rightarrow> 'a mst_scheme" where
  "taken p s = s\<lparr>freelist := load64 (mem s) p, free_pages := free_pages s - 1, mem := page_fill (mem s) p 5\<rparr>"

lemma kfree_exec:
  assumes "page_ok (k_end s) p" and "KMEM_LOCK \<notin> held s"
  shows "kfree p s = Done () (freed p s)"
  using assms by (simp add: kfree_def kexec page_ok_def PGSIZE_def memset_page freed_def not_le not_less)

lemma kfree_panic:
  "\<not> (p mod 4096 = 0 \<and> k_end s \<le> p \<and> p < PHYSTOP) \<Longrightarrow> kfree p s = Panic ''kfree''"
  by (auto simp: kfree_def kexec PGSIZE_def not_le not_less)

lemma kalloc_exec:
  assumes "kmem_inv s (p # xs)" and "KMEM_LOCK \<notin> held s"
  shows "kalloc s = Done p (taken p s)"
proof -
  have "freelist s = p" "p \<noteq> 0" using kmem_invD(1)[OF assms(1)] by auto
  moreover have "p mod 4096 = 0" using kmem_invD(3)[OF assms(1), of p] page_ok_facts(1) by auto
  ultimately show ?thesis using assms(2) by (simp add: kalloc_def kexec memset_page taken_def)
qed

lemma kalloc_empty:
  assumes "kmem_inv s []" and "KMEM_LOCK \<notin> held s"
  shows "kalloc s = Done 0 s"
  using assms kmem_invD(1)[OF assms(1)] by (simp add: kalloc_def kexec)

lemma freed_mem: "page_ok e p \<Longrightarrow> PGROUNDDOWN a \<noteq> p \<Longrightarrow> mem (freed p s) a = mem s a"
  by (simp add: freed_def store64_first_other page_ok_def)

lemma taken_mem: "mem (taken p s) = page_fill (mem s) p 5"
  by (simp add: taken_def)

lemma freed_frame [simp]:
  "held (freed p s) = held s" "procs (freed p s) = procs s" "cur (freed p s) = cur s"
  "k_end (freed p s) = k_end s" "intr (freed p s) = intr s" "total_pages (freed p s) = total_pages s"
  "kernel_pagetable (freed p s) = kernel_pagetable s" "mst.more (freed p s) = mst.more s"
  by (simp_all add: freed_def)

lemma taken_frame [simp]:
  "held (taken p s) = held s" "procs (taken p s) = procs s" "cur (taken p s) = cur s"
  "k_end (taken p s) = k_end s" "intr (taken p s) = intr s" "total_pages (taken p s) = total_pages s"
  "kernel_pagetable (taken p s) = kernel_pagetable s" "mst.more (taken p s) = mst.more s"
  by (simp_all add: taken_def)

lemma freed_inv:
  assumes i: "kmem_inv s xs" and p: "page_ok (k_end s) p" and n: "p \<notin> set xs"
  shows "kmem_inv (freed p s) (p # xs)"
proof -
  have "fl (mem (freed p s)) (freelist s) xs = fl (mem s) (freelist s) xs"
    by (rule fl_cong[OF _ kmem_aligned[OF i]], rule freed_mem[OF p]) (use n in auto)
  moreover have "load64 (mem (freed p s)) p = freelist s" by (simp add: freed_def)
  ultimately show ?thesis
    using i p n page_ok_facts[OF p] by (simp add: kmem_inv_def) (simp add: freed_def add.commute)
qed

lemma taken_inv:
  assumes i: "kmem_inv s (p # xs)"
  shows "kmem_inv (taken p s) xs"
proof -
  have "fl (mem (taken p s)) (load64 (mem s) p) xs = fl (mem s) (load64 (mem s) p) xs"
    by (rule fl_cong)
      (use kmem_invD(2)[OF i] kmem_aligned[OF i] in \<open>auto simp: taken_mem page_fill_def\<close>)
  then show ?thesis using i by (auto simp: kmem_inv_def taken_def)
qed

subsection \<open>The interface of a page pool and its clients\<close>

text \<open>A client asks for pages and gives back pages it owns; \<open>serve\<close> runs a sequence of such
  requests, \<open>Put i\<close> returning the page at position \<open>i\<close> of the client's list.\<close>

datatype page_req = Get | Put nat

fun serve :: "('s, addr) K \<Rightarrow> (addr \<Rightarrow> ('s, unit) K) \<Rightarrow> page_req list \<Rightarrow> addr list \<Rightarrow> ('s, addr list) K" where
  "serve alloc dealloc [] own = kret own"
| "serve alloc dealloc (Get # rs) own =
     kbind alloc (\<lambda>p. serve alloc dealloc rs (if p = 0 then own else p # own))"
| "serve alloc dealloc (Put i # rs) own =
     (if i < length own
      then kthen (dealloc (own ! i)) (serve alloc dealloc rs (take i own @ drop (Suc i) own))
      else serve alloc dealloc rs own)"

locale page_pool =
  fixes pool :: "'s \<Rightarrow> addr list \<Rightarrow> bool" and usable :: "'s \<Rightarrow> addr \<Rightarrow> bool"
    and alloc :: "('s, addr) K" and dealloc :: "addr \<Rightarrow> ('s, unit) K"
  assumes alloc_some: "pool s (p # xs) \<Longrightarrow> \<exists>t. alloc s = Done p t \<and> pool t xs \<and> usable t = usable s"
    and alloc_none: "pool s [] \<Longrightarrow> alloc s = Done 0 s"
    and dealloc_ok: "pool s xs \<Longrightarrow> usable s p \<Longrightarrow> p \<notin> set xs \<Longrightarrow>
      \<exists>t. dealloc p s = Done () t \<and> pool t (p # xs) \<and> usable t = usable s"
    and pool_distinct: "pool s xs \<Longrightarrow> distinct xs"
    and pool_usable: "pool s xs \<Longrightarrow> x \<in> set xs \<Longrightarrow> usable s x \<and> x \<noteq> 0"
begin

lemma serve_conserves:
  assumes "pool s xs" and "\<forall>x\<in>set own. usable s x" and "distinct (own @ xs)"
  shows "\<exists>own' t xs'. serve alloc dealloc rs own s = Done own' t \<and> pool t xs' \<and> usable t = usable s
    \<and> mset (own' @ xs') = mset (own @ xs)"
  using assms
proof (induction rs arbitrary: s own xs)
  case Nil
  then show ?case by (auto simp: kexec)
next
  case (Cons r rs)
  show ?case
  proof (cases r)
    case Get
    show ?thesis
    proof (cases xs)
      case Nil
      then show ?thesis using Cons.IH[of s xs own] Cons.prems Get alloc_none[of s] by (auto simp: kexec)
    next
      case (Cons p ys)
      then obtain t where t: "alloc s = Done p t" "pool t ys" "usable t = usable s"
        using alloc_some[of s p ys] Cons.prems(1) by auto
      have "p \<noteq> 0" "usable s p" using pool_usable[of s xs p] Cons.prems(1) Cons by auto
      then have "\<exists>own' t' xs'. serve alloc dealloc rs (p # own) t = Done own' t' \<and> pool t' xs'
          \<and> usable t' = usable t \<and> mset (own' @ xs') = mset ((p # own) @ ys)"
        using Cons.prems(2,3) t Cons by (intro Cons.IH) auto
      then show ?thesis using t Get \<open>p \<noteq> 0\<close> Cons by (fastforce simp: kexec)
    qed
  next
    case (Put i)
    show ?thesis
    proof (cases "i < length own")
      case False
      then show ?thesis using Cons.IH[OF Cons.prems] Put by simp
    next
      case True
      let ?own = "take i own @ drop (Suc i) own"
      have m: "mset own = add_mset (own ! i) (mset ?own)"
        using True by (metis id_take_nth_drop mset_append mset.simps(2) union_mset_add_mset_right)
      have d: "distinct (own ! i # ?own @ xs)" and sub: "set ?own \<subseteq> set own"
        using Cons.prems(3) m by (metis append_Cons distinct_append mset.simps(2) mset_append mset_eq_imp_distinct_iff,
            auto dest: in_set_takeD in_set_dropD)
      obtain t where t: "dealloc (own ! i) s = Done () t" "pool t (own ! i # xs)" "usable t = usable s"
        using dealloc_ok[OF Cons.prems(1), of "own ! i"] Cons.prems(2) True d by auto
      have e: "mset (?own @ own ! i # xs) = mset (own @ xs)" using m by simp
      have "\<exists>own' t' xs'. serve alloc dealloc rs ?own t = Done own' t' \<and> pool t' xs'
          \<and> usable t' = usable t \<and> mset (own' @ xs') = mset (?own @ own ! i # xs)"
        by (rule Cons.IH) (use t d sub Cons.prems(2) in auto)
      then show ?thesis using t Put True unfolding e by (simp add: kexec del: mset_append)
    qed
  qed
qed

end

interpretation kmem: page_pool "\<lambda>s xs. kmem_inv s xs \<and> KMEM_LOCK \<notin> held (s :: 'a mst_scheme)"
  "\<lambda>s. page_ok (k_end s)" kalloc kfree
proof (unfold_locales, goal_cases)
  case (1 s p xs)
  then show ?case using kalloc_exec[of s p xs] taken_inv[of s p xs] by auto
next
  case (2 s)
  then show ?case using kalloc_empty by blast
next
  case (3 s xs p)
  then show ?case using kfree_exec[of s p] freed_inv[of s xs p] by auto
next
  case (4 s xs)
  then show ?case using kmem_invD(2) by blast
next
  case (5 s xs x)
  then show ?case using kmem_invD(3) page_ok_facts(2) by blast
qed

text \<open>C20: pages are neither handed out twice nor lost. From a consistent allocator every sequence
  of requests of a client that gives back only pages it owns runs to the end without a panic;
  the pages the client owns then and the pages of the free list are pairwise distinct and are
  together exactly the pages that were free at the start.\<close>

theorem kalloc_conserves_pages:
  assumes "kmem_inv s xs" and "KMEM_LOCK \<notin> held s"
  shows "\<exists>own t ys. serve kalloc kfree rs [] s = Done own t \<and> kmem_inv t ys
    \<and> distinct (own @ ys) \<and> set own \<union> set ys = set xs"
proof -
  obtain own t ys where r: "serve kalloc kfree rs [] s = Done own t" "kmem_inv t ys"
      "mset (own @ ys) = mset ([] @ xs)"
    using kmem.serve_conserves[of s xs "[]" rs] assms kmem_invD(2)[OF assms(1)] by auto
  have e: "mset (own @ ys) = mset xs" using r(3) by simp
  have "distinct (own @ ys)" using mset_eq_imp_distinct_iff[OF e] kmem_invD(2)[OF assms(1)] by blast
  moreover have "set own \<union> set ys = set xs" using mset_eq_setD[OF e] by simp
  ultimately show ?thesis using r(1,2) by blast
qed

subsection \<open>kinit\<close>

text \<open>The kernel of kernel.ld at boot, with the symbol \<open>end\<close> at \<open>e\<close>.\<close>

definition boot_mst :: "addr \<Rightarrow> mst" where
  "boot_mst e = kst.extend boot_kst \<lparr>mem = (\<lambda>_. 0), freelist = 0, free_pages = 0, total_pages = 0,
     k_end = e, k_etext = KERNBASE + 0x8000, k_trampoline = KERNBASE + 0x7000, kernel_pagetable = 0\<rparr>"

lemma boot_mst_simps [simp]:
  "held (boot_mst e) = {}" "freelist (boot_mst e) = 0" "free_pages (boot_mst e) = 0" "k_end (boot_mst e) = e"
  "mem (boot_mst e) a = 0"
  by (simp_all add: boot_mst_def kst.extend_def boot_kst_def)

lemma boot_mst_inv: "0 < e \<Longrightarrow> kmem_inv (boot_mst e) []"
  by (simp add: kmem_inv_def)

theorem kalloc_conserves_pages_witness:
  "\<exists>own t ys. serve kalloc kfree [Get, Get, Put 0, Get] [] (freed 0x87FFF000 (boot_mst 0x80020000)) = Done own t
     \<and> kmem_inv t ys \<and> distinct (own @ ys) \<and> set own \<union> set ys = {0x87FFF000}"
proof -
  have p: "page_ok (k_end (boot_mst 0x80020000)) 0x87FFF000"
    by (simp add: page_ok_def PHYSTOP_eq)
  have "kmem_inv (freed 0x87FFF000 (boot_mst 0x80020000)) [0x87FFF000]"
    using freed_inv[OF boot_mst_inv p] by simp
  from kalloc_conserves_pages[OF this, of "[Get, Get, Put 0, Get]"] show ?thesis by (simp del: serve.simps)
qed

lemma page_range_nth:
  assumes "p mod 4096 = 0" and "k < (unat (e :: addr) - unat p) div 4096"
  shows "unat (p + of_nat k * PGSIZE) = unat p + k * 4096"
proof -
  have "unat p + k * 4096 < unat e" using assms(2) by linarith
  moreover have "unat e < 2 ^ 64" by (rule unat_lt64)
  ultimately have l: "unat p + k * 4096 < 2 ^ 64" "k * 4096 < 2 ^ 64" by linarith+
  have "unat (of_nat k * PGSIZE) = k * 4096"
    using l(2) by (simp add: PGSIZE_def unat_word_ariths unat_of_nat mod_mult_left_eq)
  then show ?thesis using l(1) by (simp add: unat_word_ariths)
qed

lemma set_page_range:
  assumes "p mod 4096 = 0" and "e mod 4096 = 0"
  shows "set (page_range p e) = {a. a mod 4096 = 0 \<and> p \<le> a \<and> a < e}"
proof (intro set_eqI iffI)
  fix a assume "a \<in> set (page_range p e)"
  then obtain k where k: "k < (unat e - unat p) div 4096" and a: "a = p + of_nat k * PGSIZE"
    by (auto simp: page_range_def)
  have u: "unat a = unat p + k * 4096" using page_range_nth[OF assms(1) k] a by simp
  have m: "unat a mod 4096 = 0" using u assms(1) by (simp add: aligned_unat)
  have lt: "unat a < unat e" using u k by simp
  show "a \<in> {a. a mod 4096 = 0 \<and> p \<le> a \<and> a < e}"
    unfolding mem_Collect_eq word_le_nat_alt word_less_nat_alt
    using u aligned_unat[of a] m lt by simp
next
  fix a assume "a \<in> {a. a mod 4096 = 0 \<and> p \<le> a \<and> a < e}"
  then have a: "unat a mod 4096 = 0" "unat p \<le> unat a" "unat a < unat e"
    by (simp_all add: aligned_unat word_le_nat_alt word_less_nat_alt)
  define k where "k = (unat a - unat p) div 4096"
  have pm: "unat p mod 4096 = 0" "unat e mod 4096 = 0" using assms by (simp_all add: aligned_unat)
  have dv: "4096 dvd unat a - unat p" "4096 dvd unat e - unat p"
    using a(1) pm by (auto intro!: dvd_diff_nat simp: mod_eq_0_iff_dvd)
  have ka: "unat a = unat p + k * 4096" using dv(1) a(2) unfolding k_def by simp
  have "k < (unat e - unat p) div 4096"
    unfolding k_def by (rule div_less_mono) (use dv a(2,3) in \<open>auto simp: mod_eq_0_iff_dvd\<close>)
  moreover from page_range_nth[OF assms(1) this] ka have "a = p + of_nat k * PGSIZE"
    by (simp add: word_unat_eq_iff)
  ultimately show "a \<in> set (page_range p e)" by (auto simp: page_range_def)
qed

lemma distinct_page_range:
  assumes "p mod 4096 = 0"
  shows "distinct (page_range p e)"
  unfolding page_range_def distinct_map
  using page_range_nth[OF assms] by (auto intro!: inj_onI) (metis add_left_cancel mult_right_cancel zero_neq_numeral)

lemma PHYSTOP_aligned: "PHYSTOP mod 4096 = 0"
  by (simp add: PHYSTOP_eq)

lemma free_region:
  assumes "0 < e" and "e \<le> PHYSTOP"
  shows "set (page_range (PGROUNDUP e) PHYSTOP) = {p. page_ok e p}"
proof -
  have e: "unat e \<le> 0x88000000" using assms(2) by (simp add: PHYSTOP_eq word_le_nat_alt)
  have u: "unat (PGROUNDUP e) = (unat e + 4095) div 4096 * 4096"
    by (rule unat_PGROUNDUP) (use e in simp)
  have "PGROUNDUP e \<le> p \<longleftrightarrow> e \<le> p" if "p mod 4096 = 0" for p
  proof -
    define q where "q = unat p div 4096"
    have q: "unat p = q * 4096"
      using that unfolding aligned_unat mod_eq_0_iff_dvd q_def by simp
    have "(unat e + 4095) div 4096 < Suc q \<longleftrightarrow> unat e + 4095 < Suc q * 4096"
      by (rule div_less_iff_less_mult) simp
    then have "(unat e + 4095) div 4096 * 4096 \<le> unat p \<longleftrightarrow> unat e \<le> unat p" unfolding q by auto
    then show ?thesis by (simp add: word_le_nat_alt u)
  qed
  then show ?thesis
    using assms(1) unfolding page_ok_def set_page_range[OF PGROUNDUP_aligned PHYSTOP_aligned] by blast
qed

lemma freerange_runs:
  assumes "kmem_inv s []" and "KMEM_LOCK \<notin> held s" and "k_end s \<le> PHYSTOP"
  shows "runs (freerange (k_end s) PHYSTOP) s (\<lambda>_ t. kmem_inv t (rev (page_range (PGROUNDUP (k_end s)) PHYSTOP))
    \<and> held t = held s \<and> procs t = procs s \<and> k_end t = k_end s)"
proof -
  let ?ps = "page_range (PGROUNDUP (k_end s)) PHYSTOP"
  let ?I = "\<lambda>i t. kmem_inv t (rev (take i ?ps)) \<and> held t = held s \<and> procs t = procs s \<and> k_end t = k_end s"
  have ok: "page_ok (k_end s) (?ps ! i)" if "i < length ?ps" for i
    using free_region[OF kmem_invD(5)[OF assms(1)] assms(3)] nth_mem[OF that] by blast
  have d: "distinct ?ps" by (rule distinct_page_range) simp
  have "runs (kfree (?ps ! i)) t (\<lambda>_ u. ?I (Suc i) u)" if "i < length ?ps" "?I i t" for i t
  proof -
    have "?ps ! i \<notin> set (rev (take i ?ps))"
      using d that(1) by (auto simp: in_set_conv_nth nth_eq_iff_index_eq)
    then have "kmem_inv (freed (?ps ! i) t) (?ps ! i # rev (take i ?ps))"
      using freed_inv[of t "rev (take i ?ps)" "?ps ! i"] that ok[OF that(1)] by simp
    then show ?thesis
      using kfree_exec[of t "?ps ! i"] that ok[OF that(1)] assms(2)
      by (simp add: runs_def take_Suc_conv_app_nth)
  qed
  then have "runs (kfor ?ps kfree) s (\<lambda>_ t. ?I (length ?ps) t)"
    by (intro runs_kfor) (use assms in auto)
  then show ?thesis by (simp add: freerange_def)
qed

text \<open>At boot \<open>kinit\<close> puts every whole page between the end of the kernel and PHYSTOP on the
  free list, each once, and records their number as both the free and the total page count.\<close>

theorem kinit_frees_all_memory:
  assumes "freelist s = 0" and "0 < k_end s" and "k_end s \<le> PHYSTOP" and "KMEM_LOCK \<notin> held s"
  shows "runs kinit s (\<lambda>_ t. \<exists>xs. kmem_inv t xs \<and> set xs = {p. page_ok (k_end s) p}
    \<and> total_pages t = of_nat (length xs) \<and> free_pages t = total_pages t \<and> procs t = procs s)"
proof -
  let ?s = "s\<lparr>free_pages := 0, total_pages := 0\<rparr>"
  let ?xs = "rev (page_range (PGROUNDUP (k_end s)) PHYSTOP)"
  have "kmem_inv ?s []" using assms by (simp add: kmem_inv_def)
  then have "runs (freerange (k_end s) PHYSTOP) ?s (\<lambda>_ t. kmem_inv t ?xs \<and> procs t = procs s)"
    using freerange_runs[of ?s] assms by (auto elim: runs_weaken)
  moreover have "kmem_inv (t\<lparr>total_pages := free_pages t\<rparr>) xs \<longleftrightarrow> kmem_inv t xs" for t :: "'a mst_scheme" and xs
    by (simp add: kmem_inv_def)
  ultimately show ?thesis
    using free_region[OF assms(2,3)]
    by (auto simp: kinit_def runs_rules elim!: runs_weaken intro!: exI[of _ ?xs] dest: kmem_invD(4))
qed

theorem kinit_frees_all_memory_witness:
  "runs kinit (boot_mst 0x80021000) (\<lambda>_ t. \<exists>xs. kmem_inv t xs \<and> set xs = {p. page_ok 0x80021000 p}
     \<and> free_pages t = of_nat (length xs))"
  using kinit_frees_all_memory[of "boot_mst 0x80021000"]
  by (auto simp: PHYSTOP_eq elim!: runs_weaken)

end
