(* ===== verification/Vm.thy ===== *)
theory Vm
  imports Kalloc
begin

text \<open>
  kernel/vm.c: Sv39 page tables in physical memory. A page table is the address of its root
  page; the functions below walk, extend and tear down the three-level tree with loads and
  stores of 64-bit entries, allocate and free pages with kalloc.c, and move bytes between the
  kernel and user memory. Results of type \<open>int\<close> are the C return values (0, -1).

  A \<open>for\<close> loop over page addresses runs over the list of the addresses it visits;
  \<open>copyout\<close>, \<open>copyin\<close> and \<open>copyinstr\<close> recurse on the number of bytes left. \<open>copyin\<close> and
  \<open>copyinstr\<close> return the bytes they have written to the kernel buffer along with the result.
\<close>

unbundle bit_operations_syntax

declare mod_0_imp_dvd [rule del]

definition set_mem :: "(memory \<Rightarrow> memory) \<Rightarrow> ('a mst_scheme, unit) K" where
  "set_mem f = kmod (\<lambda>s. s\<lparr>mem := f (mem s)\<rparr>)"

definition load :: "addr \<Rightarrow> ('a mst_scheme, uint64) K" where
  "load a = kget (\<lambda>s. load64 (mem s) a)"

definition store :: "addr \<Rightarrow> uint64 \<Rightarrow> ('a mst_scheme, unit) K" where
  "store a v = set_mem (\<lambda>m. store64 m a v)"

text \<open>The addresses \<open>a\<close>, \<open>a + PGSIZE\<close>, ... below \<open>e\<close>.\<close>

definition addrs_below :: "uint64 \<Rightarrow> uint64 \<Rightarrow> uint64 list" where
  "addrs_below a e = map (\<lambda>k. a + of_nat k * PGSIZE) [0..<(unat e - unat a + 4095) div 4096]"

subsection \<open>Walking and mapping\<close>

primrec walk_loop :: "nat \<Rightarrow> addr \<Rightarrow> uint64 \<Rightarrow> bool \<Rightarrow> ('a mst_scheme, addr) K" where
  "walk_loop 0 pagetable va alloc = kret (pagetable + 8 * PX 0 va)"
| "walk_loop (Suc l) pagetable va alloc =
     (let pte = pagetable + 8 * PX (Suc l) va in
      kbind (load pte) (\<lambda>e.
      if e AND PTE_V \<noteq> 0 then walk_loop l (PTE2PA e) va alloc
      else if \<not> alloc then kret 0
      else kbind kalloc (\<lambda>pg.
        if pg = 0 then kret 0
        else kthen (set_mem (\<lambda>m. memset m pg 0 4096))
            (kthen (store pte (PA2PTE pg OR PTE_V)) (walk_loop l pg va alloc)))))"

definition walk :: "addr \<Rightarrow> uint64 \<Rightarrow> bool \<Rightarrow> ('a mst_scheme, addr) K" where
  "walk pagetable va alloc =
     (if MAXVA \<le> va then kpanic ''walk'' else walk_loop 2 pagetable va alloc)"

definition walkaddr :: "addr \<Rightarrow> uint64 \<Rightarrow> ('a mst_scheme, addr) K" where
  "walkaddr pagetable va =
     (if MAXVA \<le> va then kret 0
      else kbind (walk pagetable va False) (\<lambda>pte.
        if pte = 0 then kret 0
        else kbind (load pte) (\<lambda>e.
          if e AND PTE_V = 0 then kret 0
          else if e AND PTE_U = 0 then kret 0
          else kret (PTE2PA e))))"

definition map_one :: "addr \<Rightarrow> uint64 \<Rightarrow> uint64 \<Rightarrow> uint64 \<Rightarrow> ('a mst_scheme, int option) K" where
  "map_one pagetable perm a pa =
     kbind (walk pagetable a True) (\<lambda>pte.
     if pte = 0 then kret (Some (- 1))
     else kbind (load pte) (\<lambda>e.
       if e AND PTE_V \<noteq> 0 then kpanic ''mappages: remap''
       else kthen (store pte (PA2PTE pa OR perm OR PTE_V)) (kret None)))"

definition or_ret :: "'b \<Rightarrow> ('s, 'b option) K \<Rightarrow> ('s, 'b) K" where
  "or_ret x m = kbind m (\<lambda>r. case r of None \<Rightarrow> kret x | Some y \<Rightarrow> kret y)"

definition mappages :: "addr \<Rightarrow> uint64 \<Rightarrow> uint64 \<Rightarrow> uint64 \<Rightarrow> uint64 \<Rightarrow> ('a mst_scheme, int) K" where
  "mappages pagetable va sz pa perm =
     (if va mod PGSIZE \<noteq> 0 then kpanic ''mappages: va not aligned''
      else if sz mod PGSIZE \<noteq> 0 then kpanic ''mappages: size not aligned''
      else if sz = 0 then kpanic ''mappages: size''
      else or_ret 0 (kscan [0..<unat (sz div PGSIZE)]
             (\<lambda>k. map_one pagetable perm (va + of_nat k * PGSIZE) (pa + of_nat k * PGSIZE))))"

definition kvmmap :: "addr \<Rightarrow> uint64 \<Rightarrow> uint64 \<Rightarrow> uint64 \<Rightarrow> uint64 \<Rightarrow> ('a mst_scheme, unit) K" where
  "kvmmap kpgtbl va pa sz perm =
     kbind (mappages kpgtbl va sz pa perm) (\<lambda>r. if r \<noteq> 0 then kpanic ''kvmmap'' else kskip)"

definition proc_mapstacks :: "addr \<Rightarrow> ('a mst_scheme, unit) K" where
  "proc_mapstacks kpgtbl =
     kfor [0..<NPROC] (\<lambda>p.
       kbind kalloc (\<lambda>pa.
       if pa = 0 then kpanic ''kalloc''
       else kvmmap kpgtbl (KSTACK p) pa PGSIZE (PTE_R OR PTE_W)))"

definition kvmmake :: "('a mst_scheme, addr) K" where
  "kvmmake =
     kbind kalloc (\<lambda>kpgtbl.
     kthen (set_mem (\<lambda>m. memset m kpgtbl 0 4096))
    (kthen (kvmmap kpgtbl UART0 UART0 PGSIZE (PTE_R OR PTE_W))
    (kthen (kvmmap kpgtbl VIRTIO0 VIRTIO0 PGSIZE (PTE_R OR PTE_W))
    (kthen (kvmmap kpgtbl PLIC PLIC 0x400000 (PTE_R OR PTE_W))
    (kbind (kget k_etext) (\<lambda>etext.
     kthen (kvmmap kpgtbl KERNBASE KERNBASE (etext - KERNBASE) (PTE_R OR PTE_X))
    (kthen (kvmmap kpgtbl etext etext (PHYSTOP - etext) (PTE_R OR PTE_W))
    (kbind (kget k_trampoline) (\<lambda>trampoline.
     kthen (kvmmap kpgtbl TRAMPOLINE trampoline PGSIZE (PTE_R OR PTE_X))
    (kthen (proc_mapstacks kpgtbl)
           (kret kpgtbl)))))))))))"

definition kvminit :: "('a mst_scheme, unit) K" where
  "kvminit = kbind kvmmake (\<lambda>pt. kmod (\<lambda>s. s\<lparr>kernel_pagetable := pt\<rparr>))"

subsection \<open>User address spaces\<close>

definition unmap_one :: "addr \<Rightarrow> bool \<Rightarrow> uint64 \<Rightarrow> ('a mst_scheme, unit) K" where
  "unmap_one pagetable do_free a =
     kbind (walk pagetable a False) (\<lambda>pte.
     if pte = 0 then kskip
     else kbind (load pte) (\<lambda>e.
       if e AND PTE_V = 0 then kskip
       else if PTE_FLAGS e = PTE_V then kpanic ''uvmunmap: not a leaf''
       else kthen (kwhen do_free (kfree (PTE2PA e))) (store pte 0)))"

definition uvmunmap :: "addr \<Rightarrow> uint64 \<Rightarrow> uint64 \<Rightarrow> bool \<Rightarrow> ('a mst_scheme, unit) K" where
  "uvmunmap pagetable va npages do_free =
     (if va mod PGSIZE \<noteq> 0 then kpanic ''uvmunmap: not aligned''
      else kfor (addrs_below va (va + npages * PGSIZE)) (unmap_one pagetable do_free))"

definition uvmcreate :: "('a mst_scheme, addr) K" where
  "uvmcreate =
     kbind kalloc (\<lambda>pagetable.
     if pagetable = 0 then kret 0
     else kthen (set_mem (\<lambda>m. memset m pagetable 0 4096)) (kret pagetable))"

text \<open>Writing the bytes of a kernel buffer to memory, and reading memory into one.\<close>

primrec poke :: "memory \<Rightarrow> addr \<Rightarrow> byte list \<Rightarrow> memory" where
  "poke m a [] = m"
| "poke m a (b # bs) = poke (m(a := b)) (a + 1) bs"

definition peek :: "memory \<Rightarrow> addr \<Rightarrow> nat \<Rightarrow> byte list" where
  "peek m a n = map (\<lambda>i. m (a + of_nat i)) [0..<n]"

definition uvmfirst :: "addr \<Rightarrow> byte list \<Rightarrow> ('a mst_scheme, unit) K" where
  "uvmfirst pagetable src =
     (if 4096 \<le> length src then kpanic ''uvmfirst: more than a page''
      else kbind kalloc (\<lambda>mem'.
        kthen (set_mem (\<lambda>m. memset m mem' 0 4096))
       (kthen (mappages pagetable 0 PGSIZE mem' (PTE_W OR PTE_R OR PTE_X OR PTE_U))
              (set_mem (\<lambda>m. poke m mem' src)))))"

definition uvmdealloc :: "addr \<Rightarrow> uint64 \<Rightarrow> uint64 \<Rightarrow> ('a mst_scheme, uint64) K" where
  "uvmdealloc pagetable oldsz newsz =
     (if oldsz \<le> newsz then kret oldsz
      else if PGROUNDUP newsz < PGROUNDUP oldsz
      then let npages = scast (ucast ((PGROUNDUP oldsz - PGROUNDUP newsz) div PGSIZE) :: uint)
           in kthen (uvmunmap pagetable (PGROUNDUP newsz) npages True) (kret newsz)
      else kret newsz)"

definition uvmalloc :: "addr \<Rightarrow> uint64 \<Rightarrow> uint64 \<Rightarrow> uint64 \<Rightarrow> ('a mst_scheme, uint64) K" where
  "uvmalloc pagetable oldsz newsz xperm =
     (if newsz < oldsz then kret oldsz
      else let oldsz' = PGROUNDUP oldsz in
        or_ret newsz (kscan (addrs_below oldsz' newsz) (\<lambda>a.
          kbind kalloc (\<lambda>mem'.
          if mem' = 0 then kthen (uvmdealloc pagetable a oldsz') (kret (Some 0))
          else kthen (set_mem (\<lambda>m. memset m mem' 0 4096))
              (kbind (mappages pagetable a PGSIZE mem' (PTE_R OR PTE_U OR xperm)) (\<lambda>r.
               if r \<noteq> 0
               then kthen (kfree mem') (kthen (uvmdealloc pagetable a oldsz') (kret (Some 0)))
               else kret None))))))"

text \<open>The recursion of \<open>freewalk\<close> is bounded by the number of levels; a deeper table would
  overflow the kernel stack into its guard page.\<close>

primrec freewalk :: "nat \<Rightarrow> addr \<Rightarrow> ('a mst_scheme, unit) K" where
  "freewalk 0 pagetable = kpanic ''kerneltrap''"
| "freewalk (Suc depth) pagetable =
     kthen (kfor [0..<512] (\<lambda>i.
       let slot = pagetable + 8 * of_nat i in
       kbind (load slot) (\<lambda>pte.
       if pte AND PTE_V \<noteq> 0 \<and> pte AND (PTE_R OR PTE_W OR PTE_X) = 0
       then kthen (freewalk depth (PTE2PA pte)) (store slot 0)
       else if pte AND PTE_V \<noteq> 0 then kpanic ''freewalk: leaf''
       else kskip)))
    (kfree pagetable)"

definition uvmfree :: "addr \<Rightarrow> uint64 \<Rightarrow> ('a mst_scheme, unit) K" where
  "uvmfree pagetable sz =
     kthen (kwhen (sz > 0) (uvmunmap pagetable 0 (PGROUNDUP sz div PGSIZE) True))
           (freewalk 3 pagetable)"

definition uvmcopy :: "addr \<Rightarrow> addr \<Rightarrow> uint64 \<Rightarrow> ('a mst_scheme, int) K" where
  "uvmcopy old new sz =
     or_ret 0 (kscan (addrs_below 0 sz) (\<lambda>i.
       kbind (walk old i False) (\<lambda>pte.
       if pte = 0 then kpanic ''uvmcopy: pte should exist''
       else kbind (load pte) (\<lambda>e.
         if e AND PTE_V = 0 then kpanic ''uvmcopy: page not present''
         else
           let pa = PTE2PA e; flags = PTE_FLAGS e;
               err = kthen (uvmunmap new 0 (i div PGSIZE) True) (kret (Some (- 1)))
           in kbind kalloc (\<lambda>mem'.
              if mem' = 0 then err
              else kthen (set_mem (\<lambda>m. memmove m mem' pa 4096))
                  (kbind (mappages new i PGSIZE mem' flags) (\<lambda>r.
                   if r \<noteq> 0 then kthen (kfree mem') err else kret None)))))))"

definition uvmclear :: "addr \<Rightarrow> uint64 \<Rightarrow> ('a mst_scheme, unit) K" where
  "uvmclear pagetable va =
     kbind (walk pagetable va False) (\<lambda>pte.
     if pte = 0 then kpanic ''uvmclear''
     else kbind (load pte) (\<lambda>e. store pte (e AND NOT PTE_U)))"

definition lazy_alloc :: "addr \<Rightarrow> uint64 \<Rightarrow> ('a mst_scheme, int) K" where
  "lazy_alloc pagetable va =
     (let a = PGROUNDDOWN va in
      kbind (walkaddr pagetable a) (\<lambda>pa.
      if pa \<noteq> 0 then kret 0
      else kbind kalloc (\<lambda>mem'.
        if mem' = 0 then kret (- 1)
        else kthen (set_mem (\<lambda>m. memset m mem' 0 4096))
            (kbind (mappages pagetable a PGSIZE mem' (PTE_R OR PTE_W OR PTE_U)) (\<lambda>r.
             if r \<noteq> 0 then kthen (kfree mem') (kret (- 1)) else kret 0)))))"

subsection \<open>Copying between the kernel and user memory\<close>

lemma page_room: "0 < 4096 - unat (va - PGROUNDDOWN va)"
  by (simp add: PGROUNDDOWN_offset)

lemma page_progress: "0 < n \<Longrightarrow> n - min (4096 - unat (va - PGROUNDDOWN va)) n < n"
  using page_room[of va] by linarith

function copyout :: "addr \<Rightarrow> uint64 \<Rightarrow> byte list \<Rightarrow> ('a mst_scheme, int) K" where
  "copyout pagetable dstva src =
     (if src = [] then kret 0
      else let va0 = PGROUNDDOWN dstva in
        if MAXVA \<le> va0 then kret (- 1)
        else kbind (walk pagetable va0 False) (\<lambda>pte.
          kbind (load pte) (\<lambda>e.
          if pte = 0 \<or> e AND PTE_V = 0 \<or> e AND PTE_U = 0 \<or> e AND PTE_W = 0 then kret (- 1)
          else
            let pa0 = PTE2PA e; n = min (4096 - unat (dstva - va0)) (length src)
            in kthen (set_mem (\<lambda>m. poke m (pa0 + (dstva - va0)) (take n src)))
                     (copyout pagetable (va0 + PGSIZE) (drop n src)))))"
  by pat_completeness auto
termination
  by (relation "measure (\<lambda>(_, _, src). length src)")
    (simp_all add: page_progress)

function copyin :: "addr \<Rightarrow> uint64 \<Rightarrow> nat \<Rightarrow> ('a mst_scheme, int \<times> byte list) K" where
  "copyin pagetable srcva len =
     (if len = 0 then kret (0, [])
      else let va0 = PGROUNDDOWN srcva in
        kbind (walkaddr pagetable va0) (\<lambda>pa0.
        if pa0 = 0 then kret (- 1, [])
        else let n = min (4096 - unat (srcva - va0)) len in
          kbind (kget (\<lambda>s. peek (mem s) (pa0 + (srcva - va0)) n)) (\<lambda>bs.
          kbind (copyin pagetable (va0 + PGSIZE) (len - n)) (\<lambda>(r, bs'). kret (r, bs @ bs')))))"
  by pat_completeness auto
termination
  by (relation "measure (\<lambda>(_, _, len). len)")
    (simp_all add: page_progress)

text \<open>The inner loop of \<open>copyinstr\<close>: bytes up to and including a NUL, and whether one was met.\<close>

primrec copy_until_nul :: "memory \<Rightarrow> addr \<Rightarrow> nat \<Rightarrow> bool \<times> byte list" where
  "copy_until_nul m p 0 = (False, [])"
| "copy_until_nul m p (Suc n) =
     (if m p = 0 then (True, [0])
      else case copy_until_nul m (p + 1) n of (got, bs) \<Rightarrow> (got, m p # bs))"

function copyinstr :: "addr \<Rightarrow> uint64 \<Rightarrow> nat \<Rightarrow> ('a mst_scheme, int \<times> byte list) K" where
  "copyinstr pagetable srcva maxlen =
     (if maxlen = 0 then kret (- 1, [])
      else let va0 = PGROUNDDOWN srcva in
        kbind (walkaddr pagetable va0) (\<lambda>pa0.
        if pa0 = 0 then kret (- 1, [])
        else let n = min (4096 - unat (srcva - va0)) maxlen in
          kbind (kget (\<lambda>s. copy_until_nul (mem s) (pa0 + (srcva - va0)) n)) (\<lambda>(got_null, bs).
          if got_null then kret (0, bs)
          else kbind (copyinstr pagetable (va0 + PGSIZE) (maxlen - n))
                 (\<lambda>(r, bs'). kret (r, bs @ bs')))))"
  by pat_completeness auto
termination
  by (relation "measure (\<lambda>(_, _, n). n)")
    (simp_all add: page_progress)

declare copyout.simps [simp del] copyin.simps [simp del] copyinstr.simps [simp del]

end
