(* ===== verification/Pagetable.thy ===== *)
theory Pagetable
  imports Vm
begin

text \<open>
  What a page table means. \<open>pt_ok l m p\<close> says that page \<open>p\<close> of memory \<open>m\<close> is the root of a
  proper tree of \<open>l + 1\<close> levels, \<open>pt_set l m p\<close> is the set of its pages and \<open>lookup l m p va\<close> the
  leaf entry it gives to a virtual address (0 when there is none). The theory shows that
  \<open>walk\<close> finds the leaf slot, that with \<open>alloc\<close> it grows the tree by pages of the free list
  without changing the mapping or any other memory, and that a store to the slot changes the
  mapping of exactly one page.
\<close>

unbundle bit_operations_syntax

declare mod_0_imp_dvd [rule del]

definition slot :: "memory \<Rightarrow> addr \<Rightarrow> uint64 \<Rightarrow> uint64" where
  "slot m p x = load64 m (p + 8 * x)"

definition pvalid :: "uint64 \<Rightarrow> bool" where
  "pvalid e \<longleftrightarrow> e AND PTE_V \<noteq> 0"

definition nonleaf :: "uint64 \<Rightarrow> bool" where
  "nonleaf e \<longleftrightarrow> e AND (PTE_R OR PTE_W OR PTE_X) = 0"

primrec pt_set :: "nat \<Rightarrow> memory \<Rightarrow> addr \<Rightarrow> addr set" where
  "pt_set 0 m p = {p}"
| "pt_set (Suc l) m p =
     insert p (\<Union>x\<in>{x. x < 512 \<and> pvalid (slot m p x)}. pt_set l m (PTE2PA (slot m p x)))"

primrec pt_ok :: "nat \<Rightarrow> memory \<Rightarrow> addr \<Rightarrow> bool" where
  "pt_ok 0 m p \<longleftrightarrow> p mod 4096 = 0 \<and> p \<noteq> 0"
| "pt_ok (Suc l) m p \<longleftrightarrow> p mod 4096 = 0 \<and> p \<noteq> 0
     \<and> (\<forall>x<512. pvalid (slot m p x) \<longrightarrow>
          nonleaf (slot m p x) \<and> pt_ok l m (PTE2PA (slot m p x)) \<and> p \<notin> pt_set l m (PTE2PA (slot m p x)))
     \<and> (\<forall>x<512. \<forall>y<512. x \<noteq> y \<longrightarrow> pvalid (slot m p x) \<longrightarrow> pvalid (slot m p y) \<longrightarrow>
          pt_set l m (PTE2PA (slot m p x)) \<inter> pt_set l m (PTE2PA (slot m p y)) = {})"

primrec leaf_pg :: "nat \<Rightarrow> memory \<Rightarrow> addr \<Rightarrow> uint64 \<Rightarrow> addr option" where
  "leaf_pg 0 m p va = Some p"
| "leaf_pg (Suc l) m p va =
     (let e = slot m p (PX (Suc l) va) in if pvalid e then leaf_pg l m (PTE2PA e) va else None)"

definition lookup :: "nat \<Rightarrow> memory \<Rightarrow> addr \<Rightarrow> uint64 \<Rightarrow> uint64" where
  "lookup l m p va = (case leaf_pg l m p va of None \<Rightarrow> 0 | Some q \<Rightarrow> slot m q (PX 0 va))"

definition pte_addr :: "nat \<Rightarrow> memory \<Rightarrow> addr \<Rightarrow> uint64 \<Rightarrow> addr" where
  "pte_addr l m p va = (case leaf_pg l m p va of None \<Rightarrow> 0 | Some q \<Rightarrow> q + 8 * PX 0 va)"

text \<open>Two addresses that use the same slots down to level \<open>l\<close>.\<close>

definition same_idx :: "nat \<Rightarrow> uint64 \<Rightarrow> uint64 \<Rightarrow> bool" where
  "same_idx l va vb \<longleftrightarrow> (\<forall>k\<le>l. PX k va = PX k vb)"

subsection \<open>Basic facts\<close>

lemma PX_lt [simp]: "PX l va < 512"
  using PX_less[of l va] by (simp add: word_less_nat_alt)

lemma idx_unat: "(x :: uint64) < 512 \<Longrightarrow> unat x < 512"
  by (simp add: word_less_nat_alt)

lemma pvalid_0 [simp]: "\<not> pvalid 0"
  by (simp add: pvalid_def)

lemma pt_ok_root: "pt_ok l m p \<Longrightarrow> p mod 4096 = 0 \<and> p \<noteq> 0"
  by (cases l) simp_all

lemma pt_set_root [simp]: "p \<in> pt_set l m p"
  by (cases l) simp_all

lemma pt_ok_child:
  assumes "pt_ok (Suc l) m p" and "x < 512" and "pvalid (slot m p x)"
  shows "pt_ok l m (PTE2PA (slot m p x))" "p \<notin> pt_set l m (PTE2PA (slot m p x))" "nonleaf (slot m p x)"
    "pt_set l m (PTE2PA (slot m p x)) \<subseteq> pt_set (Suc l) m p"
    "y < 512 \<Longrightarrow> y \<noteq> x \<Longrightarrow> pvalid (slot m p y) \<Longrightarrow>
       pt_set l m (PTE2PA (slot m p x)) \<inter> pt_set l m (PTE2PA (slot m p y)) = {}"
proof -
  show "pt_ok l m (PTE2PA (slot m p x))" "p \<notin> pt_set l m (PTE2PA (slot m p x))" "nonleaf (slot m p x)"
    using assms by auto
  show "pt_set l m (PTE2PA (slot m p x)) \<subseteq> pt_set (Suc l) m p"
    using assms(2,3) by auto
  show "pt_set l m (PTE2PA (slot m p x)) \<inter> pt_set l m (PTE2PA (slot m p y)) = {}"
    if "y < 512" "y \<noteq> x" "pvalid (slot m p y)"
    using assms that unfolding pt_ok.simps by metis
qed

lemma leaf_in:
  "leaf_pg l m p va = Some q \<Longrightarrow> pt_ok l m p \<Longrightarrow> q \<in> pt_set l m p \<and> q mod 4096 = 0 \<and> q \<noteq> 0"
proof (induction l arbitrary: p)
  case 0
  then show ?case by simp
next
  case (Suc l)
  let ?x = "PX (Suc l) va"
  have v: "pvalid (slot m p ?x)" and q: "leaf_pg l m (PTE2PA (slot m p ?x)) va = Some q"
    using Suc.prems(1) by (simp_all add: Let_def split: if_splits)
  note c = pt_ok_child[OF Suc.prems(2) PX_lt v]
  show ?case using Suc.IH[OF q c(1)] c(4) by blast
qed

lemma slot_cong:
  assumes "p mod 4096 = 0" and "x < 512" and "\<And>a. PGROUNDDOWN a = p \<Longrightarrow> m' a = m a"
  shows "slot m' p x = slot m p x"
  unfolding slot_def by (rule load64_page_cong[OF assms(1) idx_unat[OF assms(2)]]) (use assms(3) in blast)

text \<open>A tree depends on the contents of its own pages only.\<close>

lemma pt_cong:
  assumes "pt_ok l m p" and "\<And>a. PGROUNDDOWN a \<in> pt_set l m p \<Longrightarrow> m' a = m a"
  shows "pt_set l m' p = pt_set l m p \<and> pt_ok l m' p \<and> leaf_pg l m' p va = leaf_pg l m p va"
  using assms
proof (induction l arbitrary: p)
  case 0
  then show ?case by simp
next
  case (Suc l)
  have s: "slot m' p x = slot m p x" if "x < 512" for x
    by (rule slot_cong) (use Suc.prems pt_ok_root[OF Suc.prems(1)] that in auto)
  have IH: "pt_set l m' (PTE2PA (slot m p x)) = pt_set l m (PTE2PA (slot m p x))
      \<and> pt_ok l m' (PTE2PA (slot m p x))
      \<and> leaf_pg l m' (PTE2PA (slot m p x)) va = leaf_pg l m (PTE2PA (slot m p x)) va"
    if "x < 512" "pvalid (slot m p x)" for x
    by (rule Suc.IH[OF pt_ok_child(1)[OF Suc.prems(1) that]])
      (use Suc.prems(2) pt_ok_child(4)[OF Suc.prems(1) that] in blast)
  have "pt_set (Suc l) m' p = pt_set (Suc l) m p" using s IH by auto
  moreover have "pt_ok (Suc l) m' p"
    using Suc.prems(1) unfolding pt_ok.simps by (simp add: s IH)
  moreover have "leaf_pg (Suc l) m' p va = leaf_pg (Suc l) m p va"
    by (simp add: s IH Let_def)
  ultimately show ?case by blast
qed

lemma lookup_cong:
  assumes "pt_ok l m p" and "\<And>a. PGROUNDDOWN a \<in> pt_set l m p \<Longrightarrow> m' a = m a"
  shows "lookup l m' p va = lookup l m p va" "pte_addr l m' p va = pte_addr l m p va"
proof -
  have e: "leaf_pg l m' p va = leaf_pg l m p va" using pt_cong[OF assms] by blast
  then show "pte_addr l m' p va = pte_addr l m p va" by (simp add: pte_addr_def)
  show "lookup l m' p va = lookup l m p va"
  proof (cases "leaf_pg l m p va")
    case None
    then show ?thesis using e by (simp add: lookup_def)
  next
    case (Some q)
    have "slot m' q (PX 0 va) = slot m q (PX 0 va)"
      by (rule slot_cong) (use leaf_in[OF Some assms(1)] assms(2) in auto)
    then show ?thesis using e Some by (simp add: lookup_def)
  qed
qed

subsection \<open>Local changes\<close>

lemma lookup_Suc:
  "lookup (Suc l) m p va =
     (let e = slot m p (PX (Suc l) va) in if pvalid e then lookup l m (PTE2PA e) va else 0)"
  by (simp add: lookup_def Let_def)

lemma pte_addr_Suc:
  "pte_addr (Suc l) m p va =
     (let e = slot m p (PX (Suc l) va) in if pvalid e then pte_addr l m (PTE2PA e) va else 0)"
  by (simp add: pte_addr_def Let_def)

lemma lookup_0: "lookup 0 m p va = slot m p (PX 0 va)" "pte_addr 0 m p va = p + 8 * PX 0 va"
  by (simp_all add: lookup_def pte_addr_def)

text \<open>\<open>subtree_change l m m' p x F\<close>: memory \<open>m'\<close> differs from \<open>m\<close> only in the subtree below slot
  \<open>x\<close> of \<open>p\<close>, which is still a tree and has only gained pages, all of them from \<open>F\<close>.\<close>

definition subtree_change :: "nat \<Rightarrow> memory \<Rightarrow> memory \<Rightarrow> addr \<Rightarrow> uint64 \<Rightarrow> addr set \<Rightarrow> bool" where
  "subtree_change l m m' p x F \<longleftrightarrow>
     pt_ok (Suc l) m p \<and> x < 512 \<and> pvalid (slot m p x) \<and> F \<inter> pt_set (Suc l) m p = {}
     \<and> (let c = PTE2PA (slot m p x) in
          (\<forall>a. PGROUNDDOWN a \<notin> pt_set l m c \<union> F \<longrightarrow> m' a = m a)
          \<and> pt_ok l m' c \<and> pt_set l m c \<subseteq> pt_set l m' c \<and> pt_set l m' c \<subseteq> pt_set l m c \<union> F)"

lemma subtree_changeD:
  assumes "subtree_change l m m' p x F"
  shows "pt_ok (Suc l) m p" "x < 512" "pvalid (slot m p x)" "F \<inter> pt_set (Suc l) m p = {}" "p \<notin> F"
    "PGROUNDDOWN a \<notin> pt_set l m (PTE2PA (slot m p x)) \<union> F \<Longrightarrow> m' a = m a"
    "pt_ok l m' (PTE2PA (slot m p x))"
    "pt_set l m (PTE2PA (slot m p x)) \<subseteq> pt_set l m' (PTE2PA (slot m p x))"
    "pt_set l m' (PTE2PA (slot m p x)) \<subseteq> pt_set l m (PTE2PA (slot m p x)) \<union> F"
  using assms by (auto simp: subtree_change_def Let_def)

lemma subtree_change_slot:
  assumes sc: "subtree_change l m m' p x F" and y: "y < 512"
  shows "slot m' p y = slot m p y"
  by (rule slot_cong[OF _ y])
    (use subtree_changeD[OF sc] pt_ok_root pt_ok_child(2)[of l m p x] in blast)+

lemma subtree_change_sibling:
  assumes sc: "subtree_change l m m' p x F" and y: "y < 512" "y \<noteq> x" "pvalid (slot m p y)"
  defines "d \<equiv> PTE2PA (slot m p y)"
  shows "pt_set l m' d = pt_set l m d" "pt_ok l m' d" "lookup l m' d va = lookup l m d va"
    "pt_set l m' (PTE2PA (slot m p x)) \<inter> pt_set l m' d = {}"
proof -
  note D = subtree_changeD[OF sc]
  have dis: "pt_set l m (PTE2PA (slot m p x)) \<inter> pt_set l m d = {}"
    using pt_ok_child(5)[OF D(1-3) y] d_def by simp
  have sub: "pt_set l m d \<subseteq> pt_set (Suc l) m p" using pt_ok_child(4)[OF D(1) y(1,3)] d_def by simp
  have okd: "pt_ok l m d" using pt_ok_child(1)[OF D(1) y(1,3)] d_def by simp
  have a: "m' a = m a" if "PGROUNDDOWN a \<in> pt_set l m d" for a
    by (rule D(6)) (use that dis sub D(4) in blast)
  show s: "pt_set l m' d = pt_set l m d" "pt_ok l m' d" using pt_cong[OF okd a] by blast+
  show "lookup l m' d va = lookup l m d va" by (rule lookup_cong[OF okd a])
  show "pt_set l m' (PTE2PA (slot m p x)) \<inter> pt_set l m' d = {}"
    unfolding s using dis sub D(4,9) by blast
qed

lemma subtree_change_set:
  assumes sc: "subtree_change l m m' p x F"
  shows "pt_set (Suc l) m' p = pt_set (Suc l) m p \<union> pt_set l m' (PTE2PA (slot m p x))"
proof -
  note D = subtree_changeD[OF sc]
  let ?V = "{y. y < 512 \<and> pvalid (slot m p y)}" and ?c = "PTE2PA (slot m p x)"
  have V: "{y. y < 512 \<and> pvalid (slot m' p y)} = ?V" using subtree_change_slot[OF sc] by auto
  have "pt_set (Suc l) m' p = insert p (\<Union>y\<in>?V. pt_set l m' (PTE2PA (slot m p y)))"
    using subtree_change_slot[OF sc] V by auto
  moreover have "pt_set l m' (PTE2PA (slot m p y)) = pt_set l m (PTE2PA (slot m p y))"
    if "y \<in> ?V" "y \<noteq> x" for y
    using subtree_change_sibling(1)[OF sc, of y] that by simp
  then have "(\<Union>y\<in>?V. pt_set l m' (PTE2PA (slot m p y)))
      = (\<Union>y\<in>?V. pt_set l m (PTE2PA (slot m p y))) \<union> pt_set l m' ?c"
    using D(2,3,8) by blast
  ultimately show ?thesis by simp
qed

lemma subtree_change_ok:
  assumes sc: "subtree_change l m m' p x F"
  shows "pt_ok (Suc l) m' p"
proof -
  note D = subtree_changeD[OF sc] and sib = subtree_change_sibling[OF sc]
  have A: "nonleaf (slot m p y) \<and> pt_ok l m' (PTE2PA (slot m p y)) \<and> p \<notin> pt_set l m' (PTE2PA (slot m p y))"
    if "y < 512" "pvalid (slot m p y)" for y
    using sib(1,2)[OF that(1) _ that(2)] pt_ok_child(1-3)[OF D(1) that] D(5,7,9) by (cases "y = x") auto
  have B: "pt_set l m' (PTE2PA (slot m p y)) \<inter> pt_set l m' (PTE2PA (slot m p z)) = {}"
    if "y < 512" "z < 512" "y \<noteq> z" "pvalid (slot m p y)" "pvalid (slot m p z)" for y z
    using sib(1,4)[OF that(1) _ that(4)] sib(1,4)[OF that(2) _ that(5)]
      pt_ok_child(5)[OF D(1) that(1,4,2) _ that(5)] that(3)
    by (cases "y = x"; cases "z = x") auto
  show ?thesis using A B pt_ok_root[OF D(1)] by (simp add: subtree_change_slot[OF sc])
qed

lemma subtree_change_lookup:
  assumes sc: "subtree_change l m m' p x F"
  shows "lookup (Suc l) m' p va =
    (if PX (Suc l) va = x then lookup l m' (PTE2PA (slot m p x)) va else lookup (Suc l) m p va)"
  using subtree_change_sibling(3)[OF sc PX_lt, of "Suc l" va va] subtree_changeD(3)[OF sc]
  by (simp add: lookup_Suc subtree_change_slot[OF sc] Let_def)

lemma same_idx_Suc: "same_idx (Suc l) va vb \<longleftrightarrow> PX (Suc l) va = PX (Suc l) vb \<and> same_idx l va vb"
  by (auto simp: same_idx_def le_Suc_eq)

lemma slot_store:
  assumes "p mod 4096 = 0" and "x < 512" and "y < 512"
  shows "slot (store64 m (p + 8 * x) v) p y = (if x = y then v else slot m p y)"
  unfolding slot_def
  using load64_store64_slot[OF assms(1) idx_unat[OF assms(2)] idx_unat[OF assms(3)]] by simp

lemma store_slot_other:
  assumes "p mod 4096 = 0" and "x < 512" and "PGROUNDDOWN a \<noteq> p"
  shows "store64 m (p + 8 * x) v a = m a"
  by (rule store64_page_other[OF assms(1) idx_unat[OF assms(2)] assms(3)])

lemma store_leaf:
  fixes v :: uint64
  assumes "pt_ok l m p" and "leaf_pg l m p va = Some q"
  defines "m' \<equiv> store64 m (q + 8 * PX 0 va) v"
  shows "pt_ok l m' p \<and> pt_set l m' p = pt_set l m p
    \<and> (\<forall>vb. lookup l m' p vb = (if same_idx l va vb then v else lookup l m p vb))"
  using assms(1,2)
proof (induction l arbitrary: p)
  case 0
  then show ?case
    by (auto simp: m'_def lookup_0 slot_store same_idx_def)
next
  case (Suc l)
  let ?x = "PX (Suc l) va" let ?c = "PTE2PA (slot m p ?x)"
  have v: "pvalid (slot m p ?x)" and q: "leaf_pg l m ?c va = Some q"
    using Suc.prems(2) by (simp_all add: Let_def split: if_splits)
  have okc: "pt_ok l m ?c" by (rule pt_ok_child(1)[OF Suc.prems(1) PX_lt v])
  note IH = Suc.IH[OF okc q] and qin = leaf_in[OF q okc]
  have "m' a = m a" if "PGROUNDDOWN a \<notin> pt_set l m ?c" for a
    unfolding m'_def by (rule store_slot_other) (use qin that in auto)
  then have sc: "subtree_change l m m' p ?x {}"
    unfolding subtree_change_def Let_def using Suc.prems(1) v IH by simp
  have "lookup (Suc l) m' p vb = (if same_idx (Suc l) va vb then v else lookup (Suc l) m p vb)" for vb
    using subtree_change_lookup[OF sc, of vb] IH v by (auto simp: same_idx_Suc lookup_Suc Let_def)
  moreover have "pt_set (Suc l) m' p = pt_set (Suc l) m p"
    using subtree_change_set[OF sc] IH pt_ok_child(4)[OF Suc.prems(1) PX_lt v] by blast
  ultimately show ?case using subtree_change_ok[OF sc] by blast
qed

text \<open>A zeroed page is an empty table; hanging it into a free slot changes no mapping.\<close>

lemma zero_page_table:
  assumes "p mod 4096 = 0" "p \<noteq> 0" and "\<And>a. PGROUNDDOWN a = p \<Longrightarrow> m a = 0"
  shows "pt_ok l m p \<and> pt_set l m p = {p} \<and> lookup l m p va = 0"
proof -
  have s: "slot m p x = 0" if "x < 512" for x
    unfolding slot_def
  proof (rule load64_zero)
    fix i :: nat assume "i < 8"
    then show "m (p + 8 * x + of_nat i) = 0"
      using aligned8_parts(2)[OF assms(1) idx_unat[OF that]] assms(3) by blast
  qed
  show ?thesis using s assms(1,2) by (cases l) (auto simp: lookup_0 lookup_Suc)
qed

lemma page_fill_fill [simp]: "page_fill (page_fill m p c) p d = page_fill m p d"
  by (auto simp: page_fill_def)

lemma pte_pointer:
  assumes "pg mod 4096 = 0" and "pg < 2 ^ 56"
  shows "PTE2PA (PA2PTE pg OR PTE_V) = pg" "pvalid (PA2PTE pg OR PTE_V)" "nonleaf (PA2PTE pg OR PTE_V)"
proof -
  show "PTE2PA (PA2PTE pg OR PTE_V) = pg" by (rule PTE2PA_PA2PTE[OF assms]) simp
  have f: "PTE_FLAGS (PA2PTE pg OR PTE_V) = PTE_V" by (rule PTE_FLAGS_PA2PTE) simp
  have m: "e AND k = PTE_FLAGS e AND k" if "k AND 0x3FF = k" for e k :: uint64
    unfolding PTE_FLAGS_def by (metis and.assoc and.commute that)
  show "pvalid (PA2PTE pg OR PTE_V)"
    unfolding pvalid_def by (subst m) (simp_all add: f del: PTE_bits, simp_all)
  show "nonleaf (PA2PTE pg OR PTE_V)"
    unfolding nonleaf_def by (subst m) (simp_all add: f del: PTE_bits, simp_all)
qed

lemma attach:
  assumes ok: "pt_ok (Suc l) m p" and x: "x < 512" and free: "\<not> pvalid (slot m p x)"
    and pg: "pg mod 4096 = 0" "pg < 2 ^ 56" "pg \<noteq> 0" "pg \<notin> pt_set (Suc l) m p"
  defines "m' \<equiv> store64 (page_fill m pg 0) (p + 8 * x) (PA2PTE pg OR PTE_V)"
  shows "pt_ok (Suc l) m' p" "pt_set (Suc l) m' p = insert pg (pt_set (Suc l) m p)"
    "lookup (Suc l) m' p va = lookup (Suc l) m p va" "slot m' p x = PA2PTE pg OR PTE_V"
    "PGROUNDDOWN a \<notin> {p, pg} \<Longrightarrow> m' a = m a"
    "pt_ok l m' pg" "pt_set l m' pg = {pg}" "lookup l m' pg va = 0"
proof -
  have al: "p mod 4096 = 0" and ne: "pg \<noteq> p" using pt_ok_root[OF ok] pg(4) by auto
  have out: "m' a = m a" if "PGROUNDDOWN a \<notin> {p, pg}" for a
    unfolding m'_def using store_slot_other[OF al x] that by simp
  then show "PGROUNDDOWN a \<notin> {p, pg} \<Longrightarrow> m' a = m a" .
  have s0: "slot (page_fill m pg 0) p y = slot m p y" if "y < 512" for y
    by (rule slot_cong[OF al that]) (use ne in simp)
  have s: "slot m' p y = (if x = y then PA2PTE pg OR PTE_V else slot m p y)" if "y < 512" for y
    unfolding m'_def slot_store[OF al x that] using s0[OF that] by simp
  then show sx: "slot m' p x = PA2PTE pg OR PTE_V" using x by simp
  note ptr = pte_pointer[OF pg(1,2)]
  have z: "m' a = 0" if "PGROUNDDOWN a = pg" for a
    unfolding m'_def using store_slot_other[OF al x] that ne by simp
  show zt: "pt_ok l m' pg" "pt_set l m' pg = {pg}" "lookup l m' pg va = 0"
    using zero_page_table[of pg m', OF pg(1,3) z] by blast+
  have old: "pt_set l m' d = pt_set l m d \<and> pt_ok l m' d \<and> (\<forall>va. lookup l m' d va = lookup l m d va)"
    if "y < 512" "pvalid (slot m p y)" "d = PTE2PA (slot m p y)" for y d
  proof -
    note ch = pt_ok_child[OF ok that(1,2), folded that(3)]
    have a: "m' a = m a" if "PGROUNDDOWN a \<in> pt_set l m d" for a
      by (rule out) (use that ch(2,4) pg(4) in blast)
    show ?thesis using pt_cong[OF ch(1) a] lookup_cong[OF ch(1) a] by blast
  qed
  have notin: "pg \<notin> pt_set l m (PTE2PA (slot m p y))" if "y < 512" "pvalid (slot m p y)" for y
    using pt_ok_child(4)[OF ok that] pg(4) by blast
  have "{y. y < 512 \<and> pvalid (slot m' p y)} = insert x {y. y < 512 \<and> pvalid (slot m p y)}"
    using s x ptr(2) by auto
  moreover have "(\<Union>y\<in>{y. y < 512 \<and> pvalid (slot m p y)}. pt_set l m' (PTE2PA (slot m' p y)))
      = (\<Union>y\<in>{y. y < 512 \<and> pvalid (slot m p y)}. pt_set l m (PTE2PA (slot m p y)))"
    by (rule SUP_cong) (use s old free in auto)
  ultimately show "pt_set (Suc l) m' p = insert pg (pt_set (Suc l) m p)"
    using sx ptr(1) zt(2) by auto
  show "lookup (Suc l) m' p va = lookup (Suc l) m p va"
    using s[OF PX_lt] old[OF PX_lt _ refl] zt(3) ptr free by (auto simp: lookup_Suc Let_def)
  have A: "nonleaf (slot m' p y) \<and> pt_ok l m' (PTE2PA (slot m' p y)) \<and> p \<notin> pt_set l m' (PTE2PA (slot m' p y))"
    if "y < 512" "pvalid (slot m' p y)" for y
    using s[OF that(1)] old[OF that(1) _ refl] pt_ok_child(2,3)[OF ok that(1)] that(2) zt ptr ne
    by (cases "x = y") auto
  have B: "pt_set l m' (PTE2PA (slot m' p y)) \<inter> pt_set l m' (PTE2PA (slot m' p w)) = {}"
    if "y < 512" "w < 512" "y \<noteq> w" "pvalid (slot m' p y)" "pvalid (slot m' p w)" for y w
    using s[OF that(1)] s[OF that(2)] old[OF that(1) _ refl] old[OF that(2) _ refl] notin[OF that(1)] notin[OF that(2)]
      pt_ok_child(5)[OF ok that(1) _ that(2)] that(3-5) zt(2) ptr(1)
    by (cases "x = y"; cases "x = w") auto
  show "pt_ok (Suc l) m' p" using A B pt_ok_root[OF ok] by simp
qed

subsection \<open>walk\<close>

lemma set_mem_exec [kexec]: "set_mem f s = Done () (s\<lparr>mem := f (mem s)\<rparr>)"
  by (simp add: set_mem_def kexec)

lemma load_exec [kexec]: "load a s = Done (load64 (mem s) a) s"
  by (simp add: load_def kexec)

lemma store_exec [kexec]: "store a v s = Done () (s\<lparr>mem := store64 (mem s) a v\<rparr>)"
  by (simp add: store_def kexec)

lemma walk_loop_find: "walk_loop l p va False s = Done (pte_addr l (mem s) p va) s"
  by (induction l arbitrary: p) (simp_all add: kexec Let_def lookup_0 pte_addr_Suc slot_def pvalid_def)

lemma walk_find: "va < MAXVA \<Longrightarrow> walk p va False s = Done (pte_addr 2 (mem s) p va) s"
  by (simp add: walk_def walk_loop_find flip: not_le)

lemma pte_addr_load:
  assumes "pt_ok l m p" and "pte_addr l m p va \<noteq> 0"
  shows "\<exists>q. leaf_pg l m p va = Some q \<and> pte_addr l m p va = q + 8 * PX 0 va"
    "load64 m (pte_addr l m p va) = lookup l m p va"
  using assms(2) by (auto simp: pte_addr_def lookup_def slot_def split: option.splits)

lemma pte_addr_0:
  assumes "pt_ok l m p"
  shows "pte_addr l m p va = 0 \<longleftrightarrow> leaf_pg l m p va = None"
proof (cases "leaf_pg l m p va")
  case (Some q)
  note q = leaf_in[OF Some assms]
  have "unat (q + 8 * PX 0 va + of_nat 0) = unat q + 8 * unat (PX 0 va) + 0"
    by (rule aligned8_parts(1)) (use q idx_unat[OF PX_lt] in auto)
  moreover have "unat q \<noteq> 0" using q by (simp add: unat_eq_zero)
  ultimately have "q + 8 * PX 0 va + of_nat 0 \<noteq> 0" by (metis add_is_0 unat_0)
  then have "q + 8 * PX 0 va \<noteq> 0" by simp
  then show ?thesis using Some by (simp add: pte_addr_def)
qed (simp add: pte_addr_def)

lemma lookup_None: "pte_addr l m p va = 0 \<Longrightarrow> pt_ok l m p \<Longrightarrow> lookup l m p va = 0"
  by (simp add: pte_addr_0 lookup_def)

text \<open>The operations below change memory and the free list and nothing else of the state.\<close>

definition mem_step :: "'a mst_scheme \<Rightarrow> 'a mst_scheme \<Rightarrow> bool" where
  "mem_step s t \<longleftrightarrow> (\<exists>m f n. t = s\<lparr>mem := m, freelist := f, free_pages := n\<rparr>)"

lemma mem_step_ops [simp]:
  "mem_step s (s\<lparr>mem := m\<rparr>)" "mem_step s (taken p s)" "mem_step s (freed p s)" "mem_step s s"
proof -
  show "mem_step s (s\<lparr>mem := m\<rparr>)"
    unfolding mem_step_def by (intro exI[of _ m] exI[of _ "freelist s"] exI[of _ "free_pages s"]) simp
  show "mem_step s (taken p s)"
    unfolding mem_step_def taken_def
    by (intro exI[of _ "page_fill (mem s) p 5"] exI[of _ "load64 (mem s) p"] exI[of _ "free_pages s - 1"]
        mst.equality) simp_all
  show "mem_step s (freed p s)" unfolding mem_step_def freed_def by blast
  show "mem_step s s"
    unfolding mem_step_def by (intro exI[of _ "mem s"] exI[of _ "freelist s"] exI[of _ "free_pages s"]) simp
qed

lemma mem_step_trans: "mem_step s t \<Longrightarrow> mem_step t u \<Longrightarrow> mem_step s u"
  unfolding mem_step_def by (elim exE) (simp, blast)

lemma mem_step_frame:
  assumes "mem_step s t"
  shows "held t = held s" "procs t = procs s" "cur t = cur s" "k_end t = k_end s" "mst.more t = mst.more s"
    "intr t = intr s" "conout t = conout s" "ticks t = ticks s" "total_pages t = total_pages s"
    "kernel_pagetable t = kernel_pagetable s" "initproc t = initproc s" "nextpid t = nextpid s"
    "k_trampoline t = k_trampoline s"
  using assms unfolding mem_step_def by auto

definition pt_inv :: "nat \<Rightarrow> 'a mst_scheme \<Rightarrow> addr \<Rightarrow> addr list \<Rightarrow> bool" where
  "pt_inv l s p xs \<longleftrightarrow> pt_ok l (mem s) p \<and> kmem_inv s xs \<and> pt_set l (mem s) p \<inter> set xs = {}
     \<and> (\<forall>q\<in>pt_set l (mem s) p. page_ok (k_end s) q) \<and> KMEM_LOCK \<notin> held s"

definition pt_grow :: "nat \<Rightarrow> addr \<Rightarrow> 'a mst_scheme \<Rightarrow> 'a mst_scheme \<Rightarrow> addr list \<Rightarrow> nat \<Rightarrow> bool" where
  "pt_grow l p s t xs n \<longleftrightarrow> n \<le> length xs \<and> mem_step s t \<and> kmem_inv t (drop n xs) \<and> pt_ok l (mem t) p
     \<and> pt_set l (mem t) p = pt_set l (mem s) p \<union> set (take n xs)
     \<and> (\<forall>va. lookup l (mem t) p va = lookup l (mem s) p va)
     \<and> (\<forall>a. PGROUNDDOWN a \<notin> pt_set l (mem s) p \<union> set (take n xs) \<longrightarrow> mem t a = mem s a)"

lemma pt_inv_child:
  assumes "pt_inv (Suc l) s p xs" and "x < 512" and "pvalid (slot (mem s) p x)"
  shows "pt_inv l s (PTE2PA (slot (mem s) p x)) xs"
  using assms pt_ok_child[of l "mem s" p x] unfolding pt_inv_def by blast

lemma pt_grow_refl: "pt_inv l s p xs \<Longrightarrow> pt_grow l p s s xs 0"
  by (simp add: pt_grow_def pt_inv_def)

lemma pt_grow_inv:
  assumes "pt_inv l s p xs" and "pt_grow l p s t xs n"
  shows "pt_inv l t p (drop n xs)"
proof -
  have fr: "held t = held s" "k_end t = k_end s" and pts: "pt_set l (mem t) p = pt_set l (mem s) p \<union> set (take n xs)"
    using assms(2) mem_step_frame[of s t] by (auto simp: pt_grow_def)
  have "distinct xs" "\<forall>x\<in>set xs. page_ok (k_end s) x"
    using assms(1) kmem_invD(2,3) by (auto simp: pt_inv_def)
  then have "set (take n xs) \<inter> set (drop n xs) = {}" "\<forall>x\<in>set (take n xs). page_ok (k_end s) x"
    by (auto simp: set_take_disj_set_drop_if_distinct dest: in_set_takeD)
  then show ?thesis
    using assms set_drop_subset[of n xs] fr pts unfolding pt_inv_def pt_grow_def by auto
qed

lemma pt_grow_child:
  assumes i: "pt_inv (Suc l) s p xs" and x: "x < 512" "pvalid (slot (mem s) p x)"
    and g: "pt_grow l (PTE2PA (slot (mem s) p x)) s t xs n"
  shows "pt_grow (Suc l) p s t xs n" "slot (mem t) p x = slot (mem s) p x"
proof -
  let ?c = "PTE2PA (slot (mem s) p x)"
  have ok: "pt_ok (Suc l) (mem s) p" and dis: "set (take n xs) \<inter> pt_set (Suc l) (mem s) p = {}"
    using i set_take_subset[of n xs] by (auto simp: pt_inv_def)
  have sc: "subtree_change l (mem s) (mem t) p x (set (take n xs))"
    unfolding subtree_change_def Let_def using ok x g dis by (auto simp: pt_grow_def)
  show "slot (mem t) p x = slot (mem s) p x" using subtree_change_slot[OF sc x(1)] .
  have sub: "pt_set l (mem s) ?c \<subseteq> pt_set (Suc l) (mem s) p" by (rule pt_ok_child(4)[OF ok x])
  have "lookup (Suc l) (mem t) p va = lookup (Suc l) (mem s) p va" for va
    using subtree_change_lookup[OF sc, of va] g x(2) by (auto simp: pt_grow_def lookup_Suc Let_def)
  moreover have "pt_set (Suc l) (mem t) p = pt_set (Suc l) (mem s) p \<union> set (take n xs)"
    using subtree_change_set[OF sc] g sub by (auto simp: pt_grow_def)
  ultimately show "pt_grow (Suc l) p s t xs n"
    using g sub subtree_change_ok[OF sc] unfolding pt_grow_def by blast
qed

lemma kmem_inv_mem:
  assumes "kmem_inv s xs" and "\<And>a. PGROUNDDOWN a \<in> set xs \<Longrightarrow> m a = mem s a"
  shows "kmem_inv (s\<lparr>mem := m\<rparr>) xs"
  by (rule kmem_inv_cong[OF assms(1)]) (use assms(2) in auto)

text \<open>Taking a page from the free list and hanging it, zeroed, into a free slot.\<close>

lemma attach_step:
  assumes i: "pt_inv (Suc l) s p (pg # ys)" and x: "x < 512" and free: "\<not> pvalid (slot (mem s) p x)"
  defines "t \<equiv> (taken pg s)\<lparr>mem := store64 (page_fill (mem s) pg 0) (p + 8 * x) (PA2PTE pg OR PTE_V)\<rparr>"
  shows "pt_grow (Suc l) p s t (pg # ys) 1" "pt_inv l t pg ys" "slot (mem t) p x = PA2PTE pg OR PTE_V"
    "pvalid (slot (mem t) p x)" "PTE2PA (slot (mem t) p x) = pg" "pt_inv (Suc l) t p ys"
proof -
  have I: "pt_ok (Suc l) (mem s) p" "kmem_inv s (pg # ys)" "pg \<notin> pt_set (Suc l) (mem s) p"
    "pt_set (Suc l) (mem s) p \<inter> set ys = {}" "KMEM_LOCK \<notin> held s"
    using i by (auto simp: pt_inv_def)
  have ok: "page_ok (k_end s) pg" "pg \<notin> set ys" using kmem_invD(2,3)[OF I(2)] by auto
  note at = attach[OF I(1) x free page_ok_facts(1)[OF ok(1)] page_ok_facts(4)[OF ok(1)] page_ok_facts(2)[OF ok(1)] I(3)]
  have m: "mem t = store64 (page_fill (mem s) pg 0) (p + 8 * x) (PA2PTE pg OR PTE_V)" by (simp add: t_def)
  note at' = at[folded m]
  have k: "kmem_inv t ys"
    unfolding t_def
  proof (rule kmem_inv_mem[OF taken_inv[OF I(2)]])
    fix a assume "PGROUNDDOWN a \<in> set ys"
    then have "PGROUNDDOWN a \<notin> {p, pg}" using I(4) ok(2) pt_set_root[of p "Suc l" "mem s"] by auto
    then show "store64 (page_fill (mem s) pg 0) (p + 8 * x) (PA2PTE pg OR PTE_V) a = mem (taken pg s) a"
      using at(5)[of a] by (simp add: taken_mem)
  qed
  have st: "mem_step s t" unfolding t_def by (rule mem_step_trans[of _ "taken pg s"]) simp_all
  show sx: "slot (mem t) p x = PA2PTE pg OR PTE_V" by (rule at'(4))
  show "pvalid (slot (mem t) p x)" "PTE2PA (slot (mem t) p x) = pg"
    unfolding sx using pte_pointer[OF page_ok_facts(1,4)[OF ok(1)]] by auto
  show g: "pt_grow (Suc l) p s t (pg # ys) 1"
    unfolding pt_grow_def using st k at'(1-3,5) pt_set_root[of p "Suc l" "mem s"] by auto
  show "pt_inv l t pg ys"
    unfolding pt_inv_def using at'(6,7) k ok I(5) mem_step_frame[OF st] by simp
  show "pt_inv (Suc l) t p ys" using pt_grow_inv[OF i g] by simp
qed

lemma pt_grow_trans:
  assumes "pt_grow l p s t xs n" and "pt_grow l p t u (drop n xs) k"
  shows "pt_grow l p s u xs (n + k)"
proof -
  have "set (take (n + k) xs) = set (take n xs) \<union> set (take k (drop n xs))" by (simp add: take_add)
  then show ?thesis
    using assms mem_step_trans[of s t u] unfolding pt_grow_def by (auto simp: add.commute)
qed

lemma walk_loop_alloc:
  assumes "pt_inv l s p xs"
  shows "\<exists>a t n. walk_loop l p va True s = Done a t \<and> pt_grow l p s t xs n \<and> n \<le> l
    \<and> (a = 0 \<longrightarrow> n = length xs \<and> n < l) \<and> (a \<noteq> 0 \<longrightarrow> a = pte_addr l (mem t) p va)"
  using assms
proof (induction l arbitrary: s p xs)
  case 0
  then have "pt_ok 0 (mem s) p" by (simp add: pt_inv_def)
  then have "p + 8 * PX 0 va \<noteq> 0" using pte_addr_0[of 0 "mem s" p va] by (simp add: lookup_0)
  then show ?case using pt_grow_refl[OF 0] by (auto simp: kexec lookup_0)
next
  case (Suc l)
  let ?x = "PX (Suc l) va" let ?e = "slot (mem s) p ?x"
  have ld: "load (p + 8 * ?x) s = Done ?e s" by (simp add: kexec slot_def)
  have held: "KMEM_LOCK \<notin> held s" using Suc.prems by (simp add: pt_inv_def)
  show ?case
  proof (cases "pvalid ?e")
    case True
    obtain a t n where r: "walk_loop l (PTE2PA ?e) va True s = Done a t" "pt_grow l (PTE2PA ?e) s t xs n" "n \<le> l"
        "a = 0 \<longrightarrow> n = length xs \<and> n < l" "a \<noteq> 0 \<longrightarrow> a = pte_addr l (mem t) (PTE2PA ?e) va"
      using Suc.IH[OF pt_inv_child[OF Suc.prems PX_lt True]] by blast
    note g = pt_grow_child[OF Suc.prems PX_lt True r(2)]
    show ?thesis using r g True ld
      by (intro exI[of _ a] exI[of _ t] exI[of _ n]) (auto simp: kexec Let_def pvalid_def pte_addr_Suc)
  next
    case False
    then have w: "walk_loop (Suc l) p va True s = (case kalloc s of Done pg s1 \<Rightarrow>
        (if pg = 0 then Done 0 s1 else walk_loop l pg va True
          (s1\<lparr>mem := store64 (memset (mem s1) pg 0 4096) (p + 8 * ?x) (PA2PTE pg OR PTE_V)\<rparr>))
        | Panic e \<Rightarrow> Panic e | Swtch t \<Rightarrow> Swtch t)"
      using ld by (simp add: kexec Let_def pvalid_def if_distrib cong: if_cong split: outcome.splits)
    show ?thesis
    proof (cases xs)
      case Nil
      then have "kalloc s = Done 0 s" using kalloc_empty Suc.prems held by (auto simp: pt_inv_def)
      then show ?thesis using w pt_grow_refl[OF Suc.prems] Nil by auto
    next
      case (Cons pg ys)
      let ?t = "(taken pg s)\<lparr>mem := store64 (page_fill (mem s) pg 0) (p + 8 * ?x) (PA2PTE pg OR PTE_V)\<rparr>"
      have k: "kmem_inv s (pg # ys)" using Suc.prems Cons by (simp add: pt_inv_def)
      have pg: "pg \<noteq> 0" "pg mod 4096 = 0" using kmem_invD(3)[OF k, of pg] page_ok_facts(1,2) by auto
      have w1: "walk_loop (Suc l) p va True s = walk_loop l pg va True ?t"
        using w kalloc_exec[OF k held] pg by (simp add: memset_page taken_mem)
      note at = attach_step[OF Suc.prems[unfolded Cons] PX_lt False]
      obtain a t n where r: "walk_loop l pg va True ?t = Done a t" "pt_grow l pg ?t t ys n" "n \<le> l"
          "a = 0 \<longrightarrow> n = length ys \<and> n < l" "a \<noteq> 0 \<longrightarrow> a = pte_addr l (mem t) pg va"
        using Suc.IH[OF at(2)] by blast
      note g = pt_grow_child[OF at(6) PX_lt at(4), unfolded at(5), OF r(2)]
      have "pt_grow (Suc l) p s t xs (1 + n)"
        by (rule pt_grow_trans) (use at(1) g(1) Cons in simp_all)
      moreover have "pte_addr (Suc l) (mem t) p va = pte_addr l (mem t) pg va"
        using g(2) at(4,5) by (simp add: pte_addr_Suc Let_def)
      ultimately show ?thesis using r(1,3-5) w1 Cons
        by (intro exI[of _ a] exI[of _ t] exI[of _ "1 + n"]) auto
    qed
  qed
qed

subsection \<open>Changes of the mapping\<close>

text \<open>\<open>pt_maps p s t xs n M\<close>: from \<open>s\<close> to \<open>t\<close> the table at \<open>p\<close> has gained the first \<open>n\<close> pages of the
  free list, the entries of the pages in the domain of \<open>M\<close> have become those of \<open>M\<close>, every other
  entry and every byte outside the table is as before.\<close>

definition pt_maps :: "addr \<Rightarrow> 'a mst_scheme \<Rightarrow> 'a mst_scheme \<Rightarrow> addr list \<Rightarrow> nat \<Rightarrow> (uint64 \<Rightarrow> uint64 option) \<Rightarrow> bool" where
  "pt_maps p s t xs n M \<longleftrightarrow> n \<le> length xs \<and> mem_step s t \<and> kmem_inv t (drop n xs) \<and> pt_ok 2 (mem t) p
     \<and> pt_set 2 (mem t) p = pt_set 2 (mem s) p \<union> set (take n xs)
     \<and> (\<forall>va<MAXVA. lookup 2 (mem t) p va =
          (case M (PGROUNDDOWN va) of Some v \<Rightarrow> v | None \<Rightarrow> lookup 2 (mem s) p va))
     \<and> (\<forall>a. PGROUNDDOWN a \<notin> pt_set 2 (mem t) p \<longrightarrow> mem t a = mem s a)"

lemma same_idx_page:
  assumes "va < MAXVA" and "vb < MAXVA"
  shows "same_idx 2 va vb \<longleftrightarrow> PGROUNDDOWN va = PGROUNDDOWN vb"
proof
  assume "same_idx 2 va vb"
  then show "PGROUNDDOWN va = PGROUNDDOWN vb"
    using PX_inject[OF assms] by (simp add: same_idx_def)
next
  assume e: "PGROUNDDOWN va = PGROUNDDOWN vb"
  have "PX k va = PX k vb" for k using PX_PGROUNDDOWN[of k va] PX_PGROUNDDOWN[of k vb] e by simp
  then show "same_idx 2 va vb" by (simp add: same_idx_def)
qed

lemma pt_maps_grow: "pt_grow 2 p s t xs n \<Longrightarrow> pt_maps p s t xs n Map.empty"
  unfolding pt_grow_def pt_maps_def by auto

lemma pt_maps_trans:
  assumes a: "pt_maps p s t xs n M" and b: "pt_maps p t u (drop n xs) k N"
  shows "pt_maps p s u xs (n + k) (M ++ N)"
proof -
  have st: "set (take (n + k) xs) = set (take n xs) \<union> set (take k (drop n xs))" by (simp add: take_add)
  have l: "n + k \<le> length xs" using a b by (auto simp: pt_maps_def)
  have ms: "mem_step s u" using mem_step_trans[of s t u] a b by (simp add: pt_maps_def)
  have k: "kmem_inv u (drop (n + k) xs)" and ok: "pt_ok 2 (mem u) p"
    using b by (simp_all add: pt_maps_def add.commute)
  have ps: "pt_set 2 (mem u) p = pt_set 2 (mem s) p \<union> set (take (n + k) xs)"
    "pt_set 2 (mem t) p \<subseteq> pt_set 2 (mem u) p"
    using a b st by (auto simp: pt_maps_def)
  have lk: "lookup 2 (mem u) p va =
      (case (M ++ N) (PGROUNDDOWN va) of Some v \<Rightarrow> v | None \<Rightarrow> lookup 2 (mem s) p va)" if "va < MAXVA" for va
    using a b that by (simp add: pt_maps_def map_add_def split: option.splits)
  have fr: "mem u a = mem s a" if "PGROUNDDOWN a \<notin> pt_set 2 (mem u) p" for a
    using a b that ps(2) unfolding pt_maps_def by (metis subsetD)
  show ?thesis unfolding pt_maps_def using l ms k ok ps(1) lk fr by blast
qed

lemma pt_maps_inv:
  assumes "pt_inv 2 s p xs" and "pt_maps p s t xs n M"
  shows "pt_inv 2 t p (drop n xs)"
proof -
  have fr: "held t = held s" "k_end t = k_end s" and pts: "pt_set 2 (mem t) p = pt_set 2 (mem s) p \<union> set (take n xs)"
    using assms(2) mem_step_frame[of s t] by (auto simp: pt_maps_def)
  have "distinct xs" "\<forall>x\<in>set xs. page_ok (k_end s) x"
    using assms(1) kmem_invD(2,3) by (auto simp: pt_inv_def)
  then have "set (take n xs) \<inter> set (drop n xs) = {}" "\<forall>x\<in>set (take n xs). page_ok (k_end s) x"
    by (auto simp: set_take_disj_set_drop_if_distinct dest: in_set_takeD)
  then show ?thesis
    using assms set_drop_subset[of n xs] fr pts unfolding pt_inv_def pt_maps_def by auto
qed

lemma pt_maps_refl: "pt_inv 2 s p xs \<Longrightarrow> pt_maps p s s xs 0 Map.empty"
  by (rule pt_maps_grow[OF pt_grow_refl])

lemma pt_maps_store:
  assumes i: "pt_inv 2 s p xs" and va: "va < MAXVA" and n0: "pte_addr 2 (mem s) p va \<noteq> 0"
  shows "pt_maps p s (s\<lparr>mem := store64 (mem s) (pte_addr 2 (mem s) p va) v\<rparr>) xs 0 [PGROUNDDOWN va \<mapsto> v]"
proof -
  have ok: "pt_ok 2 (mem s) p" "kmem_inv s xs" "pt_set 2 (mem s) p \<inter> set xs = {}"
    using i by (auto simp: pt_inv_def)
  obtain q where q: "leaf_pg 2 (mem s) p va = Some q" and a: "pte_addr 2 (mem s) p va = q + 8 * PX 0 va"
    using pte_addr_load(1)[OF ok(1) n0] by blast
  note in' = leaf_in[OF q ok(1)]
  let ?m = "store64 (mem s) (q + 8 * PX 0 va) v"
  have out: "?m b = mem s b" if "PGROUNDDOWN b \<notin> pt_set 2 (mem s) p" for b
    by (rule store_slot_other) (use in' that in auto)
  have sl: "pt_ok 2 ?m p" "pt_set 2 ?m p = pt_set 2 (mem s) p"
    "\<And>vb. lookup 2 ?m p vb = (if same_idx 2 va vb then v else lookup 2 (mem s) p vb)"
    using store_leaf[OF ok(1) q, of v] by blast+
  have k: "kmem_inv (s\<lparr>mem := ?m\<rparr>) xs" by (rule kmem_inv_mem[OF ok(2)]) (use out ok(3) in blast)
  have "lookup 2 ?m p vb = (case [PGROUNDDOWN va \<mapsto> v] (PGROUNDDOWN vb) of Some v \<Rightarrow> v | None \<Rightarrow> lookup 2 (mem s) p vb)"
    if "vb < MAXVA" for vb
    using sl(3)[of vb] same_idx_page[OF va that] by simp
  then show ?thesis
    unfolding a pt_maps_def using sl(1,2) k out by simp
qed

end
