(* ===== verification/Vmspec.thy ===== *)
theory Vmspec
  imports Pagetable
begin

text \<open>
  What the functions of kernel/vm.c do, over the abstraction of theory Pagetable:
  \<open>mappages\<close> adds exactly the requested entries or runs out of memory, \<open>walkaddr\<close> reads the
  mapping, \<open>uvmunmap\<close> removes entries and returns their pages to the free list.
\<close>

unbundle bit_operations_syntax

declare mod_0_imp_dvd [rule del]

lemma aligned_mult: "(4096 * x :: addr) mod 4096 = 0"
proof -
  have "unat (4096 * x) = 4096 * unat x mod 2 ^ 64" by (simp add: unat_word_ariths)
  moreover have "(4096 * unat x mod 2 ^ 64) mod 4096 = 4096 * unat x mod 4096"
    by (rule mod_mod_cancel) simp
  ultimately show ?thesis by (simp add: aligned_unat)
qed

lemma aligned_form: "(a :: addr) mod 4096 = 0 \<Longrightarrow> a = 4096 * (a div 4096)"
  by (metis add.right_neutral mult_div_mod_eq)

lemma aligned_diff: "(a :: addr) mod 4096 = 0 \<Longrightarrow> b mod 4096 = 0 \<Longrightarrow> (a - b) mod 4096 = 0"
  using aligned_mult[of "a div 4096 - b div 4096"] aligned_form[of a] aligned_form[of b]
  by (simp add: right_diff_distrib)

lemma aligned_add: "(a :: addr) mod 4096 = 0 \<Longrightarrow> b mod 4096 = 0 \<Longrightarrow> (a + b) mod 4096 = 0"
  using aligned_mult[of "a div 4096 + b div 4096"] aligned_form[of a] aligned_form[of b]
  by (simp add: distrib_left)

subsection \<open>mappages\<close>

lemma walk_alloc:
  assumes "pt_inv 2 s p xs" and "va < MAXVA"
  shows "\<exists>a t n. walk p va True s = Done a t \<and> pt_grow 2 p s t xs n \<and> n \<le> 2
    \<and> (a = 0 \<longrightarrow> n = length xs \<and> n < 2) \<and> (a \<noteq> 0 \<longrightarrow> a = pte_addr 2 (mem t) p va)"
  using walk_loop_alloc[OF assms(1), of va] assms(2) by (simp add: walk_def flip: not_le)

lemma map_one_spec:
  assumes i: "pt_inv 2 s p xs" and a: "a < MAXVA" and free: "\<not> pvalid (lookup 2 (mem s) p a)"
  shows "\<exists>t n. n \<le> 2 \<and>
    (map_one p perm a pa s = Done None t \<and> pt_maps p s t xs n [PGROUNDDOWN a \<mapsto> PA2PTE pa OR perm OR PTE_V]
     \<or> map_one p perm a pa s = Done (Some (- 1)) t \<and> pt_maps p s t xs n Map.empty \<and> n = length xs \<and> n < 2)"
proof -
  obtain b t n where w: "walk p a True s = Done b t" and g: "pt_grow 2 p s t xs n" and n: "n \<le> 2"
    and z: "b = 0 \<longrightarrow> n = length xs \<and> n < 2" and nz: "b \<noteq> 0 \<longrightarrow> b = pte_addr 2 (mem t) p a"
    using walk_alloc[OF i a] by blast
  show ?thesis
  proof (cases "b = 0")
    case True
    then have "map_one p perm a pa s = Done (Some (- 1)) t" using w by (simp add: map_one_def kexec)
    then show ?thesis using pt_maps_grow[OF g] n z True by blast
  next
    case False
    have it: "pt_inv 2 t p (drop n xs)" by (rule pt_grow_inv[OF i g])
    then have ok: "pt_ok 2 (mem t) p" by (simp add: pt_inv_def)
    have lk: "load64 (mem t) b = lookup 2 (mem s) p a"
      using pte_addr_load(2)[OF ok] nz False g by (simp add: pt_grow_def)
    let ?v = "PA2PTE pa OR perm OR PTE_V" let ?u = "t\<lparr>mem := store64 (mem t) b ?v\<rparr>"
    have "map_one p perm a pa s = Done None ?u"
      using w False free lk by (simp add: map_one_def kexec pvalid_def)
    moreover have "pt_maps p t ?u (drop n xs) 0 [PGROUNDDOWN a \<mapsto> ?v]"
      using pt_maps_store[OF it a, of ?v] nz False by simp
    then have "pt_maps p s ?u xs n [PGROUNDDOWN a \<mapsto> ?v]"
      using pt_maps_trans[OF pt_maps_grow[OF g]] by fastforce
    ultimately show ?thesis using n by blast
  qed
qed

text \<open>The entries that the first \<open>i\<close> rounds of the loop of \<open>mappages\<close> write.\<close>

definition run_map :: "uint64 \<Rightarrow> uint64 \<Rightarrow> uint64 \<Rightarrow> nat \<Rightarrow> uint64 \<Rightarrow> uint64 option" where
  "run_map va pa perm i v =
     (if unat (v - va) div 4096 < i then Some (PA2PTE (pa + (v - va)) OR perm OR PTE_V) else None)"

lemma page_offset:
  assumes "va mod 4096 = 0" and "unat va + i * 4096 \<le> unat MAXVA" and "k < i"
  shows "va + of_nat k * PGSIZE < MAXVA" "(va + of_nat k * PGSIZE) mod 4096 = 0"
    "unat (va + of_nat k * PGSIZE) = unat va + k * 4096" "unat (of_nat k * PGSIZE) = k * 4096"
proof -
  have m: "unat MAXVA = 2 ^ 38" by (simp add: MAXVA_eq)
  have kb: "unat va + k * 4096 < unat MAXVA" using assms(2,3) by linarith
  show "unat (of_nat k * PGSIZE) = k * 4096"
    using kb m by (simp add: PGSIZE_def unat_word_ariths unat_of_nat mod_mult_left_eq)
  then show u: "unat (va + of_nat k * PGSIZE) = unat va + k * 4096"
    using kb m by (simp add: unat_word_ariths)
  show "va + of_nat k * PGSIZE < MAXVA" using u kb by (simp add: word_less_nat_alt)
  have "unat va mod 4096 = 0" using assms(1) by (simp add: aligned_unat)
  then show "(va + of_nat k * PGSIZE) mod 4096 = 0" by (simp add: aligned_unat u)
qed

lemma run_map_Suc:
  assumes "va mod 4096 = 0" and "unat va + N * 4096 \<le> unat MAXVA" and "i < N" and "v mod 4096 = 0"
  defines "a \<equiv> va + of_nat i * PGSIZE"
  shows "run_map va pa perm (Suc i) v =
    (run_map va pa perm i ++ [a \<mapsto> PA2PTE (pa + of_nat i * PGSIZE) OR perm OR PTE_V]) v"
proof -
  note po = page_offset[OF assms(1-3)]
  note ui = po(4)
  have "unat (v - va) mod 4096 = 0" using aligned_diff[OF assms(4,1)] by (simp add: aligned_unat)
  then have "unat (v - va) div 4096 = i \<longleftrightarrow> unat (v - va) = i * 4096"
    using div_mult_mod_eq[of "unat (v - va)" 4096] by auto
  also have "\<dots> \<longleftrightarrow> v - va = of_nat i * PGSIZE" unfolding word_unat_eq_iff ui ..
  also have "\<dots> \<longleftrightarrow> v = a" unfolding a_def by (simp add: diff_eq_eq add.commute)
  finally have e: "unat (v - va) div 4096 = i \<longleftrightarrow> v = a" .
  show ?thesis
    using e by (auto simp: run_map_def map_add_def less_Suc_eq a_def split: if_splits)
qed

lemma pt_maps_cong:
  "(\<And>v. v mod 4096 = 0 \<Longrightarrow> M v = N v) \<Longrightarrow> pt_maps p s t xs n M = pt_maps p s t xs n N"
  unfolding pt_maps_def by simp

lemma run_map_0: "run_map va pa perm 0 = Map.empty"
  by (simp add: run_map_def fun_eq_iff)

lemma map_run:
  fixes pa perm :: uint64
  assumes i: "pt_inv 2 s p xs" and al: "va mod 4096 = 0" and fit: "unat va + N * 4096 \<le> unat MAXVA"
    and free: "\<forall>k<N. \<not> pvalid (lookup 2 (mem s) p (va + of_nat k * PGSIZE))"
  defines "f \<equiv> \<lambda>k. map_one p perm (va + of_nat k * PGSIZE) (pa + of_nat k * PGSIZE)"
  shows "(\<exists>t. kscan [0..<N] f s = Done None t \<and> (\<exists>n\<le>2 * N. pt_maps p s t xs n (run_map va pa perm N)))
    \<or> (\<exists>k v t. k < N \<and> kscan [0..<N] f s = Done (Some v) t
         \<and> (\<exists>n<2 * Suc k. v = - 1 \<and> n = length xs \<and> pt_maps p s t xs n (run_map va pa perm k)))"
proof (rule kscan_inv_upt[of N "\<lambda>k t. \<exists>n\<le>2 * k. pt_maps p s t xs n (run_map va pa perm k)"])
  show "\<exists>n\<le>2 * 0. pt_maps p s s xs n (run_map va pa perm 0)"
    using pt_maps_refl[OF i] by (simp add: run_map_0)
next
  fix k t assume k: "k < N" and "\<exists>n\<le>2 * k. pt_maps p s t xs n (run_map va pa perm k)"
  then obtain n where n: "n \<le> 2 * k" and m: "pt_maps p s t xs n (run_map va pa perm k)" by blast
  let ?a = "va + of_nat k * PGSIZE"
  note po = page_offset[OF al fit k]
  have pa: "PGROUNDDOWN ?a = ?a" using PGROUNDDOWN_id[OF po(2)] .
  have "unat (?a - va) = k * 4096" using po(4) by simp
  then have "run_map va pa perm k ?a = None" by (simp add: run_map_def)
  then have "\<not> pvalid (lookup 2 (mem t) p ?a)" using m po(1) free k pa by (simp add: pt_maps_def)
  from map_one_spec[OF pt_maps_inv[OF i m] po(1) this, of perm "pa + of_nat k * PGSIZE"]
  obtain u n' where n': "n' \<le> 2" and c:
    "f k t = Done None u \<and> pt_maps p t u (drop n xs) n' [?a \<mapsto> PA2PTE (pa + of_nat k * PGSIZE) OR perm OR PTE_V]
     \<or> f k t = Done (Some (- 1)) u \<and> pt_maps p t u (drop n xs) n' Map.empty \<and> n' = length (drop n xs) \<and> n' < 2"
    unfolding f_def pa by blast
  from c show "(\<exists>u. f k t = Done None u \<and> (\<exists>n\<le>2 * Suc k. pt_maps p s u xs n (run_map va pa perm (Suc k))))
    \<or> (\<exists>v u. f k t = Done (Some v) u
         \<and> (\<exists>n<2 * Suc k. v = - 1 \<and> n = length xs \<and> pt_maps p s u xs n (run_map va pa perm k)))"
  proof
    assume A: "f k t = Done None u \<and> pt_maps p t u (drop n xs) n' [?a \<mapsto> PA2PTE (pa + of_nat k * PGSIZE) OR perm OR PTE_V]"
    have "pt_maps p s u xs (n + n') (run_map va pa perm (Suc k))"
      using pt_maps_trans[OF m conjunct2[OF A]]
      by (subst pt_maps_cong[where N = "run_map va pa perm k ++ [?a \<mapsto> PA2PTE (pa + of_nat k * PGSIZE) OR perm OR PTE_V]"])
        (rule run_map_Suc[OF al fit k])
    then show ?thesis using A n n' by (metis add_le_mono mult_Suc_right add.commute)
  next
    assume A: "f k t = Done (Some (- 1)) u \<and> pt_maps p t u (drop n xs) n' Map.empty \<and> n' = length (drop n xs) \<and> n' < 2"
    have "pt_maps p s u xs (n + n') (run_map va pa perm k)"
      using pt_maps_trans[OF m] A by fastforce
    moreover have "n + n' = length xs" using A m by (simp add: pt_maps_def)
    ultimately show ?thesis using A n by auto
  qed
qed

text \<open>C21: \<open>mappages\<close> on a well-formed page table and an unmapped, page-aligned range below MAXVA.
  It either returns 0 with exactly the requested entries installed, or returns -1 because the
  free list ran empty, with a prefix of the range installed. Every other entry of the table and
  every byte outside the page-table pages is unchanged, the table stays a tree whose pages are
  disjoint from the free list, and with two free pages per mapped page it cannot fail.\<close>

theorem mappages_correct:
  assumes i: "pt_inv 2 s p xs" and al: "va mod 4096 = 0" and sz: "sz mod 4096 = 0" "sz \<noteq> 0"
    and fit: "unat va + unat sz \<le> unat MAXVA"
    and free: "\<forall>k < unat sz div 4096. \<not> pvalid (lookup 2 (mem s) p (va + of_nat k * PGSIZE))"
  shows "\<exists>r t n i. mappages p va sz pa perm s = Done r t \<and> pt_maps p s t xs n (run_map va pa perm i)
    \<and> pt_inv 2 t p (drop n xs) \<and> (r = 0 \<and> i = unat sz div 4096 \<or> r = - 1 \<and> i < unat sz div 4096 \<and> n = length xs)
    \<and> (2 * (unat sz div 4096) \<le> length xs \<longrightarrow> r = 0)"
proof -
  let ?N = "unat sz div 4096"
  let ?f = "\<lambda>k. map_one p perm (va + of_nat k * PGSIZE) (pa + of_nat k * PGSIZE)"
  have N: "unat (sz div PGSIZE) = ?N" by (simp add: PGSIZE_def unat_div)
  have "unat sz mod 4096 = 0" using sz(1) by (simp add: aligned_unat)
  then have fit': "unat va + ?N * 4096 \<le> unat MAXVA" using fit by linarith
  have e: "mappages p va sz pa perm = or_ret 0 (kscan [0..<?N] ?f)"
    unfolding mappages_def N using al sz by (simp add: PGSIZE_def)
  from map_run[OF i al fit' free, of perm pa] show ?thesis
  proof (elim disjE exE conjE)
    fix t n assume A: "kscan [0..<?N] ?f s = Done None t" "pt_maps p s t xs n (run_map va pa perm ?N)"
    then have "mappages p va sz pa perm s = Done 0 t" by (simp add: e or_ret_def kexec)
    then show ?thesis using pt_maps_inv[OF i A(2)] A(2) by blast
  next
    fix k v t n assume A: "k < ?N" "kscan [0..<?N] ?f s = Done (Some v) t" "n < 2 * Suc k" "v = - 1" "n = length xs"
      "pt_maps p s t xs n (run_map va pa perm k)"
    then have "mappages p va sz pa perm s = Done (- 1) t" by (simp add: e or_ret_def kexec)
    moreover have "\<not> 2 * ?N \<le> length xs" using A(3,5) mult_le_mono2[OF Suc_leI[OF A(1)], of 2] by simp
    ultimately show ?thesis using pt_maps_inv[OF i A(6)] A(1,5,6) by blast
  qed
qed

subsection \<open>An example address space\<close>

text \<open>Eight free pages and two zeroed pages that serve as empty page tables.\<close>

definition ex_free :: "addr list" where
  "ex_free = [0x87FF2000, 0x87FF3000, 0x87FF4000, 0x87FF5000, 0x87FF6000, 0x87FF7000, 0x87FF8000, 0x87FF9000]"

definition ex_vm :: mst where
  "ex_vm = foldr freed ex_free (boot_mst 0x80020000)"

lemma ex_page_ok: "p \<in> set (0x87FFA000 # 0x87FFF000 # ex_free) \<Longrightarrow> page_ok 0x80020000 p"
  by (auto simp: ex_free_def page_ok_def PHYSTOP_eq)

lemma ex_vm_kmem: "kmem_inv ex_vm ex_free"
  unfolding ex_vm_def ex_free_def foldr.simps comp_def id_def
  by (intro freed_inv boot_mst_inv; simp add: ex_page_ok ex_free_def)

lemma ex_vm_simps [simp]: "held ex_vm = {}" "k_end ex_vm = 0x80020000" "length ex_free = 8"
  by (simp_all add: ex_vm_def ex_free_def)

lemma ex_vm_mem: "PGROUNDDOWN a \<notin> set ex_free \<Longrightarrow> mem ex_vm a = 0"
  unfolding ex_vm_def ex_free_def foldr.simps comp_def id_def
  by (simp add: freed_mem[OF ex_page_ok] ex_free_def)

lemma ex_vm_table:
  assumes "p \<in> {0x87FFA000, 0x87FFF000}"
  shows "pt_inv 2 ex_vm p ex_free" "lookup 2 (mem ex_vm) p va = 0" "pt_set 2 (mem ex_vm) p = {p}"
proof -
  have ok: "page_ok 0x80020000 p" "p \<notin> set ex_free" using assms ex_page_ok[of p] by (auto simp: ex_free_def)
  have z: "pt_ok 2 (mem ex_vm) p \<and> pt_set 2 (mem ex_vm) p = {p} \<and> lookup 2 (mem ex_vm) p va = 0" for va
    by (rule zero_page_table[OF page_ok_facts(1,2)[OF ok(1)]], rule ex_vm_mem) (use ok(2) in simp)
  then show "lookup 2 (mem ex_vm) p va = 0" "pt_set 2 (mem ex_vm) p = {p}" by blast+
  show "pt_inv 2 ex_vm p ex_free"
    unfolding pt_inv_def using z ex_vm_kmem ok by simp
qed

lemmas ex_vm_pt = ex_vm_table(1)[of "0x87FFF000", simplified]
  and ex_vm_empty = ex_vm_table(2)[of "0x87FFF000", simplified]

theorem mappages_correct_witness:
  "\<exists>t n. mappages 0x87FFF000 0x1000 0x1000 0x80030000 2 ex_vm = Done 0 t
     \<and> pt_maps 0x87FFF000 ex_vm t ex_free n (run_map 0x1000 0x80030000 2 1)"
  using mappages_correct[OF ex_vm_pt, of "0x1000" "0x1000" "0x80030000" 2]
  by (auto simp: MAXVA_eq ex_vm_empty)

end
