(* ===== verification/Uvm.thy ===== *)
theory Uvm
  imports Vmspec
begin

text \<open>
  User address spaces. \<open>uvm_inv\<close> adds to a well-formed page table that every page mapped below
  TRAPFRAME is an allocated page of RAM of its own: not a page-table page, not free and not
  mapped at a second address. The theory shows that unmapping returns pages to the free list
  and that \<open>copyout\<close>, \<open>copyin\<close> and the lazy allocation of pages do what user programs rely on.
\<close>

unbundle bit_operations_syntax

declare mod_0_imp_dvd [rule del]

definition uvm_inv :: "'a mst_scheme \<Rightarrow> addr \<Rightarrow> addr list \<Rightarrow> bool" where
  "uvm_inv s p xs \<longleftrightarrow> pt_inv 2 s p xs
     \<and> (\<forall>va<TRAPFRAME. pvalid (lookup 2 (mem s) p va) \<longrightarrow>
          page_ok (k_end s) (PTE2PA (lookup 2 (mem s) p va))
          \<and> PTE2PA (lookup 2 (mem s) p va) \<notin> pt_set 2 (mem s) p \<union> set xs
          \<and> PTE_FLAGS (lookup 2 (mem s) p va) \<noteq> PTE_V)
     \<and> (\<forall>va<TRAPFRAME. \<forall>vb<TRAPFRAME. pvalid (lookup 2 (mem s) p va) \<longrightarrow> pvalid (lookup 2 (mem s) p vb) \<longrightarrow>
          PTE2PA (lookup 2 (mem s) p va) = PTE2PA (lookup 2 (mem s) p vb) \<longrightarrow> PGROUNDDOWN va = PGROUNDDOWN vb)"

lemma uvm_invD:
  assumes "uvm_inv s p xs"
  shows "pt_inv 2 s p xs"
    "va < TRAPFRAME \<Longrightarrow> pvalid (lookup 2 (mem s) p va) \<Longrightarrow> page_ok (k_end s) (PTE2PA (lookup 2 (mem s) p va))"
    "va < TRAPFRAME \<Longrightarrow> pvalid (lookup 2 (mem s) p va) \<Longrightarrow> PTE2PA (lookup 2 (mem s) p va) \<notin> pt_set 2 (mem s) p"
    "va < TRAPFRAME \<Longrightarrow> pvalid (lookup 2 (mem s) p va) \<Longrightarrow> PTE2PA (lookup 2 (mem s) p va) \<notin> set xs"
    "va < TRAPFRAME \<Longrightarrow> pvalid (lookup 2 (mem s) p va) \<Longrightarrow> PTE_FLAGS (lookup 2 (mem s) p va) \<noteq> PTE_V"
    "va < TRAPFRAME \<Longrightarrow> vb < TRAPFRAME \<Longrightarrow> pvalid (lookup 2 (mem s) p va) \<Longrightarrow> pvalid (lookup 2 (mem s) p vb) \<Longrightarrow>
       PTE2PA (lookup 2 (mem s) p va) = PTE2PA (lookup 2 (mem s) p vb) \<Longrightarrow> PGROUNDDOWN va = PGROUNDDOWN vb"
  using assms unfolding uvm_inv_def by blast+

lemma pt_invD:
  assumes "pt_inv l s p xs"
  shows "pt_ok l (mem s) p" "kmem_inv s xs" "pt_set l (mem s) p \<inter> set xs = {}"
    "q \<in> pt_set l (mem s) p \<Longrightarrow> page_ok (k_end s) q" "KMEM_LOCK \<notin> held s"
  using assms by (auto simp: pt_inv_def)

lemma TRAPFRAME_MAXVA: "va < TRAPFRAME \<Longrightarrow> va < MAXVA"
  by (rule less_trans[of _ TRAPFRAME]) (simp_all add: TRAPFRAME_eq MAXVA_eq)

lemma lookup_page:
  assumes "PGROUNDDOWN va = PGROUNDDOWN vb"
  shows "lookup l m p va = lookup l m p vb"
proof -
  have px: "PX k va = PX k vb" for k using PX_PGROUNDDOWN[of k va] PX_PGROUNDDOWN[of k vb] assms by simp
  have "leaf_pg l m p va = leaf_pg l m p vb" by (induction l arbitrary: p) (simp_all add: px Let_def)
  then show ?thesis by (simp add: lookup_def px split: option.split)
qed

lemma lookup_PGROUNDDOWN: "lookup l m p (PGROUNDDOWN va) = lookup l m p va"
  by (rule lookup_page) (simp add: PGROUNDDOWN_id)

subsection \<open>Unmapping\<close>

text \<open>\<open>uvm_unmap p s t xs fs R\<close>: the pages whose addresses are in \<open>R\<close> have been unmapped and the
  pages \<open>fs\<close> that they mapped are back on the free list; nothing else has changed.\<close>

definition uvm_unmap :: "addr \<Rightarrow> 'a mst_scheme \<Rightarrow> 'a mst_scheme \<Rightarrow> addr list \<Rightarrow> addr list \<Rightarrow> uint64 set \<Rightarrow> bool" where
  "uvm_unmap p s t xs fs R \<longleftrightarrow> mem_step s t \<and> uvm_inv t p (fs @ xs)
     \<and> pt_set 2 (mem t) p = pt_set 2 (mem s) p
     \<and> set fs = {PTE2PA (lookup 2 (mem s) p r) | r. r \<in> R \<and> pvalid (lookup 2 (mem s) p r)}
     \<and> (\<forall>va<MAXVA. lookup 2 (mem t) p va =
          (if PGROUNDDOWN va \<in> R \<and> pvalid (lookup 2 (mem s) p va) then 0 else lookup 2 (mem s) p va))
     \<and> (\<forall>a. PGROUNDDOWN a \<notin> pt_set 2 (mem s) p \<union> set fs \<longrightarrow> mem t a = mem s a)"

lemma pt_inv_freed:
  assumes i: "pt_inv 2 s p xs" and ok: "page_ok (k_end s) pa" and n: "pa \<notin> pt_set 2 (mem s) p" "pa \<notin> set xs"
  shows "pt_inv 2 (freed pa s) p (pa # xs)" "pt_set 2 (mem (freed pa s)) p = pt_set 2 (mem s) p"
    "lookup 2 (mem (freed pa s)) p va = lookup 2 (mem s) p va"
    "pte_addr 2 (mem (freed pa s)) p va = pte_addr 2 (mem s) p va"
proof -
  note D = pt_invD[OF i]
  have a: "mem (freed pa s) b = mem s b" if "PGROUNDDOWN b \<in> pt_set 2 (mem s) p" for b
    by (rule freed_mem[OF ok]) (use that n in auto)
  have c: "pt_set 2 (mem (freed pa s)) p = pt_set 2 (mem s) p \<and> pt_ok 2 (mem (freed pa s)) p"
    using pt_cong[OF D(1) a] by blast
  then show "pt_set 2 (mem (freed pa s)) p = pt_set 2 (mem s) p" by blast
  show "lookup 2 (mem (freed pa s)) p va = lookup 2 (mem s) p va"
    "pte_addr 2 (mem (freed pa s)) p va = pte_addr 2 (mem s) p va"
    using lookup_cong[OF D(1) a] by blast+
  show "pt_inv 2 (freed pa s) p (pa # xs)"
    unfolding pt_inv_def using c freed_inv[OF D(2) ok n(2)] D(3-5) n by auto
qed

lemma unmap_one_hole:
  assumes "pt_ok 2 (mem s) p" and "a < MAXVA" and "\<not> pvalid (lookup 2 (mem s) p a)"
  shows "unmap_one p df a s = Done () s"
  using assms pte_addr_load(2)[OF assms(1), of a]
  by (cases "pte_addr 2 (mem s) p a = 0") (simp_all add: unmap_one_def walk_find kexec pvalid_def)

text \<open>How the invariant of an address space survives a change of the mapping: an entry that is
  valid afterwards was valid before and names a page that is neither free nor in the table.\<close>

lemma uvm_inv_shrink:
  assumes i: "uvm_inv s p xs" and j: "pt_inv 2 t p ys" and k: "k_end t = k_end s"
    and ps: "pt_set 2 (mem t) p = pt_set 2 (mem s) p"
    and lk: "\<And>va. va < TRAPFRAME \<Longrightarrow> pvalid (lookup 2 (mem t) p va) \<Longrightarrow>
      lookup 2 (mem t) p va = lookup 2 (mem s) p va \<and> PTE2PA (lookup 2 (mem s) p va) \<notin> set ys"
  shows "uvm_inv t p ys"
proof -
  note D = uvm_invD[OF i]
  have L: "lookup 2 (mem t) p va = lookup 2 (mem s) p va \<and> pvalid (lookup 2 (mem s) p va)
      \<and> PTE2PA (lookup 2 (mem s) p va) \<notin> set ys"
    if "va < TRAPFRAME" "pvalid (lookup 2 (mem t) p va)" for va
    using lk[OF that] that(2) by auto
  show ?thesis
    unfolding uvm_inv_def
  proof (intro conjI allI impI)
    show "pt_inv 2 t p ys" by (rule j)
    fix va assume va: "va < TRAPFRAME" "pvalid (lookup 2 (mem t) p va)"
    show "page_ok (k_end t) (PTE2PA (lookup 2 (mem t) p va))"
      "PTE2PA (lookup 2 (mem t) p va) \<notin> pt_set 2 (mem t) p \<union> set ys"
      "PTE_FLAGS (lookup 2 (mem t) p va) \<noteq> PTE_V"
      using L[OF va] D(2,3,5)[OF va(1)] ps k by auto
    fix vb assume vb: "vb < TRAPFRAME" "pvalid (lookup 2 (mem t) p vb)"
      "PTE2PA (lookup 2 (mem t) p va) = PTE2PA (lookup 2 (mem t) p vb)"
    show "PGROUNDDOWN va = PGROUNDDOWN vb" using L[OF va] L[OF vb(1,2)] D(6)[OF va(1) vb(1)] vb(3) by simp
  qed
qed

lemma unmap_one_free:
  assumes i: "uvm_inv s p xs" and a: "a < TRAPFRAME" and v: "pvalid (lookup 2 (mem s) p a)"
  defines "pa \<equiv> PTE2PA (lookup 2 (mem s) p a)"
  shows "\<exists>t. unmap_one p True a s = Done () t \<and> uvm_unmap p s t xs [pa] {PGROUNDDOWN a}"
proof -
  note D = uvm_invD[OF i] note P = pt_invD[OF D(1)] note aM = TRAPFRAME_MAXVA[OF a]
  have pa: "page_ok (k_end s) pa" "pa \<notin> pt_set 2 (mem s) p" "pa \<notin> set xs"
    using D(2-4)[OF a v] by (simp_all add: pa_def)
  have n0: "pte_addr 2 (mem s) p a \<noteq> 0" using lookup_None[OF _ P(1), of a] v by fastforce
  note F = pt_inv_freed[OF D(1) pa]
  let ?t = "(freed pa s)\<lparr>mem := store64 (mem (freed pa s)) (pte_addr 2 (mem s) p a) 0\<rparr>"
  have run: "unmap_one p True a s = Done () ?t"
    using n0 v D(5)[OF a v] pte_addr_load(2)[OF P(1) n0] kfree_exec[OF pa(1) P(5)]
    by (simp add: unmap_one_def walk_find[OF aM] kexec pvalid_def flip: pa_def)
  have m: "pt_maps p (freed pa s) ?t (pa # xs) 0 [PGROUNDDOWN a \<mapsto> 0]"
    using pt_maps_store[OF F(1) aM, of 0] n0 F(4)[of a] by simp
  have lk: "lookup 2 (mem ?t) p vb = (if PGROUNDDOWN vb = PGROUNDDOWN a then 0 else lookup 2 (mem s) p vb)"
    if "vb < MAXVA" for vb
    using m that F(3) by (simp add: pt_maps_def)
  have ps: "pt_set 2 (mem ?t) p = pt_set 2 (mem s) p" using m F(2) by (simp add: pt_maps_def)
  have "pt_inv 2 ?t p (pa # xs)" using pt_maps_inv[OF F(1) m] by simp
  then have inv: "uvm_inv ?t p (pa # xs)"
  proof (rule uvm_inv_shrink[OF i])
    fix vb assume vb: "vb < TRAPFRAME" "pvalid (lookup 2 (mem ?t) p vb)"
    then have ne: "PGROUNDDOWN vb \<noteq> PGROUNDDOWN a" and e: "lookup 2 (mem ?t) p vb = lookup 2 (mem s) p vb"
      using lk[OF TRAPFRAME_MAXVA[OF vb(1)]] by (auto split: if_splits)
    have "pvalid (lookup 2 (mem s) p vb)" using vb(2) e by simp
    then show "lookup 2 (mem ?t) p vb = lookup 2 (mem s) p vb \<and> PTE2PA (lookup 2 (mem s) p vb) \<notin> set (pa # xs)"
      using e ne D(6)[OF vb(1) a _ v] D(4)[OF vb(1)] by (auto simp: pa_def)
  qed (use ps in simp_all)
  have fr: "mem ?t b = mem s b" if "PGROUNDDOWN b \<notin> pt_set 2 (mem s) p \<union> {pa}" for b
    using m that ps freed_mem[OF pa(1), of b s] by (simp add: pt_maps_def)
  have lk': "lookup 2 (mem ?t) p vb =
      (if PGROUNDDOWN vb \<in> {PGROUNDDOWN a} \<and> pvalid (lookup 2 (mem s) p vb) then 0 else lookup 2 (mem s) p vb)"
    if "vb < MAXVA" for vb
    using lk[OF that] lookup_page[of vb a 2 "mem s" p] v by auto
  have "mem_step s ?t" by (rule mem_step_trans[of _ "freed pa s"]) simp_all
  then have "uvm_unmap p s ?t xs [pa] {PGROUNDDOWN a}"
    unfolding uvm_unmap_def using inv ps v pa_def fr lk' by (simp add: lookup_PGROUNDDOWN)
  then show ?thesis using run by blast
qed

lemma uvm_unmap_refl: "uvm_inv s p xs \<Longrightarrow> uvm_unmap p s s xs [] {}"
  by (simp add: uvm_unmap_def)

lemma uvm_unmap_hole:
  assumes "uvm_unmap p s t xs fs R" and "\<not> pvalid (lookup 2 (mem t) p a)" and "a < MAXVA" and "a mod 4096 = 0"
  shows "uvm_unmap p s t xs fs (insert a R)"
proof -
  have L: "lookup 2 (mem t) p a = (if a \<in> R \<and> pvalid (lookup 2 (mem s) p a) then 0 else lookup 2 (mem s) p a)"
    using assms(1,3) PGROUNDDOWN_id[OF assms(4)] by (simp add: uvm_unmap_def)
  then have "a \<in> R \<or> \<not> pvalid (lookup 2 (mem s) p a)" using assms(2) by (auto split: if_splits)
  then have e: "PGROUNDDOWN va \<in> insert a R \<and> pvalid (lookup 2 (mem s) p va) \<longleftrightarrow>
      PGROUNDDOWN va \<in> R \<and> pvalid (lookup 2 (mem s) p va)" for va
    using lookup_PGROUNDDOWN[of 2 "mem s" p va] by auto
  then have "{PTE2PA (lookup 2 (mem s) p r) | r. r \<in> insert a R \<and> pvalid (lookup 2 (mem s) p r)}
      = {PTE2PA (lookup 2 (mem s) p r) | r. r \<in> R \<and> pvalid (lookup 2 (mem s) p r)}"
    using \<open>a \<in> R \<or> \<not> pvalid (lookup 2 (mem s) p a)\<close> by auto
  then show ?thesis using assms(1) unfolding uvm_unmap_def e by presburger
qed

lemma uvm_unmap_step:
  assumes m: "uvm_unmap p s t xs fs R" and n: "uvm_unmap p t u (fs @ xs) [pa] {a}"
    and v: "pvalid (lookup 2 (mem t) p a)" and a: "a < MAXVA" "a mod 4096 = 0"
  shows "uvm_unmap p s u xs (pa # fs) (insert a R)"
proof -
  have pa: "pa = PTE2PA (lookup 2 (mem t) p a)" using n v by (auto simp: uvm_unmap_def)
  have L: "lookup 2 (mem t) p a = (if a \<in> R \<and> pvalid (lookup 2 (mem s) p a) then 0 else lookup 2 (mem s) p a)"
    using m a(1) PGROUNDDOWN_id[OF a(2)] by (simp add: uvm_unmap_def)
  then have aR: "a \<notin> R \<and> lookup 2 (mem t) p a = lookup 2 (mem s) p a" using v by (auto split: if_splits)
  have st: "mem_step s u" using mem_step_trans[of s t u] m n by (simp add: uvm_unmap_def)
  have fs: "set (pa # fs) = {PTE2PA (lookup 2 (mem s) p r) | r. r \<in> insert a R \<and> pvalid (lookup 2 (mem s) p r)}"
    using m pa aR v by (auto simp: uvm_unmap_def)
  have lk: "lookup 2 (mem u) p va = (if PGROUNDDOWN va \<in> insert a R \<and> pvalid (lookup 2 (mem s) p va) then 0
      else lookup 2 (mem s) p va)" if "va < MAXVA" for va
    using m n that unfolding uvm_unmap_def by auto
  have fr: "mem u b = mem s b" if "PGROUNDDOWN b \<notin> pt_set 2 (mem s) p \<union> set (pa # fs)" for b
    using m n that unfolding uvm_unmap_def by auto
  show ?thesis unfolding uvm_unmap_def using st fs lk fr m n by (simp add: uvm_unmap_def)
qed

lemma addrs_below_aligned:
  assumes "va mod 4096 = 0" and "e mod 4096 = 0"
  shows "addrs_below va e = page_range va e"
proof -
  have "4096 dvd unat e - unat va"
    using assms by (auto intro!: dvd_diff_nat simp: aligned_unat mod_eq_0_iff_dvd)
  then obtain k where k: "unat e - unat va = 4096 * k" by (rule dvdE)
  have "(4096 * k + 4095) div 4096 = k" by (simp add: div_add1_eq)
  then show ?thesis by (simp add: addrs_below_def page_range_def k)
qed

lemma uvm_unmap_loop:
  assumes i: "uvm_inv s p xs" and as: "\<forall>a\<in>set as. a < TRAPFRAME \<and> a mod 4096 = 0"
  shows "runs (kfor as (unmap_one p True)) s (\<lambda>_ t. \<exists>fs. uvm_unmap p s t xs fs (set (take (length as) as)))"
proof (rule runs_kfor[of as "\<lambda>i t. \<exists>fs. uvm_unmap p s t xs fs (set (take i as))"])
  show "\<exists>fs. uvm_unmap p s s xs fs (set (take 0 as))" using uvm_unmap_refl[OF i] by auto
next
  fix k t assume k: "k < length as" and "\<exists>fs. uvm_unmap p s t xs fs (set (take k as))"
  then obtain fs where m: "uvm_unmap p s t xs fs (set (take k as))" by blast
  let ?a = "as ! k"
  have a: "?a < TRAPFRAME" "?a mod 4096 = 0" using as k nth_mem by blast+
  note aM = TRAPFRAME_MAXVA[OF a(1)]
  have it: "uvm_inv t p (fs @ xs)" using m by (simp add: uvm_unmap_def)
  have st: "set (take (Suc k) as) = insert ?a (set (take k as))" using k by (simp add: take_Suc_conv_app_nth)
  show "runs (unmap_one p True ?a) t (\<lambda>_ u. \<exists>fs. uvm_unmap p s u xs fs (set (take (Suc k) as)))"
  proof (cases "pvalid (lookup 2 (mem t) p ?a)")
    case False
    have "unmap_one p True ?a t = Done () t"
      by (rule unmap_one_hole[OF pt_invD(1)[OF uvm_invD(1)[OF it]] aM False])
    then show ?thesis using uvm_unmap_hole[OF m False aM a(2)] st by (auto simp: runs_def)
  next
    case True
    obtain u where "unmap_one p True ?a t = Done () u"
      and u: "uvm_unmap p t u (fs @ xs) [PTE2PA (lookup 2 (mem t) p ?a)] {?a}"
      using unmap_one_free[OF it a(1) True] PGROUNDDOWN_id[OF a(2)] by auto
    then show ?thesis using uvm_unmap_step[OF m u True aM a(2)] st by (auto simp: runs_def)
  qed
qed

lemma uvmunmap_run:
  assumes i: "uvm_inv s p xs" and al: "va mod 4096 = 0" and fit: "unat va + unat n * 4096 \<le> unat TRAPFRAME"
  shows "\<exists>t fs. uvmunmap p va n True s = Done () t
    \<and> uvm_unmap p s t xs fs {a. a mod 4096 = 0 \<and> va \<le> a \<and> a < va + n * PGSIZE}"
proof -
  have b: "unat va + unat n * 4096 < 2 ^ 64" using fit by (simp add: TRAPFRAME_eq)
  then have u: "unat (va + n * PGSIZE) = unat va + unat n * 4096"
    by (simp add: PGSIZE_def unat_word_ariths)
  have e: "(va + n * PGSIZE) mod 4096 = 0"
    using aligned_add[OF al aligned_mult[of n]] by (simp add: PGSIZE_def mult.commute)
  note pr = addrs_below_aligned[OF al e] set_page_range[OF al e]
  let ?as = "page_range va (va + n * PGSIZE)"
  have "\<forall>a\<in>set ?as. a < TRAPFRAME \<and> a mod 4096 = 0"
    unfolding pr(2) using u fit by (auto simp: word_less_nat_alt)
  from uvm_unmap_loop[OF i this] show ?thesis
    unfolding uvmunmap_def pr(1) pr(2)[symmetric] by (auto simp: al PGSIZE_def runs_iff)
qed

lemma ex_uvm: "p \<in> {0x87FFA000, 0x87FFF000} \<Longrightarrow> uvm_inv ex_vm p ex_free"
  unfolding uvm_inv_def using ex_vm_table[of p] by simp

lemma ex_vm_inv: "uvm_inv ex_vm 0x87FFF000 ex_free"
  by (rule ex_uvm) simp

subsection \<open>Adding a page\<close>

lemma walkaddr_exec:
  assumes "pt_ok 2 (mem s) p"
  shows "walkaddr p va s = Done (let e = lookup 2 (mem s) p va in
    if va < MAXVA \<and> pvalid e \<and> e AND PTE_U \<noteq> 0 then PTE2PA e else 0) s"
proof (cases "va < MAXVA")
  case True
  show ?thesis
    using True pte_addr_load(2)[OF assms, of va] lookup_None[OF _ assms, of va]
    by (cases "pte_addr 2 (mem s) p va = 0")
      (simp_all add: walkaddr_def walk_find kexec pvalid_def Let_def flip: not_le)
next
  case False
  then have "MAXVA \<le> va" by simp
  then show ?thesis using False by (simp add: walkaddr_def kexec)
qed

lemma mappages_page:
  assumes i: "pt_inv 2 s p xs" and a: "a < MAXVA" "a mod 4096 = 0" and free: "\<not> pvalid (lookup 2 (mem s) p a)"
  shows "\<exists>t n. n \<le> 2 \<and>
    (mappages p a PGSIZE pa perm s = Done 0 t \<and> pt_maps p s t xs n [a \<mapsto> PA2PTE pa OR perm OR PTE_V]
     \<or> mappages p a PGSIZE pa perm s = Done (- 1) t \<and> pt_maps p s t xs n Map.empty \<and> n = length xs \<and> n < 2)"
proof -
  have "mappages p a PGSIZE pa perm s = or_ret 0 (kscan [0..<1] (\<lambda>k. map_one p perm (a + of_nat k * PGSIZE) (pa + of_nat k * PGSIZE))) s"
    using a(2) by (simp add: mappages_def PGSIZE_def)
  then have e: "mappages p a PGSIZE pa perm s = or_ret 0 (map_one p perm a pa) s"
    by (simp add: or_ret_def kexec split: outcome.split option.split)
  show ?thesis
    using map_one_spec[OF i a(1) free, of perm pa] unfolding e PGROUNDDOWN_id[OF a(2)]
    by (auto simp: or_ret_def kexec)
qed

text \<open>The bytes of user memory, as the hardware finds them through the page table.\<close>

definition ubyte :: "memory \<Rightarrow> addr \<Rightarrow> uint64 \<Rightarrow> byte" where
  "ubyte m p va = m (PTE2PA (lookup 2 m p va) + (va - PGROUNDDOWN va))"

lemma page_off: "PGROUNDDOWN (PTE2PA e + (va - PGROUNDDOWN va)) = PTE2PA e"
  by (rule PGROUNDDOWN_add) (simp_all add: PGROUNDDOWN_offset)

lemma ubyte_frame:
  assumes "lookup 2 m' p va = lookup 2 m p va"
    and "\<And>a. PGROUNDDOWN a = PTE2PA (lookup 2 m p va) \<Longrightarrow> m' a = m a"
  shows "ubyte m' p va = ubyte m p va"
  unfolding ubyte_def assms(1) by (rule assms(2)) (rule page_off)

text \<open>\<open>fresh_page\<close>: an allocated page that no address space uses yet.\<close>

definition fresh_page :: "'a mst_scheme \<Rightarrow> addr \<Rightarrow> addr list \<Rightarrow> addr \<Rightarrow> bool" where
  "fresh_page s p xs pg \<longleftrightarrow> page_ok (k_end s) pg \<and> pg \<notin> pt_set 2 (mem s) p \<and> pg \<notin> set xs
     \<and> (\<forall>va<TRAPFRAME. pvalid (lookup 2 (mem s) p va) \<longrightarrow> PTE2PA (lookup 2 (mem s) p va) \<noteq> pg)"

lemma uvm_taken:
  assumes i: "uvm_inv s p (pg # ys)" and m: "\<And>a. PGROUNDDOWN a \<noteq> pg \<Longrightarrow> m a = mem s a"
  defines "t \<equiv> (taken pg s)\<lparr>mem := m\<rparr>"
  shows "uvm_inv t p ys" "fresh_page t p ys pg" "pt_set 2 (mem t) p = pt_set 2 (mem s) p"
    "lookup 2 (mem t) p va = lookup 2 (mem s) p va" "mem_step s t" "mem t = m"
proof -
  note D = uvm_invD[OF i] note P = pt_invD[OF D(1)]
  have pg: "page_ok (k_end s) pg" "pg \<notin> set ys" "pg \<notin> pt_set 2 (mem s) p"
    using kmem_invD(2,3)[OF P(2)] P(3) by auto
  show mt: "mem t = m" by (simp add: t_def)
  have a: "m b = mem s b" if "PGROUNDDOWN b \<in> pt_set 2 (mem s) p" for b
    by (rule m) (use that pg(3) in auto)
  have c: "pt_set 2 m p = pt_set 2 (mem s) p \<and> pt_ok 2 m p" using pt_cong[OF P(1) a] by blast
  then show ps: "pt_set 2 (mem t) p = pt_set 2 (mem s) p" using mt by simp
  have lk: "lookup 2 (mem t) p vb = lookup 2 (mem s) p vb" for vb using lookup_cong[OF P(1) a] mt by simp
  then show "lookup 2 (mem t) p va = lookup 2 (mem s) p va" .
  show st: "mem_step s t" unfolding t_def by (rule mem_step_trans[of _ "taken pg s"]) simp_all
  have "kmem_inv t ys"
    unfolding t_def by (rule kmem_inv_mem[OF taken_inv[OF P(2)]]) (use m pg(2) in \<open>auto simp: taken_mem page_fill_def\<close>)
  then have pi: "pt_inv 2 t p ys"
    unfolding pt_inv_def using c P(3-5) mem_step_frame[OF st] mt by auto
  show "uvm_inv t p ys"
    by (rule uvm_inv_shrink[OF i pi _ ps]) (use lk D(4) mem_step_frame[OF st] in auto)
  show "fresh_page t p ys pg"
    unfolding fresh_page_def ps lk using pg D(4) mem_step_frame[OF st] by auto
qed

lemma uvm_grow:
  assumes i: "uvm_inv s p xs" and m: "pt_maps p s t xs n M"
    and lk: "\<And>va. va < TRAPFRAME \<Longrightarrow> M (PGROUNDDOWN va) = None"
  shows "uvm_inv t p (drop n xs)"
proof -
  note D = uvm_invD[OF i]
  have L: "lookup 2 (mem t) p va = lookup 2 (mem s) p va" if "va < TRAPFRAME" for va
    using m TRAPFRAME_MAXVA[OF that] lk[OF that] by (simp add: pt_maps_def)
  have ps: "pt_set 2 (mem t) p = pt_set 2 (mem s) p \<union> set (take n xs)" and st: "mem_step s t"
    using m by (simp_all add: pt_maps_def)
  have sub: "set (take n xs) \<subseteq> set xs" "set (drop n xs) \<subseteq> set xs"
    by (simp_all add: set_take_subset set_drop_subset)
  show ?thesis
    unfolding uvm_inv_def
  proof (intro conjI allI impI)
    show "pt_inv 2 t p (drop n xs)" by (rule pt_maps_inv[OF D(1) m])
    fix va assume va: "va < TRAPFRAME" "pvalid (lookup 2 (mem t) p va)"
    show "page_ok (k_end t) (PTE2PA (lookup 2 (mem t) p va))"
      "PTE2PA (lookup 2 (mem t) p va) \<notin> pt_set 2 (mem t) p \<union> set (drop n xs)"
      "PTE_FLAGS (lookup 2 (mem t) p va) \<noteq> PTE_V"
      using L[OF va(1)] va D(2-5)[OF va(1)] ps sub mem_step_frame(4)[OF st] by auto
    fix vb assume vb: "vb < TRAPFRAME" "pvalid (lookup 2 (mem t) p vb)"
      "PTE2PA (lookup 2 (mem t) p va) = PTE2PA (lookup 2 (mem t) p vb)"
    show "PGROUNDDOWN va = PGROUNDDOWN vb" using L[OF va(1)] L[OF vb(1)] va vb D(6)[OF va(1) vb(1)] by simp
  qed
qed

lemma or_less10:
  assumes "(a :: uint64) < 2 ^ 10" and "b < 2 ^ 10"
  shows "a OR b < 2 ^ 10"
proof -
  have "(a OR b) AND mask 10 = a OR b"
    using less_mask_eq[OF assms(1)] less_mask_eq[OF assms(2)] by (simp add: bit.conj_disj_distrib2)
  then have "a OR b \<le> mask 10" using word_and_le1[of "a OR b" "mask 10"] by simp
  moreover have "(mask 10 :: uint64) < 2 ^ 10" by (simp add: mask_eq_exp_minus_1)
  ultimately show ?thesis by (rule le_less_trans)
qed

lemma uvm_map:
  assumes i: "uvm_inv s p xs" and f: "fresh_page s p xs pg" and a: "a < TRAPFRAME" "a mod 4096 = 0"
    and perm: "perm < 2 ^ 10" "perm OR PTE_V \<noteq> PTE_V"
    and m: "pt_maps p s t xs n [a \<mapsto> PA2PTE pg OR perm OR PTE_V]"
  shows "uvm_inv t p (drop n xs)" "PTE2PA (lookup 2 (mem t) p a) = pg" "pvalid (lookup 2 (mem t) p a)"
proof -
  note D = uvm_invD[OF i] note aM = TRAPFRAME_MAXVA[OF a(1)]
  let ?e = "PA2PTE pg OR (perm OR PTE_V)"
  have pg: "page_ok (k_end s) pg" "pg \<notin> pt_set 2 (mem s) p" "pg \<notin> set xs"
    "\<And>va. va < TRAPFRAME \<Longrightarrow> pvalid (lookup 2 (mem s) p va) \<Longrightarrow> PTE2PA (lookup 2 (mem s) p va) \<noteq> pg"
    using f by (auto simp: fresh_page_def)
  have fl: "perm OR PTE_V < 2 ^ 10" by (rule or_less10[OF perm(1)]) simp
  have e: "PTE2PA ?e = pg" "PTE_FLAGS ?e \<noteq> PTE_V" "pvalid ?e"
    using PTE2PA_PA2PTE[OF page_ok_facts(1)[OF pg(1)] page_ok_facts(4)[OF pg(1)] fl] PTE_FLAGS_PA2PTE[OF fl] perm(2)
    by (simp_all add: pvalid_def bit.conj_disj_distrib2)
  have L: "lookup 2 (mem t) p va = (if PGROUNDDOWN va = a then ?e else lookup 2 (mem s) p va)" if "va < TRAPFRAME" for va
    using m TRAPFRAME_MAXVA[OF that] by (simp add: pt_maps_def or.assoc)
  then have la: "lookup 2 (mem t) p a = ?e" using PGROUNDDOWN_id[OF a(2)] a(1) by simp
  then show "PTE2PA (lookup 2 (mem t) p a) = pg" "pvalid (lookup 2 (mem t) p a)" using e by simp_all
  have ps: "pt_set 2 (mem t) p = pt_set 2 (mem s) p \<union> set (take n xs)" and st: "mem_step s t"
    using m by (simp_all add: pt_maps_def)
  have sub: "set (take n xs) \<subseteq> set xs" "set (drop n xs) \<subseteq> set xs"
    by (simp_all add: set_take_subset set_drop_subset)
  have k: "k_end t = k_end s" by (rule mem_step_frame(4)[OF st])
  show "uvm_inv t p (drop n xs)"
    unfolding uvm_inv_def
  proof (intro conjI allI impI)
    show "pt_inv 2 t p (drop n xs)" by (rule pt_maps_inv[OF D(1) m])
    fix va assume va: "va < TRAPFRAME" "pvalid (lookup 2 (mem t) p va)"
    show "page_ok (k_end t) (PTE2PA (lookup 2 (mem t) p va))"
      "PTE2PA (lookup 2 (mem t) p va) \<notin> pt_set 2 (mem t) p \<union> set (drop n xs)"
      "PTE_FLAGS (lookup 2 (mem t) p va) \<noteq> PTE_V"
      using L[OF va(1)] va D(2-5)[OF va(1)] ps sub k e pg(1-3) by (cases "PGROUNDDOWN va = a", auto)+
    fix vb assume vb: "vb < TRAPFRAME" "pvalid (lookup 2 (mem t) p vb)"
      "PTE2PA (lookup 2 (mem t) p va) = PTE2PA (lookup 2 (mem t) p vb)"
    show "PGROUNDDOWN va = PGROUNDDOWN vb"
      using L[OF va(1)] L[OF vb(1)] va vb D(6)[OF va(1) vb(1)] pg(4)[OF va(1)] pg(4)[OF vb(1)] e(1)
      by (cases "PGROUNDDOWN va = a"; cases "PGROUNDDOWN vb = a") auto
  qed
qed

lemma uvm_bytes:
  assumes i: "uvm_inv s p xs" and m: "pt_maps p s t xs n M"
    and va: "va < TRAPFRAME" "pvalid (lookup 2 (mem s) p va)" "M (PGROUNDDOWN va) = None"
  shows "ubyte (mem t) p va = ubyte (mem s) p va"
proof (rule ubyte_frame)
  show "lookup 2 (mem t) p va = lookup 2 (mem s) p va"
    using m TRAPFRAME_MAXVA[OF va(1)] va(3) by (simp add: pt_maps_def)
  fix a assume a: "PGROUNDDOWN a = PTE2PA (lookup 2 (mem s) p va)"
  have "PTE2PA (lookup 2 (mem s) p va) \<notin> pt_set 2 (mem t) p"
    using m uvm_invD(3,4)[OF i va(1,2)] set_take_subset[of n xs] by (auto simp: pt_maps_def)
  then show "mem t a = mem s a" using m a by (simp add: pt_maps_def)
qed

text \<open>The common core of \<open>lazy_alloc\<close>, \<open>uvmalloc\<close> and \<open>uvmcopy\<close>: take a page, fill it with \<open>c\<close>, map
  it at \<open>a\<close>, and give it back when the page table cannot be extended.\<close>

definition map_new_page :: "addr \<Rightarrow> uint64 \<Rightarrow> (addr \<Rightarrow> memory \<Rightarrow> memory) \<Rightarrow> uint64 \<Rightarrow> ('a mst_scheme, bool) K" where
  "map_new_page p a fill perm =
     kbind kalloc (\<lambda>pg.
     if pg = 0 then kret False
     else kthen (set_mem (fill pg))
         (kbind (mappages p a PGSIZE pg perm) (\<lambda>r.
          if r \<noteq> 0 then kthen (kfree pg) (kret False) else kret True)))"

definition local_fill :: "addr \<Rightarrow> (addr \<Rightarrow> memory \<Rightarrow> memory) \<Rightarrow> bool" where
  "local_fill e fill \<longleftrightarrow> (\<forall>pg m b. page_ok e pg \<longrightarrow> PGROUNDDOWN b \<noteq> pg \<longrightarrow> fill pg m b = m b)"

text \<open>\<open>new_page\<close>: the first page of the free list is mapped at \<open>a\<close> with the content \<open>fill\<close> gives it.
  \<open>no_page\<close>: memory has run out, no mapping and no user byte has changed, and every page taken is in the table or free again.\<close>

definition new_page :: "addr \<Rightarrow> 'a mst_scheme \<Rightarrow> 'a mst_scheme \<Rightarrow> addr list \<Rightarrow> nat \<Rightarrow> uint64 \<Rightarrow> uint64 \<Rightarrow>
    (addr \<Rightarrow> memory \<Rightarrow> memory) \<Rightarrow> bool" where
  "new_page p s t xs n a perm fill \<longleftrightarrow> (\<exists>pg ys. xs = pg # ys \<and> pg mod 4096 = 0 \<and> mem_step s t \<and> n \<le> 2
     \<and> uvm_inv t p (drop n ys)
     \<and> pt_set 2 (mem t) p = pt_set 2 (mem s) p \<union> set (take n ys)
     \<and> (\<forall>va<MAXVA. lookup 2 (mem t) p va =
          (if PGROUNDDOWN va = a then PA2PTE pg OR (perm OR PTE_V) else lookup 2 (mem s) p va))
     \<and> PTE2PA (PA2PTE pg OR (perm OR PTE_V)) = pg \<and> PTE_FLAGS (PA2PTE pg OR (perm OR PTE_V)) = perm OR PTE_V
     \<and> (\<forall>b. PGROUNDDOWN b = pg \<longrightarrow> mem t b = fill pg (page_fill (mem s) pg 5) b)
     \<and> (\<forall>b. PGROUNDDOWN b \<notin> pt_set 2 (mem t) p \<union> {pg} \<longrightarrow> mem t b = mem s b))"

definition no_page :: "addr \<Rightarrow> 'a mst_scheme \<Rightarrow> 'a mst_scheme \<Rightarrow> addr list \<Rightarrow> addr list \<Rightarrow> bool" where
  "no_page p s t xs ys \<longleftrightarrow> length xs < 3 \<and> mem_step s t \<and> uvm_inv t p ys \<and> set ys \<subseteq> set xs
     \<and> pt_set 2 (mem s) p \<subseteq> pt_set 2 (mem t) p \<and> pt_set 2 (mem t) p \<union> set ys = pt_set 2 (mem s) p \<union> set xs
     \<and> (\<forall>va<MAXVA. lookup 2 (mem t) p va = lookup 2 (mem s) p va)
     \<and> (\<forall>b. PGROUNDDOWN b \<notin> pt_set 2 (mem t) p \<union> set xs \<longrightarrow> mem t b = mem s b)"

lemma no_page_bytes:
  assumes i: "uvm_inv s p xs" and n: "no_page p s t xs ys" and v: "va < TRAPFRAME" "pvalid (lookup 2 (mem s) p va)"
  shows "ubyte (mem t) p va = ubyte (mem s) p va"
proof (rule ubyte_frame)
  show "lookup 2 (mem t) p va = lookup 2 (mem s) p va"
    using n TRAPFRAME_MAXVA[OF v(1)] by (simp add: no_page_def)
  have "pt_set 2 (mem t) p \<subseteq> pt_set 2 (mem s) p \<union> set xs" using n unfolding no_page_def by blast
  then have o: "PTE2PA (lookup 2 (mem s) p va) \<notin> pt_set 2 (mem t) p \<union> set xs" using uvm_invD(3,4)[OF i v] by blast
  fix a assume "PGROUNDDOWN a = PTE2PA (lookup 2 (mem s) p va)"
  then show "mem t a = mem s a" using o n by (simp add: no_page_def)
qed

lemma new_page_bytes:
  assumes i: "uvm_inv s p xs" and n: "new_page p s t xs n a perm fill"
    and v: "va < TRAPFRAME" "pvalid (lookup 2 (mem s) p va)" "PGROUNDDOWN va \<noteq> a"
  shows "ubyte (mem t) p va = ubyte (mem s) p va"
proof (rule ubyte_frame)
  show "lookup 2 (mem t) p va = lookup 2 (mem s) p va"
    using n TRAPFRAME_MAXVA[OF v(1)] v(3) by (auto simp: new_page_def)
  fix b assume b: "PGROUNDDOWN b = PTE2PA (lookup 2 (mem s) p va)"
  obtain pg ys where xs: "xs = pg # ys" and ps: "pt_set 2 (mem t) p = pt_set 2 (mem s) p \<union> set (take n ys)"
    and fr: "\<forall>b. PGROUNDDOWN b \<notin> pt_set 2 (mem t) p \<union> {pg} \<longrightarrow> mem t b = mem s b"
    using n unfolding new_page_def by blast
  have "PGROUNDDOWN b \<notin> pt_set 2 (mem t) p \<union> {pg}"
    unfolding b ps using uvm_invD(3,4)[OF i v(1,2)] xs set_take_subset[of n ys] by auto
  then show "mem t b = mem s b" using fr by blast
qed

lemma new_page_content:
  assumes n: "new_page p s t xs n a perm fill" and v: "va < MAXVA" "PGROUNDDOWN va = a"
  shows "ubyte (mem t) p va = fill (hd xs) (page_fill (mem s) (hd xs) 5) (hd xs + (va - a))"
    "PTE_FLAGS (lookup 2 (mem t) p va) = perm OR PTE_V" "PTE2PA (lookup 2 (mem t) p va) = hd xs"
proof -
  obtain pg ys where xs: "xs = pg # ys" "lookup 2 (mem t) p va = PA2PTE pg OR (perm OR PTE_V)"
    "PTE2PA (PA2PTE pg OR (perm OR PTE_V)) = pg" "PTE_FLAGS (PA2PTE pg OR (perm OR PTE_V)) = perm OR PTE_V"
    "\<forall>b. PGROUNDDOWN b = pg \<longrightarrow> mem t b = fill pg (page_fill (mem s) pg 5) b"
    using n v unfolding new_page_def by auto
  show "PTE_FLAGS (lookup 2 (mem t) p va) = perm OR PTE_V" "PTE2PA (lookup 2 (mem t) p va) = hd xs"
    unfolding xs(2) by (simp_all only: xs(1,3,4) list.sel)
  have "PGROUNDDOWN (pg + (va - a)) = pg"
    using page_off[of "lookup 2 (mem t) p va" va] v(2) unfolding xs(2,3) by simp
  then show "ubyte (mem t) p va = fill (hd xs) (page_fill (mem s) (hd xs) 5) (hd xs + (va - a))"
    unfolding ubyte_def xs(2,3) v(2) using xs(1,5) by simp
qed

lemma map_new_page_ok:
  assumes i: "uvm_inv s p (pg # ys)" and a: "a < TRAPFRAME" "a mod 4096 = 0"
    and perm: "perm < 2 ^ 10" "perm OR PTE_V \<noteq> PTE_V" and fill: "local_fill (k_end s) fill"
    and m: "pt_maps p ((taken pg s)\<lparr>mem := fill pg (page_fill (mem s) pg 5)\<rparr>) t ys n [a \<mapsto> PA2PTE pg OR perm OR PTE_V]"
    and n: "n \<le> 2"
  shows "new_page p s t (pg # ys) n a perm fill"
proof -
  let ?m = "fill pg (page_fill (mem s) pg 5)" let ?s = "(taken pg s)\<lparr>mem := ?m\<rparr>"
  have ok: "page_ok (k_end s) pg" using kmem_invD(3)[OF pt_invD(2)[OF uvm_invD(1)[OF i]], of pg] by simp
  note al = page_ok_facts(1)[OF ok]
  have fr0: "?m b = mem s b" if "PGROUNDDOWN b \<noteq> pg" for b using fill ok that by (simp add: local_fill_def)
  note T = uvm_taken[OF i fr0] note U = uvm_map[OF T(1,2) a perm m]
  have fl: "perm OR PTE_V < 2 ^ 10" by (rule or_less10[OF perm(1)]) simp
  have ps: "pt_set 2 (mem t) p = pt_set 2 (mem s) p \<union> set (take n ys)" using m T(3) by (simp add: pt_maps_def)
  have st: "mem_step s t" using mem_step_trans[OF T(5)] m by (simp add: pt_maps_def)
  have "pg \<notin> pt_set 2 (mem t) p"
    unfolding ps using T(2,3) set_take_subset[of n ys] by (auto simp: fresh_page_def)
  then have pgc: "mem t b = ?m b" if "PGROUNDDOWN b = pg" for b using m that by (simp add: pt_maps_def)
  have fr: "mem t b = mem s b" if "PGROUNDDOWN b \<notin> pt_set 2 (mem t) p \<union> {pg}" for b
    using m that fr0 by (simp add: pt_maps_def)
  have lk: "lookup 2 (mem t) p va =
      (if PGROUNDDOWN va = a then PA2PTE pg OR (perm OR PTE_V) else lookup 2 (mem s) p va)" if "va < MAXVA" for va
    using m that T(4) by (simp add: pt_maps_def or.assoc)
  show ?thesis
    unfolding new_page_def
    using al st n U(1) ps lk PTE2PA_PA2PTE[OF al page_ok_facts(4)[OF ok] fl] PTE_FLAGS_PA2PTE[OF fl] pgc fr
    by blast
qed

lemma map_new_page_fail:
  assumes i: "uvm_inv s p (pg # ys)" and fill: "local_fill (k_end s) fill"
    and m: "pt_maps p ((taken pg s)\<lparr>mem := fill pg (page_fill (mem s) pg 5)\<rparr>) t ys n Map.empty"
    and n: "n = length ys" "n < 2"
  shows "kfree pg t = Done () (freed pg t)" "no_page p s (freed pg t) (pg # ys) [pg]"
proof -
  let ?m = "fill pg (page_fill (mem s) pg 5)" let ?s = "(taken pg s)\<lparr>mem := ?m\<rparr>"
  have ok: "page_ok (k_end s) pg" using kmem_invD(3)[OF pt_invD(2)[OF uvm_invD(1)[OF i]], of pg] by simp
  have fr0: "?m b = mem s b" if "PGROUNDDOWN b \<noteq> pg" for b
    using fill ok that by (simp add: local_fill_def)
  note T = uvm_taken[OF i fr0]
  have tk: "uvm_inv t p []" using uvm_grow[OF T(1) m refl] n by simp
  have st: "mem_step s t" using mem_step_trans[OF T(5)] m by (simp add: pt_maps_def)
  have ps: "pt_set 2 (mem t) p = pt_set 2 (mem s) p \<union> set ys" using m T(3) n by (simp add: pt_maps_def)
  have pg: "page_ok (k_end t) pg" "pg \<notin> pt_set 2 (mem t) p"
    unfolding ps using T(2,3) ok mem_step_frame(4)[OF st] by (auto simp: fresh_page_def)
  have lk: "lookup 2 (mem t) p va = lookup 2 (mem s) p va" if "va < MAXVA" for va
    using m that T(4) by (simp add: pt_maps_def)
  note F = pt_inv_freed[OF uvm_invD(1)[OF tk] pg]
  show "kfree pg t = Done () (freed pg t)"
    by (rule kfree_exec[OF pg(1) pt_invD(5)[OF uvm_invD(1)[OF tk]]])
  have un: "PTE2PA (lookup 2 (mem s) p va) \<noteq> pg" if "va < TRAPFRAME" "pvalid (lookup 2 (mem s) p va)" for va
    using uvm_invD(4)[OF i that] by auto
  have inv: "uvm_inv (freed pg t) p [pg]"
    by (rule uvm_inv_shrink[OF tk]) (use F lk un TRAPFRAME_MAXVA in auto)
  have fr: "mem (freed pg t) b = mem s b" if "PGROUNDDOWN b \<notin> pt_set 2 (mem t) p \<union> set (pg # ys)" for b
    using m that fr0 freed_mem[OF pg(1), of b t] by (simp add: pt_maps_def)
  have "mem_step s (freed pg t)" by (rule mem_step_trans[OF st]) simp
  then show "no_page p s (freed pg t) (pg # ys) [pg]"
    unfolding no_page_def using inv fr lk F(2,3) ps n by auto
qed

lemma map_new_page_spec:
  assumes i: "uvm_inv s p xs" and a: "a < TRAPFRAME" "a mod 4096 = 0" and free: "\<not> pvalid (lookup 2 (mem s) p a)"
    and perm: "perm < 2 ^ 10" "perm OR PTE_V \<noteq> PTE_V" and fill: "local_fill (k_end s) fill"
  shows "(\<exists>t n. map_new_page p a fill perm s = Done True t \<and> new_page p s t xs n a perm fill)
    \<or> (\<exists>t ys. map_new_page p a fill perm s = Done False t \<and> no_page p s t xs ys)"
proof (cases xs)
  case Nil
  have "kalloc s = Done 0 s"
    using kalloc_empty pt_invD(2,5)[OF uvm_invD(1)[OF i]] Nil by blast
  then have "map_new_page p a fill perm s = Done False s" by (simp add: map_new_page_def kexec)
  moreover have "no_page p s s xs xs" using i Nil by (simp add: no_page_def)
  ultimately show ?thesis by blast
next
  case (Cons pg ys)
  note P = pt_invD[OF uvm_invD(1)[OF i[unfolded Cons]]] note i' = i[unfolded Cons]
  have ok: "page_ok (k_end s) pg" using kmem_invD(3)[OF P(2), of pg] by simp
  let ?m = "fill pg (page_fill (mem s) pg 5)" let ?s = "(taken pg s)\<lparr>mem := ?m\<rparr>"
  have fr0: "?m b = mem s b" if "PGROUNDDOWN b \<noteq> pg" for b
    using fill ok that by (simp add: local_fill_def)
  note T = uvm_taken[OF i' fr0]
  have free': "\<not> pvalid (lookup 2 (mem ?s) p a)" using free T(4) by simp
  have e: "map_new_page p a fill perm s = kbind (mappages p a PGSIZE pg perm)
      (\<lambda>r. if r \<noteq> 0 then kthen (kfree pg) (kret False) else kret True) ?s"
    using kalloc_exec[OF P(2,5)] page_ok_facts(2)[OF ok]
    by (simp add: map_new_page_def kexec taken_mem)
  obtain t n where n: "n \<le> 2" and c: "mappages p a PGSIZE pg perm ?s = Done 0 t
        \<and> pt_maps p ?s t ys n [a \<mapsto> PA2PTE pg OR perm OR PTE_V]
      \<or> mappages p a PGSIZE pg perm ?s = Done (- 1) t \<and> pt_maps p ?s t ys n Map.empty \<and> n = length ys \<and> n < 2"
    using mappages_page[OF uvm_invD(1)[OF T(1)] TRAPFRAME_MAXVA[OF a(1)] a(2) free'] by blast
  from c show ?thesis
  proof (elim disjE conjE)
    assume A: "mappages p a PGSIZE pg perm ?s = Done 0 t" "pt_maps p ?s t ys n [a \<mapsto> PA2PTE pg OR perm OR PTE_V]"
    show ?thesis
      using map_new_page_ok[OF i' a perm fill A(2) n] A(1) unfolding e Cons by (auto simp: kexec)
  next
    assume A: "mappages p a PGSIZE pg perm ?s = Done (- 1) t" "pt_maps p ?s t ys n Map.empty" "n = length ys" "n < 2"
    show ?thesis
      using map_new_page_fail[OF i' fill A(2-4)] A(1) unfolding e Cons by (auto simp: kexec)
  qed
qed

text \<open>C25: \<open>uvmunmap\<close> with \<open>do_free\<close> on a page-aligned user range never panics, whether or not the pages
  of the range are present (holes of lazily allocated memory are skipped). Afterwards no page of
  the range is mapped, every other entry and every byte of every other page is unchanged, and the
  free list has gained exactly the pages that the range mapped, each of them once.\<close>

theorem uvmunmap_correct:
  assumes "uvm_inv s p xs" and "va mod 4096 = 0" and "unat va + unat n * 4096 \<le> unat TRAPFRAME"
  defines "R \<equiv> {a. a mod 4096 = 0 \<and> va \<le> a \<and> a < va + n * PGSIZE}"
  shows "\<exists>t fs. uvmunmap p va n True s = Done () t \<and> uvm_inv t p (fs @ xs) \<and> distinct (fs @ xs)
    \<and> set fs = {PTE2PA (lookup 2 (mem s) p r) | r. r \<in> R \<and> pvalid (lookup 2 (mem s) p r)}
    \<and> (\<forall>vb<TRAPFRAME. PGROUNDDOWN vb \<in> R \<longrightarrow> \<not> pvalid (lookup 2 (mem t) p vb))
    \<and> (\<forall>vb<TRAPFRAME. PGROUNDDOWN vb \<notin> R \<longrightarrow> lookup 2 (mem t) p vb = lookup 2 (mem s) p vb
         \<and> (pvalid (lookup 2 (mem s) p vb) \<longrightarrow> ubyte (mem t) p vb = ubyte (mem s) p vb))"
proof -
  obtain t fs where t: "uvmunmap p va n True s = Done () t" and u: "uvm_unmap p s t xs fs R"
    using uvmunmap_run[OF assms(1-3)] unfolding R_def by blast
  have inv: "uvm_inv t p (fs @ xs)" using u by (simp add: uvm_unmap_def)
  have d: "distinct (fs @ xs)" by (rule kmem_invD(2)[OF pt_invD(2)[OF uvm_invD(1)[OF inv]]])
  have lk: "lookup 2 (mem t) p vb = (if PGROUNDDOWN vb \<in> R \<and> pvalid (lookup 2 (mem s) p vb) then 0
      else lookup 2 (mem s) p vb)" if "vb < TRAPFRAME" for vb
    using u TRAPFRAME_MAXVA[OF that] by (simp add: uvm_unmap_def)
  have by': "ubyte (mem t) p vb = ubyte (mem s) p vb"
    if v: "vb < TRAPFRAME" "PGROUNDDOWN vb \<notin> R" "pvalid (lookup 2 (mem s) p vb)" for vb
  proof (rule ubyte_frame)
    show l: "lookup 2 (mem t) p vb = lookup 2 (mem s) p vb" using lk[OF v(1)] v(2) by simp
    have "PTE2PA (lookup 2 (mem s) p vb) \<notin> set fs"
      using uvm_invD(4)[OF inv v(1)] v(3) l by simp
    moreover have "PTE2PA (lookup 2 (mem s) p vb) \<notin> pt_set 2 (mem s) p" by (rule uvm_invD(3)[OF assms(1) v(1,3)])
    ultimately show "\<And>a. PGROUNDDOWN a = PTE2PA (lookup 2 (mem s) p vb) \<Longrightarrow> mem t a = mem s a"
      using u by (simp add: uvm_unmap_def)
  qed
  have "set fs = {PTE2PA (lookup 2 (mem s) p r) | r. r \<in> R \<and> pvalid (lookup 2 (mem s) p r)}"
    using u by (simp add: uvm_unmap_def)
  then show ?thesis using t inv d lk by' by (intro exI[of _ t] exI[of _ fs] conjI allI impI) simp_all
qed

theorem uvmunmap_correct_witness:
  "\<exists>t fs. uvmunmap 0x87FFF000 0x1000 3 True ex_vm = Done () t \<and> uvm_inv t 0x87FFF000 (fs @ ex_free)"
  using uvmunmap_correct[OF ex_vm_inv, of "0x1000" 3] by (auto simp: TRAPFRAME_eq)

subsection \<open>Lazy allocation\<close>

definition zero_fill :: "addr \<Rightarrow> memory \<Rightarrow> memory" where
  "zero_fill pg m = memset m pg 0 4096"

lemma zero_fill_out: "pg mod 4096 = 0 \<Longrightarrow> PGROUNDDOWN b \<noteq> pg \<Longrightarrow> zero_fill pg m b = m b"
  and zero_fill_in: "pg mod 4096 = 0 \<Longrightarrow> PGROUNDDOWN b = pg \<Longrightarrow> zero_fill pg m b = 0"
  by (simp_all add: zero_fill_def memset_page)

lemma zero_fill_local: "local_fill e zero_fill"
  by (simp add: local_fill_def zero_fill_out page_ok_facts(1))

lemma lazy_alloc_eq:
  "lazy_alloc p va =
     kbind (walkaddr p (PGROUNDDOWN va)) (\<lambda>pa. if pa \<noteq> 0 then kret 0
       else kbind (map_new_page p (PGROUNDDOWN va) zero_fill (PTE_R OR PTE_W OR PTE_U))
              (\<lambda>b. kret (if b then 0 else - 1)))"
  by (rule ext) (simp add: lazy_alloc_def map_new_page_def zero_fill_def Let_def kexec
      split: outcome.split)

lemma PGROUNDDOWN_less: "va < e \<Longrightarrow> PGROUNDDOWN va < e"
  by (rule le_less_trans[OF PGROUNDDOWN_le])

text \<open>C26: the page-fault handler's \<open>lazy_alloc\<close> on an address that is not mapped. With three free pages
  it always succeeds; when it does, the page that contains the address is mapped readable, writable
  and user-accessible and reads as zeroes, and no other address is mapped or unmapped. In every
  case the memory the process could already read is unchanged, and the address space stays
  well-formed.\<close>

theorem lazy_alloc_correct:
  assumes i: "uvm_inv s p xs" and va: "va < TRAPFRAME" and free: "\<not> pvalid (lookup 2 (mem s) p va)"
  shows "\<exists>r t ys. lazy_alloc p va s = Done r t \<and> uvm_inv t p ys \<and> (r = 0 \<or> r = - 1 \<and> length xs < 3)
    \<and> (\<forall>vb<TRAPFRAME. pvalid (lookup 2 (mem s) p vb) \<longrightarrow>
         lookup 2 (mem t) p vb = lookup 2 (mem s) p vb \<and> ubyte (mem t) p vb = ubyte (mem s) p vb)
    \<and> (\<forall>vb<TRAPFRAME. r = - 1 \<or> PGROUNDDOWN vb \<noteq> PGROUNDDOWN va \<longrightarrow>
         lookup 2 (mem t) p vb = lookup 2 (mem s) p vb)
    \<and> (\<forall>vb<TRAPFRAME. r = 0 \<longrightarrow> PGROUNDDOWN vb = PGROUNDDOWN va \<longrightarrow>
         ubyte (mem t) p vb = 0 \<and> PTE_FLAGS (lookup 2 (mem t) p vb) = PTE_R OR PTE_W OR PTE_U OR PTE_V)"
proof -
  let ?a = "PGROUNDDOWN va" and ?perm = "PTE_R OR PTE_W OR PTE_U"
  have free': "\<not> pvalid (lookup 2 (mem s) p ?a)" using free by (simp add: lookup_PGROUNDDOWN)
  have perm: "?perm < 2 ^ 10" "?perm OR PTE_V \<noteq> PTE_V" by simp_all
  have w: "walkaddr p ?a s = Done 0 s"
    using walkaddr_exec[OF pt_invD(1)[OF uvm_invD(1)[OF i]], of ?a] free' by (simp add: Let_def)
  have e: "lazy_alloc p va s = kbind (map_new_page p ?a zero_fill ?perm) (\<lambda>b. kret (if b then 0 else - 1)) s"
    unfolding lazy_alloc_eq by (simp add: kexec w)
  note N = map_new_page_spec[OF i PGROUNDDOWN_less[OF va] PGROUNDDOWN_aligned free' perm zero_fill_local]
  have old: "PGROUNDDOWN vb \<noteq> ?a" if "pvalid (lookup 2 (mem s) p vb)" for vb
    using lookup_page[of vb va] free that by metis
  from N show ?thesis
  proof (elim disjE exE conjE)
    fix t n assume r: "map_new_page p ?a zero_fill ?perm s = Done True t" and A: "new_page p s t xs n ?a ?perm zero_fill"
    have lk: "lookup 2 (mem t) p vb = lookup 2 (mem s) p vb" if "vb < TRAPFRAME" "PGROUNDDOWN vb \<noteq> ?a" for vb
      using A TRAPFRAME_MAXVA[OF that(1)] that(2) by (auto simp: new_page_def)
    have al: "hd xs mod 4096 = 0" and inv: "\<exists>ys. uvm_inv t p ys" using A by (auto simp: new_page_def)
    have z: "ubyte (mem t) p vb = 0" if "vb < TRAPFRAME" "PGROUNDDOWN vb = ?a" for vb
      unfolding new_page_content(1)[OF A TRAPFRAME_MAXVA[OF that(1)] that(2)]
      by (rule zero_fill_in[OF al]) (use PGROUNDDOWN_add[OF al, of "vb - ?a"] PGROUNDDOWN_offset[of vb] that(2) in simp)
    have fl: "PTE_FLAGS (lookup 2 (mem t) p vb) = PTE_R OR PTE_W OR PTE_U OR PTE_V"
      if "vb < TRAPFRAME" "PGROUNDDOWN vb = ?a" for vb
      using new_page_content(2)[OF A TRAPFRAME_MAXVA[OF that(1)] that(2)] by (simp add: or.assoc)
    have run: "lazy_alloc p va s = Done 0 t" unfolding e using r by (simp add: kexec)
    obtain ys where "uvm_inv t p ys" using inv by blast
    then show ?thesis using run old z fl lk new_page_bytes[OF i A]
      by (intro exI[of _ 0] exI[of _ t] exI[of _ ys]) auto
  next
    fix t ys assume r: "map_new_page p ?a zero_fill ?perm s = Done False t" and A: "no_page p s t xs ys"
    have "lazy_alloc p va s = Done (- 1) t" unfolding e using r by (simp add: kexec)
    moreover have "uvm_inv t p ys" "length xs < 3" "\<forall>vb<MAXVA. lookup 2 (mem t) p vb = lookup 2 (mem s) p vb"
      using A by (simp_all add: no_page_def)
    ultimately show ?thesis using no_page_bytes[OF i A] TRAPFRAME_MAXVA
      by (intro exI[of _ "- 1"] exI[of _ t] exI[of _ ys]) auto
  qed
qed

theorem lazy_alloc_correct_witness:
  "\<exists>t ys. lazy_alloc 0x87FFF000 0x5123 ex_vm = Done 0 t \<and> uvm_inv t 0x87FFF000 ys
     \<and> ubyte (mem t) 0x87FFF000 0x5FFF = 0"
  using lazy_alloc_correct[OF ex_vm_inv, of "0x5123"]
  by (auto simp: TRAPFRAME_eq ex_vm_empty PGROUNDDOWN_def PGSIZE_def)

end
