(* ===== verification/Ulazy.thy ===== *)
theory Ulazy
  imports Uvm
begin

text \<open>
  Page faults that \<open>lazy_alloc\<close> (kernel/vm.c) cannot serve. \<open>lazy_alloc\<close> takes \<open>walkaddr\<close>'s null result
  to mean "not mapped yet", but \<open>walkaddr\<close> also answers null for a page that is mapped without
  \<open>PTE_U\<close> (the stack guard page, cleared by \<open>uvmclear\<close>) and for an address beyond \<open>MAXVA\<close>.
\<close>

declare mod_0_imp_dvd [rule del]

lemma MAXVA_PGROUNDDOWN: "MAXVA \<le> va \<Longrightarrow> MAXVA \<le> PGROUNDDOWN va"
proof -
  assume "MAXVA \<le> va"
  then have "unat MAXVA \<le> unat va" by (simp add: word_le_nat_alt)
  then have "unat MAXVA div 4096 \<le> unat va div 4096" by (rule div_le_mono)
  then have "unat MAXVA div 4096 * 4096 \<le> unat va div 4096 * 4096" by (rule mult_le_mono1)
  moreover have "unat MAXVA div 4096 * 4096 = unat MAXVA" by (simp add: MAXVA_def)
  ultimately show ?thesis by (simp add: word_le_nat_alt unat_PGROUNDDOWN)
qed

lemma map_one_remap:
  assumes i: "pt_inv 2 s p xs" and a: "a < MAXVA" and v: "pvalid (lookup 2 (mem s) p a)" and xs: "2 \<le> length xs"
  shows "map_one p perm a pa s = Panic ''mappages: remap''"
proof -
  obtain b t n where w: "walk p a True s = Done b t" and g: "pt_grow 2 p s t xs n"
    and z: "b = 0 \<longrightarrow> n = length xs \<and> n < 2" and nz: "b \<noteq> 0 \<longrightarrow> b = pte_addr 2 (mem t) p a"
    using walk_alloc[OF i a] by blast
  have b: "b \<noteq> 0" using z xs by auto
  have "pt_ok 2 (mem t) p" "lookup 2 (mem t) p a = lookup 2 (mem s) p a" using g by (simp_all add: pt_grow_def)
  then have "load64 (mem t) b = lookup 2 (mem s) p a" using b nz pte_addr_load(2)[of 2 "mem t" p a] by simp
  then show ?thesis using w b v by (simp add: map_one_def kexec pvalid_def)
qed

lemma lazy_alloc_maps:
  fixes s :: "'a mst_scheme"
  assumes i: "uvm_inv s p (pg # xs)" and w: "walkaddr p (PGROUNDDOWN va) s = Done 0 s"
    and m: "\<And>t :: 'a mst_scheme. uvm_inv t p xs \<Longrightarrow> (\<forall>vb. lookup 2 (mem t) p vb = lookup 2 (mem s) p vb) \<Longrightarrow>
      map_one p (PTE_R OR PTE_W OR PTE_U) (PGROUNDDOWN va) pg t = Panic msg"
  shows "lazy_alloc p va s = Panic msg"
proof -
  note P = pt_invD[OF uvm_invD(1)[OF i]]
  have ok: "page_ok (k_end s) pg" using kmem_invD(3)[OF P(2), of pg] by simp
  let ?t = "(taken pg s)\<lparr>mem := zero_fill pg (page_fill (mem s) pg 5)\<rparr>"
  have fr0: "zero_fill pg (page_fill (mem s) pg 5) b = mem s b" if "PGROUNDDOWN b \<noteq> pg" for b
    using zero_fill_local ok that by (simp add: local_fill_def)
  note T = uvm_taken[OF i fr0]
  have "map_one p (PTE_R OR PTE_W OR PTE_U) (PGROUNDDOWN va) pg ?t = Panic msg"
    by (rule m) (use T in simp_all)
  then have "mappages p (PGROUNDDOWN va) PGSIZE pg (PTE_R OR PTE_W OR PTE_U) ?t = Panic msg"
    using PGROUNDDOWN_aligned[of va] by (simp add: mappages_def or_ret_def kexec PGSIZE_def)
  then have "map_new_page p (PGROUNDDOWN va) zero_fill (PTE_R OR PTE_W OR PTE_U) s = Panic msg"
    using kalloc_exec[OF P(2,5)] page_ok_facts(2)[OF ok] by (simp add: map_new_page_def kexec taken_mem)
  then show ?thesis unfolding lazy_alloc_eq by (simp add: kexec w)
qed

text \<open>C36: a fault that reaches \<open>lazy_alloc\<close> for a page that is present but not accessible to the user
  (the guard page below the stack), or for an address at or above \<open>MAXVA\<close>, stops the kernel: with
  three free pages the call panics, in \<open>mappages\<close> ("remap") or in \<open>walk\<close>, instead of failing with -1
  so that the process alone is killed.\<close>

theorem lazy_alloc_unservable_panics:
  assumes i: "uvm_inv s p xs" and xs: "3 \<le> length xs"
    and va: "MAXVA \<le> va \<or> va < MAXVA \<and> pvalid (lookup 2 (mem s) p va) \<and> lookup 2 (mem s) p va AND PTE_U = 0"
  shows "lazy_alloc p va s = Panic (if MAXVA \<le> va then ''walk'' else ''mappages: remap'')"
proof -
  obtain pg ys where c: "xs = pg # ys" and l: "2 \<le> length ys" using xs by (cases xs) auto
  note i' = i[unfolded c] note W = walkaddr_exec[OF pt_invD(1)[OF uvm_invD(1)[OF i]], of "PGROUNDDOWN va"]
  show ?thesis
  proof (cases "MAXVA \<le> va")
    case True
    then have a: "MAXVA \<le> PGROUNDDOWN va" by (rule MAXVA_PGROUNDDOWN)
    then have w: "walkaddr p (PGROUNDDOWN va) s = Done 0 s" using W by (simp add: Let_def flip: not_le)
    show ?thesis using True by (simp, intro lazy_alloc_maps[OF i' w]) (simp add: map_one_def walk_def a kexec)
  next
    case False
    then have v: "va < MAXVA" "pvalid (lookup 2 (mem s) p va)" "lookup 2 (mem s) p va AND PTE_U = 0"
      using va by simp_all
    have a: "PGROUNDDOWN va < MAXVA" using PGROUNDDOWN_le v(1) by (rule le_less_trans)
    have w: "walkaddr p (PGROUNDDOWN va) s = Done 0 s" using W v by (simp add: Let_def lookup_PGROUNDDOWN)
    have "map_one p (PTE_R OR PTE_W OR PTE_U) (PGROUNDDOWN va) pg t = Panic ''mappages: remap''"
      if "uvm_inv t p ys" "\<forall>vb. lookup 2 (mem t) p vb = lookup 2 (mem s) p vb" for t
      by (rule map_one_remap[OF uvm_invD(1)[OF that(1)] a _ l]) (use that(2) v(2) in \<open>simp add: lookup_PGROUNDDOWN\<close>)
    then show ?thesis using False by (simp, intro lazy_alloc_maps[OF i' w])
  qed
qed

theorem lazy_alloc_unservable_panics_witness:
  "lazy_alloc 0x87FFF000 0x4000000000 ex_vm = Panic ''walk''"
  using lazy_alloc_unservable_panics[OF ex_vm_inv, of "0x4000000000"] by (simp add: MAXVA_def)

end
