(* ===== verification/Printf.thy ===== *)
theory Printf
  imports Kstate
begin

text \<open>
  kernel/printf.c: formatted console output. \<open>conout\<close> is the sequence of characters that
  \<open>consputc\<close> has sent to the UART (kernel/console.c, kernel/uart.c). A variadic argument is a
  register or stack slot: a 64-bit number, or a pointer to a string, \<open>None\<close> when it is null.
  Taking an argument that was not passed, or a string where a number was passed, is undefined
  in C and is the panic of the kernel fault here. \<open>print_digits\<close> is the \<open>do\<close> loop of \<open>printint\<close>,
  which fills \<open>buf\<close>; the theorems show that \<open>buf\<close> never overflows and that what is printed reads back
  as the number.
\<close>

subsection \<open>Characters and numbers\<close>

definition consputc :: "char \<Rightarrow> ('a kst_scheme, unit) K" where
  "consputc c = kmod (\<lambda>s. s\<lparr>conout := conout s @ [c]\<rparr>)"

definition digits :: string where
  "digits = ''0123456789abcdef''"

function print_digits :: "uint \<Rightarrow> uint \<Rightarrow> string" where
  "print_digits base x = (digits ! unat (x mod base)) #
     (if x div base \<noteq> 0 \<and> 2 \<le> base then print_digits base (x div base) else [])"
  by pat_completeness auto
termination
proof (relation "measure (\<lambda>(base, x). unat x)")
  fix base x :: uint
  assume a: "x div base \<noteq> 0 \<and> 2 \<le> base"
  then have "2 \<le> unat base" by (simp add: word_le_nat_alt)
  moreover have "unat x \<noteq> 0" using a by (metis div_0 unat_eq_zero)
  ultimately show "((base, x div base), base, x) \<in> measure (\<lambda>(base, x). unat x)"
    by (simp add: unat_div)
qed simp

declare print_digits.simps [simp del]

definition printint_buf :: "uint \<Rightarrow> uint \<Rightarrow> bool \<Rightarrow> string" where
  "printint_buf xx base sign =
     (let neg = sign \<and> xx <s 0; x = (if neg then - xx else xx)
      in print_digits base x @ (if neg then ''-'' else ''''))"

definition printint :: "uint \<Rightarrow> uint \<Rightarrow> bool \<Rightarrow> ('a kst_scheme, unit) K" where
  "printint xx base sign = kfor (rev (printint_buf xx base sign)) consputc"

definition printptr :: "uint64 \<Rightarrow> ('a kst_scheme, unit) K" where
  "printptr x = kthen (consputc (CHR ''0'')) (kthen (consputc (CHR ''x''))
     (kfor [0..<16] (\<lambda>i. consputc (digits ! unat (drop_bit 60 (push_bit (4 * i) x))))))"

subsection \<open>printf and panic\<close>

datatype farg = FNum uint64 | FStr "string option"

definition va_num :: "farg list \<Rightarrow> ('s, uint64 \<times> farg list) K" where
  "va_num ap = (case ap of FNum v # r \<Rightarrow> kret (v, r) | _ \<Rightarrow> kpanic ''kerneltrap'')"

definition va_str :: "farg list \<Rightarrow> ('s, string option \<times> farg list) K" where
  "va_str ap = (case ap of FStr v # r \<Rightarrow> kret (v, r) | _ \<Rightarrow> kpanic ''kerneltrap'')"

fun printf_loop :: "string \<Rightarrow> farg list \<Rightarrow> ('a kst_scheme, unit) K" where
  "printf_loop [] ap = kskip"
| "printf_loop [c] ap = (if c \<noteq> CHR ''%'' then consputc c else kskip)"
| "printf_loop (c # d # fmt) ap =
     (if c \<noteq> CHR ''%'' then kthen (consputc c) (printf_loop (d # fmt) ap)
      else if d = CHR ''d'' then
        kbind (va_num ap) (\<lambda>(v, ap'). kthen (printint (ucast v) 10 True) (printf_loop fmt ap'))
      else if d = CHR ''x'' then
        kbind (va_num ap) (\<lambda>(v, ap'). kthen (printint (ucast v) 16 True) (printf_loop fmt ap'))
      else if d = CHR ''p'' then
        kbind (va_num ap) (\<lambda>(v, ap'). kthen (printptr v) (printf_loop fmt ap'))
      else if d = CHR ''s'' then
        kbind (va_str ap) (\<lambda>(v, ap').
          kthen (kfor (case v of None \<Rightarrow> ''(null)'' | Some str \<Rightarrow> str) consputc) (printf_loop fmt ap'))
      else if d = CHR ''%'' then kthen (consputc (CHR ''%'')) (printf_loop fmt ap)
      else kthen (consputc (CHR ''%'')) (kthen (consputc d) (printf_loop fmt ap)))"

definition printf :: "string \<Rightarrow> farg list \<Rightarrow> ('a kst_scheme, unit) K" where
  "printf fmt ap =
     kbind (kget pr_locking) (\<lambda>locking.
     kthen (kwhen locking (acquire PR_LOCK))
    (kthen (printf_loop fmt ap)
     (kwhen locking (release PR_LOCK))))"

definition panic_msg :: "string \<Rightarrow> ('a kst_scheme, unit) K" where
  "panic_msg msg =
     kthen (kmod (\<lambda>s. s\<lparr>pr_locking := False\<rparr>))
    (kthen (printf ''panic: '' [])
    (kthen (printf msg [])
     (printf [CHR 0x0A] [])))"

definition printfinit :: "('a kst_scheme, unit) K" where
  "printfinit = kmod (\<lambda>s. s\<lparr>pr_locking := True\<rparr>)"

subsection \<open>What printing changes\<close>

definition printed :: "string \<Rightarrow> 'a kst_scheme \<Rightarrow> 'a kst_scheme" where
  "printed str s = s\<lparr>conout := conout s @ str\<rparr>"

lemma consputc_exec [kexec]: "consputc c s = Done () (printed [c] s)"
  by (simp add: consputc_def kexec printed_def)

lemma printed_printed [simp]: "printed b (printed a s) = printed (a @ b) s"
  by (simp add: printed_def)

lemma printed_Nil [simp]: "printed [] s = s"
  by (simp add: printed_def)

lemma print_chars [kexec]: "kfor str consputc s = Done () (printed str s)"
  by (induction str arbitrary: s) (simp_all add: kexec)

lemma printint_exec [kexec]: "printint xx base sign s = Done () (printed (rev (printint_buf xx base sign)) s)"
  by (simp add: printint_def kexec)

lemma printptr_exec [kexec]:
  "printptr x s = Done () (printed (''0x'' @ map (\<lambda>i. digits ! unat (drop_bit 60 (push_bit (4 * i) x))) [0..<16]) s)"
proof -
  have "kfor xs (\<lambda>i. consputc (f i)) s = Done () (printed (map f xs) s)" for xs and f :: "nat \<Rightarrow> char" and s :: "'a kst_scheme"
    by (induction xs arbitrary: s) (simp_all add: kexec)
  then show ?thesis by (simp add: printptr_def kexec)
qed

lemma printed_fields [simp]:
  "held (printed str s) = held s" "intr (printed str s) = intr s" "hartid (printed str s) = hartid s"
  "cur (printed str s) = cur s" "procs (printed str s) = procs s" "nextpid (printed str s) = nextpid s"
  "initproc (printed str s) = initproc s" "ticks (printed str s) = ticks s"
  "log_counter (printed str s) = log_counter s" "pr_locking (printed str s) = pr_locking s"
  "total_heat_skips (printed str s) = total_heat_skips s" "total_schedules (printed str s) = total_schedules s"
  "total_heat_penalty_ticks (printed str s) = total_heat_penalty_ticks s"
  "conout (printed str s) = conout s @ str" "kst.more (printed str s) = kst.more s"
  by (simp_all add: printed_def)

text \<open>\<open>format\<close> is the text that a call prints, \<open>None\<close> when an argument is missing or of the wrong kind.\<close>

fun format :: "string \<Rightarrow> farg list \<Rightarrow> string option" where
  "format [] ap = Some []"
| "format [c] ap = Some (if c \<noteq> CHR ''%'' then [c] else [])"
| "format (c # d # fmt) ap =
     (if c \<noteq> CHR ''%'' then map_option (Cons c) (format (d # fmt) ap)
      else if d \<in> {CHR ''d'', CHR ''x'', CHR ''p''} then
        (case ap of FNum v # r \<Rightarrow> map_option (append
            (if d = CHR ''p'' then ''0x'' @ map (\<lambda>i. digits ! unat (drop_bit 60 (push_bit (4 * i) v))) [0..<16]
             else rev (printint_buf (ucast v) (if d = CHR ''d'' then 10 else 16) True))) (format fmt r)
         | _ \<Rightarrow> None)
      else if d = CHR ''s'' then
        (case ap of FStr v # r \<Rightarrow>
            map_option (append (case v of None \<Rightarrow> ''(null)'' | Some str \<Rightarrow> str)) (format fmt r)
         | _ \<Rightarrow> None)
      else map_option (append (if d = CHR ''%'' then ''%'' else [CHR ''%'', d])) (format fmt ap))"

lemma printf_loop_exec:
  "format fmt ap = Some str \<Longrightarrow> printf_loop fmt ap s = Done () (printed str s)"
proof (induction fmt ap arbitrary: str s rule: format.induct)
  case (3 c d fmt ap)
  show ?case
    using "3.prems" "3.IH"
    by (auto simp: kexec va_num_def va_str_def split: if_splits list.splits farg.splits)
qed (auto simp: kexec)

lemma printf_exec:
  assumes "format fmt ap = Some str" and "pr_locking s \<longrightarrow> PR_LOCK \<notin> held s"
  shows "printf fmt ap s = Done () (printed str s)"
  using assms(2) by (simp add: printf_def kexec printf_loop_exec[OF assms(1)] printed_def)

text \<open>Whether the arguments match the directives of the format string, without computing the text.\<close>

fun fits :: "string \<Rightarrow> farg list \<Rightarrow> bool" where
  "fits [] ap = True"
| "fits [c] ap = True"
| "fits (c # d # fmt) ap =
     (if c \<noteq> CHR ''%'' then fits (d # fmt) ap
      else if d = CHR ''d'' \<or> d = CHR ''x'' \<or> d = CHR ''p'' then
        (case ap of FNum v # r \<Rightarrow> fits fmt r | _ \<Rightarrow> False)
      else if d = CHR ''s'' then (case ap of FStr v # r \<Rightarrow> fits fmt r | _ \<Rightarrow> False)
      else fits fmt ap)"

lemma fits_format: "fits fmt ap \<Longrightarrow> \<exists>str. format fmt ap = Some str"
  by (induction fmt ap rule: fits.induct) (auto split: if_splits list.splits farg.splits)

lemma printf_fits [kexec]:
  assumes "fits fmt ap" and "pr_locking s \<longrightarrow> PR_LOCK \<notin> held s"
  shows "printf fmt ap s = Done () (printed (the (format fmt ap)) s)"
  using fits_format[OF assms(1)] printf_exec[OF _ assms(2)] by auto

text \<open>A panic message always reaches the console. \<open>panic\<close> turns the printing lock off first, so that
  it prints even when this hart already holds it: for every message without a format directive
  that takes an argument, it appends "panic: ", the message and a newline to the output.\<close>

theorem panic_always_prints:
  assumes "format msg [] = Some str"
  shows "\<exists>t. panic_msg msg s = Done () t \<and> conout t = conout s @ ''panic: '' @ str @ [CHR 0x0A]
    \<and> held t = held s"
  using assms by (simp add: panic_msg_def kexec printed_def printf_exec)

theorem panic_always_prints_witness:
  "\<exists>t. panic_msg ''acquire'' (boot_kst\<lparr>held := {PR_LOCK}, pr_locking := True\<rparr>) = Done () t
     \<and> conout t = ''panic: acquire'' @ [CHR 0x0A]"
  using panic_always_prints[of "''acquire''" "''acquire''" "boot_kst\<lparr>held := {PR_LOCK}, pr_locking := True\<rparr>"]
  by (auto simp: boot_kst_def)

subsection \<open>What a printed number reads as\<close>

definition digit_value :: "char \<Rightarrow> nat" where
  "digit_value c = length (takeWhile (\<lambda>d. d \<noteq> c) digits)"

definition parse_nat :: "nat \<Rightarrow> string \<Rightarrow> nat" where
  "parse_nat base str = foldl (\<lambda>v c. base * v + digit_value c) 0 str"

definition parse_int :: "nat \<Rightarrow> string \<Rightarrow> int" where
  "parse_int base str = (if take 1 str = ''-'' then - int (parse_nat base (drop 1 str)) else int (parse_nat base str))"

lemma digit_value_nth: "k < 16 \<Longrightarrow> digit_value (digits ! k) = k"
proof -
  have "k < length xs \<Longrightarrow> distinct xs \<Longrightarrow> length (takeWhile (\<lambda>d. d \<noteq> xs ! k) xs) = k" for xs :: string
    by (induction xs arbitrary: k) (auto simp: nth_Cons split: nat.split)
  moreover assume "k < 16"
  moreover have "length digits = 16" "distinct digits" by (simp_all add: digits_def)
  ultimately show ?thesis by (simp add: digit_value_def)
qed

lemma print_digits_nonempty: "print_digits base x = c # cs \<Longrightarrow> c = digits ! unat (x mod base)"
  by (subst (asm) print_digits.simps) simp

lemma parse_nat_snoc: "parse_nat b (str @ [c]) = b * parse_nat b str + digit_value c"
  by (simp add: parse_nat_def)

lemma mod_base_16:
  fixes base x :: uint
  assumes "2 \<le> base" and "base \<le> 16"
  shows "unat (x mod base) < 16"
proof -
  have "unat base \<le> 16" "2 \<le> unat base" using assms by (simp_all add: word_le_nat_alt)
  then have "unat x mod unat base < 16" by (intro less_le_trans[OF mod_less_divisor]) simp_all
  then show ?thesis by (simp add: unat_mod)
qed

lemma parse_print_digits:
  assumes "2 \<le> base" and "base \<le> 16"
  shows "parse_nat (unat base) (rev (print_digits base x)) = unat x"
  using assms
proof (induction base x rule: print_digits.induct)
  case (1 base x)
  have d: "digit_value (digits ! unat (x mod base)) = unat x mod unat base"
    using digit_value_nth[OF mod_base_16[OF "1.prems"]] by (simp add: unat_mod)
  show ?case
  proof (cases "x div base = 0")
    case True
    then have "unat x div unat base = 0" by (metis unat_0 unat_div)
    then have "unat x mod unat base = unat x" using div_mult_mod_eq[of "unat x" "unat base"] by simp
    then show ?thesis using True d by (subst print_digits.simps) (simp add: parse_nat_def)
  next
    case False
    have "parse_nat (unat base) (rev (print_digits base (x div base))) = unat x div unat base"
      using 1 False by (simp add: unat_div)
    then show ?thesis using False "1.prems" d
      by (subst print_digits.simps) (simp add: parse_nat_snoc mult.commute)
  qed
qed

lemma print_digits_chars:
  assumes "2 \<le> base" and "base \<le> 16"
  shows "set (print_digits base x) \<subseteq> set digits"
  using assms
proof (induction base x rule: print_digits.induct)
  case (1 base x)
  have "digits ! unat (x mod base) \<in> set digits"
    using mod_base_16[OF "1.prems", of x] by (intro nth_mem) (simp add: digits_def)
  then show ?case using 1 by (subst print_digits.simps) auto
qed

lemma print_digits_length:
  "unat x < unat base ^ Suc n \<Longrightarrow> length (print_digits base x) \<le> Suc n"
proof (induction n arbitrary: x)
  case 0
  then have "x div base = 0" by (simp add: div_less unat_div flip: unat_eq_zero)
  then show ?case by (subst print_digits.simps) simp
next
  case (Suc n)
  have "unat (x div base) < unat base ^ Suc n"
    using Suc.prems by (simp add: unat_div less_mult_imp_div_less mult.commute)
  from Suc.IH[OF this] show ?case by (subst print_digits.simps) simp
qed

lemma neg_value:
  fixes xx :: uint
  assumes "xx <s 0"
  shows "int (unat (- xx)) = - sint xx"
proof -
  have n: "sint xx < 0" using assms by (simp add: word_sless_alt)
  have "- (2 ^ 31) \<le> sint xx" using sint_greater_eq[of xx] by simp
  then have "- sint xx \<in> {0..<2 ^ 32}" using n by simp
  moreover have "- xx = word_of_int (- sint xx)" by simp
  then have "uint (- xx) = (- sint xx) mod 2 ^ 32" by (simp only: uint_word_of_int) simp
  ultimately show ?thesis by simp
qed

lemma pos_value:
  fixes xx :: uint
  assumes "\<not> xx <s 0"
  shows "int (unat xx) = sint xx"
proof -
  have "0 \<le> sint xx" using assms by (simp add: word_sless_alt)
  moreover have "sint xx < 2 ^ 31" using sint_less[of xx] by simp
  moreover have "xx = word_of_int (sint xx)" by simp
  then have "uint xx = sint xx mod 2 ^ 32" using uint_word_of_int[of "sint xx", where 'a = 32] by simp
  ultimately show ?thesis by simp
qed

lemma parse_printint:
  fixes xx base :: uint
  assumes b: "base = 10 \<or> base = 16"
  shows "parse_int (unat base) (rev (printint_buf xx base True)) = sint xx"
proof -
  have b': "2 \<le> base" "base \<le> 16" using b by auto
  show ?thesis
  proof (cases "xx <s 0")
    case True
    then show ?thesis
      using parse_print_digits[OF b'] neg_value[OF True] by (simp add: printint_buf_def parse_int_def)
  next
    case False
    have "CHR ''-'' \<notin> set (print_digits base xx)" using print_digits_chars[OF b', of xx] by (auto simp: digits_def)
    then have "take 1 (rev (print_digits base xx)) \<noteq> ''-''"
      using in_set_takeD[of "CHR ''-''" 1 "rev (print_digits base xx)"] by auto
    moreover have "int (unat xx) = sint xx" using False by (rule pos_value)
    ultimately show ?thesis using False parse_print_digits[OF b'] by (simp add: printint_buf_def parse_int_def)
  qed
qed

lemma printint_buf_bound: "base = 10 \<or> base = 16 \<Longrightarrow> length (printint_buf xx base sign) \<le> 11"
proof -
  assume b: "base = 10 \<or> base = 16"
  have "unat x < unat base ^ Suc 9" for x :: uint
  proof -
    have "unat x < 4294967296" using unsigned_less[of x] by simp
    then show ?thesis using b by auto
  qed
  then have "length (print_digits base x) \<le> 10" for x using print_digits_length[of x base 9] by simp
  from this[of xx] this[of "- xx"] show ?thesis by (simp add: printint_buf_def Let_def)
qed

text \<open>\<open>printint\<close> prints exactly the signed number. In base 10 and in base 16 the characters sent to the
  console read back as the argument, the most negative number included, and the 16-byte buffer
  on the stack never overflows (at most 11 bytes are used).\<close>

theorem printint_roundtrip:
  assumes "base = 10 \<or> base = 16"
  shows "\<exists>str. printint xx base True s = Done () (s\<lparr>conout := conout s @ str\<rparr>)
    \<and> parse_int (unat base) str = sint xx \<and> length (printint_buf xx base True) \<le> 11"
  using parse_printint[OF assms, of xx] printint_buf_bound[OF assms, of xx True]
  by (intro exI[of _ "rev (printint_buf xx base True)"]) (simp add: kexec printed_def)

theorem printint_roundtrip_witness:
  "\<exists>str. printint 0x80000000 10 True boot_kst = Done () (boot_kst\<lparr>conout := str\<rparr>) \<and> parse_int 10 str = - 2147483648"
  using printint_roundtrip[of 10 "0x80000000" boot_kst] by (auto simp: boot_kst_def)

end
