(* ===== verification/Sched.thy ===== *)
theory Sched
  imports Printf
begin

text \<open>
  The process table and the heat-aware scheduler of kernel/proc.c, as far as they need no memory:
  \<open>procinit\<close>, \<open>allocpid\<close>, \<open>sleep\<close>, \<open>wakeup\<close>, \<open>sched\<close>, \<open>yield\<close>, \<open>kill\<close>, \<open>killed\<close>, \<open>setkilled\<close>,
  \<open>kill_all_user_processes\<close>, \<open>reparent\<close>, \<open>procdump\<close>, \<open>update_heat\<close> and \<open>scheduler\<close>.

  \<open>sched\<close> ends in \<open>Swtch\<close>; what a function does after it comes back is its own definition
  (\<open>sleep_resume\<close>, \<open>yield_resume\<close>). The scheduler visits one table entry with \<open>sched_visit\<close>, which is
  true when it has switched to the process; what the process does until it switches back is the
  parameter \<open>run\<close> of \<open>scheduler_round\<close>.
\<close>

subsection \<open>The process table\<close>

definition procinit :: "('a kst_scheme, unit) K" where
  "procinit = kfor [0..<NPROC] (\<lambda>i. setproc i (\<lambda>p. p\<lparr>p_state := UNUSED, p_kstack := KSTACK i\<rparr>))"

definition allocpid :: "('a kst_scheme, uint) K" where
  "allocpid =
     kthen (acquire PID_LOCK)
    (kbind (kget nextpid) (\<lambda>pid.
     kthen (kmod (\<lambda>s. s\<lparr>nextpid := nextpid s + 1\<rparr>))
    (kthen (release PID_LOCK)
     (kret pid))))"

definition setkilled :: "nat \<Rightarrow> ('a kst_scheme, unit) K" where
  "setkilled p = kthen (acquire (PROC_LOCK p)) (kthen (setproc p (\<lambda>q. q\<lparr>p_killed := True\<rparr>)) (release (PROC_LOCK p)))"

definition killed :: "nat \<Rightarrow> ('a kst_scheme, bool) K" where
  "killed p = kthen (acquire (PROC_LOCK p))
     (kbind (kget (\<lambda>s. p_killed (procs s p))) (\<lambda>k. kthen (release (PROC_LOCK p)) (kret k)))"

definition kill :: "uint \<Rightarrow> ('a kst_scheme, int) K" where
  "kill pid = kbind (kscan [0..<NPROC] (\<lambda>i.
     kthen (acquire (PROC_LOCK i))
    (kbind (kget (\<lambda>s. procs s i)) (\<lambda>p.
     if p_pid p = pid then
       kthen (setproc i (\<lambda>q. q\<lparr>p_killed := True\<rparr>))
      (kthen (kwhen (p_state p = SLEEPING) (setproc i (\<lambda>q. q\<lparr>p_state := RUNNABLE\<rparr>)))
      (kthen (release (PROC_LOCK i)) (kret (Some 0))))
     else kthen (release (PROC_LOCK i)) (kret None)))))
     (\<lambda>r. kret (case r of None \<Rightarrow> - 1 | Some v \<Rightarrow> v))"

definition kill_all_user_processes :: "('a kst_scheme, unit) K" where
  "kill_all_user_processes = kfor [0..<NPROC] (\<lambda>i.
     kthen (acquire (PROC_LOCK i))
    (kbind (kget (\<lambda>s. procs s i)) (\<lambda>p.
     kthen (kwhen (p_state p \<noteq> UNUSED \<and> 2 <s p_pid p) (setproc i (\<lambda>q. q\<lparr>p_killed := True\<rparr>)))
     (release (PROC_LOCK i)))))"

subsection \<open>Sleeping and waking\<close>

definition kswtch :: "('s, 'b) K" where
  "kswtch s = Swtch s"

definition sched :: "('a kst_scheme, unit) K" where
  "sched = kbind curproc (\<lambda>p. kbind (kget (\<lambda>s. s)) (\<lambda>s.
     if \<not> holding (PROC_LOCK p) s then kpanic ''sched p->lock''
     else if card (held s) \<noteq> 1 then kpanic ''sched locks''
     else if p_state (procs s p) = RUNNING then kpanic ''sched running''
     else if intr_get s then kpanic ''sched interruptible''
     else kswtch))"

definition yield_resume :: "nat \<Rightarrow> ('a kst_scheme, unit) K" where
  "yield_resume p = release (PROC_LOCK p)"

definition yield :: "('a kst_scheme, unit) K" where
  "yield = kbind curproc (\<lambda>p.
     kthen (acquire (PROC_LOCK p))
    (kthen (setproc p (\<lambda>q. q\<lparr>p_state := RUNNABLE\<rparr>))
    (kthen sched
     (yield_resume p))))"

definition sleep_resume :: "nat \<Rightarrow> lockid \<Rightarrow> ('a kst_scheme, unit) K" where
  "sleep_resume p lk =
     kthen (setproc p (\<lambda>q. q\<lparr>p_chan := None\<rparr>))
    (kthen (release (PROC_LOCK p))
     (acquire lk))"

definition sleep_mark :: "chan \<Rightarrow> proc \<Rightarrow> proc" where
  "sleep_mark ch p = p\<lparr>p_chan := Some ch, p_state := SLEEPING\<rparr>"

definition sleep :: "chan \<Rightarrow> lockid \<Rightarrow> ('a kst_scheme, unit) K" where
  "sleep ch lk = kbind curproc (\<lambda>p.
     kthen (acquire (PROC_LOCK p))
    (kthen (release lk)
    (kthen (setproc p (sleep_mark ch))
    (kthen sched
     (sleep_resume p lk)))))"

definition wakeup :: "chan \<Rightarrow> ('a kst_scheme, unit) K" where
  "wakeup ch = kfor [0..<NPROC] (\<lambda>i. kbind (kget cur) (\<lambda>me.
     kwhen (me \<noteq> Some i)
      (kthen (acquire (PROC_LOCK i))
      (kbind (kget (\<lambda>s. procs s i)) (\<lambda>p.
       kthen (kwhen (p_state p = SLEEPING \<and> p_chan p = Some ch) (setproc i (\<lambda>q. q\<lparr>p_state := RUNNABLE\<rparr>)))
       (release (PROC_LOCK i)))))))"

text \<open>\<open>wakeup(initproc)\<close> and \<open>wakeup(p->parent)\<close> use a process pointer as the channel; a null pointer
  wakes the processes whose \<open>chan\<close> is null and that are sleeping, of which there are none.\<close>

definition wakeup_proc :: "nat option \<Rightarrow> ('a kst_scheme, unit) K" where
  "wakeup_proc q = (case q of Some i \<Rightarrow> wakeup (ChProc i) | None \<Rightarrow> kskip)"

definition reparent :: "nat \<Rightarrow> ('a kst_scheme, unit) K" where
  "reparent p = kfor [0..<NPROC] (\<lambda>i. kbind (kget (\<lambda>s. p_parent (procs s i))) (\<lambda>q.
     kwhen (q = Some p)
      (kbind (kget initproc) (\<lambda>ini.
       kthen (setproc i (\<lambda>r. r\<lparr>p_parent := ini\<rparr>)) (wakeup_proc ini)))))"

subsection \<open>procdump\<close>

definition state_names :: "string list" where
  "state_names = [''unused'', ''used'', ''sleep '', ''runble'', ''run   '', ''zombie'']"

definition procdump :: "('a kst_scheme, unit) K" where
  "procdump = kthen (printf [CHR 0x0A] [])
     (kfor [0..<NPROC] (\<lambda>i. kbind (kget (\<lambda>s. procs s i)) (\<lambda>p.
        if p_state p = UNUSED then kskip
        else kthen (printf ''%d %s %s'' [FNum (scast (p_pid p)),
               FStr (Some (if procstate_code (p_state p) < length state_names
                           then state_names ! procstate_code (p_state p) else ''???'')),
               FStr (Some (p_name p))])
             (printf [CHR 0x0A] []))))"

subsection \<open>Heat\<close>

definition HEAT_THRESHOLD_WARM :: uint64 where "HEAT_THRESHOLD_WARM = 500"
definition HEAT_THRESHOLD_HOT :: uint64 where "HEAT_THRESHOLD_HOT = 1500"
definition HEAT_THRESHOLD_CRITICAL :: uint64 where "HEAT_THRESHOLD_CRITICAL = 3000"
definition HEAT_INCREMENT :: uint64 where "HEAT_INCREMENT = 5"
definition HEAT_DECAY :: uint64 where "HEAT_DECAY = 1"
definition HEAT_SKIP_MAX :: uint where "HEAT_SKIP_MAX = 90"
definition HEAT_SKIP_SCALE :: uint64 where "HEAT_SKIP_SCALE = 20"
definition HEAT_LOG_THROTTLE :: uint64 where "HEAT_LOG_THROTTLE = 100"

definition update_heat :: "('a kst_scheme, unit) K" where
  "update_heat = kfor [0..<NPROC] (\<lambda>i.
     kthen (acquire (PROC_LOCK i))
    (kbind (kget (\<lambda>s. procs s i)) (\<lambda>p.
     kthen (kwhen (p_state p \<noteq> UNUSED)
       (if p_cpu_heat p > HEAT_DECAY
        then setproc i (\<lambda>q. q\<lparr>p_cpu_heat := p_cpu_heat q - HEAT_DECAY\<rparr>)
        else setproc i (\<lambda>q. q\<lparr>p_cpu_heat := 0\<rparr>)))
     (release (PROC_LOCK i)))))"

text \<open>\<open>skip_chance\<close> is an \<open>int\<close> computed from a 64-bit quotient; the comparison of \<open>pseudo_rand\<close> with it
  converts it back to 64 bits.\<close>

definition skip_chance :: "uint64 \<Rightarrow> uint" where
  "skip_chance heat =
     (if heat \<ge> HEAT_THRESHOLD_HOT then
        let c = ucast ((heat - HEAT_THRESHOLD_HOT) div HEAT_SKIP_SCALE)
        in if HEAT_SKIP_MAX <s c then HEAT_SKIP_MAX else c
      else 0)"

definition pseudo_rand :: "uint \<Rightarrow> uint64 \<Rightarrow> uint64" where
  "pseudo_rand pid tick = (scast pid * tick) mod 100"

definition should_skip :: "uint64 \<Rightarrow> uint \<Rightarrow> uint64 \<Rightarrow> bool" where
  "should_skip heat pid tick \<longleftrightarrow> heat \<ge> HEAT_THRESHOLD_HOT \<and> pseudo_rand pid tick < scast (skip_chance heat)"

definition level_names :: "string list" where
  "level_names = [''COLD'', ''WARM'', ''HOT'', ''CRITICAL'']"

definition level_arg :: "uint64 \<Rightarrow> farg" where
  "level_arg l = (if unat l < length level_names then FStr (Some (level_names ! unat l)) else FNum l)"

definition log_heat_calc :: "proc \<Rightarrow> ('a kst_scheme, unit) K" where
  "log_heat_calc p =
     kwhen (p_cpu_heat p \<ge> HEAT_THRESHOLD_HOT)
       (printf (''[DEBUG] pid=%d heat=%d threshold=%d skip_calc=%d skip_final=%d%%'' @ [CHR 0x0A])
          [FNum (scast (p_pid p)), FNum (p_cpu_heat p), FNum HEAT_THRESHOLD_HOT,
           FNum ((p_cpu_heat p - HEAT_THRESHOLD_HOT) div HEAT_SKIP_SCALE), FNum (scast (skip_chance (p_cpu_heat p)))])"

definition sched_skip :: "nat \<Rightarrow> ('a kst_scheme, unit) K" where
  "sched_skip i =
     kthen (setproc i (\<lambda>q. q\<lparr>p_times_skipped := p_times_skipped q + 1\<rparr>))
    (kbind (kget (\<lambda>s. procs s i)) (\<lambda>p.
     kbind (kget log_counter) (\<lambda>n.
     kthen (kwhen (n mod HEAT_LOG_THROTTLE = 0)
       (printf (''[HEAT] pid=%d '' @ [CHR 0x27] @ ''%s'' @ [CHR 0x27]
            @ '' SKIPPED | heat=%d (%s) | skip_chance=%d%% | times_skipped=%d'' @ [CHR 0x0A])
          [FNum (scast (p_pid p)), FStr (Some (p_name p)), FNum (p_cpu_heat p), level_arg (p_heat_level p),
           FNum (scast (skip_chance (p_cpu_heat p))), FNum (p_times_skipped p)]))
    (kthen (kmod (\<lambda>s. s\<lparr>log_counter := log_counter s + 1\<rparr>))
    (kthen (acquire HEAT_STATS_LOCK)
    (kthen (kmod (\<lambda>s. s\<lparr>total_heat_skips := total_heat_skips s + 1,
                        total_heat_penalty_ticks := total_heat_penalty_ticks s + 1\<rparr>))
    (kthen (release HEAT_STATS_LOCK)
     (release (PROC_LOCK i)))))))))"

definition sched_run :: "uint64 \<Rightarrow> nat \<Rightarrow> ('a kst_scheme, unit) K" where
  "sched_run tick i = kbind (kget (\<lambda>s. procs s i)) (\<lambda>p. kbind (kget log_counter) (\<lambda>n.
     kthen (kwhen (p_cpu_heat p \<ge> HEAT_THRESHOLD_WARM \<and> n mod 200 = 0)
       (printf (''[HEAT] pid=%d '' @ [CHR 0x27] @ ''%s'' @ [CHR 0x27]
            @ '' ALLOWED | heat=%d (%s) | skip_chance=%d%%'' @ [CHR 0x0A])
          [FNum (scast (p_pid p)), FStr (Some (p_name p)), FNum (p_cpu_heat p), level_arg (p_heat_level p),
           FNum (scast (skip_chance (p_cpu_heat p)))]))
    (kthen (setproc i (\<lambda>q. q\<lparr>p_state := RUNNING, p_last_scheduled := tick\<rparr>))
    (kthen (acquire HEAT_STATS_LOCK)
    (kthen (kmod (\<lambda>s. s\<lparr>total_schedules := total_schedules s + 1\<rparr>))
    (kthen (release HEAT_STATS_LOCK)
     (kmod (\<lambda>s. s\<lparr>cur := Some i\<rparr>))))))))"

definition sched_visit :: "uint64 \<Rightarrow> nat \<Rightarrow> ('a kst_scheme, bool) K" where
  "sched_visit tick i =
     kthen (acquire (PROC_LOCK i))
    (kbind (kget (\<lambda>s. procs s i)) (\<lambda>p.
     if p_state p = RUNNABLE then
       kthen (log_heat_calc p)
         (if should_skip (p_cpu_heat p) (p_pid p) tick then kthen (sched_skip i) (kret False)
          else kthen (sched_run tick i) (kret True))
     else kthen (release (PROC_LOCK i)) (kret False)))"

definition sched_return :: "nat \<Rightarrow> ('a kst_scheme, unit) K" where
  "sched_return i = kthen (kmod (\<lambda>s. s\<lparr>cur := None\<rparr>)) (release (PROC_LOCK i))"

definition scheduler_round :: "(nat \<Rightarrow> 'a kst_scheme \<Rightarrow> 'a kst_scheme) \<Rightarrow> ('a kst_scheme, unit) K" where
  "scheduler_round run =
     kthen (kmod (\<lambda>s. s\<lparr>intr := True\<rparr>))
    (kthen (acquire TICKS_LOCK)
    (kbind (kget ticks) (\<lambda>current_tick.
     kthen (release TICKS_LOCK)
    (kthen (kwhen (current_tick mod 10 = 0) update_heat)
     (kfor [0..<NPROC] (\<lambda>i. kbind (sched_visit current_tick i) (\<lambda>b.
        kwhen b (kthen (kmod (run i)) (sched_return i)))))))))"

subsection \<open>Executing loops over the process table\<close>

lemma procs_id [simp]: "s\<lparr>procs := procs s\<rparr> = s"
  by simp

lemma kfor_procs:
  assumes "\<And>i t. i < n \<Longrightarrow> held t = held s \<Longrightarrow> cur t = cur s \<Longrightarrow>
      f i t = Done () (t\<lparr>procs := (procs t)(i := h i (procs t i))\<rparr>)"
  shows "kfor [0..<n] f s = Done () (s\<lparr>procs := \<lambda>i. if i < n then h i (procs s i) else procs s i\<rparr>)"
proof -
  let ?g = "\<lambda>i t. t\<lparr>procs := (procs t)(i := h i (procs t i))\<rparr>"
  have "kfor [0..<n] f s = Done () (fold ?g [0..<n] s)"
    using kfor_fold[of "[0..<n]" "\<lambda>t. held t = held s \<and> cur t = cur s" f ?g s] assms by simp
  moreover have "fold ?g xs t = t\<lparr>procs := fold (\<lambda>i g. g(i := h i (g i))) xs (procs t)\<rparr>" for xs and t :: "'a kst_scheme"
    by (induction xs arbitrary: t) simp_all
  ultimately show ?thesis by (simp add: fold_fun_upd_upt)
qed

definition woken :: "chan \<Rightarrow> proc \<Rightarrow> proc" where
  "woken ch p = (if p_state p = SLEEPING \<and> p_chan p = Some ch then p\<lparr>p_state := RUNNABLE\<rparr> else p)"

lemma wakeup_exec:
  assumes "\<forall>i<NPROC. cur s \<noteq> Some i \<longrightarrow> PROC_LOCK i \<notin> held s"
  shows "wakeup ch s = Done () (s\<lparr>procs := \<lambda>i. if i < NPROC \<and> cur s \<noteq> Some i then woken ch (procs s i) else procs s i\<rparr>)"
proof -
  have "wakeup ch s = Done () (s\<lparr>procs := \<lambda>i. if i < NPROC then
      (if cur s \<noteq> Some i then woken ch (procs s i) else procs s i) else procs s i\<rparr>)"
    unfolding wakeup_def
    by (rule kfor_procs[where h = "\<lambda>i p. if cur s \<noteq> Some i then woken ch p else p"])
      (use assms in \<open>simp add: kexec woken_def\<close>)
  moreover have "(\<lambda>i. if i < NPROC then (if cur s \<noteq> Some i then woken ch (procs s i) else procs s i) else procs s i)
      = (\<lambda>i. if i < NPROC \<and> cur s \<noteq> Some i then woken ch (procs s i) else procs s i)" by auto
  ultimately show ?thesis by simp
qed

definition cooled :: "proc \<Rightarrow> proc" where
  "cooled p = (if p_state p = UNUSED then p else p\<lparr>p_cpu_heat := of_nat (unat (p_cpu_heat p) - 1)\<rparr>)"

lemma cool_word: "(if (h :: uint64) > 1 then h - 1 else 0) = of_nat (unat h - 1)"
proof (cases "h > 1")
  case True
  then have "of_nat (unat h - 1) = h - 1" by (simp add: of_nat_diff word_less_nat_alt)
  then show ?thesis using True by simp
next
  case False
  then have "unat h \<le> 1" by (simp add: word_less_nat_alt)
  then have "unat h - 1 = 0" by simp
  then show ?thesis using False by simp
qed

lemma update_heat_exec:
  assumes "\<forall>i<NPROC. PROC_LOCK i \<notin> held s"
  shows "update_heat s = Done () (s\<lparr>procs := \<lambda>i. if i < NPROC then cooled (procs s i) else procs s i\<rparr>)"
  unfolding update_heat_def
proof (rule kfor_procs)
  fix i t assume "i < NPROC" "held t = held s"
  then show "kthen (acquire (PROC_LOCK i))
    (kbind (kget (\<lambda>s. procs s i)) (\<lambda>p.
     kthen (kwhen (p_state p \<noteq> UNUSED)
       (if p_cpu_heat p > HEAT_DECAY
        then setproc i (\<lambda>q. q\<lparr>p_cpu_heat := p_cpu_heat q - HEAT_DECAY\<rparr>)
        else setproc i (\<lambda>q. q\<lparr>p_cpu_heat := 0\<rparr>)))
     (release (PROC_LOCK i)))) t = Done () (t\<lparr>procs := (procs t)(i := cooled (procs t i))\<rparr>)"
    using assms cool_word[of "p_cpu_heat (procs t i)"]
    by (auto simp: kexec cooled_def HEAT_DECAY_def split: if_splits)
qed

subsection \<open>The skip decision in arithmetic\<close>

lemma sint_small: "unat (w :: uint) < 2 ^ 31 \<Longrightarrow> sint w = int (unat w)"
proof -
  assume "unat w < 2 ^ 31"
  then have "int (unat w) < int (2 ^ 31)" by (simp only: of_nat_less_iff)
  then have "uint w < 2 ^ 31" by simp
  then have "signed_take_bit 31 (uint w) = uint w"
    by (intro signed_take_bit_int_eq_self) (auto intro: order_trans[OF _ uint_ge_0])
  then show ?thesis by (simp add: sint_uint)
qed

lemma scast_small: "unat (w :: uint) < 2 ^ 31 \<Longrightarrow> unat (scast w :: uint64) = unat w"
  by (simp add: scast_eq sint_small unsigned_ucast_eq take_bit_nat_eq_self)

definition chance :: "nat \<Rightarrow> nat" where
  "chance heat = min 90 ((heat - 1500) div 20)"

lemma chance_le: "chance heat \<le> 90"
  by (simp add: chance_def)

lemma skip_chance_unat:
  assumes "heat < 20 * 2 ^ 31"
  shows "unat (skip_chance heat) = (if 1500 \<le> unat heat then chance (unat heat) else 0)"
proof (cases "HEAT_THRESHOLD_HOT \<le> heat")
  case True
  let ?q = "(unat heat - 1500) div 20" and ?c = "ucast ((heat - HEAT_THRESHOLD_HOT) div HEAT_SKIP_SCALE) :: uint"
  have h: "1500 \<le> unat heat" using True by (simp add: HEAT_THRESHOLD_HOT_def word_le_nat_alt)
  have "unat heat < 20 * 2 ^ 31" using assms by (simp add: word_less_nat_alt)
  then have "?q < 2 ^ 31" by (intro less_mult_imp_div_less) simp
  moreover have "unat ((heat - HEAT_THRESHOLD_HOT) div HEAT_SKIP_SCALE) = ?q"
    using True h by (simp add: HEAT_THRESHOLD_HOT_def HEAT_SKIP_SCALE_def unat_div unat_sub)
  ultimately have c: "unat ?c = ?q" "?q < 2 ^ 31" by (simp_all add: unsigned_ucast_eq take_bit_nat_eq_self)
  have "HEAT_SKIP_MAX <s ?c \<longleftrightarrow> 90 < ?q"
    using c by (simp add: word_sless_alt sint_small HEAT_SKIP_MAX_def)
  then show ?thesis using True h c(1) by (simp add: skip_chance_def Let_def chance_def HEAT_SKIP_MAX_def)
next
  case False
  then show ?thesis by (simp add: skip_chance_def HEAT_THRESHOLD_HOT_def word_le_nat_alt)
qed

lemma pseudo_rand_unat:
  assumes "unat pid < 2 ^ 31" and "unat pid * unat tick < 2 ^ 64"
  shows "unat (pseudo_rand pid tick) = (unat pid * unat tick) mod 100"
  using assms by (simp add: pseudo_rand_def unat_mod unat_word_ariths scast_small)

lemma should_skip_arith:
  assumes "heat < 20 * 2 ^ 31" and "unat pid < 2 ^ 31" and "unat pid * unat tick < 2 ^ 64"
  shows "should_skip heat pid tick \<longleftrightarrow> 1500 \<le> unat heat \<and> (unat pid * unat tick) mod 100 < chance (unat heat)"
proof -
  have "unat (skip_chance heat) < 2 ^ 31" using skip_chance_unat[OF assms(1)] chance_le[of "unat heat"] by simp
  then show ?thesis
    using pseudo_rand_unat[OF assms(2,3)] skip_chance_unat[OF assms(1)]
    by (auto simp: should_skip_def word_less_nat_alt scast_small HEAT_THRESHOLD_HOT_def word_le_nat_alt)
qed

lemma spread_mod:
  fixes p t c m :: nat
  assumes "coprime p m" and "c \<le> m"
  shows "card {k. k < m \<and> (p * (t + k)) mod m < c} = c"
proof -
  let ?f = "\<lambda>k. (p * (t + k)) mod m"
  have inj: "inj_on ?f {..<m}"
  proof (rule linorder_inj_onI')
    fix i j assume a: "i \<in> {..<m}" "j \<in> {..<m}" "i < j"
    show "?f i \<noteq> ?f j"
    proof
      assume "?f i = ?f j"
      then have "m dvd p * (t + j) - p * (t + i)" using a(3) by (intro mod_eq_dvd_iff_nat[THEN iffD1]) simp_all
      then have "m dvd p * (j - i)" by (simp flip: diff_mult_distrib2)
      then have "m dvd j - i" using assms(1) by (simp add: coprime_commute coprime_dvd_mult_right_iff)
      then show False using a by (auto dest: dvd_imp_le)
    qed
  qed
  have "?f ` {..<m} \<subseteq> {..<m}" by auto
  then have s: "?f ` {..<m} = {..<m}" using inj by (simp add: endo_inj_surj)
  have "{..<c} \<subseteq> ?f ` {k. k < m \<and> ?f k < c}"
  proof
    fix x assume "x \<in> {..<c}"
    moreover from this have "x \<in> ?f ` {..<m}" unfolding s using assms(2) by simp
    then obtain k where "k < m" "x = ?f k" by auto
    ultimately show "x \<in> ?f ` {k. k < m \<and> ?f k < c}" by auto
  qed
  then have e: "?f ` {k. k < m \<and> ?f k < c} = {..<c}" by auto
  have "inj_on ?f {k. k < m \<and> ?f k < c}" by (rule inj_on_subset[OF inj]) auto
  from card_image[OF this] show ?thesis unfolding e by simp
qed

subsection \<open>Properties of the heat policy\<close>

text \<open>C33: the skip decision is spread evenly over time. For a process whose pid has no common factor with
  100, among any 100 consecutive ticks the scheduler skips it at exactly \<open>skip_chance\<close> of them, a
  number that is 0 below the hot threshold and at most 90, so that it can run at ten of them or more.
  (The product pid * tick must not overflow 64 bits.)\<close>

theorem heat_skip_fraction:
  assumes heat: "heat < 20 * 2 ^ 31" and pid: "unat pid < 2 ^ 31" "coprime (unat pid) 100"
    and range: "unat pid * (unat tick + 100) < 2 ^ 64"
  shows "card {k. k < 100 \<and> should_skip heat pid (tick + of_nat k)} = unat (skip_chance heat)
    \<and> unat (skip_chance heat) \<le> 90 \<and> 10 \<le> card {k. k < 100 \<and> \<not> should_skip heat pid (tick + of_nat k)}"
proof -
  have p0: "1 \<le> unat pid" using pid(2) by (cases "unat pid") auto
  have "unat tick + 100 \<le> unat pid * (unat tick + 100)" using mult_le_mono1[OF p0, of "unat tick + 100"] by simp
  then have small: "unat tick + 100 < 2 ^ 64" using range by linarith
  have tk: "unat (tick + of_nat k) = unat tick + k" if "k < 100" for k
    using that small by (simp add: unat_word_ariths unat_of_nat)
  have sk: "should_skip heat pid (tick + of_nat k) \<longleftrightarrow>
      1500 \<le> unat heat \<and> (unat pid * (unat tick + k)) mod 100 < chance (unat heat)" if "k < 100" for k
  proof -
    have "unat pid * unat (tick + of_nat k) \<le> unat pid * (unat tick + 100)"
      unfolding tk[OF that] using that by (intro mult_le_mono2) simp
    then have "unat pid * unat (tick + of_nat k) < 2 ^ 64" using range by (rule le_less_trans)
    from should_skip_arith[OF heat pid(1) this] show ?thesis unfolding tk[OF that] .
  qed
  let ?S = "{k. k < 100 \<and> should_skip heat pid (tick + of_nat k)}"
  have "card ?S = unat (skip_chance heat)"
  proof (cases "1500 \<le> unat heat")
    case True
    then have "?S = {k. k < 100 \<and> (unat pid * (unat tick + k)) mod 100 < chance (unat heat)}" using sk by auto
    then show ?thesis
      using spread_mod[OF pid(2), of "chance (unat heat)"] chance_le[of "unat heat"] True skip_chance_unat[OF heat] by simp
  next
    case False
    then have "?S = {}" using sk by auto
    then show ?thesis using False skip_chance_unat[OF heat] by simp
  qed
  moreover have le: "unat (skip_chance heat) \<le> 90" using skip_chance_unat[OF heat] chance_le by simp
  moreover have "{k. k < 100 \<and> \<not> should_skip heat pid (tick + of_nat k)} = {..<100} - ?S" by auto
  then have "card {k. k < 100 \<and> \<not> should_skip heat pid (tick + of_nat k)} = 100 - card ?S"
    by (simp add: card_Diff_subset subset_eq)
  ultimately show ?thesis by linarith
qed

theorem heat_skip_fraction_witness:
  "card {k. k < 100 \<and> should_skip 2500 7 (12345 + of_nat k)} = 50"
proof -
  have "coprime (7 :: nat) 100" by code_simp
  then show ?thesis using heat_skip_fraction[of 2500 7 12345] by (simp add: skip_chance_unat chance_def)
qed

text \<open>C37: the "pseudo-random" decision is not random for every process. A process whose pid is a multiple
  of 100 is skipped at every tick while its heat is 1520 or more: all its chances fall together.\<close>

theorem heat_starves_pid_100:
  assumes "heat < 20 * 2 ^ 31" and "unat pid < 2 ^ 31" and "100 dvd unat pid" and "unat pid * unat tick < 2 ^ 64"
  shows "should_skip heat pid tick \<longleftrightarrow> 1520 \<le> heat"
proof -
  have m: "(unat pid * unat tick) mod 100 = 0" using assms(3) by (simp add: mod_eq_0_iff_dvd)
  have "should_skip heat pid tick \<longleftrightarrow> 1500 \<le> unat heat \<and> 0 < chance (unat heat)"
    using should_skip_arith[OF assms(1,2,4)] m by simp
  also have "\<dots> \<longleftrightarrow> 1520 \<le> unat heat" by (auto simp: chance_def div_greater_zero_iff)
  finally show ?thesis by (simp add: word_le_nat_alt)
qed

theorem heat_starves_pid_100_witness: "should_skip 1520 300 987654"
  using heat_starves_pid_100[of 1520 300 987654] by simp

subsection \<open>One scheduler round\<close>

lemma printed_out:
  "(printed str s)\<lparr>held := a\<rparr> = printed str (s\<lparr>held := a\<rparr>)"
  "(printed str s)\<lparr>procs := b\<rparr> = printed str (s\<lparr>procs := b\<rparr>)"
  "(printed str s)\<lparr>cur := c\<rparr> = printed str (s\<lparr>cur := c\<rparr>)"
  "(printed str s)\<lparr>log_counter := d\<rparr> = printed str (s\<lparr>log_counter := d\<rparr>)"
  "(printed str s)\<lparr>total_heat_skips := e\<rparr> = printed str (s\<lparr>total_heat_skips := e\<rparr>)"
  "(printed str s)\<lparr>total_heat_penalty_ticks := e\<rparr> = printed str (s\<lparr>total_heat_penalty_ticks := e\<rparr>)"
  "(printed str s)\<lparr>total_schedules := e\<rparr> = printed str (s\<lparr>total_schedules := e\<rparr>)"
  by (simp_all add: printed_def)

lemma cold_not_skipped: "heat < 1520 \<Longrightarrow> \<not> should_skip heat pid tick"
proof -
  assume h: "heat < 1520"
  then have "heat < 20 * 2 ^ 31" by (rule less_trans) simp
  moreover have "chance (unat heat) = 0" using h by (simp add: chance_def word_less_nat_alt)
  ultimately have "skip_chance heat = 0" using skip_chance_unat[of heat] by (simp add: unat_eq_zero split: if_splits)
  then show ?thesis by (simp add: should_skip_def)
qed

definition visit_ok :: "nat \<Rightarrow> 'a kst_scheme \<Rightarrow> bool" where
  "visit_ok i s \<longleftrightarrow> PROC_LOCK i \<notin> held s \<and> HEAT_STATS_LOCK \<notin> held s \<and> (pr_locking s \<longrightarrow> PR_LOCK \<notin> held s)
     \<and> p_heat_level (procs s i) < 4"

lemma log_heat_calc_exec:
  "(pr_locking s \<longrightarrow> PR_LOCK \<notin> held s) \<Longrightarrow> \<exists>str. log_heat_calc p s = Done () (printed str s)"
  by (cases "p_cpu_heat p \<ge> HEAT_THRESHOLD_HOT") (auto simp: log_heat_calc_def kexec intro: exI[of _ "[]"])

lemma level_arg_ok: "l < 4 \<Longrightarrow> level_arg l = FStr (Some (level_names ! unat l))"
  by (simp add: level_arg_def level_names_def word_less_nat_alt)

lemma sched_skip_exec:
  assumes "PROC_LOCK i \<in> held s" "HEAT_STATS_LOCK \<notin> held s" "pr_locking s \<longrightarrow> PR_LOCK \<notin> held s"
    and "p_heat_level (procs s i) < 4"
  shows "\<exists>str. sched_skip i s = Done () (printed str (s\<lparr>procs := (procs s)(i := (procs s i)\<lparr>p_times_skipped := p_times_skipped (procs s i) + 1\<rparr>),
    log_counter := log_counter s + 1, total_heat_skips := total_heat_skips s + 1,
    total_heat_penalty_ticks := total_heat_penalty_ticks s + 1, held := held s - {PROC_LOCK i}\<rparr>))"
proof (cases "log_counter s mod HEAT_LOG_THROTTLE = 0")
  case True
  then show ?thesis using assms by (auto simp: sched_skip_def kexec level_arg_ok printed_out simp del: format.simps)
next
  case False
  then show ?thesis using assms by (auto simp: sched_skip_def kexec intro: exI[of _ "[]"])
qed

lemma sched_run_exec:
  assumes "PROC_LOCK i \<in> held s" "HEAT_STATS_LOCK \<notin> held s" "pr_locking s \<longrightarrow> PR_LOCK \<notin> held s"
    and "p_heat_level (procs s i) < 4"
  shows "\<exists>str. sched_run tick i s = Done () (printed str (s\<lparr>procs := (procs s)(i := (procs s i)\<lparr>p_state := RUNNING, p_last_scheduled := tick\<rparr>),
    total_schedules := total_schedules s + 1, cur := Some i\<rparr>))"
proof (cases "p_cpu_heat (procs s i) \<ge> HEAT_THRESHOLD_WARM \<and> log_counter s mod 200 = 0")
  case True
  then show ?thesis using assms by (auto simp: sched_run_def kexec level_arg_ok printed_out simp del: format.simps)
next
  case False
  then show ?thesis using assms by (auto simp: sched_run_def kexec intro: exI[of _ "[]"])
qed

text \<open>What a visit of entry \<open>i\<close> does: it reports whether it has switched to the process, touches no other
  entry, and keeps the lock of the entry only if it has.\<close>

lemma sched_visit_exec:
  fixes tick :: uint64
  assumes ok: "visit_ok i s"
  defines "p \<equiv> procs s i"
  defines "b \<equiv> p_state p = RUNNABLE \<and> \<not> should_skip (p_cpu_heat p) (p_pid p) tick"
  shows "\<exists>t. sched_visit tick i s = Done b t \<and> kst.more t = kst.more s \<and> pr_locking t = pr_locking s
    \<and> held t = (if b then insert (PROC_LOCK i) (held s) else held s) \<and> (\<forall>j. j \<noteq> i \<longrightarrow> procs t j = procs s j)
    \<and> p_heat_level (procs t i) = p_heat_level p \<and> (b \<longrightarrow> cur t = Some i \<and> p_state (procs t i) = RUNNING
       \<and> p_last_scheduled (procs t i) = tick)"
proof (cases "p_state p = RUNNABLE")
  case True
  let ?s = "s\<lparr>held := insert (PROC_LOCK i) (held s)\<rparr>"
  obtain str where l: "log_heat_calc p ?s = Done () (printed str ?s)"
    using log_heat_calc_exec[of ?s p] ok by (auto simp: visit_ok_def)
  have h: "PROC_LOCK i \<in> held (printed str ?s)" "HEAT_STATS_LOCK \<notin> held (printed str ?s)"
      "pr_locking (printed str ?s) \<longrightarrow> PR_LOCK \<notin> held (printed str ?s)"
      "p_heat_level (procs (printed str ?s) i) < 4" and n: "PROC_LOCK i \<notin> held s"
    using ok by (auto simp: visit_ok_def)
  obtain a where a: "sched_skip i (printed str ?s) = Done () (printed a ((printed str ?s)\<lparr>procs := (procs s)(i := p\<lparr>p_times_skipped := p_times_skipped p + 1\<rparr>),
      log_counter := log_counter s + 1, total_heat_skips := total_heat_skips s + 1,
      total_heat_penalty_ticks := total_heat_penalty_ticks s + 1, held := insert (PROC_LOCK i) (held s) - {PROC_LOCK i}\<rparr>))"
    using sched_skip_exec[OF h] by (auto simp: p_def)
  obtain c where c: "sched_run tick i (printed str ?s) = Done () (printed c ((printed str ?s)\<lparr>procs := (procs s)(i := p\<lparr>p_state := RUNNING, p_last_scheduled := tick\<rparr>),
      total_schedules := total_schedules s + 1, cur := Some i\<rparr>))"
    using sched_run_exec[OF h, of tick] by (auto simp: p_def)
  show ?thesis
    using True l a c n by (auto simp: sched_visit_def kexec b_def p_def printed_out)
next
  case False
  then show ?thesis using ok by (auto simp: sched_visit_def kexec b_def p_def visit_ok_def)
qed

text \<open>What a round relies on from the code of the processes: \<open>run i\<close> comes back with the lock it was given
  and no other, does not turn the heat levels into wild indices, leaves the processes that are
  ready to run ready and no hotter, and (a ghost field of the state) logs that \<open>i\<close> has run.\<close>

definition polite :: "(nat \<Rightarrow> (nat list) kst_scheme \<Rightarrow> (nat list) kst_scheme) \<Rightarrow> bool" where
  "polite run \<longleftrightarrow> (\<forall>i s. held (run i s) = held s \<and> pr_locking (run i s) = pr_locking s
     \<and> kst.more (run i s) = kst.more s @ [i]
     \<and> (\<forall>j. p_heat_level (procs s j) < 4 \<longrightarrow> p_heat_level (procs (run i s) j) < 4)
     \<and> (\<forall>j. j \<noteq> i \<longrightarrow> p_state (procs s j) = RUNNABLE \<longrightarrow> p_state (procs (run i s) j) = RUNNABLE
          \<and> p_cpu_heat (procs (run i s) j) \<le> p_cpu_heat (procs s j)))"

definition ready_cold :: "proc \<Rightarrow> bool" where
  "ready_cold p \<longleftrightarrow> p_state p = RUNNABLE \<and> p_cpu_heat p < 1520"

definition round_inv :: "(nat list) kst_scheme \<Rightarrow> nat \<Rightarrow> (nat list) kst_scheme \<Rightarrow> bool" where
  "round_inv s k t \<longleftrightarrow> held t = {} \<and> (\<forall>j<NPROC. p_heat_level (procs t j) < 4)
     \<and> (\<forall>j<NPROC. ready_cold (procs s j) \<longrightarrow> (if j < k then j \<in> set (kst.more t) else ready_cold (procs t j)))
     \<and> sorted_wrt (<) (kst.more t) \<and> (\<forall>j\<in>set (kst.more t). j < k)"

lemma ready_cold_cooled: "ready_cold p \<Longrightarrow> ready_cold (cooled p)"
proof -
  assume r: "ready_cold p"
  have "unat (p_cpu_heat p) < 1520" using r by (simp add: ready_cold_def word_less_nat_alt)
  then have "unat (p_cpu_heat p) - 1 < 1520" by simp
  then have "(of_nat (unat (p_cpu_heat p) - 1) :: uint64) < 1520" by (simp add: word_less_nat_alt unat_of_nat)
  then show ?thesis using r by (simp add: ready_cold_def cooled_def)
qed

lemma round_step:
  assumes run: "polite run" and k: "k < NPROC" and I: "round_inv s k t"
  shows "runs (kbind (sched_visit tick k) (\<lambda>b. kwhen b (kthen (kmod (run k)) (sched_return k)))) t (\<lambda>_ u. round_inv s (Suc k) u)"
proof -
  have ok: "visit_ok k t" using I k by (simp add: round_inv_def visit_ok_def)
  define b where "b \<longleftrightarrow> p_state (procs t k) = RUNNABLE \<and> \<not> should_skip (p_cpu_heat (procs t k)) (p_pid (procs t k)) tick"
  have held0: "held t = {}" using I by (simp add: round_inv_def)
  obtain u where v: "sched_visit tick k t = Done b u" and f: "kst.more u = kst.more t" "held u = (if b then {PROC_LOCK k} else {})"
      "\<forall>j. j \<noteq> k \<longrightarrow> procs u j = procs t j" "p_heat_level (procs u k) = p_heat_level (procs t k)"
    using sched_visit_exec[OF ok, of tick, folded b_def] held0 by auto
  have rc: "ready_cold (procs t k) \<Longrightarrow> b" using cold_not_skipped by (auto simp: ready_cold_def b_def)
  have fl: "p_heat_level (procs u j) = p_heat_level (procs t j)" for j using f(3,4) by (cases "j = k") auto
  have J: "\<forall>j<NPROC. p_heat_level (procs t j) < 4" "sorted_wrt (<) (kst.more t)" "\<forall>j\<in>set (kst.more t). j < k"
      "\<And>j. j < NPROC \<Longrightarrow> ready_cold (procs s j) \<Longrightarrow> j < k \<Longrightarrow> j \<in> set (kst.more t)"
      "\<And>j. j < NPROC \<Longrightarrow> ready_cold (procs s j) \<Longrightarrow> \<not> j < k \<Longrightarrow> ready_cold (procs t j)"
    using I by (simp_all add: round_inv_def)
  show ?thesis
  proof (cases b)
    case True
    have R: "held (run k u) = held u" "kst.more (run k u) = kst.more t @ [k]"
        "\<And>j. p_heat_level (procs u j) < 4 \<Longrightarrow> p_heat_level (procs (run k u) j) < 4"
        "\<And>j. j \<noteq> k \<Longrightarrow> ready_cold (procs u j) \<Longrightarrow> ready_cold (procs (run k u) j)"
      using run f(1) unfolding polite_def ready_cold_def by (blast, simp, blast, meson le_less_trans)
    have c: "if j < Suc k then j \<in> set (kst.more t @ [k]) else ready_cold (procs (run k u) j)"
      if "j < NPROC" "ready_cold (procs s j)" for j
    proof (cases "j < Suc k")
      case True
      then show ?thesis using J(4)[OF that] by (cases "j = k") simp_all
    next
      case False
      then show ?thesis using R(4)[of j] f(3) J(5)[OF that] by simp
    qed
    have "p_heat_level (procs (run k u) j) < 4" if "j < NPROC" for j using R(3)[of j] fl J(1) that by simp
    moreover have "sorted_wrt (<) (kst.more t @ [k])" "\<forall>j\<in>set (kst.more t @ [k]). j < Suc k"
      using J(2,3) by (auto simp: sorted_wrt_append)
    moreover have e: "held ((run k u)\<lparr>cur := None, held := {}\<rparr>) = {}"
        "kst.more ((run k u)\<lparr>cur := None, held := {}\<rparr>) = kst.more t @ [k]"
        "procs ((run k u)\<lparr>cur := None, held := {}\<rparr>) = procs (run k u)"
      using R(2) by simp_all
    ultimately have "round_inv s (Suc k) ((run k u)\<lparr>cur := None, held := {}\<rparr>)"
      unfolding round_inv_def e using c by blast
    then show ?thesis using v True R(1) f(2) by (simp add: runs_def kexec sched_return_def)
  next
    case False
    have c: "if j < Suc k then j \<in> set (kst.more t) else ready_cold (procs u j)"
      if "j < NPROC" "ready_cold (procs s j)" for j
      using J(4,5)[OF that] rc False f(3) by (cases "j = k"; cases "j < k") simp_all
    have "\<forall>j\<in>set (kst.more t). j < Suc k" using J(3) less_SucI by blast
    then have "round_inv s (Suc k) u"
      unfolding round_inv_def f(1,2) fl using c J(1,2) False by simp
    then show ?thesis using v False by (simp add: runs_def kexec)
  qed
qed

text \<open>C17: a round of \<open>scheduler()\<close> is fair to processes that are not too hot. Whatever the processes do
  while they run (as long as they return the lock they were given), one pass over the table
  completes and runs every process that was ready at its start with a heat below 1520, in table
  order and each at most once.\<close>

theorem scheduler_round_fair:
  assumes run: "polite run" and start: "held s = {}" "kst.more s = []" "\<forall>j<NPROC. p_heat_level (procs s j) < 4"
  shows "\<exists>t. scheduler_round run s = Done () t \<and> held t = {}
    \<and> {j. j < NPROC \<and> p_state (procs s j) = RUNNABLE \<and> p_cpu_heat (procs s j) < 1520} \<subseteq> set (kst.more t)
    \<and> sorted_wrt (<) (kst.more t) \<and> set (kst.more t) \<subseteq> {..<NPROC}"
proof -
  let ?s = "s\<lparr>intr := True\<rparr>"
  define u where "u = (if ticks s mod 10 = 0
    then ?s\<lparr>procs := \<lambda>i. if i < NPROC then cooled (procs s i) else procs s i\<rparr> else ?s)"
  have h: "kwhen (ticks s mod 10 = 0) update_heat ?s = Done () u"
    using update_heat_exec[of ?s] start(1) by (simp add: u_def kexec cong: if_cong)
  have "round_inv s 0 u"
    using start ready_cold_cooled by (auto simp: round_inv_def u_def cooled_def)
  then have "runs (kfor [0..<NPROC] (\<lambda>i. kbind (sched_visit (ticks s) i) (\<lambda>b. kwhen b (kthen (kmod (run i)) (sched_return i))))) u
      (\<lambda>_ t. round_inv s NPROC t)"
    by (intro runs_kfor_upt round_step[OF run])
  then obtain t where t: "kfor [0..<NPROC] (\<lambda>i. kbind (sched_visit (ticks s) i) (\<lambda>b. kwhen b (kthen (kmod (run i)) (sched_return i)))) u = Done () t"
    and I: "round_inv s NPROC t" by (auto simp: runs_iff)
  have e: "?s\<lparr>held := {}\<rparr> = ?s" using start(1) by simp
  have "scheduler_round run s = Done () t"
    using h t start(1) by (auto simp: scheduler_round_def kexec e split: if_splits)
  then show ?thesis using I by (auto simp: round_inv_def ready_cold_def)
qed

definition ex_run :: "nat \<Rightarrow> (nat list) kst_scheme \<Rightarrow> (nat list) kst_scheme" where
  "ex_run i s = s\<lparr>procs := (procs s)(i := (procs s i)\<lparr>p_state := SLEEPING\<rparr>), kst.more := kst.more s @ [i]\<rparr>"

theorem scheduler_round_fair_witness:
  "\<exists>t. scheduler_round ex_run (kst.extend (boot_kst\<lparr>procs := (\<lambda>_. zero_proc)(3 := zero_proc\<lparr>p_state := RUNNABLE\<rparr>)\<rparr>) []) = Done () t
     \<and> 3 \<in> set (kst.more t)"
proof -
  let ?s = "kst.extend (boot_kst\<lparr>procs := (\<lambda>_. zero_proc)(3 := zero_proc\<lparr>p_state := RUNNABLE\<rparr>)\<rparr>) ([] :: nat list)"
  have "polite ex_run" by (simp add: polite_def ex_run_def)
  moreover have "held ?s = {}" "kst.more ?s = []" "\<forall>j<NPROC. p_heat_level (procs ?s j) < 4"
    by (simp_all add: kst.defs boot_kst_def zero_proc_def)
  moreover have "3 \<in> {j. j < NPROC \<and> p_state (procs ?s j) = RUNNABLE \<and> p_cpu_heat (procs ?s j) < 1520}"
    by (simp add: kst.defs boot_kst_def zero_proc_def NPROC_def)
  ultimately show ?thesis using scheduler_round_fair[of ex_run ?s] by blast
qed

end
