(* ===== verification/Sleepwake.thy ===== *)
theory Sleepwake
  imports Sched
begin

text \<open>
  Why no wakeup is lost: the interleaving of \<open>sleep\<close> and \<open>wakeup\<close> (kernel/proc.c) on several harts. One
  process runs a wait loop \<open>acquire(lk); while(!cond) sleep(ch, lk)\<close>; any number of other
  threads run \<open>acquire(lk); cond = 1; wakeup(ch); release(lk)\<close> or make the condition false again; the
  scheduler runs the process when it is runnable, and \<open>kill\<close> may wake it at any time. A step is one
  lock operation together with the assignments that the lock protects; the program counters name
  the lines of the two functions. The scheduler, which holds \<open>p->lock\<close> over the switch, is the \<open>SW_switch\<close>
  and \<open>SW_back\<close> part of the waiting process.
\<close>

datatype thread = Waiter | Waker nat | Other

datatype wait_pc =
    SW_out      \<comment> \<open>outside the critical section\<close>
  | SW_test     \<comment> \<open>holds lk, about to test the condition\<close>
  | SW_call     \<comment> \<open>in sleep(), about to acquire p->lock\<close>
  | SW_locked   \<comment> \<open>holds p->lock and lk, about to release lk\<close>
  | SW_mark     \<comment> \<open>holds p->lock, about to set chan and state\<close>
  | SW_sched    \<comment> \<open>marked SLEEPING, about to call sched()\<close>
  | SW_switch   \<comment> \<open>on the scheduler's stack, about to release p->lock\<close>
  | SW_off      \<comment> \<open>switched out\<close>
  | SW_back     \<comment> \<open>switched in again, holds p->lock\<close>
  | SW_retake   \<comment> \<open>released p->lock, about to reacquire lk\<close>

datatype wake_pc =
    SK_out      \<comment> \<open>outside the critical section\<close>
  | SK_in       \<comment> \<open>holds lk\<close>
  | SK_set      \<comment> \<open>made the condition true, about to call wakeup(ch)\<close>
  | SK_visit    \<comment> \<open>in wakeup(), holds p->lock of the waiting process\<close>
  | SK_done     \<comment> \<open>wakeup() is past the process\<close>

record swst =
  lk_owner :: "thread option"
  pl_owner :: "thread option"
  wp :: proc
  cond :: bool
  wait_at :: wait_pc
  wake_at :: "nat \<Rightarrow> wake_pc"

definition sw_init :: "swst \<Rightarrow> bool" where
  "sw_init s \<longleftrightarrow> lk_owner s = None \<and> pl_owner s = None \<and> p_state (wp s) = RUNNING \<and> wait_at s = SW_out
     \<and> wake_at s = (\<lambda>_. SK_out)"

inductive sw_step :: "chan \<Rightarrow> swst \<Rightarrow> swst \<Rightarrow> bool" for ch where
  enter: "wait_at s = SW_out \<Longrightarrow> lk_owner s = None \<Longrightarrow>
    sw_step ch s (s\<lparr>lk_owner := Some Waiter, wait_at := SW_test\<rparr>)"
| retake: "wait_at s = SW_retake \<Longrightarrow> lk_owner s = None \<Longrightarrow>
    sw_step ch s (s\<lparr>lk_owner := Some Waiter, wait_at := SW_test\<rparr>)"
| proceed: "wait_at s = SW_test \<Longrightarrow> cond s \<Longrightarrow> sw_step ch s (s\<lparr>lk_owner := None, cond := c, wait_at := SW_out\<rparr>)"
| call: "wait_at s = SW_test \<Longrightarrow> \<not> cond s \<Longrightarrow> sw_step ch s (s\<lparr>wait_at := SW_call\<rparr>)"
| lockp: "wait_at s = SW_call \<Longrightarrow> pl_owner s = None \<Longrightarrow>
    sw_step ch s (s\<lparr>pl_owner := Some Waiter, wait_at := SW_locked\<rparr>)"
| unlock: "wait_at s = SW_locked \<Longrightarrow> sw_step ch s (s\<lparr>lk_owner := None, wait_at := SW_mark\<rparr>)"
| mark: "wait_at s = SW_mark \<Longrightarrow> sw_step ch s (s\<lparr>wp := sleep_mark ch (wp s), wait_at := SW_sched\<rparr>)"
| switch: "wait_at s = SW_sched \<Longrightarrow> sw_step ch s (s\<lparr>wait_at := SW_switch\<rparr>)"
| off: "wait_at s = SW_switch \<Longrightarrow> sw_step ch s (s\<lparr>pl_owner := None, wait_at := SW_off\<rparr>)"
| run: "wait_at s = SW_off \<Longrightarrow> pl_owner s = None \<Longrightarrow> p_state (wp s) = RUNNABLE \<Longrightarrow>
    sw_step ch s (s\<lparr>pl_owner := Some Waiter, wp := (wp s)\<lparr>p_state := RUNNING\<rparr>, wait_at := SW_back\<rparr>)"
| resume: "wait_at s = SW_back \<Longrightarrow>
    sw_step ch s (s\<lparr>pl_owner := None, wp := (wp s)\<lparr>p_chan := None\<rparr>, wait_at := SW_retake\<rparr>)"
| kin: "wake_at s k = SK_out \<Longrightarrow> lk_owner s = None \<Longrightarrow>
    sw_step ch s (s\<lparr>lk_owner := Some (Waker k), wake_at := (wake_at s)(k := SK_in)\<rparr>)"
| kclear: "wake_at s k = SK_in \<Longrightarrow> sw_step ch s (s\<lparr>cond := False\<rparr>)"
| kset: "wake_at s k = SK_in \<Longrightarrow> sw_step ch s (s\<lparr>cond := True, wake_at := (wake_at s)(k := SK_set)\<rparr>)"
| kvisit: "wake_at s k = SK_set \<Longrightarrow> pl_owner s = None \<Longrightarrow>
    sw_step ch s (s\<lparr>pl_owner := Some (Waker k), wake_at := (wake_at s)(k := SK_visit)\<rparr>)"
| kwake: "wake_at s k = SK_visit \<Longrightarrow>
    sw_step ch s (s\<lparr>wp := woken ch (wp s), pl_owner := None, wake_at := (wake_at s)(k := SK_done)\<rparr>)"
| kout: "wake_at s k = SK_in \<or> wake_at s k = SK_done \<Longrightarrow>
    sw_step ch s (s\<lparr>lk_owner := None, wake_at := (wake_at s)(k := SK_out)\<rparr>)"
| other: "lk_owner s = None \<Longrightarrow> sw_step ch s (s\<lparr>lk_owner := Some Other\<rparr>)"
| other_out: "lk_owner s = Some Other \<Longrightarrow> sw_step ch s (s\<lparr>lk_owner := None\<rparr>)"
| kill: "pl_owner s = None \<Longrightarrow> p_state (wp s) = SLEEPING \<Longrightarrow>
    sw_step ch s (s\<lparr>wp := (wp s)\<lparr>p_state := RUNNABLE, p_killed := True\<rparr>\<rparr>)"

inductive_cases sw_stepE: "sw_step ch s t"

text \<open>The invariant: who holds which lock at which line, and that a process that is on its way to sleep,
  or asleep, while the condition holds still has a waker ahead of it.\<close>

definition going_to_sleep :: "swst \<Rightarrow> bool" where
  "going_to_sleep s \<longleftrightarrow> wait_at s \<in> {SW_mark, SW_sched, SW_switch} \<or> p_state (wp s) = SLEEPING"

definition sw_inv :: "chan \<Rightarrow> swst \<Rightarrow> bool" where
  "sw_inv ch s \<longleftrightarrow>
     (lk_owner s = Some Waiter \<longleftrightarrow> wait_at s \<in> {SW_test, SW_call, SW_locked})
   \<and> (pl_owner s = Some Waiter \<longleftrightarrow> wait_at s \<in> {SW_locked, SW_mark, SW_sched, SW_switch, SW_back})
   \<and> (\<forall>k. lk_owner s = Some (Waker k) \<longleftrightarrow> wake_at s k \<noteq> SK_out)
   \<and> (\<forall>k. pl_owner s = Some (Waker k) \<longleftrightarrow> wake_at s k = SK_visit)
   \<and> (wait_at s \<in> {SW_call, SW_locked} \<longrightarrow> \<not> cond s)
   \<and> (p_state (wp s) = SLEEPING \<longrightarrow> p_chan (wp s) = Some ch \<and> wait_at s \<in> {SW_sched, SW_switch, SW_off})
   \<and> (wait_at s \<in> {SW_sched, SW_switch} \<longrightarrow> p_state (wp s) = SLEEPING)
   \<and> (going_to_sleep s \<longrightarrow> cond s \<longrightarrow> (\<exists>k. wake_at s k \<in> {SK_set, SK_visit}))"

lemma sw_init_inv: "sw_init s \<Longrightarrow> sw_inv ch s"
  by (simp add: sw_init_def sw_inv_def going_to_sleep_def)

lemma sw_invD:
  assumes "sw_inv ch s"
  shows "lk_owner s = Some Waiter \<longleftrightarrow> wait_at s \<in> {SW_test, SW_call, SW_locked}"
    "pl_owner s = Some Waiter \<longleftrightarrow> wait_at s \<in> {SW_locked, SW_mark, SW_sched, SW_switch, SW_back}"
    "lk_owner s = Some (Waker k) \<longleftrightarrow> wake_at s k \<noteq> SK_out"
    "pl_owner s = Some (Waker k) \<longleftrightarrow> wake_at s k = SK_visit"
    "wait_at s \<in> {SW_call, SW_locked} \<longrightarrow> \<not> cond s"
    "p_state (wp s) = SLEEPING \<longrightarrow> p_chan (wp s) = Some ch \<and> wait_at s \<in> {SW_sched, SW_switch, SW_off}"
    "wait_at s \<in> {SW_sched, SW_switch} \<longrightarrow> p_state (wp s) = SLEEPING"
    "going_to_sleep s \<longrightarrow> cond s \<longrightarrow> (\<exists>k. wake_at s k \<in> {SK_set, SK_visit})"
  using assms by (simp_all add: sw_inv_def)

lemma waker_owns:
  assumes i: "sw_inv ch s" and k: "wake_at s k \<noteq> SK_out"
  shows "lk_owner s = Some (Waker k)" "wait_at s \<notin> {SW_test, SW_call, SW_locked}" "j \<noteq> k \<Longrightarrow> wake_at s j = SK_out"
  using sw_invD(1)[OF i] sw_invD(3)[OF i, of k] sw_invD(3)[OF i, of j] k by simp_all

lemma sw_inv_kwake:
  assumes i: "sw_inv ch s" and k: "wake_at s k = SK_visit"
  shows "sw_inv ch (s\<lparr>wp := woken ch (wp s), pl_owner := None, wake_at := (wake_at s)(k := SK_done)\<rparr>)"
proof -
  note D = sw_invD[OF i] and O = waker_owns[OF i, of k]
  have w: "wait_at s \<notin> {SW_locked, SW_mark, SW_sched, SW_switch, SW_back}" using D(2) D(4)[of k] k by simp
  have a: "p_state (woken ch (wp s)) \<noteq> SLEEPING" using D(6) by (auto simp: woken_def)
  show ?thesis unfolding sw_inv_def going_to_sleep_def using w a O k by simp
qed

lemma sw_inv_kset:
  assumes i: "sw_inv ch s" and k: "wake_at s k = SK_in"
  shows "sw_inv ch (s\<lparr>cond := True, wake_at := (wake_at s)(k := SK_set)\<rparr>)"
proof -
  note D = sw_invD[OF i] and O = waker_owns[OF i, of k]
  have "pl_owner s \<noteq> Some (Waker j)" for j using D(4)[of j] O(3)[of j] k by (cases "j = k") simp_all
  moreover have "wake_at s j \<noteq> SK_visit" for j using O(3)[of j] k by (cases "j = k") simp_all
  ultimately show ?thesis unfolding sw_inv_def using D O k by auto
qed

lemma sw_inv_kvisit:
  assumes i: "sw_inv ch s" and k: "wake_at s k = SK_set" and p: "pl_owner s = None"
  shows "sw_inv ch (s\<lparr>pl_owner := Some (Waker k), wake_at := (wake_at s)(k := SK_visit)\<rparr>)"
proof -
  note D = sw_invD[OF i] and O = waker_owns[OF i, of k]
  have w: "wait_at s \<notin> {SW_locked, SW_mark, SW_sched, SW_switch, SW_back}" using D(2) p by simp
  have e: "\<exists>j. ((wake_at s)(k := SK_visit)) j \<in> {SK_set, SK_visit}" by (rule exI[of _ k]) simp
  show ?thesis unfolding sw_inv_def using w D(6) O k e by simp
qed

lemma sw_inv_kout:
  assumes i: "sw_inv ch s" and k: "wake_at s k = SK_in \<or> wake_at s k = SK_done"
  shows "sw_inv ch (s\<lparr>lk_owner := None, wake_at := (wake_at s)(k := SK_out)\<rparr>)"
proof -
  note D = sw_invD[OF i]
  have O: "lk_owner s = Some (Waker k)" "wait_at s \<notin> {SW_test, SW_call, SW_locked}"
      "\<And>j. j \<noteq> k \<Longrightarrow> wake_at s j = SK_out" using waker_owns[OF i, of k] k by auto
  have n: "wake_at s j \<notin> {SK_set, SK_visit}" for j using O(3)[of j] k by (cases "j = k") auto
  then have g: "going_to_sleep s \<Longrightarrow> \<not> cond s" using D(8) by blast
  have v: "pl_owner s \<noteq> Some (Waker j)" for j using D(4)[of j] n[of j] by simp
  show ?thesis unfolding sw_inv_def using D(2,6,7) O v g by (auto simp: going_to_sleep_def)
qed

lemma sw_inv_step:
  assumes "sw_step ch s t" and "sw_inv ch s"
  shows "sw_inv ch t"
  using assms(1) sw_invD[OF assms(2)]
proof (cases rule: sw_step.cases)
  case (kwake k)
  show ?thesis unfolding kwake(1) by (rule sw_inv_kwake[OF assms(2) kwake(2)])
next
  case (kset k)
  show ?thesis unfolding kset(1) by (rule sw_inv_kset[OF assms(2) kset(2)])
next
next
  case (kvisit k)
  show ?thesis unfolding kvisit(1) by (rule sw_inv_kvisit[OF assms(2) kvisit(2,3)])
next
  case (kout k)
  show ?thesis unfolding kout(1) by (rule sw_inv_kout[OF assms(2) kout(2)])
qed (unfold sw_inv_def going_to_sleep_def, (intro conjI allI impI, simp_all add: sleep_mark_def going_to_sleep_def)+)

interpretation sleepwake: invariant_system sw_init "sw_step ch" "sw_inv ch" for ch
  by unfold_locales (auto intro: sw_init_inv sw_inv_step)

text \<open>C16: no wakeup is lost. In every state that the waiting process, any number of wakers, the scheduler and
  \<open>kill\<close> can reach in any interleaving, a process that is asleep (or already past releasing the
  condition's lock on its way to sleep) while the condition holds has a waker that has made the
  condition true and has not yet visited it; so once \<open>wakeup\<close> has passed, it is not left asleep.\<close>

theorem no_lost_wakeup:
  assumes "sw_init s0" and "(sw_step ch)\<^sup>*\<^sup>* s0 s" and "cond s"
    and "p_state (wp s) = SLEEPING \<or> wait_at s \<in> {SW_mark, SW_sched, SW_switch}"
  shows "\<exists>k. wake_at s k \<in> {SK_set, SK_visit} \<and> lk_owner s = Some (Waker k)"
proof -
  have i: "sw_inv ch s" by (rule sleepwake.reachable_inv[OF assms(1,2)])
  have "going_to_sleep s" using assms(4) by (auto simp: going_to_sleep_def)
  then obtain k where k: "wake_at s k \<in> {SK_set, SK_visit}" using sw_invD(8)[OF i] assms(3) by blast
  then have "wake_at s k \<noteq> SK_out" by auto
  from waker_owns(1)[OF i this] k show ?thesis by blast
qed

definition ex_sw :: swst where
  "ex_sw = \<lparr>lk_owner = None, pl_owner = None, wp = zero_proc\<lparr>p_state := RUNNING\<rparr>, cond = False, wait_at = SW_out,
     wake_at = (\<lambda>_. SK_out)\<rparr>"

lemma ex_sw_run: "\<exists>s. (sw_step ChTicks)\<^sup>*\<^sup>* ex_sw s \<and> p_state (wp s) = SLEEPING \<and> cond s"
  apply (intro exI conjI)
    apply (rule converse_rtranclp_into_rtranclp, rule sw_step.enter, simp add: ex_sw_def, simp add: ex_sw_def)
    apply (rule converse_rtranclp_into_rtranclp, rule sw_step.call, simp, simp add: ex_sw_def)
    apply (rule converse_rtranclp_into_rtranclp, rule sw_step.lockp, simp, simp add: ex_sw_def)
    apply (rule converse_rtranclp_into_rtranclp, rule sw_step.unlock, simp)
    apply (rule converse_rtranclp_into_rtranclp, rule sw_step.mark, simp)
    apply (rule converse_rtranclp_into_rtranclp, rule sw_step.switch, simp)
    apply (rule converse_rtranclp_into_rtranclp, rule sw_step.off, simp)
    apply (rule converse_rtranclp_into_rtranclp, rule sw_step.kin[where k = 0], simp add: ex_sw_def, simp)
    apply (rule converse_rtranclp_into_rtranclp, rule sw_step.kset[where k = 0], simp)
    apply (rule rtranclp.rtrancl_refl)
   apply (simp_all add: sleep_mark_def)
  done

theorem no_lost_wakeup_witness:
  "\<exists>s k. (sw_step ChTicks)\<^sup>*\<^sup>* ex_sw s \<and> p_state (wp s) = SLEEPING \<and> wake_at s k \<in> {SK_set, SK_visit}"
proof -
  obtain s where s: "(sw_step ChTicks)\<^sup>*\<^sup>* ex_sw s" "p_state (wp s) = SLEEPING" "cond s" using ex_sw_run by blast
  have "sw_init ex_sw" by (simp add: sw_init_def ex_sw_def)
  from no_lost_wakeup[OF this s(1,3)] s show ?thesis by blast
qed

end
