(* ===== verification/Bio.thy ===== *)
theory Bio
  imports Sched Kalloc
begin

text \<open>
  Sleep locks (kernel/sleeplock.c), disk blocks, and the buffer cache (kernel/bio.c).

  A block is the array \<open>uchar data[BSIZE]\<close>, a function of the offset. \<open>disk\<close> is the content of the disk and
  \<open>wtrace\<close>, a ghost field, the sequence of block writes that have reached it. \<open>virtio_disk_rw\<close> is the effect of
  a completed request. The LRU list, which the code threads through \<open>prev\<close>/\<open>next\<close> with \<open>bcache.head\<close> as
  sentinel, is the list of buffer indices from \<open>head.next\<close> to \<open>head.prev\<close>.

  The theorems show that the cache is transparent: with the invariant \<open>bc_inv\<close>, \<open>bread\<close> returns
  what was last written to the block, through the cache or not, and reading, releasing, pinning and
  recycling buffers never change what any block reads as.
\<close>

subsection \<open>Blocks as arrays of little-endian integers\<close>

type_synonym block = "nat \<Rightarrow> byte"

definition BSIZE :: nat where "BSIZE = 1024"

definition bload32 :: "block \<Rightarrow> nat \<Rightarrow> uint" where
  "bload32 d k = ucast (d k) OR push_bit 8 (ucast (d (k + 1))) OR push_bit 16 (ucast (d (k + 2)))
     OR push_bit 24 (ucast (d (k + 3)))"

definition bstore32 :: "block \<Rightarrow> nat \<Rightarrow> uint \<Rightarrow> block" where
  "bstore32 d k v = d(k := ucast v, k + 1 := ucast (drop_bit 8 v), k + 2 := ucast (drop_bit 16 v),
     k + 3 := ucast (drop_bit 24 v))"

definition bload16 :: "block \<Rightarrow> nat \<Rightarrow> ushort" where
  "bload16 d k = ucast (d k) OR push_bit 8 (ucast (d (k + 1)))"

definition bstore16 :: "block \<Rightarrow> nat \<Rightarrow> ushort \<Rightarrow> block" where
  "bstore16 d k v = d(k := ucast v, k + 1 := ucast (drop_bit 8 v))"

subsection \<open>struct sleeplock, struct buf, struct bcache\<close>

record sleeplock =
  sl_locked :: bool
  sl_pid :: uint

record buf =
  b_valid :: bool
  b_disk :: bool
  b_dev :: uint
  b_blockno :: uint
  b_refcnt :: uint
  b_data :: block

record bst = mst +
  slocks :: "sleeplockid \<Rightarrow> sleeplock"
  disk :: "nat \<Rightarrow> block"
  wtrace :: "(nat \<times> block) list"
  bufs :: "nat \<Rightarrow> buf"
  lru :: "nat list"

subsection \<open>sleeplock.c\<close>

definition set_slock :: "sleeplockid \<Rightarrow> sleeplock \<Rightarrow> ('a bst_scheme, unit) K" where
  "set_slock lk v = kmod (\<lambda>s. s\<lparr>slocks := (slocks s)(lk := v)\<rparr>)"

definition initsleeplock :: "sleeplockid \<Rightarrow> ('a bst_scheme, unit) K" where
  "initsleeplock lk = set_slock lk \<lparr>sl_locked = False, sl_pid = 0\<rparr>"

text \<open>One attempt of \<open>acquiresleep\<close>: it takes the lock, or goes to sleep and tries again when it is woken.\<close>

definition acquiresleep :: "sleeplockid \<Rightarrow> ('a bst_scheme, unit) K" where
  "acquiresleep lk =
     kthen (acquire (SLEEP_LK lk))
    (kbind (kget (\<lambda>s. sl_locked (slocks s lk))) (\<lambda>locked.
     if locked then sleep (ChSleep lk) (SLEEP_LK lk)
     else kbind curproc (\<lambda>p. kbind (kget (\<lambda>s. p_pid (procs s p))) (\<lambda>pid.
       kthen (set_slock lk \<lparr>sl_locked = True, sl_pid = pid\<rparr>)
       (release (SLEEP_LK lk))))))"

definition releasesleep :: "sleeplockid \<Rightarrow> ('a bst_scheme, unit) K" where
  "releasesleep lk =
     kthen (acquire (SLEEP_LK lk))
    (kthen (set_slock lk \<lparr>sl_locked = False, sl_pid = 0\<rparr>)
    (kthen (wakeup (ChSleep lk))
     (release (SLEEP_LK lk))))"

definition holdingsleep :: "sleeplockid \<Rightarrow> ('a bst_scheme, bool) K" where
  "holdingsleep lk =
     kthen (acquire (SLEEP_LK lk))
    (kbind (kget (\<lambda>s. slocks s lk)) (\<lambda>l. kbind curproc (\<lambda>p. kbind (kget (\<lambda>s. p_pid (procs s p))) (\<lambda>pid.
     kthen (release (SLEEP_LK lk))
     (kret (sl_locked l \<and> sl_pid l = pid))))))"

subsection \<open>bio.c\<close>

definition set_buf :: "nat \<Rightarrow> (buf \<Rightarrow> buf) \<Rightarrow> ('a bst_scheme, unit) K" where
  "set_buf i f = kmod (\<lambda>s. s\<lparr>bufs := (bufs s)(i := f (bufs s i))\<rparr>)"

definition virtio_disk_rw :: "nat \<Rightarrow> bool \<Rightarrow> ('a bst_scheme, unit) K" where
  "virtio_disk_rw i write = kmod (\<lambda>s. let b = bufs s i; n = unat (b_blockno b) in
     if write then s\<lparr>disk := (disk s)(n := b_data b), wtrace := wtrace s @ [(n, b_data b)]\<rparr>
     else s\<lparr>bufs := (bufs s)(i := b\<lparr>b_data := disk s n\<rparr>)\<rparr>)"

definition binit :: "('a bst_scheme, unit) K" where
  "binit =
     kthen (kmod (\<lambda>s. s\<lparr>lru := []\<rparr>))
     (kfor [0..<NBUF] (\<lambda>i.
        kthen (initsleeplock (BUF_SLEEP i)) (kmod (\<lambda>s. s\<lparr>lru := i # lru s\<rparr>))))"

definition bget :: "uint \<Rightarrow> uint \<Rightarrow> ('a bst_scheme, nat) K" where
  "bget dev blockno =
     kthen (acquire BCACHE_LOCK)
    (kbind (kget (\<lambda>s. List.find (\<lambda>i. b_dev (bufs s i) = dev \<and> b_blockno (bufs s i) = blockno) (lru s))) (\<lambda>r.
     case r of
       Some i \<Rightarrow>
         kthen (set_buf i (\<lambda>b. b\<lparr>b_refcnt := b_refcnt b + 1\<rparr>))
        (kthen (release BCACHE_LOCK)
        (kthen (acquiresleep (BUF_SLEEP i))
         (kret i)))
     | None \<Rightarrow>
         kbind (kget (\<lambda>s. List.find (\<lambda>i. b_refcnt (bufs s i) = 0) (rev (lru s)))) (\<lambda>r2.
         case r2 of
           Some i \<Rightarrow>
             kthen (set_buf i (\<lambda>b. b\<lparr>b_dev := dev, b_blockno := blockno, b_valid := False, b_refcnt := 1\<rparr>))
            (kthen (release BCACHE_LOCK)
            (kthen (acquiresleep (BUF_SLEEP i))
             (kret i)))
         | None \<Rightarrow> kpanic ''bget: no buffers'')))"

definition bread :: "uint \<Rightarrow> uint \<Rightarrow> ('a bst_scheme, nat) K" where
  "bread dev blockno =
     kbind (bget dev blockno) (\<lambda>i. kbind (kget (\<lambda>s. b_valid (bufs s i))) (\<lambda>v.
     kthen (kwhen (\<not> v) (kthen (virtio_disk_rw i False) (set_buf i (\<lambda>b. b\<lparr>b_valid := True\<rparr>))))
     (kret i)))"

definition bwrite :: "nat \<Rightarrow> ('a bst_scheme, unit) K" where
  "bwrite i = kbind (holdingsleep (BUF_SLEEP i)) (\<lambda>h.
     if \<not> h then kpanic ''bwrite'' else virtio_disk_rw i True)"

definition brelse :: "nat \<Rightarrow> ('a bst_scheme, unit) K" where
  "brelse i = kbind (holdingsleep (BUF_SLEEP i)) (\<lambda>h.
     if \<not> h then kpanic ''brelse''
     else kthen (releasesleep (BUF_SLEEP i))
         (kthen (acquire BCACHE_LOCK)
         (kthen (set_buf i (\<lambda>b. b\<lparr>b_refcnt := b_refcnt b - 1\<rparr>))
         (kbind (kget (\<lambda>s. b_refcnt (bufs s i))) (\<lambda>r.
          kthen (kwhen (r = 0) (kmod (\<lambda>s. s\<lparr>lru := i # remove1 i (lru s)\<rparr>)))
          (release BCACHE_LOCK))))))"

definition bpin :: "nat \<Rightarrow> ('a bst_scheme, unit) K" where
  "bpin i = kthen (acquire BCACHE_LOCK) (kthen (set_buf i (\<lambda>b. b\<lparr>b_refcnt := b_refcnt b + 1\<rparr>)) (release BCACHE_LOCK))"

definition bunpin :: "nat \<Rightarrow> ('a bst_scheme, unit) K" where
  "bunpin i = kthen (acquire BCACHE_LOCK) (kthen (set_buf i (\<lambda>b. b\<lparr>b_refcnt := b_refcnt b - 1\<rparr>)) (release BCACHE_LOCK))"

text \<open>Changing the data of a buffer, as its users do while they hold it.\<close>

definition set_data :: "nat \<Rightarrow> (block \<Rightarrow> block) \<Rightarrow> ('a bst_scheme, unit) K" where
  "set_data i f = set_buf i (\<lambda>b. b\<lparr>b_data := f (b_data b)\<rparr>)"

definition get_data :: "nat \<Rightarrow> ('a bst_scheme, block) K" where
  "get_data i = kget (\<lambda>s. b_data (bufs s i))"

subsection \<open>The cache as a map from block numbers\<close>

text \<open>\<open>buf_of\<close> finds the buffer of a block of the root device, \<open>view\<close> is what the block reads as,
  \<open>refs\<close> its reference count and \<open>owned\<close> its buffer and the pid of its owner if the buffer is locked.\<close>

definition buf_of :: "'a bst_scheme \<Rightarrow> nat \<Rightarrow> nat option" where
  "buf_of s n = List.find (\<lambda>i. b_dev (bufs s i) = ROOTDEV \<and> unat (b_blockno (bufs s i)) = n) (lru s)"

definition view :: "'a bst_scheme \<Rightarrow> nat \<Rightarrow> block" where
  "view s n = (case buf_of s n of Some i \<Rightarrow> if b_valid (bufs s i) then b_data (bufs s i) else disk s n | None \<Rightarrow> disk s n)"

definition refs :: "'a bst_scheme \<Rightarrow> nat \<Rightarrow> nat" where
  "refs s n = (case buf_of s n of Some i \<Rightarrow> unat (b_refcnt (bufs s i)) | None \<Rightarrow> 0)"

definition owned :: "'a bst_scheme \<Rightarrow> nat \<rightharpoonup> nat \<times> uint" where
  "owned s n = (case buf_of s n of
       Some i \<Rightarrow> let l = slocks s (BUF_SLEEP i) in if sl_locked l then Some (i, sl_pid l) else None
     | None \<Rightarrow> None)"

definition bc_inv :: "'a bst_scheme \<Rightarrow> bool" where
  "bc_inv s \<longleftrightarrow> distinct (lru s) \<and> set (lru s) = {..<NBUF}
     \<and> (\<forall>i<NBUF. \<forall>j<NBUF. b_dev (bufs s i) = ROOTDEV \<longrightarrow> b_dev (bufs s j) = ROOTDEV \<longrightarrow>
          b_blockno (bufs s i) = b_blockno (bufs s j) \<longrightarrow> i = j)
     \<and> (\<forall>i<NBUF. b_refcnt (bufs s i) = 0 \<longrightarrow> \<not> sl_locked (slocks s (BUF_SLEEP i)))
     \<and> (\<forall>i<NBUF. b_refcnt (bufs s i) = 0 \<longrightarrow> b_valid (bufs s i) \<longrightarrow> b_data (bufs s i) = disk s (unat (b_blockno (bufs s i))))
     \<and> (\<forall>i<NBUF. b_refcnt (bufs s i) \<noteq> 0 \<longrightarrow> b_valid (bufs s i))
     \<and> (\<forall>i<NBUF. b_valid (bufs s i) \<longrightarrow> b_dev (bufs s i) = ROOTDEV)"

lemma bc_invD:
  assumes "bc_inv s"
  shows "distinct (lru s)" "set (lru s) = {..<NBUF}"
    "i < NBUF \<Longrightarrow> j < NBUF \<Longrightarrow> b_dev (bufs s i) = ROOTDEV \<Longrightarrow> b_dev (bufs s j) = ROOTDEV \<Longrightarrow>
       b_blockno (bufs s i) = b_blockno (bufs s j) \<Longrightarrow> i = j"
    "i < NBUF \<Longrightarrow> b_refcnt (bufs s i) = 0 \<Longrightarrow> \<not> sl_locked (slocks s (BUF_SLEEP i))"
    "i < NBUF \<Longrightarrow> b_refcnt (bufs s i) = 0 \<Longrightarrow> b_valid (bufs s i) \<Longrightarrow> b_data (bufs s i) = disk s (unat (b_blockno (bufs s i)))"
    "i < NBUF \<Longrightarrow> b_refcnt (bufs s i) \<noteq> 0 \<Longrightarrow> b_valid (bufs s i)"
    "i < NBUF \<Longrightarrow> b_valid (bufs s i) \<Longrightarrow> b_dev (bufs s i) = ROOTDEV"
  using assms by (simp_all add: bc_inv_def)

lemma option_eqI: "(\<And>x. a = Some x \<longleftrightarrow> b = Some x) \<Longrightarrow> a = b"
  by (cases a; cases b) auto

lemma find_ex:
  assumes "x \<in> set xs" and "P x"
  shows "\<exists>y. List.find P xs = Some y \<and> y \<in> set xs \<and> P y"
proof (cases "List.find P xs")
  case None
  then show ?thesis using assms by (simp add: find_None_iff)
next
  case (Some y)
  then show ?thesis by (auto simp: find_Some_iff)
qed

lemma find_unique:
  assumes "\<And>x y. x \<in> set xs \<Longrightarrow> y \<in> set xs \<Longrightarrow> P x \<Longrightarrow> P y \<Longrightarrow> x = y"
  shows "List.find P xs = Some x \<longleftrightarrow> x \<in> set xs \<and> P x"
proof
  assume "x \<in> set xs \<and> P x"
  then obtain y where "List.find P xs = Some y" "y \<in> set xs" "P y" using find_ex[of x xs P] by blast
  then show "List.find P xs = Some x" using assms[of x y] \<open>x \<in> set xs \<and> P x\<close> by blast
qed (auto simp: find_Some_iff)

lemma buf_of_iff:
  assumes "bc_inv s"
  shows "buf_of s n = Some i \<longleftrightarrow> i < NBUF \<and> b_dev (bufs s i) = ROOTDEV \<and> unat (b_blockno (bufs s i)) = n"
proof -
  have "buf_of s n = Some i \<longleftrightarrow> i \<in> set (lru s) \<and> b_dev (bufs s i) = ROOTDEV \<and> unat (b_blockno (bufs s i)) = n"
    unfolding buf_of_def
    by (rule find_unique) (use bc_invD(2,3)[OF assms] in \<open>auto simp: word_unat_eq_iff\<close>)
  then show ?thesis using bc_invD(2)[OF assms] by simp
qed

lemma buf_of_word:
  assumes "bc_inv s"
  shows "List.find (\<lambda>i. b_dev (bufs s i) = ROOTDEV \<and> b_blockno (bufs s i) = w) (lru s) = buf_of s (unat w)"
  by (simp add: buf_of_def word_unat_eq_iff)

text \<open>What a client of the cache needs of the state of the kernel: it runs in a process, and holds no
  lock that the cache or \<open>wakeup\<close> takes.\<close>

definition bio_ok :: "'a kst_scheme \<Rightarrow> nat \<Rightarrow> bool" where
  "bio_ok s p \<longleftrightarrow> cur s = Some p \<and> BCACHE_LOCK \<notin> held s \<and> (\<forall>i. PROC_LOCK i \<notin> held s) \<and> (\<forall>l. SLEEP_LK l \<notin> held s)"

lemma acquiresleep_exec:
  assumes "bio_ok s p" and "\<not> sl_locked (slocks s lk)"
  shows "acquiresleep lk s = Done () (s\<lparr>slocks := (slocks s)(lk := \<lparr>sl_locked = True, sl_pid = p_pid (procs s p)\<rparr>)\<rparr>)"
  using assms by (simp add: acquiresleep_def kexec set_slock_def bio_ok_def)

lemma bget_cached:
  assumes i: "bc_inv s" and ok: "bio_ok s p" and b: "buf_of s (unat w) = Some i"
    and u: "\<not> sl_locked (slocks s (BUF_SLEEP i))"
  shows "bget ROOTDEV w s = Done i (s\<lparr>bufs := (bufs s)(i := (bufs s i)\<lparr>b_refcnt := b_refcnt (bufs s i) + 1\<rparr>),
    slocks := (slocks s)(BUF_SLEEP i := \<lparr>sl_locked = True, sl_pid = p_pid (procs s p)\<rparr>)\<rparr>)"
proof -
  let ?s = "s\<lparr>bufs := (bufs s)(i := (bufs s i)\<lparr>b_refcnt := b_refcnt (bufs s i) + 1\<rparr>)\<rparr>"
  have "acquiresleep (BUF_SLEEP i) ?s = Done () (?s\<lparr>slocks := (slocks ?s)(BUF_SLEEP i := \<lparr>sl_locked = True, sl_pid = p_pid (procs ?s p)\<rparr>)\<rparr>)"
    by (rule acquiresleep_exec) (use ok u in \<open>simp_all add: bio_ok_def\<close>)
  then show ?thesis
    using ok b buf_of_word[OF i, of w] by (simp add: bget_def kexec set_buf_def bio_ok_def)
qed

text \<open>A change of one buffer that keeps its identity, of its lock and of its disk block.\<close>

lemma bc_change:
  assumes i: "bc_inv s" and b: "buf_of s n = Some i"
    and t: "bufs t = (bufs s)(i := c)" "b_dev c = ROOTDEV" "unat (b_blockno c) = n"
      "slocks t = (slocks s)(BUF_SLEEP i := l)" "disk t = (disk s)(n := d)" "distinct (lru t)" "set (lru t) = {..<NBUF}"
    and c: "b_valid c" "b_refcnt c = 0 \<Longrightarrow> \<not> sl_locked l \<and> b_data c = d"
  shows "bc_inv t" "view t = (view s)(n := b_data c)" "refs t = (refs s)(n := unat (b_refcnt c))"
    "owned t = (owned s)(n := if sl_locked l then Some (i, sl_pid l) else None)" "buf_of t = buf_of s"
proof -
  note D = bc_invD[OF i]
  have iN: "i < NBUF" and bn: "b_dev (bufs s i) = ROOTDEV" "unat (b_blockno (bufs s i)) = n"
    using b buf_of_iff[OF i] by auto
  have same: "b_blockno c = b_blockno (bufs s i)" using bn t(3) by (simp add: word_unat_eq_iff)
  have other: "unat (b_blockno (bufs s j)) \<noteq> n" if "j < NBUF" "j \<noteq> i" "b_dev (bufs s j) = ROOTDEV" for j
    using D(3)[OF that(1) iN that(3) bn(1)] that(2) bn(2) by (auto simp: word_unat_eq_iff)
  have cl: "b_data (bufs s j) = disk t (unat (b_blockno (bufs s j)))"
    if "j < NBUF" "j \<noteq> i" "b_refcnt (bufs s j) = 0" "b_valid (bufs s j)" "b_dev (bufs s j) = ROOTDEV" for j
    using D(5)[OF that(1,3,4)] other[OF that(1,2,5)] t(5) by simp
  show it: "bc_inv t"
    unfolding bc_inv_def
  proof (intro conjI allI impI)
    fix j k assume j: "j < NBUF" "k < NBUF" "b_dev (bufs t j) = ROOTDEV" "b_dev (bufs t k) = ROOTDEV"
      "b_blockno (bufs t j) = b_blockno (bufs t k)"
    have e: "b_dev (bufs t x) = b_dev (bufs s x)" "b_blockno (bufs t x) = b_blockno (bufs s x)" for x
      using t(1,2) bn same by simp_all
    show "j = k" using D(3)[OF j(1,2)] j(3-5) unfolding e by blast
  next
    fix j assume j: "j < NBUF" "b_refcnt (bufs t j) = 0"
    then show "\<not> sl_locked (slocks t (BUF_SLEEP j))" using D(4)[OF j(1)] t(1,4) c(2) by (cases "j = i") simp_all
    assume "b_valid (bufs t j)"
    then show "b_data (bufs t j) = disk t (unat (b_blockno (bufs t j)))"
      using j cl[OF j(1)] D(7)[OF j(1)] t(1,3,5) c(2) by (cases "j = i") simp_all
  next
    fix j assume j: "j < NBUF"
    show "b_refcnt (bufs t j) \<noteq> 0 \<Longrightarrow> b_valid (bufs t j)" using D(6)[OF j] t(1) c(1) by (cases "j = i") simp_all
    show "b_valid (bufs t j) \<Longrightarrow> b_dev (bufs t j) = ROOTDEV" using D(7)[OF j] t(1,2) by (cases "j = i") simp_all
  qed (use t(6,7) in simp_all)
  show bo: "buf_of t = buf_of s"
  proof
    fix m show "buf_of t m = buf_of s m"
      by (rule option_eqI) (use t(1-3) bn in \<open>auto simp: buf_of_iff[OF it] buf_of_iff[OF i]\<close>)
  qed
  have ne: "j \<noteq> i" if "buf_of s m = Some j" "m \<noteq> n" for j m using that buf_of_iff[OF i] bn(2) by auto
  have v: "view t m = ((view s)(n := b_data c)) m" "refs t m = ((refs s)(n := unat (b_refcnt c))) m"
      "owned t m = ((owned s)(n := if sl_locked l then Some (i, sl_pid l) else None)) m" for m
    using b t(1,4,5) c(1) ne[of m]
    by (cases "m = n"; cases "buf_of s m"; simp add: view_def refs_def owned_def bo Let_def)+
  show "view t = (view s)(n := b_data c)" "refs t = (refs s)(n := unat (b_refcnt c))"
    "owned t = (owned s)(n := if sl_locked l then Some (i, sl_pid l) else None)" using v by blast+
qed

text \<open>Recycling a buffer that is not in use, for a block that is not cached.\<close>

lemma bc_recycle:
  assumes i: "bc_inv s" and b: "buf_of s n = None" and r: "i < NBUF" "b_refcnt (bufs s i) = 0"
    and t: "bufs t = (bufs s)(i := c)" "b_dev c = ROOTDEV" "unat (b_blockno c) = n"
      "slocks t = (slocks s)(BUF_SLEEP i := l)" "disk t = disk s" "lru t = lru s"
    and c: "b_valid c" "b_refcnt c \<noteq> 0" "b_data c = disk s n"
  shows "bc_inv t" "view t = view s" "refs t = (refs s)(n := unat (b_refcnt c))"
    "owned t = (owned s)(n := if sl_locked l then Some (i, sl_pid l) else None)"
proof -
  note D = bc_invD[OF i]
  have other: "unat (b_blockno (bufs s j)) \<noteq> n" if "j < NBUF" "b_dev (bufs s j) = ROOTDEV" for j
    using buf_of_iff[OF i, of n j] b that by simp
  show it: "bc_inv t"
    unfolding bc_inv_def
  proof (intro conjI allI impI)
    fix j k assume j: "j < NBUF" "k < NBUF" "b_dev (bufs t j) = ROOTDEV" "b_dev (bufs t k) = ROOTDEV"
      "b_blockno (bufs t j) = b_blockno (bufs t k)"
    then have u: "unat (b_blockno (bufs t j)) = unat (b_blockno (bufs t k))" by simp
    show "j = k" using D(3)[OF j(1,2)] j(3-5) u other[OF j(1)] other[OF j(2)] t(1,3)
      by (cases "j = i"; cases "k = i") simp_all
  next
    fix j assume j: "j < NBUF" "b_refcnt (bufs t j) = 0"
    then have "j \<noteq> i" using c(2) t(1) by auto
    then show "\<not> sl_locked (slocks t (BUF_SLEEP j))" "b_valid (bufs t j) \<Longrightarrow> b_data (bufs t j) = disk t (unat (b_blockno (bufs t j)))"
      using j D(4,5)[OF j(1)] t(1,4,5) by simp_all
  next
    fix j assume j: "j < NBUF"
    show "b_refcnt (bufs t j) \<noteq> 0 \<Longrightarrow> b_valid (bufs t j)" using D(6)[OF j] t(1) c(1) by (cases "j = i") simp_all
    show "b_valid (bufs t j) \<Longrightarrow> b_dev (bufs t j) = ROOTDEV" using D(7)[OF j] t(1,2) by (cases "j = i") simp_all
  qed (use t(6) D(1,2) in simp_all)
  have bo: "buf_of t m = (if m = n then Some i else if buf_of s m = Some i then None else buf_of s m)" for m
  proof (rule option_eqI)
    fix x
    have "buf_of t m = Some x \<longleftrightarrow> x = i \<and> m = n \<or> x \<noteq> i \<and> buf_of s m = Some x"
      using t(1-3) r(1) by (auto simp: buf_of_iff[OF it] buf_of_iff[OF i])
    then show "buf_of t m = Some x \<longleftrightarrow> (if m = n then Some i else if buf_of s m = Some i then None else buf_of s m) = Some x"
      using b by auto
  qed
  have cl: "view s m = disk s m" "refs s m = 0" "owned s m = None" if "buf_of s m = Some i" for m
    using that D(4,5)[OF r] r(2) buf_of_iff[OF i, of m i] by (auto simp: view_def refs_def owned_def)
  have v: "view t m = view s m" "refs t m = ((refs s)(n := unat (b_refcnt c))) m"
      "owned t m = ((owned s)(n := if sl_locked l then Some (i, sl_pid l) else None)) m" for m
  proof -
    consider "m = n" | "m \<noteq> n" "buf_of s m = Some i" | "m \<noteq> n" "buf_of s m \<noteq> Some i" by blast
    then show "view t m = view s m" "refs t m = ((refs s)(n := unat (b_refcnt c))) m"
      "owned t m = ((owned s)(n := if sl_locked l then Some (i, sl_pid l) else None)) m"
      by (cases; use b t(1,4,5) c cl[of m] in \<open>simp add: view_def refs_def owned_def bo Let_def split: option.split\<close>)+
  qed
  then show "view t = view s" "refs t = (refs s)(n := unat (b_refcnt c))"
    "owned t = (owned s)(n := if sl_locked l then Some (i, sl_pid l) else None)" by blast+
qed

lemma busy_bound:
  assumes i: "bc_inv s" and "card {n. refs s n \<noteq> 0} < NBUF"
  shows "\<exists>i<NBUF. b_refcnt (bufs s i) = 0"
proof (rule ccontr)
  assume a: "\<not> (\<exists>i<NBUF. b_refcnt (bufs s i) = 0)"
  note D = bc_invD[OF i]
  let ?f = "\<lambda>i. unat (b_blockno (bufs s i))"
  have root: "b_dev (bufs s j) = ROOTDEV" if "j < NBUF" for j using D(6,7)[OF that] a that by blast
  have "inj_on ?f {..<NBUF}"
    by (rule inj_onI) (use D(3) root in \<open>simp add: word_unat_eq_iff\<close>)
  moreover have "?f ` {..<NBUF} = {n. refs s n \<noteq> 0}"
  proof (intro equalityI subsetI)
    fix n assume "n \<in> ?f ` {..<NBUF}"
    then obtain j where j: "j < NBUF" "n = ?f j" by auto
    then have "buf_of s n = Some j" using buf_of_iff[OF i] root by simp
    moreover have "unat (b_refcnt (bufs s j)) \<noteq> 0" using a j(1) by (simp add: unat_eq_zero)
    ultimately show "n \<in> {n. refs s n \<noteq> 0}" by (simp add: refs_def)
  next
    fix n assume "n \<in> {n. refs s n \<noteq> 0}"
    then obtain j where "buf_of s n = Some j" by (auto simp: refs_def split: option.splits)
    then show "n \<in> ?f ` {..<NBUF}" using buf_of_iff[OF i] by auto
  qed
  ultimately have "card {n. refs s n \<noteq> 0} = NBUF" using card_image by fastforce
  then show False using assms(2) by simp
qed

text \<open>What a cache operation leaves alone: every field of the kernel state but the process table, in
  which sleeping processes may have become runnable, and everything built on the cache.\<close>

definition awake :: "(nat \<Rightarrow> proc) \<Rightarrow> (nat \<Rightarrow> proc) \<Rightarrow> bool" where
  "awake P Q \<longleftrightarrow> (\<forall>i. Q i = P i \<or> p_state (P i) = SLEEPING \<and> Q i = (P i)\<lparr>p_state := RUNNABLE\<rparr>)"

definition bframe :: "'a bst_scheme \<Rightarrow> 'a bst_scheme \<Rightarrow> bool" where
  "bframe s t \<longleftrightarrow> mst.truncate t = (mst.truncate s)\<lparr>procs := procs t\<rparr> \<and> awake (procs s) (procs t)
     \<and> (\<forall>p. cur s = Some p \<longrightarrow> procs t p = procs s p) \<and> bst.more t = bst.more s"

lemma awake_refl [simp]: "awake P P"
  by (simp add: awake_def)

lemma awake_trans: "awake P Q \<Longrightarrow> awake Q R \<Longrightarrow> awake P R"
  unfolding awake_def by (metis (no_types, lifting) proc.select_convs(1) proc.surjective proc.update_convs(1) procstate.distinct(17))

lemma bframe_refl: "bframe s s"
  by (simp add: bframe_def mst.defs)

lemma bframeD:
  assumes "bframe s t"
  shows "held t = held s" "cur t = cur s" "mem t = mem s" "bst.more t = bst.more s" "ticks t = ticks s"
    "conout t = conout s" "pr_locking t = pr_locking s" "cur s = Some p \<Longrightarrow> procs t p = procs s p"
  using assms by (auto simp: bframe_def mst.defs)

lemma bframe_trans: "bframe s t \<Longrightarrow> bframe t u \<Longrightarrow> bframe s u"
  by (auto simp: bframe_def mst.defs intro: awake_trans)

lemma bio_ok_frame: "bframe s t \<Longrightarrow> bio_ok s p \<Longrightarrow> bio_ok t p"
  by (simp add: bio_ok_def bframeD)

definition bc_step :: "'a bst_scheme \<Rightarrow> 'a bst_scheme \<Rightarrow> (nat \<Rightarrow> block) \<Rightarrow> (nat \<Rightarrow> nat) \<Rightarrow> (nat \<rightharpoonup> nat \<times> uint) \<Rightarrow> bool" where
  "bc_step s t V N L \<longleftrightarrow> bframe s t \<and> bc_inv t \<and> view t = V \<and> refs t = N \<and> owned t = L"

lemma bc_change_step:
  assumes "bc_inv s" and "buf_of s n = Some i" and "bframe s t"
    and "bufs t = (bufs s)(i := c)" and "b_dev c = ROOTDEV" and "unat (b_blockno c) = n"
      and "slocks t = (slocks s)(BUF_SLEEP i := l)" and "disk t = (disk s)(n := d)" and "distinct (lru t)" and "set (lru t) = {..<NBUF}"
    and "b_valid c" and "b_refcnt c = 0 \<Longrightarrow> \<not> sl_locked l \<and> b_data c = d"
  shows "bc_step s t ((view s)(n := b_data c)) ((refs s)(n := unat (b_refcnt c)))
    ((owned s)(n := if sl_locked l then Some (i, sl_pid l) else None))"
  using bc_change(1-4)[OF assms(1,2,4-12)] assms(3) by (simp add: bc_step_def)

lemma bc_recycle_step:
  assumes "bc_inv s" and "buf_of s n = None" and "i < NBUF" and "b_refcnt (bufs s i) = 0" and "bframe s t"
    and "bufs t = (bufs s)(i := c)" and "b_dev c = ROOTDEV" and "unat (b_blockno c) = n"
      and "slocks t = (slocks s)(BUF_SLEEP i := l)" and "disk t = disk s" and "lru t = lru s"
    and "b_valid c" and "b_refcnt c \<noteq> 0" and "b_data c = disk s n"
  shows "bc_step s t (view s) ((refs s)(n := unat (b_refcnt c)))
    ((owned s)(n := if sl_locked l then Some (i, sl_pid l) else None))"
  using bc_recycle[OF assms(1-4,6-14)] assms(5) by (simp add: bc_step_def)

lemma bframe_upd [simp]: "bframe s (s\<lparr>bufs := B, slocks := S\<rparr>)" "bframe s (s\<lparr>slocks := S, bufs := B\<rparr>)"
  by (simp_all add: bframe_def mst.defs)

lemma owned_buf:
  assumes "bc_inv s" and "owned s n = Some (i, q)"
  shows "buf_of s n = Some i" "i < NBUF" "sl_locked (slocks s (BUF_SLEEP i))" "sl_pid (slocks s (BUF_SLEEP i)) = q"
    "b_refcnt (bufs s i) \<noteq> 0" "b_data (bufs s i) = view s n" "b_valid (bufs s i)" "unat (b_refcnt (bufs s i)) = refs s n"
    "b_dev (bufs s i) = ROOTDEV" "unat (b_blockno (bufs s i)) = n"
proof -
  show o: "buf_of s n = Some i" "sl_locked (slocks s (BUF_SLEEP i))" "sl_pid (slocks s (BUF_SLEEP i)) = q"
    using assms(2) by (auto simp: owned_def Let_def split: option.splits if_splits)
  then show b: "i < NBUF" "b_dev (bufs s i) = ROOTDEV" "unat (b_blockno (bufs s i)) = n"
    using buf_of_iff[OF assms(1)] by auto
  show r: "b_refcnt (bufs s i) \<noteq> 0" using bc_invD(4)[OF assms(1) b(1)] o(2) by blast
  show v: "b_valid (bufs s i)" using bc_invD(6)[OF assms(1) b(1) r] .
  show "b_data (bufs s i) = view s n" "unat (b_refcnt (bufs s i)) = refs s n"
    using o(1) v by (simp_all add: view_def refs_def)
qed

lemma bread_spec:
  assumes i: "bc_inv s" and ok: "bio_ok s p" and free: "owned s (unat w) = None"
    and room: "refs s (unat w) \<noteq> 0 \<or> card {n. refs s n \<noteq> 0} < NBUF" and small: "refs s (unat w) + 1 < 2 ^ 32"
  shows "\<exists>i t. bread ROOTDEV w s = Done i t \<and> bc_step s t (view s) ((refs s)(unat w := refs s (unat w) + 1))
      ((owned s)(unat w \<mapsto> (i, p_pid (procs s p)))) \<and> disk t = disk s \<and> wtrace t = wtrace s"
proof (cases "buf_of s (unat w)")
  case (Some i)
  let ?l = "\<lparr>sl_locked = True, sl_pid = p_pid (procs s p)\<rparr>" let ?b = "(bufs s i)\<lparr>b_refcnt := b_refcnt (bufs s i) + 1\<rparr>"
  have u: "\<not> sl_locked (slocks s (BUF_SLEEP i))" using free Some by (auto simp: owned_def Let_def split: if_splits)
  have b: "i < NBUF" "b_dev (bufs s i) = ROOTDEV" "unat (b_blockno (bufs s i)) = unat w"
    using Some buf_of_iff[OF assms(1)] by auto
  have r: "unat (b_refcnt (bufs s i) + 1) = refs s (unat w) + 1"
    using small Some by (simp add: refs_def unat_word_ariths)
  then have r0: "b_refcnt (bufs s i) + 1 \<noteq> 0" by auto
  show ?thesis
  proof (cases "b_valid (bufs s i)")
    case True
    let ?t = "s\<lparr>bufs := (bufs s)(i := ?b), slocks := (slocks s)(BUF_SLEEP i := ?l)\<rparr>"
    have "bread ROOTDEV w s = Done i ?t"
      using bget_cached[OF assms(1) ok Some u] True by (simp add: bread_def kexec)
    moreover have "bc_step s ?t ((view s)(unat w := b_data ?b)) ((refs s)(unat w := unat (b_refcnt ?b)))
        ((owned s)(unat w := if sl_locked ?l then Some (i, sl_pid ?l) else None))"
      by (rule bc_change_step[OF assms(1) Some, where d = "disk s (unat w)"])
        (use b True r0 bc_invD(1,2)[OF assms(1)] in simp_all)
    moreover have "view s (unat w) = b_data (bufs s i)" using Some True by (simp add: view_def)
    then have "(view s)(unat w := b_data ?b) = view s" by auto
    ultimately show ?thesis using r by (intro exI[of _ i] exI[of _ ?t]) simp
  next
    case False
    then have z: "b_refcnt (bufs s i) = 0" using bc_invD(6)[OF assms(1) b(1)] by blast
    let ?c = "?b\<lparr>b_data := disk s (unat w), b_valid := True\<rparr>"
    let ?t = "s\<lparr>bufs := (bufs s)(i := ?c), slocks := (slocks s)(BUF_SLEEP i := ?l)\<rparr>"
    have "bread ROOTDEV w s = Done i ?t"
      using bget_cached[OF assms(1) ok Some u] False b(3) by (simp add: bread_def kexec virtio_disk_rw_def set_buf_def Let_def)
    moreover have "bc_step s ?t ((view s)(unat w := b_data ?c)) ((refs s)(unat w := unat (b_refcnt ?c)))
        ((owned s)(unat w := if sl_locked ?l then Some (i, sl_pid ?l) else None))"
      by (rule bc_change_step[OF assms(1) Some, where d = "disk s (unat w)"])
        (use b r0 bc_invD(1,2)[OF assms(1)] in simp_all)
    moreover have "view s (unat w) = disk s (unat w)" using Some False by (simp add: view_def)
    then have "(view s)(unat w := b_data ?c) = view s" by auto
    ultimately show ?thesis using r by (intro exI[of _ i] exI[of _ ?t]) simp
  qed
next
  case None
  have z: "refs s (unat w) = 0" using None by (simp add: refs_def)
  obtain j where "j < NBUF" "b_refcnt (bufs s j) = 0" using busy_bound[OF i] room z by auto
  then obtain i where f: "List.find (\<lambda>i. b_refcnt (bufs s i) = 0) (rev (lru s)) = Some i" and iN: "i < NBUF" "b_refcnt (bufs s i) = 0"
    using find_ex[of j "rev (lru s)" "\<lambda>i. b_refcnt (bufs s i) = 0"] bc_invD(2)[OF assms(1)] by auto
  have u: "\<not> sl_locked (slocks s (BUF_SLEEP i))" using bc_invD(4)[OF assms(1) iN] .
  let ?l = "\<lparr>sl_locked = True, sl_pid = p_pid (procs s p)\<rparr>"
  let ?c = "(bufs s i)\<lparr>b_dev := ROOTDEV, b_blockno := w, b_refcnt := 1, b_data := disk s (unat w), b_valid := True\<rparr>"
  let ?t = "s\<lparr>slocks := (slocks s)(BUF_SLEEP i := ?l), bufs := (bufs s)(i := ?c)\<rparr>"
  let ?u = "s\<lparr>bufs := (bufs s)(i := (bufs s i)\<lparr>b_dev := ROOTDEV, b_blockno := w, b_valid := False, b_refcnt := 1\<rparr>)\<rparr>"
  have "acquiresleep (BUF_SLEEP i) ?u = Done () (?u\<lparr>slocks := (slocks ?u)(BUF_SLEEP i := \<lparr>sl_locked = True, sl_pid = p_pid (procs ?u p)\<rparr>)\<rparr>)"
    by (rule acquiresleep_exec) (use ok u in \<open>simp_all add: bio_ok_def\<close>)
  then have "bread ROOTDEV w s = Done i ?t"
    using ok f None buf_of_word[OF assms(1), of w]
    by (simp add: bread_def bget_def kexec set_buf_def bio_ok_def virtio_disk_rw_def Let_def)
  moreover have "bc_step s ?t (view s) ((refs s)(unat w := unat (b_refcnt ?c)))
      ((owned s)(unat w := if sl_locked ?l then Some (i, sl_pid ?l) else None))"
    by (rule bc_recycle_step[OF assms(1) None iN]) simp_all
  ultimately show ?thesis using z by (intro exI[of _ i] exI[of _ ?t]) simp
qed

lemma holdingsleep_exec:
  "bio_ok s p \<Longrightarrow> holdingsleep lk s = Done (sl_locked (slocks s lk) \<and> sl_pid (slocks s lk) = p_pid (procs s p)) s"
  by (simp add: holdingsleep_def kexec bio_ok_def)

definition wake_all :: "chan \<Rightarrow> 'a kst_scheme \<Rightarrow> 'a kst_scheme" where
  "wake_all ch s = s\<lparr>procs := \<lambda>i. if i < NPROC \<and> cur s \<noteq> Some i then woken ch (procs s i) else procs s i\<rparr>"

lemma wakeup_ok: "bio_ok s p \<Longrightarrow> wakeup ch s = Done () (wake_all ch s)"
  unfolding wake_all_def by (rule wakeup_exec) (simp add: bio_ok_def)

lemma bframe_wake: "bframe s (wake_all ch s)"
  by (auto simp: bframe_def wake_all_def mst.defs awake_def woken_def)

lemma releasesleep_exec:
  assumes "bio_ok s p"
  shows "releasesleep lk s = Done () ((wake_all (ChSleep lk) s)\<lparr>slocks := (slocks s)(lk := \<lparr>sl_locked = False, sl_pid = 0\<rparr>)\<rparr>)"
proof -
  let ?s = "s\<lparr>held := insert (SLEEP_LK lk) (held s), slocks := (slocks s)(lk := \<lparr>sl_locked = False, sl_pid = 0\<rparr>)\<rparr>"
  have "wakeup (ChSleep lk) ?s = Done () (wake_all (ChSleep lk) ?s)"
    unfolding wake_all_def by (rule wakeup_exec) (use assms in \<open>simp add: bio_ok_def\<close>)
  then show ?thesis
    using assms by (simp add: releasesleep_def kexec set_slock_def bio_ok_def wake_all_def cong: if_cong)
qed

lemma bwrite_spec:
  assumes i: "bc_inv s" and ok: "bio_ok s p" and o: "owned s n = Some (i, p_pid (procs s p))"
  shows "\<exists>t. bwrite i s = Done () t \<and> bc_step s t (view s) (refs s) (owned s)
    \<and> disk t = (disk s)(n := view s n) \<and> wtrace t = wtrace s @ [(n, view s n)]"
proof -
  note O = owned_buf[OF assms(1) o]
  let ?t = "s\<lparr>disk := (disk s)(n := view s n), wtrace := wtrace s @ [(n, view s n)]\<rparr>"
  have "bwrite i s = Done () ?t"
    using holdingsleep_exec[OF ok, of "BUF_SLEEP i"] O by (simp add: bwrite_def kexec virtio_disk_rw_def Let_def)
  moreover have "bc_step s ?t ((view s)(n := b_data (bufs s i))) ((refs s)(n := unat (b_refcnt (bufs s i))))
      ((owned s)(n := if sl_locked (slocks s (BUF_SLEEP i)) then Some (i, sl_pid (slocks s (BUF_SLEEP i))) else None))"
    by (rule bc_change_step[OF assms(1) O(1), where d = "view s n"])
      (use O bc_invD(1,2)[OF assms(1)] in \<open>simp_all add: bframe_def mst.defs\<close>)
  ultimately show ?thesis using O o by (intro exI[of _ ?t]) (simp add: fun_upd_idem)
qed

lemma set_data_spec:
  assumes i: "bc_inv s" and o: "owned s n = Some (i, q)"
  shows "\<exists>t. set_data i f s = Done () t \<and> bc_step s t ((view s)(n := f (view s n))) (refs s) (owned s)
    \<and> disk t = disk s \<and> wtrace t = wtrace s"
proof -
  note O = owned_buf[OF assms]
  let ?t = "s\<lparr>bufs := (bufs s)(i := (bufs s i)\<lparr>b_data := f (b_data (bufs s i))\<rparr>)\<rparr>"
  have "bc_step s ?t ((view s)(n := f (b_data (bufs s i)))) ((refs s)(n := unat (b_refcnt (bufs s i))))
      ((owned s)(n := if sl_locked (slocks s (BUF_SLEEP i)) then Some (i, sl_pid (slocks s (BUF_SLEEP i))) else None))"
    by (rule bc_change_step[OF assms(1) O(1), where d = "disk s n", where c = "(bufs s i)\<lparr>b_data := f (b_data (bufs s i))\<rparr>", simplified])
      (use O bc_invD(1,2)[OF assms(1)] in \<open>simp_all add: bframe_def mst.defs\<close>)
  then show ?thesis using O assms(2)
    by (intro exI[of _ ?t]) (simp add: set_data_def set_buf_def kexec fun_upd_idem)
qed

lemma get_data_exec: "bc_inv s \<Longrightarrow> owned s n = Some (i, q) \<Longrightarrow> get_data i s = Done (view s n) s"
  using owned_buf(6) by (fastforce simp: get_data_def kexec)

lemma bpin_spec:
  assumes i: "bc_inv s" and ok: "BCACHE_LOCK \<notin> held s" and o: "owned s n = Some (i, q)" and small: "refs s n + 1 < 2 ^ 32"
  shows "\<exists>t. bpin i s = Done () t \<and> bc_step s t (view s) ((refs s)(n := refs s n + 1)) (owned s)
    \<and> disk t = disk s \<and> wtrace t = wtrace s"
proof -
  note O = owned_buf[OF i o]
  let ?b = "(bufs s i)\<lparr>b_refcnt := b_refcnt (bufs s i) + 1\<rparr>"
  let ?t = "s\<lparr>bufs := (bufs s)(i := ?b)\<rparr>"
  have r: "unat (b_refcnt (bufs s i) + 1) = refs s n + 1" using small O(8) by (simp add: unat_word_ariths)
  then have "b_refcnt ?b \<noteq> 0" by auto
  then have "bc_step s ?t ((view s)(n := b_data ?b)) ((refs s)(n := unat (b_refcnt ?b)))
      ((owned s)(n := if sl_locked (slocks s (BUF_SLEEP i)) then Some (i, sl_pid (slocks s (BUF_SLEEP i))) else None))"
    by (intro bc_change_step[OF assms(1) O(1), where d = "disk s n"])
      (use O bc_invD(1,2)[OF assms(1)] in \<open>simp_all add: bframe_def mst.defs\<close>)
  then show ?thesis using O o ok r
    by (intro exI[of _ ?t]) (simp add: bpin_def set_buf_def kexec fun_upd_idem)
qed

lemma bunpin_spec:
  assumes i: "bc_inv s" and ok: "BCACHE_LOCK \<notin> held s" and o: "owned s n = Some (i, q)" and big: "1 < refs s n"
  shows "\<exists>t. bunpin i s = Done () t \<and> bc_step s t (view s) ((refs s)(n := refs s n - 1)) (owned s)
    \<and> disk t = disk s \<and> wtrace t = wtrace s"
proof -
  note O = owned_buf[OF i o]
  let ?b = "(bufs s i)\<lparr>b_refcnt := b_refcnt (bufs s i) - 1\<rparr>"
  let ?t = "s\<lparr>bufs := (bufs s)(i := ?b)\<rparr>"
  have r: "unat (b_refcnt (bufs s i) - 1) = refs s n - 1" using O(5,8) by (simp add: unat_minus_one)
  then have "b_refcnt ?b \<noteq> 0" using big by auto
  then have "bc_step s ?t ((view s)(n := b_data ?b)) ((refs s)(n := unat (b_refcnt ?b)))
      ((owned s)(n := if sl_locked (slocks s (BUF_SLEEP i)) then Some (i, sl_pid (slocks s (BUF_SLEEP i))) else None))"
    by (intro bc_change_step[OF assms(1) O(1), where d = "disk s n"])
      (use O bc_invD(1,2)[OF assms(1)] in \<open>simp_all add: bframe_def mst.defs\<close>)
  then show ?thesis using O o ok r
    by (intro exI[of _ ?t]) (simp add: bunpin_def set_buf_def kexec fun_upd_idem)
qed

lemma brelse_spec:
  assumes i: "bc_inv s" and ok: "bio_ok s p" and o: "owned s n = Some (i, p_pid (procs s p))"
    and clean: "refs s n = 1 \<Longrightarrow> view s n = disk s n"
  shows "\<exists>t. brelse i s = Done () t \<and> bc_step s t (view s) ((refs s)(n := refs s n - 1)) ((owned s)(n := None))
    \<and> disk t = disk s \<and> wtrace t = wtrace s"
proof -
  note O = owned_buf[OF i o]
  let ?b = "(bufs s i)\<lparr>b_refcnt := b_refcnt (bufs s i) - 1\<rparr>" let ?l = "\<lparr>sl_locked = False, sl_pid = 0\<rparr>"
  let ?w = "(wake_all (ChSleep (BUF_SLEEP i)) s)\<lparr>slocks := (slocks s)(BUF_SLEEP i := ?l)\<rparr>"
  let ?t = "?w\<lparr>bufs := (bufs s)(i := ?b), lru := (if b_refcnt ?b = 0 then i # remove1 i (lru s) else lru s)\<rparr>"
  have ow: "bio_ok ?w p" using ok by (simp add: bio_ok_def wake_all_def)
  have "brelse i s = Done () ?t"
    using holdingsleep_exec[OF ok, of "BUF_SLEEP i"] releasesleep_exec[OF ok, of "BUF_SLEEP i"] O ow
    by (auto simp: brelse_def kexec set_buf_def bio_ok_def wake_all_def)
  moreover have r: "unat (b_refcnt (bufs s i) - 1) = refs s n - 1" using O(5,8) by (simp add: unat_minus_one)
  moreover have l: "distinct (lru ?t)" "set (lru ?t) = {..<NBUF}"
    using bc_invD(1,2)[OF i] O(2) by auto
  moreover have c: "b_data ?b = disk s n" if "b_refcnt ?b = 0"
  proof -
    have "unat (b_refcnt (bufs s i) - 1) = 0" using that by simp
    then have "refs s n = 1" using r O(5,8) unat_eq_zero[of "b_refcnt (bufs s i)"] by simp
    then show ?thesis using clean O(6) by simp
  qed
  moreover have "bc_step s ?t ((view s)(n := b_data ?b)) ((refs s)(n := unat (b_refcnt ?b)))
      ((owned s)(n := if sl_locked ?l then Some (i, sl_pid ?l) else None))"
    by (rule bc_change_step[OF assms(1) O(1), where d = "disk s n"])
      (use O l c in \<open>simp_all add: bframe_def mst.defs wake_all_def awake_def woken_def\<close>)
  ultimately show ?thesis using O by (intro exI[of _ ?t]) (simp add: fun_upd_idem wake_all_def)
qed

subsection \<open>The cache implements a block device\<close>

text \<open>The contract of a device that stores blocks, and a client: a sequence of read and write requests.\<close>

datatype blk_req = ReadBlk uint | WriteBlk uint block

primrec blk_serve :: "(uint \<Rightarrow> ('s, block) K) \<Rightarrow> (uint \<Rightarrow> block \<Rightarrow> ('s, unit) K) \<Rightarrow> blk_req list \<Rightarrow> ('s, block list) K" where
  "blk_serve rd wr [] = kret []"
| "blk_serve rd wr (q # qs) = (case q of
     ReadBlk w \<Rightarrow> kbind (rd w) (\<lambda>d. kbind (blk_serve rd wr qs) (\<lambda>ds. kret (d # ds)))
   | WriteBlk w d \<Rightarrow> kthen (wr w d) (blk_serve rd wr qs))"

primrec replay :: "blk_req list \<Rightarrow> (nat \<Rightarrow> block) \<Rightarrow> block list \<times> (nat \<Rightarrow> block)" where
  "replay [] m = ([], m)"
| "replay (q # qs) m = (case q of
     ReadBlk w \<Rightarrow> (case replay qs m of (ds, m') \<Rightarrow> (m (unat w) # ds, m'))
   | WriteBlk w d \<Rightarrow> replay qs (m(unat w := d)))"

locale block_device =
  fixes inv :: "'s \<Rightarrow> bool" and content :: "'s \<Rightarrow> nat \<Rightarrow> block"
    and rd :: "uint \<Rightarrow> ('s, block) K" and wr :: "uint \<Rightarrow> block \<Rightarrow> ('s, unit) K"
  assumes rd_content: "inv s \<Longrightarrow> \<exists>t. rd w s = Done (content s (unat w)) t \<and> inv t \<and> content t = content s"
    and wr_content: "inv s \<Longrightarrow> \<exists>t. wr w d s = Done () t \<and> inv t \<and> content t = (content s)(unat w := d)"
begin

lemma serve_replay:
  "inv s \<Longrightarrow> \<exists>t. blk_serve rd wr qs s = Done (fst (replay qs (content s))) t \<and> inv t \<and> content t = snd (replay qs (content s))"
proof (induction qs arbitrary: s)
  case Nil
  then show ?case by (simp add: kexec)
next
  case (Cons q qs)
  show ?case
  proof (cases q)
    case (ReadBlk w)
    obtain t where t: "rd w s = Done (content s (unat w)) t" "inv t" "content t = content s" using rd_content[OF Cons.prems] by blast
    from Cons.IH[OF t(2), unfolded t(3)] show ?thesis unfolding ReadBlk using t(1) by (auto simp: kexec split: prod.splits)
  next
    case (WriteBlk w d)
    obtain t where t: "wr w d s = Done () t" "inv t" "content t = (content s)(unat w := d)" using wr_content[OF Cons.prems] by blast
    from Cons.IH[OF t(2), unfolded t(3)] show ?thesis unfolding WriteBlk using t(1) by (simp add: kexec fun_upd_def)
  qed
qed

end

definition read_block :: "uint \<Rightarrow> ('a bst_scheme, block) K" where
  "read_block w = kbind (bread ROOTDEV w) (\<lambda>i. kbind (get_data i) (\<lambda>d. kthen (brelse i) (kret d)))"

definition write_block :: "uint \<Rightarrow> block \<Rightarrow> ('a bst_scheme, unit) K" where
  "write_block w d = kbind (bread ROOTDEV w) (\<lambda>i. kthen (set_data i (\<lambda>_. d)) (kthen (bwrite i) (brelse i)))"

text \<open>The cache between operations: consistent, with no buffer in use.\<close>

definition bc_idle :: "nat \<Rightarrow> 'a bst_scheme \<Rightarrow> bool" where
  "bc_idle p s \<longleftrightarrow> bc_inv s \<and> bio_ok s p \<and> owned s = Map.empty \<and> refs s = (\<lambda>_. 0)"

lemma idle_view:
  assumes "bc_idle p s"
  shows "view s = disk s"
proof
  fix n
  have i: "bc_inv s" and r: "refs s n = 0" using assms by (simp_all add: bc_idle_def)
  show "view s n = disk s n"
  proof (cases "buf_of s n")
    case (Some j)
    then have "j < NBUF" "unat (b_blockno (bufs s j)) = n" using buf_of_iff[OF i] by auto
    moreover have "b_refcnt (bufs s j) = 0" using r Some by (simp add: refs_def unat_eq_zero)
    ultimately show ?thesis using Some bc_invD(5)[OF i] by (auto simp: view_def)
  qed (simp add: view_def)
qed

lemma bc_stepD:
  assumes "bc_step s t V N L"
  shows "bframe s t" "bc_inv t" "view t = V" "refs t = N" "owned t = L"
  using assms by (simp_all add: bc_step_def)

lemma idle_bread:
  assumes "bc_idle p s"
  shows "\<exists>i t. bread ROOTDEV w s = Done i t \<and> bc_step s t (disk s) ((\<lambda>_. 0)(unat w := 1))
    [unat w \<mapsto> (i, p_pid (procs s p))] \<and> disk t = disk s \<and> wtrace t = wtrace s"
proof -
  have "card {n :: nat. (0 :: nat) \<noteq> 0} < NBUF" by (simp add: NBUF_def MAXOPBLOCKS_def)
  then show ?thesis
    using bread_spec[of s p w] assms idle_view[OF assms] by (simp add: bc_idle_def)
qed

lemma frame_pid: "bframe s t \<Longrightarrow> bio_ok s p \<Longrightarrow> p_pid (procs t p) = p_pid (procs s p)"
  using bframeD(8)[of s t p] by (simp add: bio_ok_def)

lemma read_block_idle:
  assumes s: "bc_idle p s"
  shows "\<exists>t. read_block w s = Done (disk s (unat w)) t \<and> bc_idle p t \<and> disk t = disk s \<and> bframe s t"
proof -
  obtain i t where t: "bread ROOTDEV w s = Done i t" "bc_step s t (disk s) ((\<lambda>_. 0)(unat w := 1)) [unat w \<mapsto> (i, p_pid (procs s p))]"
      "disk t = disk s" using idle_bread[OF s] by blast
  note T = bc_stepD[OF t(2)]
  have ok: "bio_ok t p" and pid: "p_pid (procs t p) = p_pid (procs s p)"
    using bio_ok_frame[OF T(1)] frame_pid[OF T(1)] s by (simp_all add: bc_idle_def)
  have d: "get_data i t = Done (disk s (unat w)) t" using get_data_exec[OF T(2), of "unat w"] T(3,5) by simp
  obtain u where u: "brelse i t = Done () u" "bc_step t u (view t) ((refs t)(unat w := refs t (unat w) - 1)) ((owned t)(unat w := None))"
      "disk u = disk t" using brelse_spec[OF T(2) ok, of "unat w" i] T(3,5) t(3) pid by auto
  note U = bc_stepD[OF u(2)]
  have "bc_idle p u" unfolding bc_idle_def using U T bio_ok_frame[OF U(1) ok] by auto
  moreover have "read_block w s = Done (disk s (unat w)) u" using t(1) d u(1) by (simp add: read_block_def kexec)
  ultimately show ?thesis using u(3) t(3) bframe_trans[OF T(1) U(1)] by auto
qed

lemma write_block_idle:
  assumes s: "bc_idle p s"
  shows "\<exists>t. write_block w d s = Done () t \<and> bc_idle p t \<and> disk t = (disk s)(unat w := d) \<and> bframe s t"
proof -
  obtain i t where t: "bread ROOTDEV w s = Done i t" "bc_step s t (disk s) ((\<lambda>_. 0)(unat w := 1)) [unat w \<mapsto> (i, p_pid (procs s p))]"
      "disk t = disk s" using idle_bread[OF s] by blast
  note T = bc_stepD[OF t(2)]
  obtain u where u: "set_data i (\<lambda>_. d) t = Done () u" "bc_step t u ((view t)(unat w := d)) (refs t) (owned t)" "disk u = disk t"
    using set_data_spec[OF T(2), of "unat w" i _ "\<lambda>_. d"] T(5) by auto
  note U = bc_stepD[OF u(2)] note SU = bframe_trans[OF T(1) U(1)]
  have oku: "bio_ok u p" "p_pid (procs u p) = p_pid (procs s p)"
    using bio_ok_frame[OF SU] frame_pid[OF SU] s by (simp_all add: bc_idle_def)
  obtain v where v: "bwrite i u = Done () v" "bc_step u v (view u) (refs u) (owned u)" "disk v = (disk u)(unat w := view u (unat w))"
    using bwrite_spec[OF U(2) oku(1), of "unat w" i] U(5) T(5) oku(2) by auto
  note V = bc_stepD[OF v(2)] note SV = bframe_trans[OF SU V(1)]
  have okv: "bio_ok v p" "p_pid (procs v p) = p_pid (procs s p)"
    using bio_ok_frame[OF SV] frame_pid[OF SV] s by (simp_all add: bc_idle_def)
  obtain x where x: "brelse i v = Done () x" "bc_step v x (view v) ((refs v)(unat w := refs v (unat w) - 1)) ((owned v)(unat w := None))"
      "disk x = disk v" using brelse_spec[OF V(2) okv(1), of "unat w" i] V(3,5) U(3,5) T(5) okv(2) v(3) by auto
  note X = bc_stepD[OF x(2)]
  have "bc_idle p x" unfolding bc_idle_def using X V U T bio_ok_frame[OF X(1) okv(1)] by auto
  moreover have "write_block w d s = Done () x" using t(1) u(1) v(1) x(1) by (simp add: write_block_def kexec)
  moreover have "disk x = (disk s)(unat w := d)" using x(3) v(3) u(3) t(3) U(3) by simp
  ultimately show ?thesis using bframe_trans[OF SV X(1)] by auto
qed

interpretation cached: block_device "bc_idle p" disk read_block write_block for p
  by unfold_locales (use read_block_idle write_block_idle in \<open>metis+\<close>)

text \<open>\<open>binit\<close> establishes the invariant from the zeroed static data.\<close>

definition cold_cache :: "'a bst_scheme \<Rightarrow> bool" where
  "cold_cache s \<longleftrightarrow> (\<forall>i<NBUF. b_dev (bufs s i) = 0 \<and> b_refcnt (bufs s i) = 0 \<and> \<not> b_valid (bufs s i))"

lemma binit_exec:
  "binit s = Done () (s\<lparr>lru := rev [0..<NBUF],
     slocks := \<lambda>l. case l of BUF_SLEEP i \<Rightarrow> if i < NBUF then \<lparr>sl_locked = False, sl_pid = 0\<rparr> else slocks s l | _ \<Rightarrow> slocks s l\<rparr>)"
proof -
  let ?S = "\<lambda>n l. case l of BUF_SLEEP i \<Rightarrow> if i < n then \<lparr>sl_locked = False, sl_pid = 0\<rparr> else slocks s l | _ \<Rightarrow> slocks s l"
  have "kfor [0..<n] (\<lambda>i. kthen (initsleeplock (BUF_SLEEP i)) (kmod (\<lambda>s. s\<lparr>lru := i # lru s\<rparr>))) (s\<lparr>lru := []\<rparr>)
      = Done () (s\<lparr>lru := rev [0..<n], slocks := ?S n\<rparr>)" for n
  proof -
    have "runs (kfor [0..<n] (\<lambda>i. kthen (initsleeplock (BUF_SLEEP i)) (kmod (\<lambda>s. s\<lparr>lru := i # lru s\<rparr>)))) (s\<lparr>lru := []\<rparr>)
      (\<lambda>_ t. t = s\<lparr>lru := rev [0..<n], slocks := ?S n\<rparr>)"
    proof (rule runs_kfor_upt)
      have "?S 0 = slocks s" by (auto simp: fun_eq_iff split: sleeplockid.split)
      then show "s\<lparr>lru := []\<rparr> = s\<lparr>lru := rev [0..<0], slocks := ?S 0\<rparr>" by simp
    next
      fix i t assume "t = s\<lparr>lru := rev [0..<i], slocks := ?S i\<rparr>"
      moreover have "(?S i)(BUF_SLEEP i := \<lparr>sl_locked = False, sl_pid = 0\<rparr>) = ?S (Suc i)"
        by (auto simp: fun_eq_iff less_Suc_eq split: sleeplockid.split)
      ultimately show "runs (kthen (initsleeplock (BUF_SLEEP i)) (kmod (\<lambda>s. s\<lparr>lru := i # lru s\<rparr>))) t
          (\<lambda>_ u. u = s\<lparr>lru := rev [0..<Suc i], slocks := ?S (Suc i)\<rparr>)"
        by (simp add: runs_rules initsleeplock_def set_slock_def)
    qed
    then show ?thesis by (auto simp: runs_iff)
  qed
  then show ?thesis by (simp add: binit_def kexec)
qed

lemma binit_idle:
  assumes "cold_cache s" and "bio_ok s p"
  shows "\<exists>t. binit s = Done () t \<and> bc_idle p t \<and> disk t = disk s"
proof -
  obtain t where t: "binit s = Done () t" "t = s\<lparr>lru := rev [0..<NBUF], slocks := slocks t\<rparr>"
    and l: "\<forall>i<NBUF. \<not> sl_locked (slocks t (BUF_SLEEP i))"
    using binit_exec[of s] by auto
  have f: "bufs t = bufs s" "lru t = rev [0..<NBUF]" "disk t = disk s" "cur t = cur s" "held t = held s"
    by (subst t(2), simp)+
  have root: "ROOTDEV \<noteq> 0" by (simp add: ROOTDEV_def)
  have inv: "bc_inv t" unfolding bc_inv_def f using assms(1) l root by (auto simp: cold_cache_def)
  have none: "buf_of t n = None" for n
  proof (cases "buf_of t n")
    case (Some j)
    then have "j < NBUF" "b_dev (bufs s j) = ROOTDEV" using buf_of_iff[OF inv, of n j] f(1) by simp_all
    then show ?thesis using assms(1) root by (simp add: cold_cache_def)
  qed
  have "owned t = Map.empty" "refs t = (\<lambda>_. 0)" by (auto simp: owned_def refs_def none fun_eq_iff)
  then show ?thesis using t(1) inv assms(2) f by (auto simp: bc_idle_def bio_ok_def)
qed

text \<open>C4: the buffer cache is transparent. After \<open>binit\<close>, any sequence of block reads and writes through
  \<open>bread\<close>, \<open>bwrite\<close> and \<open>brelse\<close>, however many blocks it touches and whichever buffers are recycled,
  never panics, returns exactly what the same sequence returns on a plain array of blocks, and
  leaves that array on the disk.\<close>

theorem bcache_transparent:
  assumes "cold_cache s" and "bio_ok s p"
  shows "\<exists>t u. binit s = Done () t \<and> blk_serve read_block write_block qs t = Done (fst (replay qs (disk s))) u
    \<and> disk u = snd (replay qs (disk s)) \<and> bc_inv u"
proof -
  obtain t where t: "binit s = Done () t" "bc_idle p t" "disk t = disk s" using binit_idle[OF assms] by blast
  obtain u where "blk_serve read_block write_block qs t = Done (fst (replay qs (disk t))) u" "bc_idle p u"
      "disk u = snd (replay qs (disk t))" using cached.serve_replay[OF t(2)] by blast
  then show ?thesis using t by (auto simp: bc_idle_def)
qed

definition zero_buf :: buf where
  "zero_buf = \<lparr>b_valid = False, b_disk = False, b_dev = 0, b_blockno = 0, b_refcnt = 0, b_data = (\<lambda>_. 0)\<rparr>"

definition boot_bst :: bst where
  "boot_bst = mst.extend ((boot_mst 0x80020000)\<lparr>cur := Some 0\<rparr>) (bst.fields (\<lambda>_. \<lparr>sl_locked = False, sl_pid = 0\<rparr>) (\<lambda>_ _. 0) [] (\<lambda>_. zero_buf) [])"

lemma boot_bst_simps [simp]:
  "cold_cache boot_bst" "bio_ok boot_bst 0" "disk boot_bst = (\<lambda>_ _. 0)"
  by (simp_all add: boot_bst_def cold_cache_def bio_ok_def mst.defs bst.defs zero_buf_def boot_mst_def boot_kst_def kst.defs)

theorem bcache_transparent_witness:
  "\<exists>t u. binit boot_bst = Done () t
     \<and> blk_serve read_block write_block [WriteBlk 40 (\<lambda>_. 7), ReadBlk 41, ReadBlk 40] t = Done [\<lambda>_. 0, \<lambda>_. 7] u"
  using bcache_transparent[of boot_bst 0 "[WriteBlk 40 (\<lambda>_. 7), ReadBlk 41, ReadBlk 40]"] by auto

end
