(* ===== verification/Log.thy ===== *)
theory Log
  imports Bio
begin

text \<open>
  The write-ahead log of kernel/log.c: \<open>initlog\<close>, \<open>begin_op\<close>, \<open>end_op\<close>, \<open>log_write\<close>, \<open>commit\<close> and crash
  recovery, on top of the buffer cache. The header block holds \<open>n\<close> and the home block numbers as
  little-endian 32-bit integers, as struct logheader lays them out.

  The main theorem is crash atomicity: cut the sequence of disk writes of \<open>commit\<close> at any point and run
  \<open>initlog\<close> on what is on the disk; then either none or all of the transaction's blocks are in place.
\<close>

subsection \<open>struct logheader, struct log\<close>

record lgst = bst +
  log_start :: uint
  log_size :: int
  log_outstanding :: int
  log_committing :: bool
  log_dev :: uint
  lh_n :: int
  lh_block :: "nat \<Rightarrow> uint"

subsection \<open>Copying between the log and the home locations\<close>

definition install_one :: "bool \<Rightarrow> nat \<Rightarrow> ('a lgst_scheme, unit) K" where
  "install_one recovering tail =
     kbind (kget (\<lambda>s. (log_dev s, log_start s, lh_block s tail))) (\<lambda>(dev, start, bn).
     kbind (bread dev (start + of_nat tail + 1)) (\<lambda>lbuf.
     kbind (bread dev bn) (\<lambda>dbuf.
     kbind (get_data lbuf) (\<lambda>d.
     kthen (set_data dbuf (\<lambda>_. d))
    (kthen (bwrite dbuf)
    (kthen (kwhen (\<not> recovering) (bunpin dbuf))
    (kthen (brelse lbuf)
     (brelse dbuf))))))))"

definition install_trans :: "bool \<Rightarrow> ('a lgst_scheme, unit) K" where
  "install_trans recovering = kbind (kget lh_n) (\<lambda>n. kfor [0..<nat n] (install_one recovering))"

definition read_head :: "('a lgst_scheme, unit) K" where
  "read_head =
     kbind (kget (\<lambda>s. (log_dev s, log_start s))) (\<lambda>(dev, start).
     kbind (bread dev start) (\<lambda>buf.
     kbind (get_data buf) (\<lambda>lh.
     kthen (kmod (\<lambda>s. s\<lparr>lh_n := sint (bload32 lh 0)\<rparr>))
    (kthen (kfor [0..<nat (sint (bload32 lh 0))] (\<lambda>i. kmod (\<lambda>s. s\<lparr>lh_block := (lh_block s)(i := bload32 lh (4 + 4 * i))\<rparr>)))
     (brelse buf)))))"

definition write_head :: "('a lgst_scheme, unit) K" where
  "write_head =
     kbind (kget (\<lambda>s. (log_dev s, log_start s))) (\<lambda>(dev, start).
     kbind (bread dev start) (\<lambda>buf.
     kbind (kget lh_n) (\<lambda>n.
     kthen (set_data buf (\<lambda>hb. bstore32 hb 0 (word_of_int n)))
    (kthen (kfor [0..<nat n] (\<lambda>i. kbind (kget (\<lambda>s. lh_block s i)) (\<lambda>b. set_data buf (\<lambda>hb. bstore32 hb (4 + 4 * i) b))))
    (kthen (bwrite buf)
     (brelse buf))))))"

definition recover_from_log :: "('a lgst_scheme, unit) K" where
  "recover_from_log =
     kthen read_head
    (kthen (install_trans True)
    (kthen (kmod (\<lambda>s. s\<lparr>lh_n := 0\<rparr>))
     write_head))"

text \<open>\<open>initlog\<close> gets the fields of the superblock it reads; \<open>sizeof(struct logheader)\<close> is 4 + 4 * LOGSIZE.\<close>

definition initlog :: "uint \<Rightarrow> uint \<Rightarrow> uint \<Rightarrow> ('a lgst_scheme, unit) K" where
  "initlog dev logstart nlog =
     (if BSIZE \<le> 4 + 4 * LOGSIZE then kpanic ''initlog: too big logheader''
      else kthen (kmod (\<lambda>s. s\<lparr>log_start := logstart, log_size := sint nlog, log_dev := dev\<rparr>)) recover_from_log)"

subsection \<open>Transactions\<close>

text \<open>One attempt of \<open>begin_op\<close>: it is admitted, or goes to sleep and tests again when it is woken.\<close>

definition begin_op :: "('a lgst_scheme, unit) K" where
  "begin_op =
     kthen (acquire LOG_LOCK)
    (kbind (kget (\<lambda>s. (log_committing s, lh_n s, log_outstanding s))) (\<lambda>(committing, n, outstanding).
     if committing then sleep ChLog LOG_LOCK
     else if n + (outstanding + 1) * int MAXOPBLOCKS > int LOGSIZE then sleep ChLog LOG_LOCK
     else kthen (kmod (\<lambda>s. s\<lparr>log_outstanding := log_outstanding s + 1\<rparr>)) (release LOG_LOCK)))"

definition write_log_one :: "nat \<Rightarrow> ('a lgst_scheme, unit) K" where
  "write_log_one tail =
     kbind (kget (\<lambda>s. (log_dev s, log_start s, lh_block s tail))) (\<lambda>(dev, start, bn).
     kbind (bread dev (start + of_nat tail + 1)) (\<lambda>to.
     kbind (bread dev bn) (\<lambda>from_buf.
     kbind (get_data from_buf) (\<lambda>d.
     kthen (set_data to (\<lambda>_. d))
    (kthen (bwrite to)
    (kthen (brelse from_buf)
     (brelse to)))))))"

definition write_log :: "('a lgst_scheme, unit) K" where
  "write_log = kbind (kget lh_n) (\<lambda>n. kfor [0..<nat n] write_log_one)"

definition commit :: "('a lgst_scheme, unit) K" where
  "commit = kbind (kget lh_n) (\<lambda>n.
     kwhen (0 < n)
      (kthen write_log
      (kthen write_head
      (kthen (install_trans False)
      (kthen (kmod (\<lambda>s. s\<lparr>lh_n := 0\<rparr>))
       write_head)))))"

definition end_op :: "('a lgst_scheme, unit) K" where
  "end_op =
     kthen (acquire LOG_LOCK)
    (kthen (kmod (\<lambda>s. s\<lparr>log_outstanding := log_outstanding s - 1\<rparr>))
    (kbind (kget log_committing) (\<lambda>committing.
     if committing then kpanic ''log.committing''
     else kbind (kget log_outstanding) (\<lambda>outstanding.
       kthen (if outstanding = 0 then kmod (\<lambda>s. s\<lparr>log_committing := True\<rparr>) else wakeup ChLog)
      (kthen (release LOG_LOCK)
       (kwhen (outstanding = 0)
         (kthen commit
         (kthen (acquire LOG_LOCK)
         (kthen (kmod (\<lambda>s. s\<lparr>log_committing := False\<rparr>))
         (kthen (wakeup ChLog)
          (release LOG_LOCK)))))))))))"

definition log_write :: "nat \<Rightarrow> ('a lgst_scheme, unit) K" where
  "log_write b =
     kthen (acquire LOG_LOCK)
    (kbind (kget (\<lambda>s. (lh_n s, log_size s, log_outstanding s))) (\<lambda>(n, sz, outstanding).
     if n \<ge> int LOGSIZE \<or> n \<ge> sz - 1 then kpanic ''too big a transaction''
     else if outstanding < 1 then kpanic ''log_write outside of trans''
     else kbind (kget (\<lambda>s. b_blockno (bufs s b))) (\<lambda>bn.
       kbind (kget (\<lambda>s. List.find (\<lambda>i. lh_block s i = bn) [0..<nat n])) (\<lambda>r.
       let i = (case r of Some i \<Rightarrow> i | None \<Rightarrow> nat n) in
       kthen (kmod (\<lambda>s. s\<lparr>lh_block := (lh_block s)(i := bn)\<rparr>))
      (kthen (kwhen (i = nat n) (kthen (bpin b) (kmod (\<lambda>s. s\<lparr>lh_n := lh_n s + 1\<rparr>))))
       (release LOG_LOCK))))))"

subsection \<open>One block copied\<close>

lemma refs_finite: "bc_inv s \<Longrightarrow> finite {n. refs s n \<noteq> 0}"
proof -
  assume i: "bc_inv s"
  have "{n. refs s n \<noteq> 0} \<subseteq> (\<lambda>i. unat (b_blockno (bufs s i))) ` {..<NBUF}"
  proof
    fix n assume "n \<in> {n. refs s n \<noteq> 0}"
    then obtain j where "buf_of s n = Some j" by (auto simp: refs_def split: option.splits)
    then show "n \<in> (\<lambda>i. unat (b_blockno (bufs s i))) ` {..<NBUF}" using buf_of_iff[OF i] by auto
  qed
  then show ?thesis by (rule finite_subset) simp
qed

lemma clean_view: "bc_inv s \<Longrightarrow> refs s n = 0 \<Longrightarrow> view s n = disk s n"
proof (cases "buf_of s n")
  case (Some j)
  assume i: "bc_inv s" and r: "refs s n = 0"
  have "j < NBUF" "unat (b_blockno (bufs s j)) = n" using buf_of_iff[OF i] Some by auto
  moreover have "b_refcnt (bufs s j) = 0" using r Some by (simp add: refs_def unat_eq_zero)
  ultimately show ?thesis using Some bc_invD(5)[OF i] by (auto simp: view_def)
qed (simp add: view_def)

lemma bc_step_trans: "bc_step s t V N L \<Longrightarrow> bc_step t u V' N' L' \<Longrightarrow> bc_step s u V' N' L'"
  by (auto simp: bc_step_def intro: bframe_trans)

lemma bc_step_ok:
  assumes "bc_step s t V N L" and "bio_ok s p"
  shows "bio_ok t p" "p_pid (procs t p) = p_pid (procs s p)"
  using bio_ok_frame frame_pid bc_stepD(1)[OF assms(1)] assms(2) by blast+

lemma bread_two:
  assumes i: "bc_inv s" and ok: "bio_ok s p" and o: "owned s = Map.empty" and ne: "unat a \<noteq> unat b"
    and room: "refs s (unat a) \<noteq> 0 \<or> card {n. refs s n \<noteq> 0} < NBUF"
      "refs s (unat b) \<noteq> 0 \<or> card {n. refs s n \<noteq> 0} + 1 < NBUF"
    and small: "refs s (unat a) + 1 < 2 ^ 32" "refs s (unat b) + 1 < 2 ^ 32"
  defines "q \<equiv> p_pid (procs s p)"
  shows "\<exists>i u j t. bread ROOTDEV a s = Done i u \<and> bread ROOTDEV b u = Done j t \<and> bframe s u
    \<and> bc_step s t (view s) ((refs s)(unat a := refs s (unat a) + 1, unat b := refs s (unat b) + 1))
        [unat a \<mapsto> (i, q), unat b \<mapsto> (j, q)] \<and> disk t = disk s \<and> wtrace t = wtrace s"
proof -
  obtain i u where u: "bread ROOTDEV a s = Done i u" "bc_step s u (view s) ((refs s)(unat a := refs s (unat a) + 1)) [unat a \<mapsto> (i, q)]"
      "disk u = disk s" "wtrace u = wtrace s"
    using bread_spec[OF assms(1) ok _ room(1) small(1)] o unfolding q_def by auto
  note U = bc_stepD[OF u(2)] note K = bc_step_ok[OF u(2) ok]
  have "{n. refs u n \<noteq> 0} = insert (unat a) {n. refs s n \<noteq> 0}" unfolding U(4) by auto
  then have "card {n. refs u n \<noteq> 0} \<le> card {n. refs s n \<noteq> 0} + 1"
    using refs_finite[OF assms(1)] by (simp add: card_insert_if)
  moreover have "refs u (unat b) = refs s (unat b)" unfolding U(4) using ne by simp
  ultimately have r: "refs u (unat b) \<noteq> 0 \<or> card {n. refs u n \<noteq> 0} < NBUF" using room(2) by linarith
  have "refs u (unat b) + 1 < 2 ^ 32" "owned u (unat b) = None" using U(4,5) ne small(2) by auto
  then obtain j t where t: "bread ROOTDEV b u = Done j t" "bc_step u t (view u) ((refs u)(unat b := refs u (unat b) + 1))
      ((owned u)(unat b \<mapsto> (j, p_pid (procs u p))))" "disk t = disk u" "wtrace t = wtrace u"
    using bread_spec[OF U(2) K(1) _ r] by blast
  have "bc_step s t (view s) ((refs s)(unat a := refs s (unat a) + 1, unat b := refs s (unat b) + 1)) [unat a \<mapsto> (i, q), unat b \<mapsto> (j, q)]"
    using bc_step_trans[OF u(2) t(2)] U(3-5) K(2) ne by (simp add: q_def)
  then show ?thesis using u t U(1) by auto
qed

lemma set_write_spec:
  assumes i: "bc_inv s" and ok: "bio_ok s p" and o: "owned s n = Some (i, p_pid (procs s p))"
  shows "\<exists>t u. set_data i (\<lambda>_. d) s = Done () t \<and> bwrite i t = Done () u
    \<and> bc_step s u ((view s)(n := d)) (refs s) (owned s) \<and> disk u = (disk s)(n := d) \<and> wtrace u = wtrace s @ [(n, d)]"
proof -
  obtain t where t: "set_data i (\<lambda>_. d) s = Done () t" "bc_step s t ((view s)(n := d)) (refs s) (owned s)"
      "disk t = disk s" "wtrace t = wtrace s"
    using set_data_spec[OF assms(1) o, of "\<lambda>_. d"] by blast
  note T = bc_stepD[OF t(2)] note K = bc_step_ok[OF t(2) ok]
  have "owned t n = Some (i, p_pid (procs t p))" using T(5) o K(2) by simp
  from bwrite_spec[OF T(2) K(1) this] obtain u where u: "bwrite i t = Done () u" "bc_step t u (view t) (refs t) (owned t)"
      "disk u = (disk t)(n := view t n)" "wtrace u = wtrace t @ [(n, view t n)]" by blast
  show ?thesis using t u bc_step_trans[OF t(2) u(2)] T(3-5) by auto
qed

lemma release_two:
  assumes i: "bc_inv s" and ok: "bio_ok s p" and o: "owned s = [x \<mapsto> (i, p_pid (procs s p)), y \<mapsto> (j, p_pid (procs s p))]"
    and ne: "x \<noteq> y" and clean: "refs s x = 1 \<Longrightarrow> view s x = disk s x" "refs s y = 1 \<Longrightarrow> view s y = disk s y"
  shows "\<exists>t u. brelse i s = Done () t \<and> brelse j t = Done () u
    \<and> bc_step s u (view s) ((refs s)(x := refs s x - 1, y := refs s y - 1)) Map.empty \<and> disk u = disk s \<and> wtrace u = wtrace s"
proof -
  have "owned s x = Some (i, p_pid (procs s p))" using o ne by simp
  from brelse_spec[OF assms(1) ok this clean(1)] obtain t where t: "brelse i s = Done () t"
    "bc_step s t (view s) ((refs s)(x := refs s x - 1)) ((owned s)(x := None))" "disk t = disk s" "wtrace t = wtrace s" by blast
  note T = bc_stepD[OF t(2)] note K = bc_step_ok[OF t(2) ok]
  have oy: "owned t y = Some (j, p_pid (procs t p))" using T(5) o ne K(2) by simp
  have cy: "refs t y = 1 \<Longrightarrow> view t y = disk t y" using T(3,4) t(3) ne clean(2) by simp
  from brelse_spec[OF T(2) K(1) oy cy] obtain u where u: "brelse j t = Done () u"
    "bc_step t u (view t) ((refs t)(y := refs t y - 1)) ((owned t)(y := None))" "disk u = disk t" "wtrace u = wtrace t" by blast
  have "bc_step s u (view s) ((refs s)(x := refs s x - 1, y := refs s y - 1)) Map.empty"
    using bc_step_trans[OF t(2) u(2)] T(3-5) o ne by (simp add: fun_upd_twist)
  then show ?thesis using t u by auto
qed

lemma write_log_one_spec:
  fixes tail :: nat
  assumes i: "bc_inv s" and ok: "bio_ok s p" and o: "owned s = Map.empty" and dev: "log_dev s = ROOTDEV"
    and room: "card {n. refs s n \<noteq> 0} < NBUF"
  defines "a \<equiv> log_start s + of_nat tail + 1" and "b \<equiv> lh_block s tail"
  assumes ne: "unat a \<noteq> unat b" and ra: "refs s (unat a) = 0" and rb: "refs s (unat b) = 1"
  shows "\<exists>t. write_log_one tail s = Done () t \<and> bc_step s t ((view s)(unat a := view s (unat b))) (refs s) Map.empty
    \<and> disk t = (disk s)(unat a := view s (unat b)) \<and> wtrace t = wtrace s @ [(unat a, view s (unat b))]"
proof -
  define q where "q = p_pid (procs s p)"
  obtain x u y t where R: "bread ROOTDEV a s = Done x u" "bread ROOTDEV b u = Done y t"
    "bc_step s t (view s) ((refs s)(unat a := 1, unat b := refs s (unat b) + 1)) [unat a \<mapsto> (x, q), unat b \<mapsto> (y, q)]" "disk t = disk s" "wtrace t = wtrace s"
    using bread_two[OF i ok o ne] room ra rb unfolding q_def by auto
  note T = bc_stepD[OF R(3)] note K = bc_step_ok[OF R(3) ok, folded q_def]
  have g: "get_data y t = Done (view s (unat b)) t" using get_data_exec[OF T(2), of "unat b"] T(3,5) by simp
  have ox: "owned t (unat a) = Some (x, p_pid (procs t p))" using T(5) ne K(2) by simp
  obtain v w where W: "set_data x (\<lambda>_. view s (unat b)) t = Done () v" "bwrite x v = Done () w"
    "bc_step t w ((view t)(unat a := view s (unat b))) (refs t) (owned t)" "disk w = (disk t)(unat a := view s (unat b))"
    "wtrace w = wtrace t @ [(unat a, view s (unat b))]"
    using set_write_spec[OF T(2) K(1) ox, of "view s (unat b)"] by blast
  note Z = bc_stepD[OF W(3)] note KW = bc_step_ok[OF W(3) K(1)]
  have ow: "owned w = [unat b \<mapsto> (y, p_pid (procs w p)), unat a \<mapsto> (x, p_pid (procs w p))]"
    using Z(5) T(5) KW(2) K(2) ne by (simp add: fun_upd_twist)
  have cl: "refs w (unat b) = 1 \<Longrightarrow> view w (unat b) = disk w (unat b)" "refs w (unat a) = 1 \<Longrightarrow> view w (unat a) = disk w (unat a)"
    using Z(3,4) T(4) W(4) ne rb by simp_all
  obtain z t' where L: "brelse y w = Done () z" "brelse x z = Done () t'"
    "bc_step w t' (view w) ((refs w)(unat b := refs w (unat b) - 1, unat a := refs w (unat a) - 1)) Map.empty"
    "disk t' = disk w" "wtrace t' = wtrace w"
    using release_two[OF Z(2) KW(1) ow _ cl] ne by auto
  have "(refs w)(unat b := refs w (unat b) - 1, unat a := refs w (unat a) - 1) = refs s"
    using Z(4) T(4) ne ra rb by (auto simp: fun_eq_iff)
  then have "bc_step s t' ((view s)(unat a := view s (unat b))) (refs s) Map.empty"
    using bc_step_trans[OF bc_step_trans[OF R(3) W(3)] L(3)] Z(3) T(3) by simp
  moreover have "write_log_one tail s = Done () t'"
    using dev R(1,2) g W(1,2) L(1,2) by (simp add: write_log_one_def kexec a_def b_def)
  ultimately show ?thesis using L(4,5) W(4,5) R(4,5) by auto
qed

lemma install_one_spec:
  fixes tail :: nat
  assumes i: "bc_inv s" and ok: "bio_ok s p" and o: "owned s = Map.empty" and dev: "log_dev s = ROOTDEV"
    and room: "card {n. refs s n \<noteq> 0} + (if recovering then 1 else 0) < NBUF"
  defines "a \<equiv> log_start s + of_nat tail + 1" and "b \<equiv> lh_block s tail"
  assumes ne: "unat a \<noteq> unat b" and ra: "refs s (unat a) = 0" and rb: "refs s (unat b) = (if recovering then 0 else 1)"
  shows "\<exists>t. install_one recovering tail s = Done () t \<and> bc_step s t ((view s)(unat b := view s (unat a))) ((refs s)(unat b := 0)) Map.empty
    \<and> disk t = (disk s)(unat b := view s (unat a)) \<and> wtrace t = wtrace s @ [(unat b, view s (unat a))]"
proof -
  define q where "q = p_pid (procs s p)"
  let ?va = "view s (unat a)"
  obtain x u y t where R: "bread ROOTDEV a s = Done x u" "bread ROOTDEV b u = Done y t"
    "bc_step s t (view s) ((refs s)(unat a := 1, unat b := refs s (unat b) + 1)) [unat a \<mapsto> (x, q), unat b \<mapsto> (y, q)]" "disk t = disk s" "wtrace t = wtrace s"
    using bread_two[OF i ok o ne] room ra rb unfolding q_def by (auto split: if_splits)
  note T = bc_stepD[OF R(3)] note K = bc_step_ok[OF R(3) ok, folded q_def]
  have g: "get_data x t = Done ?va t" using get_data_exec[OF T(2), of "unat a"] T(3,5) ne by simp
  have oy: "owned t (unat b) = Some (y, p_pid (procs t p))" using T(5) K(2) by simp
  obtain v w where W: "set_data y (\<lambda>_. ?va) t = Done () v" "bwrite y v = Done () w"
    "bc_step t w ((view t)(unat b := ?va)) (refs t) (owned t)" "disk w = (disk t)(unat b := ?va)"
    "wtrace w = wtrace t @ [(unat b, ?va)]"
    using set_write_spec[OF T(2) K(1) oy, of ?va] by blast
  note Z = bc_stepD[OF W(3)] note KW = bc_step_ok[OF W(3) K(1)]
  have "\<exists>r. kwhen (\<not> recovering) (bunpin y) w = Done () r \<and> bc_step w r (view w) ((refs w)(unat b := 1)) (owned w)
      \<and> disk r = disk w \<and> wtrace r = wtrace w"
  proof (cases recovering)
    case True
    then have "(refs w)(unat b := 1) = refs w" using Z(4) T(4) rb by (simp add: fun_upd_idem_iff)
    then show ?thesis using True Z(2) by (simp add: kexec bc_step_def bframe_refl)
  next
    case False
    have "BCACHE_LOCK \<notin> held w" using KW(1) by (simp add: bio_ok_def)
    moreover have "owned w (unat b) = Some (y, q)" using Z(5) T(5) by simp
    moreover have "refs w (unat b) = 2" using Z(4) T(4) rb False by simp
    ultimately show ?thesis using bunpin_spec[OF Z(2), of "unat b" y q] False by (simp add: kexec)
  qed
  then obtain r where B: "kwhen (\<not> recovering) (bunpin y) w = Done () r" "bc_step w r (view w) ((refs w)(unat b := 1)) (owned w)"
      "disk r = disk w" "wtrace r = wtrace w" by blast
  note Y = bc_stepD[OF B(2)] note KR = bc_step_ok[OF B(2) KW(1)]
  have ow: "owned r = [unat a \<mapsto> (x, p_pid (procs r p)), unat b \<mapsto> (y, p_pid (procs r p))]"
    using Y(5) Z(5) T(5) KR(2) KW(2) K(2) by simp
  have cl: "view r (unat a) = disk r (unat a)" "view r (unat b) = disk r (unat b)"
    using Y(3) Z(3) T(3) B(3) W(4) R(4) ne clean_view[OF i ra] by simp_all
  obtain z t' where L: "brelse x r = Done () z" "brelse y z = Done () t'"
    "bc_step r t' (view r) ((refs r)(unat a := refs r (unat a) - 1, unat b := refs r (unat b) - 1)) Map.empty"
    "disk t' = disk r" "wtrace t' = wtrace r"
    using release_two[OF Y(2) KR(1) ow ne] cl by auto
  have "(refs r)(unat a := refs r (unat a) - 1, unat b := refs r (unat b) - 1) = (refs s)(unat b := 0)"
    using Y(4) Z(4) T(4) ne ra by (auto simp: fun_eq_iff)
  then have "bc_step s t' ((view s)(unat b := ?va)) ((refs s)(unat b := 0)) Map.empty"
    using bc_step_trans[OF bc_step_trans[OF bc_step_trans[OF R(3) W(3)] B(2)] L(3)] Y(3) Z(3) T(3) by simp
  moreover have "install_one recovering tail s = Done () t'"
    using dev R(1,2) g W(1,2) B(1) L(1,2) by (simp add: install_one_def kexec a_def b_def)
  ultimately show ?thesis using L(4,5) B(3,4) W(4,5) R(4,5) by auto
qed

subsection \<open>Sequences of block writes\<close>

definition apply_writes :: "(nat \<times> block) list \<Rightarrow> (nat \<Rightarrow> block) \<Rightarrow> nat \<Rightarrow> block" where
  "apply_writes ws m = fold (\<lambda>(n, d) f. f(n := d)) ws m"

lemma apply_writes_simps [simp]:
  "apply_writes [] m = m" "apply_writes (ws @ vs) m = apply_writes vs (apply_writes ws m)"
  "apply_writes ((n, d) # ws) m = apply_writes ws (m(n := d))"
  by (simp_all add: apply_writes_def)

lemma apply_writes_other: "n \<notin> fst ` set ws \<Longrightarrow> apply_writes ws m n = m n"
proof (induction ws arbitrary: m)
  case (Cons w ws)
  then show ?case by (cases w) simp
qed simp

lemma apply_writes_away:
  assumes "\<And>j. j < k \<Longrightarrow> n \<noteq> f j"
  shows "apply_writes (map (\<lambda>j. (f j, g j)) [0..<k]) m n = m n"
proof (rule apply_writes_other)
  have "fst ` set (map (\<lambda>j. (f j, g j)) [0..<k]) = f ` {..<k}" by (simp add: image_image atLeast0LessThan)
  then show "n \<notin> fst ` set (map (\<lambda>j. (f j, g j)) [0..<k])" using assms by auto
qed

lemma apply_writes_map:
  assumes "inj_on f {..<k}"
  shows "apply_writes (map (\<lambda>j. (f j, g j)) [0..<k]) m n = (if \<exists>j<k. n = f j then g (THE j. j < k \<and> n = f j) else m n)"
  using assms
proof (induction k)
  case (Suc k)
  have inj: "inj_on f {..<k}" using Suc.prems by (rule inj_on_subset) auto
  have fk: "f j \<noteq> f k" if "j < k" for j using Suc.prems that by (auto simp: inj_on_def)
  show ?case
  proof (cases "n = f k")
    case True
    have "(THE j. j < Suc k \<and> n = f j) = k" using True fk by (intro the_equality) (auto simp: less_Suc_eq)
    then show ?thesis using True by auto
  next
    case False
    then have e: "(\<exists>j<Suc k. n = f j) \<longleftrightarrow> (\<exists>j<k. n = f j)" "(\<lambda>j. j < Suc k \<and> n = f j) = (\<lambda>j. j < k \<and> n = f j)"
      by (auto simp: less_Suc_eq)
    show ?thesis using Suc.IH[OF inj] False unfolding e by simp
  qed
qed simp

lemma apply_writes_hit:
  assumes "inj_on f {..<k}" and "j < k"
  shows "apply_writes (map (\<lambda>j. (f j, g j)) [0..<k]) m (f j) = g j"
proof -
  have "(THE i. i < k \<and> f j = f i) = j" using assms by (intro the_equality) (auto simp: inj_on_def)
  then show ?thesis using apply_writes_map[OF assms(1)] assms(2) by auto
qed

subsection \<open>A transaction ready to commit\<close>

text \<open>\<open>lg_area\<close> are the blocks of the log on disk, \<open>home\<close> the home block of entry \<open>k\<close>, \<open>slot_no\<close> its log block.\<close>

definition lg_area :: "'a lgst_scheme \<Rightarrow> nat set" where
  "lg_area s = {unat (log_start s)..unat (log_start s) + LOGSIZE}"

definition home :: "'a lgst_scheme \<Rightarrow> nat \<Rightarrow> nat" where
  "home s k = unat (lh_block s k)"

definition slot_no :: "'a lgst_scheme \<Rightarrow> nat \<Rightarrow> nat" where
  "slot_no s k = unat (log_start s) + k + 1"

definition txn_shape :: "'a lgst_scheme \<Rightarrow> nat \<Rightarrow> bool" where
  "txn_shape s n \<longleftrightarrow> lh_n s = int n \<and> n < LOGSIZE \<and> log_dev s = ROOTDEV \<and> unat (log_start s) + LOGSIZE < 2 ^ 32
     \<and> inj_on (home s) {..<n} \<and> (\<forall>k<n. home s k \<notin> lg_area s)"

lemma slot_unat:
  assumes "unat (log_start s) + LOGSIZE < 2 ^ 32" and "k < LOGSIZE"
  shows "unat (log_start s + of_nat k + 1) = slot_no s k"
proof -
  have "unat (of_nat k :: uint) = k" using assms by (simp add: unat_of_nat)
  then show ?thesis using assms by (simp add: unat_word_ariths slot_no_def)
qed

lemma slot_area: "k < LOGSIZE \<Longrightarrow> slot_no s k \<in> lg_area s"
  by (simp add: slot_no_def lg_area_def)

lemma slot_inj: "inj_on (slot_no s) A"
  by (simp add: inj_on_def slot_no_def)

lemma slot_home:
  assumes "txn_shape s n" and "j < LOGSIZE" and "k < n"
  shows "slot_no s j \<noteq> home s k"
proof -
  have "home s k \<notin> lg_area s" using assms(1,3) by (simp add: txn_shape_def)
  then show ?thesis using slot_area[OF assms(2), of s] by metis
qed

lemma lg_fields:
  assumes "bframe s t"
  shows "log_start t = log_start s" "log_size t = log_size s" "log_outstanding t = log_outstanding s"
    "log_committing t = log_committing s" "log_dev t = log_dev s" "lh_n t = lh_n s" "lh_block t = lh_block s"
    "lgst.more t = lgst.more s"
  using bframeD(4)[OF assms] by (cases s; cases t; simp)+

lemma lg_derived:
  assumes "bframe s t"
  shows "home t = home s" "slot_no t = slot_no s" "lg_area t = lg_area s" "txn_shape t n = txn_shape s n"
proof -
  note F = lg_fields[OF assms]
  show e: "home t = home s" "slot_no t = slot_no s" "lg_area t = lg_area s"
    by (simp_all add: home_def slot_no_def lg_area_def fun_eq_iff F)
  show "txn_shape t n = txn_shape s n" by (simp add: txn_shape_def e F)
qed

definition log_writes :: "'a lgst_scheme \<Rightarrow> nat \<Rightarrow> (nat \<times> block) list" where
  "log_writes s k = map (\<lambda>j. (slot_no s j, view s (home s j))) [0..<k]"

definition home_writes :: "'a lgst_scheme \<Rightarrow> nat \<Rightarrow> (nat \<times> block) list" where
  "home_writes s k = map (\<lambda>j. (home s j, view s (slot_no s j))) [0..<k]"

lemma write_log_spec:
  assumes i: "bc_inv s" and ok: "bio_ok s p" and o: "owned s = Map.empty" and tx: "txn_shape s n"
    and r: "\<And>m. refs s m = (if m \<in> home s ` {..<n} then 1 else 0)"
  shows "\<exists>t. write_log s = Done () t \<and> bc_step s t (apply_writes (log_writes s n) (view s)) (refs s) Map.empty
    \<and> disk t = apply_writes (log_writes s n) (disk s) \<and> wtrace t = wtrace s @ log_writes s n"
proof -
  let ?I = "\<lambda>k t. bc_step s t (apply_writes (log_writes s k) (view s)) (refs s) Map.empty
    \<and> disk t = apply_writes (log_writes s k) (disk s) \<and> wtrace t = wtrace s @ log_writes s k"
  have S: "n < LOGSIZE" "log_dev s = ROOTDEV" "unat (log_start s) + LOGSIZE < 2 ^ 32" "lh_n s = int n"
    using tx by (simp_all add: txn_shape_def)
  have H: "slot_no s j \<noteq> home s k" if "j < n" "k < n" for j k using slot_home[OF tx _ that(2)] that(1) S(1) by simp
  have "{m. refs s m \<noteq> 0} = home s ` {..<n}" using r by auto
  then have "card {m. refs s m \<noteq> 0} \<le> n" using card_image_le[of "{..<n}" "home s"] by simp
  then have room: "card {m. refs s m \<noteq> 0} < NBUF" using S(1) by (simp add: LOGSIZE_def NBUF_def)
  have "runs (kfor [0..<n] write_log_one) s (\<lambda>_ t. ?I n t)"
  proof (rule runs_kfor_upt)
    show "?I 0 s" using i o by (simp add: log_writes_def bc_step_def bframe_refl)
  next
    fix k t assume k: "k < n" and I: "?I k t"
    note T = bc_stepD[OF conjunct1[OF I]] note K = bc_step_ok(1)[OF conjunct1[OF I] ok]
    note F = lg_fields[OF T(1)]
    have a: "unat (log_start t + of_nat k + 1) = slot_no s k" using slot_unat[OF S(3), of k] S(1) k F(1) by simp
    have b: "unat (lh_block t k) = home s k" using F(7) by (simp add: home_def)
    have ne: "slot_no s k \<noteq> home s k" using H[OF k k] .
    have ra: "refs t (slot_no s k) = 0" "refs t (home s k) = 1"
      using T(4) r H[OF k] k by auto
    have vb: "view t (home s k) = view s (home s k)"
      unfolding T(3) log_writes_def
    proof (rule apply_writes_away)
      fix j assume "j < k"
      then show "home s k \<noteq> slot_no s j" using H[of j k] k by simp
    qed
    obtain u where u: "write_log_one k t = Done () u" "bc_step t u ((view t)(slot_no s k := view t (home s k))) (refs t) Map.empty"
        "disk u = (disk t)(slot_no s k := view t (home s k))" "wtrace u = wtrace t @ [(slot_no s k, view t (home s k))]"
      using write_log_one_spec[OF T(2) K T(5), of k] S(2) F(5) room ne ra unfolding a b T(4) by auto
    have "?I (Suc k) u"
      using bc_step_trans[OF conjunct1[OF I] u(2)] u(3,4) I T(3,4) vb by (simp add: log_writes_def)
    then show "runs (write_log_one k) t (\<lambda>_ u. ?I (Suc k) u)" using u(1) by (simp add: runs_def)
  qed
  then show ?thesis using S(4) by (auto simp: write_log_def kexec runs_iff)
qed

lemma install_trans_spec:
  assumes i: "bc_inv s" and ok: "bio_ok s p" and o: "owned s = Map.empty" and tx: "txn_shape s n"
    and r: "\<And>m. refs s m = (if \<not> recovering \<and> m \<in> home s ` {..<n} then 1 else 0)"
  shows "\<exists>t. install_trans recovering s = Done () t \<and> bc_step s t (apply_writes (home_writes s n) (view s)) (\<lambda>_. 0) Map.empty
    \<and> disk t = apply_writes (home_writes s n) (disk s) \<and> wtrace t = wtrace s @ home_writes s n"
proof -
  let ?N = "\<lambda>k m. if \<not> recovering \<and> m \<in> home s ` {k..<n} then 1 else 0"
  let ?I = "\<lambda>k t. bc_step s t (apply_writes (home_writes s k) (view s)) (?N k) Map.empty
    \<and> disk t = apply_writes (home_writes s k) (disk s) \<and> wtrace t = wtrace s @ home_writes s k"
  have S: "n < LOGSIZE" "log_dev s = ROOTDEV" "unat (log_start s) + LOGSIZE < 2 ^ 32" "lh_n s = int n" "inj_on (home s) {..<n}"
    using tx by (simp_all add: txn_shape_def)
  have H: "slot_no s j \<noteq> home s k" if "j < n" "k < n" for j k using slot_home[OF tx _ that(2)] that(1) S(1) by simp
  have room: "card {m. ?N k m \<noteq> (0 :: nat)} + (if recovering then 1 else 0) < NBUF" for k
  proof (cases recovering)
    case True
    then show ?thesis by (simp add: NBUF_def MAXOPBLOCKS_def)
  next
    case False
    have "{m. ?N k m \<noteq> (0 :: nat)} = home s ` {k..<n}" using False by auto
    then have "card {m. ?N k m \<noteq> (0 :: nat)} \<le> n" using card_image_le[of "{k..<n}" "home s"] by simp
    then show ?thesis using False S(1) by (simp add: LOGSIZE_def NBUF_def)
  qed
  have "runs (kfor [0..<n] (install_one recovering)) s (\<lambda>_ t. ?I n t)"
  proof (rule runs_kfor_upt[where I = ?I])
    have "refs s = ?N 0" using r by (auto simp: fun_eq_iff lessThan_atLeast0)
    then show "?I 0 s" using i o by (simp add: home_writes_def bc_step_def bframe_refl)
  next
    fix k t assume k: "k < n" and I: "?I k t"
    note T = bc_stepD[OF conjunct1[OF I]] note K = bc_step_ok(1)[OF conjunct1[OF I] ok]
    note F = lg_fields[OF T(1)]
    have a: "unat (log_start t + of_nat k + 1) = slot_no s k" using slot_unat[OF S(3), of k] S(1) k F(1) by simp
    have b: "unat (lh_block t k) = home s k" using F(7) by (simp add: home_def)
    have ne: "slot_no s k \<noteq> home s k" using H[OF k k] .
    have "slot_no s k \<notin> home s ` {k..<n}" using H[OF k] by (metis atLeastLessThan_iff imageE)
    then have ra: "refs t (slot_no s k) = 0" "refs t (home s k) = (if recovering then 0 else 1)"
      using T(4) k by auto
    have va: "view t (slot_no s k) = view s (slot_no s k)"
      unfolding T(3) home_writes_def by (rule apply_writes_away) (use H[OF k] k less_trans in blast)
    have rm: "card {m. refs t m \<noteq> 0} + (if recovering then 1 else 0) < NBUF" unfolding T(4) by (rule room)
    obtain u where u: "install_one recovering k t = Done () u"
        "bc_step t u ((view t)(home s k := view t (slot_no s k))) ((refs t)(home s k := 0)) Map.empty"
        "disk u = (disk t)(home s k := view t (slot_no s k))" "wtrace u = wtrace t @ [(home s k, view t (slot_no s k))]"
      using install_one_spec[OF T(2) K T(5) _ rm, of k] S(2) F(5) ne ra unfolding a b by auto
    have "home s k \<notin> home s ` {Suc k..<n}"
      using inj_on_image_mem_iff[OF S(5), of k "{Suc k..<n}"] k by (simp add: subset_eq)
    moreover have "{k..<n} = insert k {Suc k..<n}" using k by auto
    ultimately have "(refs t)(home s k := 0) = ?N (Suc k)" unfolding T(4) by (auto simp: fun_eq_iff)
    then have "?I (Suc k) u"
      using bc_step_trans[OF conjunct1[OF I] u(2)] u(3,4) I T(3) va by (simp add: home_writes_def)
    then show "runs (install_one recovering k) t (\<lambda>_ u. ?I (Suc k) u)" using u(1) by (simp add: runs_def)
  qed
  moreover have "?N n = (\<lambda>_. 0)" by auto
  ultimately show ?thesis using S(4) by (auto simp: install_trans_def kexec runs_iff)
qed

subsection \<open>The header block\<close>

lemma bload32_bstore32 [simp]: "bload32 (bstore32 d k v) k = v"
proof -
  have b: "push_bit m (ucast (ucast (drop_bit m v) :: byte) :: uint) = v AND push_bit m (mask 8)" for m
    by (rule bit_word_eqI) (auto simp: bit_simps)
  have b0: "ucast (ucast v :: byte) = v AND push_bit 0 (mask 8)" using b[of 0] by simp
  have "bload32 (bstore32 d k v) k = v AND (push_bit 0 (mask 8) OR push_bit 8 (mask 8) OR push_bit 16 (mask 8) OR push_bit 24 (mask 8))"
    by (simp add: bload32_def bstore32_def b b0 bit.conj_disj_distrib)
  also have "(push_bit 0 (mask 8) OR push_bit 8 (mask 8) OR push_bit 16 (mask 8) OR push_bit 24 (mask 8)) = (- 1 :: uint)"
    by (simp add: mask_eq_exp_minus_1 push_bit_eq_mult)
  finally show ?thesis by simp
qed

lemma bload32_bstore32_other: "j + 4 \<le> k \<or> k + 4 \<le> j \<Longrightarrow> bload32 (bstore32 d j v) k = bload32 d k"
  by (auto simp: bload32_def bstore32_def)

definition hdr_data :: "nat \<Rightarrow> (nat \<Rightarrow> uint) \<Rightarrow> block \<Rightarrow> block" where
  "hdr_data n blk d = fold (\<lambda>i hb. bstore32 hb (4 + 4 * i) (blk i)) [0..<n] (bstore32 d 0 (of_nat n))"

lemma hdr_blocks:
  "bload32 (fold (\<lambda>i hb. bstore32 hb (4 + 4 * i) (blk i)) [0..<n] d) (4 + 4 * k) = (if k < n then blk k else bload32 d (4 + 4 * k))"
  "bload32 (fold (\<lambda>i hb. bstore32 hb (4 + 4 * i) (blk i)) [0..<n] d) 0 = bload32 d 0"
  by (induction n) (auto simp: bload32_bstore32_other less_Suc_eq)

lemma hdr_read:
  "bload32 (hdr_data n blk d) 0 = of_nat n" "k < n \<Longrightarrow> bload32 (hdr_data n blk d) (4 + 4 * k) = blk k"
  by (simp_all add: hdr_data_def hdr_blocks)

lemma hdr_fill_spec:
  assumes i: "bc_inv s" and o: "owned s L = Some (x, q)"
  shows "\<exists>t. kthen (set_data x (\<lambda>hb. bstore32 hb 0 (of_nat n)))
      (kfor [0..<n] (\<lambda>i. kbind (kget (\<lambda>s. lh_block s i)) (\<lambda>b. set_data x (\<lambda>hb. bstore32 hb (4 + 4 * i) b)))) s = Done () t
    \<and> bc_step s t ((view s)(L := hdr_data n (lh_block s) (view s L))) (refs s) (owned s) \<and> disk t = disk s \<and> wtrace t = wtrace s"
proof -
  let ?d0 = "bstore32 (view s L) 0 (of_nat n)"
  let ?D = "\<lambda>k. fold (\<lambda>i hb. bstore32 hb (4 + 4 * i) (lh_block s i)) [0..<k] ?d0"
  let ?I = "\<lambda>k t. bc_step s t ((view s)(L := ?D k)) (refs s) (owned s) \<and> disk t = disk s \<and> wtrace t = wtrace s"
  obtain u where u: "set_data x (\<lambda>hb. bstore32 hb 0 (of_nat n)) s = Done () u" "?I 0 u"
    using set_data_spec[OF assms, of "\<lambda>hb. bstore32 hb 0 (of_nat n)"] by auto
  have "runs (kfor [0..<n] (\<lambda>i. kbind (kget (\<lambda>s. lh_block s i)) (\<lambda>b. set_data x (\<lambda>hb. bstore32 hb (4 + 4 * i) b)))) u (\<lambda>_ t. ?I n t)"
  proof (rule runs_kfor_upt[where I = ?I])
    show "?I 0 u" by (rule u(2))
  next
    fix k t assume k: "k < n" and I: "?I k t"
    note T = bc_stepD[OF conjunct1[OF I]]
    have ot: "owned t L = Some (x, q)" using T(5) o by simp
    obtain v where v: "set_data x (\<lambda>hb. bstore32 hb (4 + 4 * k) (lh_block s k)) t = Done () v"
      "bc_step t v ((view t)(L := bstore32 (view t L) (4 + 4 * k) (lh_block s k))) (refs t) (owned t)" "disk v = disk t" "wtrace v = wtrace t"
      using set_data_spec[OF T(2) ot, of "\<lambda>hb. bstore32 hb (4 + 4 * k) (lh_block s k)"] by blast
    have "?I (Suc k) v" using bc_step_trans[OF conjunct1[OF I] v(2)] v(3,4) I T(3-5) by simp
    then show "runs (kbind (kget (\<lambda>s. lh_block s k)) (\<lambda>b. set_data x (\<lambda>hb. bstore32 hb (4 + 4 * k) b))) t (\<lambda>_ u. ?I (Suc k) u)"
      using v(1) lg_fields(7)[OF T(1)] by (simp add: runs_def kexec)
  qed
  then obtain t where "kfor [0..<n] (\<lambda>i. kbind (kget (\<lambda>s. lh_block s i)) (\<lambda>b. set_data x (\<lambda>hb. bstore32 hb (4 + 4 * i) b))) u = Done () t" "?I n t"
    by (auto simp: runs_iff)
  then show ?thesis using u(1) by (auto simp: kexec hdr_data_def)
qed

lemma write_head_spec:
  assumes i: "bc_inv s" and ok: "bio_ok s p" and o: "owned s = Map.empty" and n: "lh_n s = int n" and dev: "log_dev s = ROOTDEV"
    and room: "card {m. refs s m \<noteq> 0} < NBUF"
  defines "L \<equiv> unat (log_start s)"
  assumes r: "refs s L = 0"
  defines "D \<equiv> hdr_data n (lh_block s) (view s L)"
  shows "\<exists>t. write_head s = Done () t \<and> bc_step s t ((view s)(L := D)) (refs s) Map.empty
    \<and> disk t = (disk s)(L := D) \<and> wtrace t = wtrace s @ [(L, D)]"
proof -
  define q where "q = p_pid (procs s p)"
  obtain x t where R: "bread ROOTDEV (log_start s) s = Done x t" "bc_step s t (view s) ((refs s)(L := 1)) [L \<mapsto> (x, q)]"
      "disk t = disk s" "wtrace t = wtrace s"
    using bread_spec[OF i ok, of "log_start s"] o r room unfolding L_def q_def by auto
  note T = bc_stepD[OF R(2)] note K = bc_step_ok[OF R(2) ok, folded q_def]
  have ox: "owned t L = Some (x, q)" using T(5) by simp
  from hdr_fill_spec[OF T(2) ox, of n] obtain u where U: "kthen (set_data x (\<lambda>hb. bstore32 hb 0 (of_nat n)))
      (kfor [0..<n] (\<lambda>i. kbind (kget (\<lambda>s. lh_block s i)) (\<lambda>b. set_data x (\<lambda>hb. bstore32 hb (4 + 4 * i) b)))) t = Done () u"
      "bc_step t u ((view t)(L := D)) (refs t) (owned t)" "disk u = disk t" "wtrace u = wtrace t"
    using lg_fields(7)[OF T(1)] T(3) by (auto simp: D_def)
  note Y = bc_stepD[OF U(2)] note KU = bc_step_ok[OF U(2) K(1)]
  have ou: "owned u L = Some (x, p_pid (procs u p))" using Y(5) ox KU(2) K(2) by simp
  obtain v where V: "bwrite x u = Done () v" "bc_step u v (view u) (refs u) (owned u)" "disk v = (disk u)(L := view u L)"
      "wtrace v = wtrace u @ [(L, view u L)]" using bwrite_spec[OF Y(2) KU(1) ou] by blast
  note Z = bc_stepD[OF V(2)] note KV = bc_step_ok[OF V(2) KU(1)]
  have ov: "owned v L = Some (x, p_pid (procs v p))" using Z(5) ou KV(2) by simp
  have cl: "view v L = disk v L" using Z(3) V(3) by simp
  obtain w where W: "brelse x v = Done () w" "bc_step v w (view v) ((refs v)(L := refs v L - 1)) ((owned v)(L := None))"
      "disk w = disk v" "wtrace w = wtrace v" using brelse_spec[OF Z(2) KV(1) ov cl] by blast
  have "(refs v)(L := refs v L - 1) = refs s" "(owned v)(L := None) = Map.empty"
    using Z(4,5) Y(4,5) T(4,5) r by (auto simp: fun_eq_iff)
  then have "bc_step s w ((view s)(L := D)) (refs s) Map.empty"
    using bc_step_trans[OF bc_step_trans[OF bc_step_trans[OF R(2) U(2)] V(2)] W(2)] Z(3) Y(3) T(3) by simp
  moreover have "write_head s = Done () w"
    using n dev R(1) U(1) V(1) W(1) lg_fields(6)[OF T(1)] by (auto simp: write_head_def kexec split: outcome.splits)
  ultimately show ?thesis using W(3,4) V(3,4) U(3,4) R(3,4) Y(3) by auto
qed

subsection \<open>commit\<close>

lemma cache_cong:
  assumes "bufs t = bufs s" and "lru t = lru s" and "slocks t = slocks s" and "disk t = disk s"
  shows "bc_inv t = bc_inv s" "view t = view s" "refs t = refs s" "owned t = owned s"
  unfolding bc_inv_def view_def[abs_def] refs_def[abs_def] owned_def[abs_def] buf_of_def assms by (rule refl)+

lemma upd_lh_n [simp]:
  "bc_inv (s\<lparr>lh_n := x\<rparr>) = bc_inv s"
  "view (s\<lparr>lh_n := x\<rparr>) = view s"
  "refs (s\<lparr>lh_n := x\<rparr>) = refs s"
  "owned (s\<lparr>lh_n := x\<rparr>) = owned s"
  "bio_ok (s\<lparr>lh_n := x\<rparr>) p = bio_ok s p"
  by (rule cache_cong, simp_all)+ (simp add: bio_ok_def)

lemma upd_lh_block [simp]:
  "bc_inv (s\<lparr>lh_block := x\<rparr>) = bc_inv s"
  "view (s\<lparr>lh_block := x\<rparr>) = view s"
  "refs (s\<lparr>lh_block := x\<rparr>) = refs s"
  "owned (s\<lparr>lh_block := x\<rparr>) = owned s"
  "bio_ok (s\<lparr>lh_block := x\<rparr>) p = bio_ok s p"
  by (rule cache_cong, simp_all)+ (simp add: bio_ok_def)

lemma upd_log_start [simp]:
  "bc_inv (s\<lparr>log_start := x\<rparr>) = bc_inv s"
  "view (s\<lparr>log_start := x\<rparr>) = view s"
  "refs (s\<lparr>log_start := x\<rparr>) = refs s"
  "owned (s\<lparr>log_start := x\<rparr>) = owned s"
  "bio_ok (s\<lparr>log_start := x\<rparr>) p = bio_ok s p"
  by (rule cache_cong, simp_all)+ (simp add: bio_ok_def)

lemma upd_log_size [simp]:
  "bc_inv (s\<lparr>log_size := x\<rparr>) = bc_inv s"
  "view (s\<lparr>log_size := x\<rparr>) = view s"
  "refs (s\<lparr>log_size := x\<rparr>) = refs s"
  "owned (s\<lparr>log_size := x\<rparr>) = owned s"
  "bio_ok (s\<lparr>log_size := x\<rparr>) p = bio_ok s p"
  by (rule cache_cong, simp_all)+ (simp add: bio_ok_def)

lemma upd_log_dev [simp]:
  "bc_inv (s\<lparr>log_dev := x\<rparr>) = bc_inv s"
  "view (s\<lparr>log_dev := x\<rparr>) = view s"
  "refs (s\<lparr>log_dev := x\<rparr>) = refs s"
  "owned (s\<lparr>log_dev := x\<rparr>) = owned s"
  "bio_ok (s\<lparr>log_dev := x\<rparr>) p = bio_ok s p"
  by (rule cache_cong, simp_all)+ (simp add: bio_ok_def)

lemma upd_log_outstanding [simp]:
  "bc_inv (s\<lparr>log_outstanding := x\<rparr>) = bc_inv s"
  "view (s\<lparr>log_outstanding := x\<rparr>) = view s"
  "refs (s\<lparr>log_outstanding := x\<rparr>) = refs s"
  "owned (s\<lparr>log_outstanding := x\<rparr>) = owned s"
  "bio_ok (s\<lparr>log_outstanding := x\<rparr>) p = bio_ok s p"
  by (rule cache_cong, simp_all)+ (simp add: bio_ok_def)

lemma upd_log_committing [simp]:
  "bc_inv (s\<lparr>log_committing := x\<rparr>) = bc_inv s"
  "view (s\<lparr>log_committing := x\<rparr>) = view s"
  "refs (s\<lparr>log_committing := x\<rparr>) = refs s"
  "owned (s\<lparr>log_committing := x\<rparr>) = owned s"
  "bio_ok (s\<lparr>log_committing := x\<rparr>) p = bio_ok s p"
  by (rule cache_cong, simp_all)+ (simp add: bio_ok_def)

definition commit_trace :: "'a lgst_scheme \<Rightarrow> nat \<Rightarrow> (nat \<times> block) list" where
  "commit_trace s n =
     (let L = unat (log_start s); h = hdr_data n (lh_block s) (view s L)
      in log_writes s n @ [(L, h)] @ map (\<lambda>j. (home s j, view s (home s j))) [0..<n] @ [(L, hdr_data 0 (lh_block s) h)])"

text \<open>A transaction that no process is still writing to: its blocks, and no others, are pinned in the
  cache with their new content.\<close>

definition txn_ready :: "nat \<Rightarrow> nat \<Rightarrow> 'a lgst_scheme \<Rightarrow> bool" where
  "txn_ready p n s \<longleftrightarrow> bc_inv s \<and> bio_ok s p \<and> owned s = Map.empty \<and> txn_shape s n
     \<and> (\<forall>m. refs s m = (if m \<in> home s ` {..<n} then 1 else 0))"

lemma start_not_home:
  assumes "txn_shape s n"
  shows "unat (log_start s) \<notin> home s ` {..<n}" "j < LOGSIZE \<Longrightarrow> slot_no s j \<notin> home s ` {..<n}"
proof -
  have "unat (log_start s) \<in> lg_area s" by (simp add: lg_area_def)
  then show "unat (log_start s) \<notin> home s ` {..<n}" using assms by (auto simp: txn_shape_def)
  show "j < LOGSIZE \<Longrightarrow> slot_no s j \<notin> home s ` {..<n}" using slot_home[OF assms] by blast
qed

lemma commit_spec:
  assumes s: "txn_ready p n s" and pos: "0 < n"
  shows "\<exists>t. commit s = Done () t \<and> bc_idle p t \<and> disk t = apply_writes (commit_trace s n) (disk s)
    \<and> wtrace t = wtrace s @ commit_trace s n \<and> lh_n t = 0 \<and> bio_ok t p \<and> held t = held s"
proof -
  define L where "L = unat (log_start s)"
  have S: "bc_inv s" "bio_ok s p" "owned s = Map.empty" "txn_shape s n" "\<And>m. refs s m = (if m \<in> home s ` {..<n} then 1 else 0)"
    using s by (simp_all add: txn_ready_def)
  have X: "n < LOGSIZE" "log_dev s = ROOTDEV" "lh_n s = int n" using S(4) by (simp_all add: txn_shape_def)
  have "{m. refs s m \<noteq> 0} = home s ` {..<n}" using S(5) by auto
  then have "card {m. refs s m \<noteq> 0} \<le> n" using card_image_le[of "{..<n}" "home s"] by simp
  then have room: "card {m. refs s m \<noteq> 0} < NBUF" using X(1) by (simp add: LOGSIZE_def NBUF_def)
  obtain t1 where t1: "write_log s = Done () t1" "bc_step s t1 (apply_writes (log_writes s n) (view s)) (refs s) Map.empty"
    "disk t1 = apply_writes (log_writes s n) (disk s)" "wtrace t1 = wtrace s @ log_writes s n"
    using write_log_spec[OF S(1-4)] S(5) by blast
  note A = bc_stepD[OF t1(2)] note FA = lg_fields[OF A(1)]
  have vL: "view t1 L = view s L"
    unfolding A(3) log_writes_def L_def by (rule apply_writes_away) (simp add: slot_no_def)
  define h where "h = hdr_data n (lh_block s) (view s L)"
  obtain t2 where t2: "write_head t1 = Done () t2" "bc_step t1 t2 ((view t1)(L := h)) (refs t1) Map.empty"
    "disk t2 = (disk t1)(L := h)" "wtrace t2 = wtrace t1 @ [(L, h)]"
    using write_head_spec[OF A(2) bc_step_ok(1)[OF t1(2) S(2)] A(5), of n] FA X vL room A(4) S(5) start_not_home(1)[OF S(4)]
    unfolding h_def L_def by auto
  note st2 = bc_step_trans[OF t1(2) t2(2)]
  note B = bc_stepD[OF st2] note FB = lg_fields[OF B(1)] note DB = lg_derived[OF B(1)]
  have slot: "view t2 (slot_no s j) = view s (home s j)" if "j < n" for j
    using that apply_writes_hit[OF slot_inj that, of s "\<lambda>j. view s (home s j)" "view s"]
    unfolding B(3) A(3) by (simp add: slot_no_def L_def log_writes_def)
  have hw: "home_writes t2 n = map (\<lambda>j. (home s j, view s (home s j))) [0..<n]"
    unfolding home_writes_def DB using slot by simp
  have "refs t2 m = (if \<not> False \<and> m \<in> home t2 ` {..<n} then 1 else 0)" for m unfolding B(4) A(4) DB S(5) by simp
  from install_trans_spec[OF B(2) bc_step_ok(1)[OF st2 S(2)] B(5) _ this] obtain t3 where
    t3: "install_trans False t2 = Done () t3" "bc_step t2 t3 (apply_writes (home_writes t2 n) (view t2)) (\<lambda>_. 0) Map.empty"
      "disk t3 = apply_writes (home_writes t2 n) (disk t2)" "wtrace t3 = wtrace t2 @ home_writes t2 n"
    using S(4) unfolding DB(4) by blast
  note st3 = bc_step_trans[OF st2 t3(2)]
  note C = bc_stepD[OF st3] note FC = lg_fields[OF C(1)]
  let ?t = "t3\<lparr>lh_n := 0\<rparr>"
  have v3: "view t3 L = h"
  proof -
    have "view t3 L = view t2 L" unfolding C(3) hw
      by (rule apply_writes_away) (use start_not_home(1)[OF S(4)] in \<open>auto simp: L_def\<close>)
    then show ?thesis using B(3) by simp
  qed
  have c0: "card {m. refs ?t m \<noteq> 0} < NBUF" unfolding upd_lh_n C(4) by (simp add: NBUF_def MAXOPBLOCKS_def)
  have ok3: "bio_ok ?t p" using bc_step_ok(1)[OF st3 S(2)] by simp
  from write_head_spec[of ?t p 0, OF _ ok3] obtain t4 where
    t4: "write_head ?t = Done () t4" "bc_step ?t t4 ((view t3)(L := hdr_data 0 (lh_block s) h)) (refs t3) Map.empty"
      "disk t4 = (disk t3)(L := hdr_data 0 (lh_block s) h)" "wtrace t4 = wtrace t3 @ [(L, hdr_data 0 (lh_block s) h)]"
    using C(2,4,5) c0 FC X v3 by (auto simp: L_def)
  note D = bc_stepD[OF t4(2)]
  have "bc_idle p t4" unfolding bc_idle_def using D C(4) bc_step_ok(1)[OF t4(2) ok3] by auto
  moreover have "commit s = Done () t4"
    using X(3) pos t1(1) t2(1) t3(1) t4(1) by (simp add: commit_def kexec)
  moreover have "wtrace t4 = wtrace s @ commit_trace s n"
    using t4(4) t3(4) t2(4) t1(4) hw by (simp add: commit_trace_def Let_def L_def h_def)
  moreover have "disk t4 = apply_writes (commit_trace s n) (disk s)"
    using t4(3) t3(3) t2(3) t1(3) hw by (simp add: commit_trace_def Let_def L_def h_def)
  moreover have "lh_n t4 = 0" using lg_fields(6)[OF D(1)] by simp
  moreover have "held t4 = held s" using bframeD(1)[OF D(1)] bframeD(1)[OF C(1)] by simp
  ultimately show ?thesis by (auto simp: bc_idle_def)
qed

subsection \<open>Recovery\<close>

lemma lh_fill_exec:
  "kfor [0..<n] (\<lambda>i. kmod (\<lambda>s. s\<lparr>lh_block := (lh_block s)(i := f i)\<rparr>)) s
     = Done () (s\<lparr>lh_block := \<lambda>i. if i < n then f i else lh_block s i\<rparr>)"
proof -
  have "runs (kfor [0..<n] (\<lambda>i. kmod (\<lambda>s. s\<lparr>lh_block := (lh_block s)(i := f i)\<rparr>))) s
      (\<lambda>_ t. t = s\<lparr>lh_block := \<lambda>i. if i < n then f i else lh_block s i\<rparr>)"
  proof (rule runs_kfor_upt[where I = "\<lambda>k t. t = s\<lparr>lh_block := \<lambda>i. if i < k then f i else lh_block s i\<rparr>"])
    fix k t assume "k < n" and t: "t = s\<lparr>lh_block := \<lambda>i. if i < k then f i else lh_block s i\<rparr>"
    have "(\<lambda>i. if i < k then f i else lh_block s i)(k := f k) = (\<lambda>i. if i < Suc k then f i else lh_block s i)"
      by (auto simp: fun_eq_iff less_Suc_eq)
    then show "runs (kmod (\<lambda>s. s\<lparr>lh_block := (lh_block s)(k := f k)\<rparr>)) t
        (\<lambda>_ u. u = s\<lparr>lh_block := \<lambda>i. if i < Suc k then f i else lh_block s i\<rparr>)"
      by (simp add: runs_rules t)
  qed simp
  then show ?thesis by (auto simp: runs_iff)
qed

lemma read_head_idle:
  assumes s: "bc_idle p s" and dev: "log_dev s = ROOTDEV"
  defines "h \<equiv> disk s (unat (log_start s))"
  shows "\<exists>t. read_head s = Done () t \<and> bc_idle p t \<and> disk t = disk s \<and> lh_n t = sint (bload32 h 0)
    \<and> (\<forall>i. i < nat (sint (bload32 h 0)) \<longrightarrow> lh_block t i = bload32 h (4 + 4 * i))
    \<and> log_start t = log_start s \<and> log_dev t = ROOTDEV"
proof -
  define L where "L = unat (log_start s)"
  obtain x t where R: "bread ROOTDEV (log_start s) s = Done x t" "bc_step s t (disk s) ((\<lambda>_. 0)(L := 1)) [L \<mapsto> (x, p_pid (procs s p))]"
      "disk t = disk s" using idle_bread[OF s] unfolding L_def by blast
  note T = bc_stepD[OF R(2)]
  have ok0: "bio_ok s p" using s by (simp add: bc_idle_def)
  note K = bc_step_ok[OF R(2) ok0]
  have g: "get_data x t = Done h t" using get_data_exec[OF T(2), of L] T(3,5) by (simp add: h_def L_def)
  let ?u = "t\<lparr>lh_n := sint (bload32 h 0), lh_block := \<lambda>i. if i < nat (sint (bload32 h 0)) then bload32 h (4 + 4 * i) else lh_block t i\<rparr>"
  have U: "bc_inv ?u" "bio_ok ?u p" "owned ?u L = Some (x, p_pid (procs ?u p))" "view ?u L = disk ?u L"
    using T(2,3,5) K R(3) by simp_all
  obtain w where W: "brelse x ?u = Done () w" "bc_step ?u w (view ?u) ((refs ?u)(L := refs ?u L - 1)) ((owned ?u)(L := None))"
      "disk w = disk ?u" using brelse_spec[OF U] by blast
  note Z = bc_stepD[OF W(2)] note F = lg_fields[OF Z(1)] and F0 = lg_fields[OF T(1)]
  have "bc_idle p w" unfolding bc_idle_def using Z T bc_step_ok(1)[OF W(2) U(2)] by auto
  moreover have "read_head s = Done () w" using dev R(1) g W(1) by (simp add: read_head_def kexec lh_fill_exec cong: if_cong)
  ultimately show ?thesis using W(3) R(3) F F0 dev by auto
qed

text \<open>What recovery makes of a disk whose log starts at block \<open>L\<close>.\<close>

definition rec_n :: "nat \<Rightarrow> (nat \<Rightarrow> block) \<Rightarrow> nat" where
  "rec_n L d = nat (sint (bload32 (d L) 0))"

definition rec_home :: "nat \<Rightarrow> (nat \<Rightarrow> block) \<Rightarrow> nat \<Rightarrow> nat" where
  "rec_home L d k = unat (bload32 (d L) (4 + 4 * k))"

definition rec_ok :: "nat \<Rightarrow> (nat \<Rightarrow> block) \<Rightarrow> bool" where
  "rec_ok L d \<longleftrightarrow> 0 \<le> sint (bload32 (d L) 0) \<and> rec_n L d < LOGSIZE \<and> L + LOGSIZE < 2 ^ 32
     \<and> inj_on (rec_home L d) {..<rec_n L d} \<and> (\<forall>k<rec_n L d. rec_home L d k \<notin> {L..L + LOGSIZE})"

lemma initlog_spec:
  assumes s: "bc_idle p s" and ok: "rec_ok (unat start) (disk s)"
  defines "L \<equiv> unat start"
  shows "\<exists>t. initlog ROOTDEV start nlog s = Done () t \<and> bc_idle p t \<and> lh_n t = 0 \<and> log_start t = start
    \<and> disk t = (apply_writes (map (\<lambda>j. (rec_home L (disk s) j, disk s (L + j + 1))) [0..<rec_n L (disk s)]) (disk s))
        (L := bstore32 (disk s L) 0 0)"
proof -
  let ?s = "s\<lparr>log_start := start, log_size := sint nlog, log_dev := ROOTDEV\<rparr>"
  have s': "bc_idle p ?s"
    using s by (simp add: bc_idle_def)
  obtain t where t: "read_head ?s = Done () t" "bc_idle p t" "disk t = disk s" "lh_n t = sint (bload32 (disk s L) 0)"
      "\<forall>i. i < nat (sint (bload32 (disk s L) 0)) \<longrightarrow> lh_block t i = bload32 (disk s L) (4 + 4 * i)"
      "log_start t = start" "log_dev t = ROOTDEV"
    using read_head_idle[OF s'] unfolding L_def by auto
  define n where "n = rec_n L (disk s)"
  have hm: "home t k = rec_home L (disk s) k" if "k < n" for k using t(5) that by (simp add: home_def rec_home_def n_def rec_n_def)
  have area: "lg_area t = {L..L + LOGSIZE}" by (simp add: lg_area_def t(6) L_def)
  have "inj_on (home t) {..<n}" using ok hm unfolding rec_ok_def by (auto simp: n_def L_def inj_on_def)
  then have tx: "txn_shape t n"
    using ok t(4,6,7) hm area unfolding txn_shape_def rec_ok_def by (simp add: n_def rec_n_def L_def)
  have T: "bc_inv t" "bio_ok t p" "owned t = Map.empty" "refs t = (\<lambda>_. 0)" using t(2) by (simp_all add: bc_idle_def)
  obtain u where u: "install_trans True t = Done () u" "bc_step t u (apply_writes (home_writes t n) (view t)) (\<lambda>_. 0) Map.empty"
      "disk u = apply_writes (home_writes t n) (disk t)"
    using install_trans_spec[OF T(1-3) tx, of True] T(4) by auto
  note U = bc_stepD[OF u(2)] note F = lg_fields[OF U(1)]
  have hw: "home_writes t n = map (\<lambda>j. (rec_home L (disk s) j, disk s (L + j + 1))) [0..<n]"
    unfolding home_writes_def using hm idle_view[OF t(2)] t(3,6) by (simp add: slot_no_def L_def)
  have vL: "view u L = disk s L"
  proof -
    have "view u L = view t L" unfolding U(3) home_writes_def
      by (rule apply_writes_away) (use start_not_home(1)[OF tx] t(6) in \<open>auto simp: L_def\<close>)
    then show ?thesis using idle_view[OF t(2)] t(3) by simp
  qed
  let ?u = "u\<lparr>lh_n := 0\<rparr>"
  have oku: "bio_ok ?u p" using bc_step_ok(1)[OF u(2) T(2)] by simp
  have c0: "card {m. refs ?u m \<noteq> 0} < NBUF" unfolding upd_lh_n U(4) by (simp add: NBUF_def MAXOPBLOCKS_def)
  have h0: "hdr_data 0 blk d = bstore32 d 0 0" for blk d by (simp add: hdr_data_def)
  from write_head_spec[of ?u p 0, OF _ oku] obtain w where
    w: "write_head ?u = Done () w" "bc_step ?u w ((view u)(L := bstore32 (disk s L) 0 0)) (refs u) Map.empty"
      "disk w = (disk u)(L := bstore32 (disk s L) 0 0)"
    using U(2,4,5) c0 F t(6,7) vL by (auto simp: L_def h0)
  note Z = bc_stepD[OF w(2)]
  have "bc_idle p w" unfolding bc_idle_def using Z U(4) bc_step_ok(1)[OF w(2) oku] by auto
  moreover have "initlog ROOTDEV start nlog s = Done () w"
    using t(1) u(1) w(1) by (simp add: initlog_def recover_from_log_def kexec BSIZE_def LOGSIZE_def MAXOPBLOCKS_def)
  moreover have "lh_n w = 0" "log_start w = start" using lg_fields[OF Z(1)] F t(6) by simp_all
  ultimately show ?thesis using w(3) u(3) hw t(3) by (auto simp: n_def)
qed

subsection \<open>Crash atomicity\<close>

definition crash_disk :: "'a lgst_scheme \<Rightarrow> nat \<Rightarrow> nat \<Rightarrow> nat \<Rightarrow> block" where
  "crash_disk s n k = apply_writes (take k (commit_trace s n)) (disk s)"

definition home_copy :: "'a lgst_scheme \<Rightarrow> nat \<Rightarrow> (nat \<times> block) list" where
  "home_copy s k = map (\<lambda>j. (home s j, view s (home s j))) [0..<k]"

lemma commit_trace_alt:
  "commit_trace s n = log_writes s n @ [(unat (log_start s), hdr_data n (lh_block s) (view s (unat (log_start s))))]
     @ home_copy s n @ [(unat (log_start s), bstore32 (hdr_data n (lh_block s) (view s (unat (log_start s)))) 0 0)]"
  by (simp add: commit_trace_def home_copy_def Let_def) (simp add: hdr_data_def)

lemma take_map_upt: "k \<le> n \<Longrightarrow> take k (map f [0..<n]) = map f [0..<k]"
  by (simp add: take_map)

lemma crash_cases:
  obtains (early) "k \<le> n" "crash_disk s n k = apply_writes (log_writes s k) (disk s)"
  | (mid) j where "j \<le> n" "crash_disk s n k = apply_writes (home_copy s j)
      ((apply_writes (log_writes s n) (disk s))(unat (log_start s) := hdr_data n (lh_block s) (view s (unat (log_start s)))))"
  | (late) "crash_disk s n k = (apply_writes (home_copy s n)
      ((apply_writes (log_writes s n) (disk s))(unat (log_start s) := hdr_data n (lh_block s) (view s (unat (log_start s))))))
      (unat (log_start s) := bstore32 (hdr_data n (lh_block s) (view s (unat (log_start s)))) 0 0)"
proof -
  have l: "length (log_writes s n) = n" "length (home_copy s n) = n" by (simp_all add: log_writes_def home_copy_def)
  consider "k \<le> n" | j where "j \<le> n" "k = n + 1 + j" | "2 * n + 2 \<le> k"
  proof (cases "k \<le> n \<or> 2 * n + 2 \<le> k")
    case False
    then have "k - n - 1 \<le> n" "k = n + 1 + (k - n - 1)" by linarith+
    then show ?thesis using that(2) by blast
  qed (use that(1,3) in blast)
  then show thesis
  proof cases
    case 1
    then have "take k (commit_trace s n) = log_writes s k"
      by (simp add: commit_trace_alt l) (simp add: log_writes_def take_map_upt)
    then show ?thesis using early 1 by (simp add: crash_disk_def)
  next
    case (2 j)
    then have "take k (commit_trace s n) = log_writes s n @ [(unat (log_start s), hdr_data n (lh_block s) (view s (unat (log_start s))))] @ home_copy s j"
      by (simp add: commit_trace_alt l) (simp add: home_copy_def take_map_upt)
    then show ?thesis using mid 2(1) by (simp add: crash_disk_def)
  next
    case 3
    then have "take k (commit_trace s n) = commit_trace s n" by (simp add: commit_trace_alt l)
    then show ?thesis using late by (simp add: crash_disk_def commit_trace_alt)
  qed
qed

lemma log_writes_away: "m \<notin> lg_area s \<Longrightarrow> k \<le> LOGSIZE \<Longrightarrow> apply_writes (log_writes s k) d m = d m"
  "apply_writes (log_writes s k) d (unat (log_start s)) = d (unat (log_start s))"
  unfolding log_writes_def by (rule apply_writes_away, use slot_area[of _ s] in force, rule apply_writes_away, simp add: slot_no_def)

lemma ready_clean: "txn_ready p n s \<Longrightarrow> m \<notin> home s ` {..<n} \<Longrightarrow> view s m = disk s m"
  by (rule clean_view) (simp_all add: txn_ready_def)

lemma home_copy_full:
  assumes "txn_ready p n s" and "\<And>m. m \<notin> lg_area s \<Longrightarrow> m \<notin> home s ` {..<n} \<Longrightarrow> d m = disk s m" and "m \<notin> lg_area s"
  shows "apply_writes (home_copy s n) d m = view s m"
proof (cases "m \<in> home s ` {..<n}")
  case True
  then obtain j where j: "j < n" "m = home s j" by auto
  have "inj_on (home s) {..<n}" using assms(1) by (simp add: txn_ready_def txn_shape_def)
  then show ?thesis using apply_writes_hit[of "home s" n j "\<lambda>j. view s (home s j)"] j by (simp add: home_copy_def)
next
  case False
  then have "apply_writes (home_copy s n) d m = d m" unfolding home_copy_def by (intro apply_writes_away) auto
  then show ?thesis using assms(2)[OF assms(3) False] ready_clean[OF assms(1) False] by simp
qed

lemma home_copy_area:
  "txn_shape s n \<Longrightarrow> m \<in> lg_area s \<Longrightarrow> j \<le> n \<Longrightarrow> apply_writes (home_copy s j) d m = d m"
  unfolding home_copy_def by (intro apply_writes_away) (auto simp: txn_shape_def)

lemma sint_n: "n < LOGSIZE \<Longrightarrow> sint (of_nat n :: uint) = int n"
  using sint_small[of "of_nat n"] by (simp add: LOGSIZE_def MAXOPBLOCKS_def unat_of_nat)

text \<open>A header that reads as empty: recovery only rewrites the header.\<close>

lemma recover_empty:
  assumes r: "bc_idle q r" and e: "bload32 (disk r L) 0 = 0" and L: "L = unat start" "L + LOGSIZE < 2 ^ 32"
  shows "\<exists>t. initlog ROOTDEV start nlog r = Done () t \<and> disk t = (disk r)(L := bstore32 (disk r L) 0 0)"
proof -
  have "rec_ok L (disk r)" using e L(2) by (simp add: rec_ok_def rec_n_def LOGSIZE_def MAXOPBLOCKS_def)
  then show ?thesis using initlog_spec[OF r, of start nlog] e L(1) by (auto simp: rec_n_def)
qed

lemma crash_recovers:
  assumes s: "txn_ready p n s" and empty: "bload32 (disk s (unat (log_start s))) 0 = 0"
    and r: "bc_idle q r" and d: "disk r = crash_disk s n k"
  shows "\<exists>t. initlog ROOTDEV (log_start s) nlog r = Done () t
    \<and> ((\<forall>m. m \<notin> lg_area s \<longrightarrow> disk t m = disk s m) \<or> (\<forall>m. m \<notin> lg_area s \<longrightarrow> disk t m = view s m))"
proof -
  define L where "L = unat (log_start s)"
  define h where "h = hdr_data n (lh_block s) (view s L)"
  have tx: "txn_shape s n" using s by (simp add: txn_ready_def)
  have X: "n < LOGSIZE" "L + LOGSIZE < 2 ^ 32" "inj_on (home s) {..<n}" "\<And>j. j < n \<Longrightarrow> home s j \<notin> lg_area s"
    using tx by (simp_all add: txn_shape_def L_def)
  have LA: "L \<in> lg_area s" by (simp add: lg_area_def L_def)
  have area: "lg_area s = {L..L + LOGSIZE}" by (simp add: lg_area_def L_def)
  show ?thesis
  proof (cases rule: crash_cases[of k n s])
    case early
    have "bload32 (disk r L) 0 = 0" using empty log_writes_away(2)[of s k "disk s"] d early(2) by (simp add: L_def)
    from recover_empty[OF r this L_def X(2)] obtain t where
      t: "initlog ROOTDEV (log_start s) nlog r = Done () t" "disk t = (disk r)(L := bstore32 (disk r L) 0 0)" by blast
    have "disk t m = disk s m" if "m \<notin> lg_area s" for m
      using that LA t(2) d early log_writes_away(1)[OF that, of k "disk s"] X(1) by (cases "m = L") auto
    then show ?thesis using t(1) by blast
  next
    case late
    then have dr: "disk r = (apply_writes (home_copy s n) ((apply_writes (log_writes s n) (disk s))(L := h)))(L := bstore32 h 0 0)"
      using d by (simp add: L_def h_def)
    have "bload32 (disk r L) 0 = 0" by (simp add: dr)
    from recover_empty[OF r this L_def X(2)] obtain t where
      t: "initlog ROOTDEV (log_start s) nlog r = Done () t" "disk t = (disk r)(L := bstore32 (disk r L) 0 0)" by blast
    have "disk t m = view s m" if "m \<notin> lg_area s" for m
    proof -
      have "m \<noteq> L" using that LA by auto
      then have "disk t m = apply_writes (home_copy s n) ((apply_writes (log_writes s n) (disk s))(L := h)) m" by (simp add: t(2) dr)
      also have "\<dots> = view s m"
        by (rule home_copy_full[OF s _ that]) (use LA log_writes_away(1)[of _ s n "disk s"] X(1) in auto)
      finally show ?thesis .
    qed
    then show ?thesis using t(1) by blast
  next
    case (mid j)
    then have dr: "disk r = apply_writes (home_copy s j) ((apply_writes (log_writes s n) (disk s))(L := h))"
      using d by (simp add: L_def h_def)
    have hL: "disk r L = h" using home_copy_area[OF tx LA mid(1)] by (simp add: dr)
    have rn: "rec_n L (disk r) = n" "0 \<le> sint (bload32 (disk r L) 0)" using hdr_read(1)[of n] sint_n[OF X(1)] by (simp_all add: rec_n_def hL h_def)
    have rh: "rec_home L (disk r) i = home s i" if "i < n" for i
      using hdr_read(2)[OF that] by (simp add: rec_home_def hL h_def home_def)
    have slot: "disk r (L + i + 1) = view s (home s i)" if "i < n" for i
    proof -
      have a: "L + i + 1 \<in> lg_area s" using that X(1) by (simp add: area)
      then have "disk r (L + i + 1) = apply_writes (log_writes s n) (disk s) (slot_no s i)"
        using home_copy_area[OF tx a mid(1)] by (simp add: dr slot_no_def L_def)
      then show ?thesis using apply_writes_hit[OF slot_inj that, of s "\<lambda>j. view s (home s j)"] by (simp add: log_writes_def)
    qed
    have ok: "rec_ok L (disk r)" using rn rh X area by (auto simp: rec_ok_def inj_on_def)
    have m: "map (\<lambda>i. (rec_home L (disk r) i, disk r (L + i + 1))) [0..<n] = home_copy s n"
      using rh slot by (simp add: home_copy_def)
    from initlog_spec[OF r ok[unfolded L_def], of nlog] obtain t where
      t: "initlog ROOTDEV (log_start s) nlog r = Done () t" "disk t = (apply_writes (home_copy s n) (disk r))(L := bstore32 (disk r L) 0 0)"
      unfolding L_def[symmetric] rn(1) m by blast
    have "disk t m = view s m" if "m \<notin> lg_area s" for m
    proof -
      have "m \<noteq> L" using that LA by auto
      then have "disk t m = apply_writes (home_copy s n) (disk r) m" by (simp add: t(2))
      also have "\<dots> = view s m"
      proof (rule home_copy_full[OF s _ that])
        fix x assume x: "x \<notin> lg_area s" "x \<notin> home s ` {..<n}"
        then have "disk r x = ((apply_writes (log_writes s n) (disk s))(L := h)) x"
          unfolding dr home_copy_def using mid(1) by (intro apply_writes_away) auto
        then show "disk r x = disk s x" using x LA log_writes_away(1)[OF x(1), of n] X(1) by auto
      qed
      finally show ?thesis .
    qed
    then show ?thesis using t(1) by blast
  qed
qed

lemma commit_atomic:
  assumes s: "txn_ready p n s" and pos: "0 < n" and empty: "bload32 (disk s (unat (log_start s))) 0 = 0"
  shows "\<exists>u W. commit s = Done () u \<and> bc_idle p u \<and> held u = held s \<and> wtrace u = wtrace s @ W \<and> (\<forall>m. m \<notin> lg_area s \<longrightarrow> disk u m = view s m)
    \<and> (\<forall>k q r. bc_idle q r \<longrightarrow> disk r = apply_writes (take k W) (disk s) \<longrightarrow>
         (\<exists>t. initlog ROOTDEV (log_start s) nlog r = Done () t
            \<and> ((\<forall>m. m \<notin> lg_area s \<longrightarrow> disk t m = disk s m) \<or> (\<forall>m. m \<notin> lg_area s \<longrightarrow> disk t m = view s m))))"
proof -
  obtain u where u: "commit s = Done () u" "disk u = apply_writes (commit_trace s n) (disk s)" "wtrace u = wtrace s @ commit_trace s n"
      "bc_idle p u" "held u = held s"
    using commit_spec[OF s pos] by blast
  have "disk u m = view s m" if m: "m \<notin> lg_area s" for m
  proof -
    have L: "unat (log_start s) \<in> lg_area s" by (simp add: lg_area_def)
    have n: "n \<le> LOGSIZE" using s by (simp add: txn_ready_def txn_shape_def)
    have "m \<noteq> unat (log_start s)" using m L by auto
    let ?d = "(apply_writes (log_writes s n) (disk s))(unat (log_start s) := hdr_data n (lh_block s) (view s (unat (log_start s))))"
    have "disk u m = apply_writes (home_copy s n) ?d m" using \<open>m \<noteq> unat (log_start s)\<close> by (simp add: u(2) commit_trace_alt)
    also have "\<dots> = view s m"
      by (rule home_copy_full[OF s _ m]) (use log_writes_away(1)[of _ s n "disk s"] n L in auto)
    finally show ?thesis .
  qed
  then show ?thesis using u(1,3-5) crash_recovers[OF s empty] unfolding crash_disk_def by blast
qed

text \<open>C2: crash atomicity of the file-system log. \<open>commit\<close> of a transaction performs a sequence \<open>W\<close> of disk
  writes after which every block outside the log has its new content. Cut \<open>W\<close> after any number of
  writes, reboot with a cold cache on what is then on the disk, and run \<open>initlog\<close>: recovery
  completes, and every block outside the log has its old content, or every one has its new
  content.\<close>

theorem commit_crash_atomic:
  assumes s: "txn_ready p n s" and pos: "0 < n" and empty: "bload32 (disk s (unat (log_start s))) 0 = 0"
  shows "\<exists>u W. commit s = Done () u \<and> wtrace u = wtrace s @ W \<and> (\<forall>m. m \<notin> lg_area s \<longrightarrow> disk u m = view s m)
    \<and> (\<forall>k q r. bc_idle q r \<longrightarrow> disk r = apply_writes (take k W) (disk s) \<longrightarrow>
         (\<exists>t. initlog ROOTDEV (log_start s) nlog r = Done () t
            \<and> ((\<forall>m. m \<notin> lg_area s \<longrightarrow> disk t m = disk s m) \<or> (\<forall>m. m \<notin> lg_area s \<longrightarrow> disk t m = view s m))))"
  using commit_atomic[OF assms] by blast

subsection \<open>log_write\<close>

definition log_room :: "'a lgst_scheme \<Rightarrow> nat \<Rightarrow> bool" where
  "log_room s n \<longleftrightarrow> lh_n s = int n \<and> n < LOGSIZE \<and> int n < log_size s - 1 \<and> 1 \<le> log_outstanding s
     \<and> LOG_LOCK \<notin> held s \<and> BCACHE_LOCK \<notin> held s"

lemma bpin_exec:
  "BCACHE_LOCK \<notin> held s \<Longrightarrow> bpin i s = Done () (s\<lparr>bufs := (bufs s)(i := (bufs s i)\<lparr>b_refcnt := b_refcnt (bufs s i) + 1\<rparr>)\<rparr>)"
  by (simp add: bpin_def set_buf_def kexec)

lemma log_write_spec:
  assumes i: "bc_inv s" and o: "owned s m = Some (b, q)" and r: "log_room s n" and small: "refs s m + 1 < 2 ^ 32"
  shows "\<exists>t. log_write b s = Done () t \<and> bc_inv t \<and> view t = view s \<and> owned t = owned s \<and> disk t = disk s
    \<and> procs t = procs s \<and> held t = held s \<and> cur t = cur s \<and> log_start t = log_start s \<and> log_dev t = log_dev s
    \<and> (if m \<in> home s ` {..<n} then lh_n t = int n \<and> home t = home s \<and> refs t = refs s
       else lh_n t = int (Suc n) \<and> home t = (home s)(n := m) \<and> refs t = (refs s)(m := refs s m + 1))"
proof -
  note O = owned_buf[OF i o]
  have R: "lh_n s = int n" "n < LOGSIZE" "\<not> int n \<ge> log_size s - 1" "\<not> log_outstanding s < 1" "LOG_LOCK \<notin> held s" "BCACHE_LOCK \<notin> held s"
    using r by (simp_all add: log_room_def)
  let ?w = "b_blockno (bufs s b)"
  show ?thesis
  proof (cases "m \<in> home s ` {..<n}")
    case True
    then obtain k where k: "k < n" "lh_block s k = ?w" using O(10) by (auto simp: home_def word_unat_eq_iff)
    then obtain j where j: "List.find (\<lambda>i. lh_block s i = ?w) [0..<n] = Some j" "j < n" "lh_block s j = ?w"
      using find_ex[of k "[0..<n]" "\<lambda>i. lh_block s i = ?w"] by auto
    have "(lh_block s)(j := ?w) = lh_block s" using j(3) by auto
    then have "log_write b s = Done () s"
      using R j by (simp add: log_write_def kexec Let_def)
    then show ?thesis using True i R(1) by auto
  next
    case False
    then have "home s k \<noteq> m" if "k < n" for k using that by auto
    then have "lh_block s k \<noteq> ?w" if "k < n" for k using that O(10) by (fastforce simp: home_def)
    then have f: "List.find (\<lambda>i. lh_block s i = ?w) [0..<n] = None" by (simp add: find_None_iff)
    let ?t = "s\<lparr>bufs := (bufs s)(b := (bufs s b)\<lparr>b_refcnt := b_refcnt (bufs s b) + 1\<rparr>)\<rparr>"
    let ?u = "?t\<lparr>lh_block := (lh_block s)(n := ?w), lh_n := int (Suc n)\<rparr>"
    have "bc_step s ?t (view s) ((refs s)(m := refs s m + 1)) (owned s)"
      using bpin_spec[OF i R(6) o small] bpin_exec[OF R(6), of b] by auto
    note T = bc_stepD[OF this]
    have "log_write b s = Done () ?u"
      using R f by (simp add: log_write_def kexec Let_def bpin_exec)
    moreover have "home ?u = (home s)(n := m)" using O(10) by (auto simp: home_def fun_eq_iff)
    ultimately show ?thesis using False T by auto
  qed
qed

text \<open>A first transaction: one block changed on a fresh system.\<close>

definition boot_lgst :: lgst where
  "boot_lgst = bst.extend boot_bst (lgst.fields 2 30 1 False ROOTDEV 0 (\<lambda>_. 0))"

lemma boot_lgst_simps [simp]:
  "cold_cache boot_lgst" "bio_ok boot_lgst 0" "disk boot_lgst = (\<lambda>_ _. 0)" "log_start boot_lgst = 2" "log_size boot_lgst = 30"
  "log_outstanding boot_lgst = 1" "log_dev boot_lgst = ROOTDEV" "lh_n boot_lgst = 0" "held boot_lgst = {}"
  by (simp_all add: boot_lgst_def boot_bst_def cold_cache_def bio_ok_def bst.defs mst.defs lgst.defs zero_buf_def boot_mst_def boot_kst_def kst.defs)

lemma boot_idle:
  "\<exists>t. bc_idle 0 t \<and> disk t = (\<lambda>_ _. 0) \<and> (\<exists>l k. t = boot_lgst\<lparr>lru := l, slocks := k\<rparr>)"
proof -
  obtain t where t: "binit boot_lgst = Done () t" "bc_idle 0 t" "disk t = (\<lambda>_ _. 0)"
    using binit_idle[of boot_lgst 0] by auto
  have "\<exists>l k. Done () t = Done () (boot_lgst\<lparr>lru := l, slocks := k\<rparr>)"
    unfolding t(1)[symmetric] binit_exec[of boot_lgst] by (intro exI) (rule refl)
  then show ?thesis using t(2,3) by blast
qed

lemma ex_txn: "\<exists>s :: lgst. txn_ready 0 1 s \<and> bload32 (disk s (unat (log_start s))) 0 = 0 \<and> unat (log_start s) = 2
    \<and> view s 50 = (\<lambda>_. 7) \<and> disk s 50 = (\<lambda>_. 0)"
proof -
  obtain t l k where t: "bc_idle 0 t" "disk t = (\<lambda>_ _. 0)" "t = boot_lgst\<lparr>lru := l, slocks := k\<rparr>" using boot_idle by blast
  have f: "log_start t = 2" "log_size t = 30" "log_outstanding t = 1" "log_dev t = ROOTDEV" "lh_n t = 0" "held t = {}"
    unfolding t(3) by simp_all
  define q where "q = p_pid (procs t 0)"
  have ok: "bio_ok t 0" using t(1) by (simp add: bc_idle_def)
  obtain x u where u: "bread ROOTDEV 50 t = Done x u" "bc_step t u (disk t) ((\<lambda>_. 0)(50 := 1)) [50 \<mapsto> (x, q)]" "disk u = disk t"
    using idle_bread[OF t(1), of 50] by (auto simp: q_def)
  note U = bc_stepD[OF u(2)]
  obtain v where v: "bc_step u v ((view u)(50 := \<lambda>_. 7)) (refs u) (owned u)" "disk v = disk u"
    using set_data_spec[OF U(2), of 50 x q "\<lambda>_. \<lambda>_. 7"] U(5) by auto
  note V = bc_stepD[OF v(1)] note st = bc_step_trans[OF u(2) v(1)] note W = bc_stepD[OF st] note F = lg_fields[OF W(1)]
  have rv: "refs v = (\<lambda>_. 0)(50 := 1)" "owned v = [50 \<mapsto> (x, q)]" "view v 50 = (\<lambda>_. 7)"
    using U(4,5) W(3-5) by simp_all
  have "log_room v 0" using F f bframeD(1)[OF W(1)] by (simp add: log_room_def LOGSIZE_def MAXOPBLOCKS_def)
  from log_write_spec[OF W(2) _ this, of 50 x q] obtain w :: lgst where w: "bc_inv w" "view w = view v" "owned w = owned v" "disk w = disk v"
      "procs w = procs v" "held w = held v" "cur w = cur v" "log_start w = log_start v" "log_dev w = log_dev v"
      "lh_n w = 1" "home w = (home v)(0 := 50)" "refs w = (refs v)(50 := refs v 50 + 1)"
    using rv(1,2) by auto
  have okv: "bio_ok v 0" "p_pid (procs v 0) = q" using bc_step_ok[OF st ok] by (simp_all add: q_def)
  have okw: "bio_ok w 0" using okv(1) w(6,7) by (simp add: bio_ok_def)
  have ow: "owned w 50 = Some (x, p_pid (procs w 0))" using w(3,5) rv(2) okv(2) by simp
  have r2: "refs w 50 = 2" using w(12) rv(1) by simp
  obtain y where y: "bc_step w y (view w) ((refs w)(50 := refs w 50 - 1)) ((owned w)(50 := None))" "disk y = disk w"
    using brelse_spec[OF w(1) okw ow] r2 by auto
  note Y = bc_stepD[OF y(1)] note G = lg_fields[OF Y(1)] note D = lg_derived[OF Y(1)]
  have ry: "refs y = (\<lambda>_. 0)(50 := 1)" unfolding Y(4) using r2 w(12) rv(1) by (auto simp: fun_eq_iff)
  have hy: "home y = (home v)(0 := 50)" using D(1) w(11) by simp
  have sy: "log_start y = 2" "log_dev y = ROOTDEV" "lh_n y = 1" using G w(8-10) F f by simp_all
  have "txn_shape y 1" using sy hy by (simp add: txn_shape_def LOGSIZE_def MAXOPBLOCKS_def lg_area_def lessThan_Suc)
  moreover have "refs y m = (if m \<in> home y ` {..<1} then 1 else 0)" for m using ry hy by auto
  moreover have "owned y = Map.empty" using Y(5) w(3) rv(2) by auto
  ultimately have "txn_ready 0 1 y" using Y(2) bio_ok_frame[OF Y(1) okw] by (simp add: txn_ready_def)
  moreover have "disk y = (\<lambda>_ _. 0)" using y(2) w(4) v(2) u(3) t(2) by simp
  moreover have "view y 50 = (\<lambda>_. 7)" using Y(3) w(2) rv(3) by simp
  ultimately show ?thesis using sy(1) by (intro exI[of _ y]) (simp add: bload32_def)
qed

theorem commit_crash_atomic_witness:
  "\<exists>(s :: lgst) u W (t :: lgst). commit s = Done () u \<and> wtrace u = wtrace s @ W \<and> disk u 50 = (\<lambda>_. 7)
     \<and> (\<exists>r. disk r = apply_writes (take 0 W) (disk s) \<and> initlog ROOTDEV (log_start s) 30 r = Done () t)"
proof -
  obtain s :: lgst where s: "txn_ready 0 1 s" "bload32 (disk s (unat (log_start s))) 0 = 0" "unat (log_start s) = 2"
      "view s 50 = (\<lambda>_. 7)" using ex_txn by blast
  have "\<exists>u W. commit s = Done () u \<and> wtrace u = wtrace s @ W \<and> (\<forall>m. m \<notin> lg_area s \<longrightarrow> disk u m = view s m)
    \<and> (\<forall>k q (r :: lgst). bc_idle q r \<longrightarrow> disk r = apply_writes (take k W) (disk s) \<longrightarrow>
         (\<exists>t. initlog ROOTDEV (log_start s) 30 r = Done () t
            \<and> ((\<forall>m. m \<notin> lg_area s \<longrightarrow> disk t m = disk s m) \<or> (\<forall>m. m \<notin> lg_area s \<longrightarrow> disk t m = view s m))))"
    by (rule commit_crash_atomic[OF s(1) _ s(2)]) simp
  then obtain u W where W: "commit s = Done () u" "wtrace u = wtrace s @ W"
      "\<forall>m. m \<notin> lg_area s \<longrightarrow> disk u m = view s m"
      "\<And>k q (r :: lgst). bc_idle q r \<Longrightarrow> disk r = apply_writes (take k W) (disk s) \<Longrightarrow> \<exists>t. initlog ROOTDEV (log_start s) 30 r = Done () t"
    by blast
  have "50 \<notin> lg_area s" using s(3) by (simp add: lg_area_def LOGSIZE_def MAXOPBLOCKS_def)
  then have d: "disk u 50 = (\<lambda>_. 7)" using W(3) s(4) by simp
  obtain r :: lgst where r: "bc_idle 0 r" "disk r = apply_writes (take 0 W) (disk s)"
    using binit_idle[of "boot_lgst\<lparr>disk := disk s\<rparr>" 0] boot_lgst_simps(1,2) by (auto simp: cold_cache_def bio_ok_def)
  from W(4)[OF r] show ?thesis using W(1,2) d r(2) by blast
qed

end
