(* ===== verification/Fs.thy ===== *)
theory Fs
  imports Log Vm
begin

text \<open>
  The file system of kernel/fs.c on top of the log: the superblock, the block allocator, the inode table,
  inode contents, directories and path names.

  A C string is the list of its bytes before the NUL. A kernel function that fills a buffer of its caller
  returns the bytes. \<open>dest\<close> and \<open>source\<close> are the pairs (\<open>user_dst\<close>, \<open>dst\<close>) and (\<open>user_src\<close>, \<open>src\<close>) of the
  code: a user address, a kernel address, or a variable on the kernel stack.
\<close>

unbundle bit_operations_syntax

subsection \<open>either_copyout, either_copyin (kernel/proc.c)\<close>

type_synonym cstr = "byte list"

datatype dest = UserDst uint64 | KernDst addr | LocalDst

datatype source = UserSrc uint64 | KernSrc addr | LocalSrc "byte list"

fun dst_plus :: "dest \<Rightarrow> nat \<Rightarrow> dest" where
  "dst_plus (UserDst a) n = UserDst (a + of_nat n)"
| "dst_plus (KernDst a) n = KernDst (a + of_nat n)"
| "dst_plus LocalDst n = LocalDst"

fun src_plus :: "source \<Rightarrow> nat \<Rightarrow> source" where
  "src_plus (UserSrc a) n = UserSrc (a + of_nat n)"
| "src_plus (KernSrc a) n = KernSrc (a + of_nat n)"
| "src_plus (LocalSrc bs) n = LocalSrc (drop n bs)"

fun either_copyout :: "dest \<Rightarrow> byte list \<Rightarrow> ('a mst_scheme, int) K" where
  "either_copyout (UserDst dst) src = kbind curproc (\<lambda>p. kbind (kget (\<lambda>s. p_pagetable (procs s p))) (\<lambda>pt. copyout pt dst src))"
| "either_copyout (KernDst dst) src = kthen (set_mem (\<lambda>m. poke m dst src)) (kret 0)"
| "either_copyout LocalDst src = kret 0"

fun either_copyin :: "source \<Rightarrow> nat \<Rightarrow> ('a mst_scheme, int \<times> byte list) K" where
  "either_copyin (UserSrc src) len = kbind curproc (\<lambda>p. kbind (kget (\<lambda>s. p_pagetable (procs s p))) (\<lambda>pt. copyin pt src len))"
| "either_copyin (KernSrc src) len = kbind (kget (\<lambda>s. peek (mem s) src len)) (\<lambda>bs. kret (0, bs))"
| "either_copyin (LocalSrc bs) len = kret (0, take len bs)"

subsection \<open>Data (kernel/fs.h, kernel/file.h, kernel/stat.h)\<close>

definition ROOTINO :: uint where "ROOTINO = 1"
definition FSMAGIC :: uint where "FSMAGIC = 0x10203040"
definition NDIRECT :: nat where "NDIRECT = 12"
definition NINDIRECT :: nat where "NINDIRECT = BSIZE div 4"
definition MAXFILE :: nat where "MAXFILE = NDIRECT + NINDIRECT"
definition IPB :: nat where "IPB = BSIZE div 64"
definition BPB :: nat where "BPB = BSIZE * 8"
definition DIRSIZ :: nat where "DIRSIZ = 14"
definition T_DIR :: ushort where "T_DIR = 1"
definition T_FILE :: ushort where "T_FILE = 2"
definition T_DEVICE :: ushort where "T_DEVICE = 3"

record superblock =
  sb_magic :: uint
  sb_size :: uint
  sb_nblocks :: uint
  sb_ninodes :: uint
  sb_nlog :: uint
  sb_logstart :: uint
  sb_inodestart :: uint
  sb_bmapstart :: uint

record dinode =
  d_type :: ushort
  d_major :: ushort
  d_minor :: ushort
  d_nlink :: ushort
  d_size :: uint
  d_addrs :: "nat \<Rightarrow> uint"

record inode =
  i_dev :: uint
  i_inum :: uint
  i_ref :: int
  i_valid :: bool
  i_type :: ushort
  i_major :: ushort
  i_minor :: ushort
  i_nlink :: ushort
  i_size :: uint
  i_addrs :: "nat \<Rightarrow> uint"

record stat =
  st_dev :: uint
  st_ino :: uint
  st_type :: ushort
  st_nlink :: ushort
  st_size :: uint64

record dirent =
  de_inum :: ushort
  de_name :: "byte list"

record fsst = lgst +
  sb :: superblock
  inodes :: "nat \<Rightarrow> inode"

definition IBLOCK :: "uint \<Rightarrow> superblock \<Rightarrow> uint" where
  "IBLOCK i b = i div of_nat IPB + sb_inodestart b"

definition BBLOCK :: "uint \<Rightarrow> superblock \<Rightarrow> uint" where
  "BBLOCK b s = b div of_nat BPB + sb_bmapstart s"

subsection \<open>Layout of the on-disk structures in a block\<close>

definition load_superblock :: "block \<Rightarrow> superblock" where
  "load_superblock d = \<lparr>sb_magic = bload32 d 0, sb_size = bload32 d 4, sb_nblocks = bload32 d 8, sb_ninodes = bload32 d 12,
     sb_nlog = bload32 d 16, sb_logstart = bload32 d 20, sb_inodestart = bload32 d 24, sb_bmapstart = bload32 d 28\<rparr>"

text \<open>\<open>(struct dinode*)bp->data + k\<close>: a dinode takes 64 bytes.\<close>

definition load_dinode :: "block \<Rightarrow> nat \<Rightarrow> dinode" where
  "load_dinode d k = \<lparr>d_type = bload16 d (64 * k), d_major = bload16 d (64 * k + 2), d_minor = bload16 d (64 * k + 4),
     d_nlink = bload16 d (64 * k + 6), d_size = bload32 d (64 * k + 8),
     d_addrs = (\<lambda>i. if i \<le> NDIRECT then bload32 d (64 * k + 12 + 4 * i) else 0)\<rparr>"

definition store_dinode :: "block \<Rightarrow> nat \<Rightarrow> dinode \<Rightarrow> block" where
  "store_dinode d k v =
     fold (\<lambda>i d. bstore32 d (64 * k + 12 + 4 * i) (d_addrs v i)) [0..<Suc NDIRECT]
       (bstore32 (bstore16 (bstore16 (bstore16 (bstore16 d (64 * k) (d_type v)) (64 * k + 2) (d_major v))
          (64 * k + 4) (d_minor v)) (64 * k + 6) (d_nlink v)) (64 * k + 8) (d_size v))"

definition bbytes :: "block \<Rightarrow> nat \<Rightarrow> nat \<Rightarrow> byte list" where
  "bbytes d k n = map d [k..<k + n]"

definition bput :: "nat \<Rightarrow> byte list \<Rightarrow> block \<Rightarrow> block" where
  "bput k bs d = (\<lambda>i. if k \<le> i \<and> i < k + length bs then bs ! (i - k) else d i)"

definition load_dirent :: "byte list \<Rightarrow> dirent" where
  "load_dirent bs = \<lparr>de_inum = ucast (bs ! 0) OR push_bit 8 (ucast (bs ! 1)), de_name = take DIRSIZ (drop 2 bs)\<rparr>"

definition store_dirent :: "dirent \<Rightarrow> byte list" where
  "store_dirent de = ucast (de_inum de) # ucast (drop_bit 8 (de_inum de)) # de_name de"

definition zero_dinode :: dinode where
  "zero_dinode = \<lparr>d_type = 0, d_major = 0, d_minor = 0, d_nlink = 0, d_size = 0, d_addrs = (\<lambda>_. 0)\<rparr>"

definition set_inode :: "nat \<Rightarrow> (inode \<Rightarrow> inode) \<Rightarrow> ('a fsst_scheme, unit) K" where
  "set_inode ip f = kmod (\<lambda>s. s\<lparr>inodes := (inodes s)(ip := f (inodes s ip))\<rparr>)"

definition get_inode :: "nat \<Rightarrow> ('a fsst_scheme, inode) K" where
  "get_inode ip = kget (\<lambda>s. inodes s ip)"

subsection \<open>Superblock and blocks\<close>

definition readsb :: "uint \<Rightarrow> ('a fsst_scheme, superblock) K" where
  "readsb dev = kbind (bread dev 1) (\<lambda>bp. kbind (get_data bp) (\<lambda>d. kthen (brelse bp) (kret (load_superblock d))))"

definition fsinit :: "uint \<Rightarrow> ('a fsst_scheme, unit) K" where
  "fsinit dev = kbind (readsb dev) (\<lambda>b.
     kthen (kmod (\<lambda>s. s\<lparr>sb := b\<rparr>))
     (if sb_magic b \<noteq> FSMAGIC then kpanic ''invalid file system''
      else initlog dev (sb_logstart b) (sb_nlog b)))"

definition bzero :: "uint \<Rightarrow> uint \<Rightarrow> ('a fsst_scheme, unit) K" where
  "bzero dev bno = kbind (bread dev bno) (\<lambda>bp.
     kthen (set_data bp (\<lambda>_ _. 0)) (kthen (log_write bp) (brelse bp)))"

text \<open>Bit \<open>bi\<close> of a bitmap block; \<open>b\<close> counts the bitmap blocks, so that the code's \<open>b\<close> is \<open>b * BPB\<close>.\<close>

definition bit_free :: "block \<Rightarrow> nat \<Rightarrow> bool" where
  "bit_free d bi \<longleftrightarrow> d (bi div 8) AND push_bit (bi mod 8) 1 = 0"

definition bit_set :: "nat \<Rightarrow> block \<Rightarrow> block" where
  "bit_set bi d = d(bi div 8 := d (bi div 8) OR push_bit (bi mod 8) 1)"

definition bit_clear :: "nat \<Rightarrow> block \<Rightarrow> block" where
  "bit_clear bi d = d(bi div 8 := d (bi div 8) AND NOT (push_bit (bi mod 8) 1))"

definition balloc_one :: "uint \<Rightarrow> superblock \<Rightarrow> nat \<Rightarrow> ('a fsst_scheme, uint option) K" where
  "balloc_one dev sblk k =
     (let b = k * BPB in
      kbind (bread dev (BBLOCK (of_nat b) sblk)) (\<lambda>bp.
      kbind (get_data bp) (\<lambda>d.
      case List.find (bit_free d) [0..<min BPB (unat (sb_size sblk) - b)] of
        Some bi \<Rightarrow>
          kthen (set_data bp (bit_set bi))
         (kthen (log_write bp)
         (kthen (brelse bp)
         (kthen (bzero dev (of_nat (b + bi)))
          (kret (Some (of_nat (b + bi)))))))
      | None \<Rightarrow> kthen (brelse bp) (kret None))))"

definition balloc :: "uint \<Rightarrow> ('a fsst_scheme, uint) K" where
  "balloc dev = kbind (kget sb) (\<lambda>sblk.
     kbind (kscan [0..<(unat (sb_size sblk) + BPB - 1) div BPB] (balloc_one dev sblk)) (\<lambda>r.
     case r of
       Some b \<Rightarrow> kret b
     | None \<Rightarrow> kthen (printf (''balloc: out of blocks'' @ [CHR 0x0A]) []) (kret 0)))"

definition bfree :: "uint \<Rightarrow> uint \<Rightarrow> ('a fsst_scheme, unit) K" where
  "bfree dev b = kbind (kget sb) (\<lambda>sblk.
     kbind (bread dev (BBLOCK b sblk)) (\<lambda>bp.
     kbind (get_data bp) (\<lambda>d.
     let bi = unat b mod BPB in
     if bit_free d bi then kpanic ''freeing free block''
     else kthen (set_data bp (bit_clear bi)) (kthen (log_write bp) (brelse bp)))))"

subsection \<open>Inodes\<close>

definition iinit :: "('a fsst_scheme, unit) K" where
  "iinit = kfor [0..<NINODE] (\<lambda>i. initsleeplock (INODE_SLEEP i))"

definition iget :: "uint \<Rightarrow> uint \<Rightarrow> ('a fsst_scheme, nat) K" where
  "iget dev inum =
     kthen (acquire ITABLE_LOCK)
    (kbind (kget (\<lambda>s. List.find (\<lambda>i. i_ref (inodes s i) > 0 \<and> i_dev (inodes s i) = dev \<and> i_inum (inodes s i) = inum) [0..<NINODE])) (\<lambda>r.
     case r of
       Some ip \<Rightarrow>
         kthen (set_inode ip (\<lambda>n. n\<lparr>i_ref := i_ref n + 1\<rparr>))
        (kthen (release ITABLE_LOCK) (kret ip))
     | None \<Rightarrow>
         kbind (kget (\<lambda>s. List.find (\<lambda>i. i_ref (inodes s i) = 0) [0..<NINODE])) (\<lambda>empty.
         case empty of
           None \<Rightarrow> kpanic ''iget: no inodes''
         | Some ip \<Rightarrow>
             kthen (set_inode ip (\<lambda>n. n\<lparr>i_dev := dev, i_inum := inum, i_ref := 1, i_valid := False\<rparr>))
            (kthen (release ITABLE_LOCK) (kret ip)))))"

definition ialloc_one :: "uint \<Rightarrow> ushort \<Rightarrow> superblock \<Rightarrow> nat \<Rightarrow> ('a fsst_scheme, nat option) K" where
  "ialloc_one dev type sblk inum =
     kbind (bread dev (IBLOCK (of_nat inum) sblk)) (\<lambda>bp.
     kbind (get_data bp) (\<lambda>d.
     let k = inum mod IPB in
     if d_type (load_dinode d k) = 0 then
       kthen (set_data bp (\<lambda>d. store_dinode d k (zero_dinode\<lparr>d_type := type\<rparr>)))
      (kthen (log_write bp)
      (kthen (brelse bp)
       (kbind (iget dev (of_nat inum)) (\<lambda>ip. kret (Some ip)))))
     else kthen (brelse bp) (kret None)))"

definition ialloc :: "uint \<Rightarrow> ushort \<Rightarrow> ('a fsst_scheme, nat option) K" where
  "ialloc dev type = kbind (kget sb) (\<lambda>sblk.
     kbind (kscan [1..<unat (sb_ninodes sblk)] (ialloc_one dev type sblk)) (\<lambda>r.
     case r of
       Some ip \<Rightarrow> kret (Some ip)
     | None \<Rightarrow> kthen (printf (''ialloc: no inodes'' @ [CHR 0x0A]) []) (kret None)))"

definition dinode_of :: "inode \<Rightarrow> dinode" where
  "dinode_of n = \<lparr>d_type = i_type n, d_major = i_major n, d_minor = i_minor n, d_nlink = i_nlink n, d_size = i_size n,
     d_addrs = i_addrs n\<rparr>"

definition iupdate :: "nat \<Rightarrow> ('a fsst_scheme, unit) K" where
  "iupdate ip = kbind (kget sb) (\<lambda>sblk. kbind (get_inode ip) (\<lambda>n.
     kbind (bread (i_dev n) (IBLOCK (i_inum n) sblk)) (\<lambda>bp.
     kthen (set_data bp (\<lambda>d. store_dinode d (unat (i_inum n) mod IPB) (dinode_of n)))
    (kthen (log_write bp) (brelse bp)))))"

definition idup :: "nat \<Rightarrow> ('a fsst_scheme, nat) K" where
  "idup ip =
     kthen (acquire ITABLE_LOCK)
    (kthen (set_inode ip (\<lambda>n. n\<lparr>i_ref := i_ref n + 1\<rparr>))
    (kthen (release ITABLE_LOCK) (kret ip)))"

definition ilock :: "nat \<Rightarrow> ('a fsst_scheme, unit) K" where
  "ilock ip = kbind (get_inode ip) (\<lambda>n.
     if i_ref n < 1 then kpanic ''ilock''
     else kthen (acquiresleep (INODE_SLEEP ip))
       (kbind (get_inode ip) (\<lambda>n. kwhen (\<not> i_valid n)
         (kbind (kget sb) (\<lambda>sblk.
          kbind (bread (i_dev n) (IBLOCK (i_inum n) sblk)) (\<lambda>bp.
          kbind (get_data bp) (\<lambda>d.
          let dip = load_dinode d (unat (i_inum n) mod IPB) in
          kthen (set_inode ip (\<lambda>n. n\<lparr>i_type := d_type dip, i_major := d_major dip, i_minor := d_minor dip,
                   i_nlink := d_nlink dip, i_size := d_size dip, i_addrs := d_addrs dip\<rparr>))
         (kthen (brelse bp)
         (kthen (set_inode ip (\<lambda>n. n\<lparr>i_valid := True\<rparr>))
          (kwhen (d_type dip = 0) (kpanic ''ilock: no type'')))))))))))"

definition iunlock :: "nat \<Rightarrow> ('a fsst_scheme, unit) K" where
  "iunlock ip = kbind (holdingsleep (INODE_SLEEP ip)) (\<lambda>h. kbind (get_inode ip) (\<lambda>n.
     if \<not> h \<or> i_ref n < 1 then kpanic ''iunlock''
     else releasesleep (INODE_SLEEP ip)))"

subsection \<open>Inode content\<close>

definition bmap :: "nat \<Rightarrow> nat \<Rightarrow> ('a fsst_scheme, uint) K" where
  "bmap ip bn = kbind (get_inode ip) (\<lambda>n.
     if bn < NDIRECT then
       if i_addrs n bn = 0 then
         kbind (balloc (i_dev n)) (\<lambda>a.
         if a = 0 then kret 0
         else kthen (set_inode ip (\<lambda>n. n\<lparr>i_addrs := (i_addrs n)(bn := a)\<rparr>)) (kret a))
       else kret (i_addrs n bn)
     else let bi = bn - NDIRECT in
     if bi < NINDIRECT then
       kbind (if i_addrs n NDIRECT = 0 then
           kbind (balloc (i_dev n)) (\<lambda>a.
           if a = 0 then kret 0
           else kthen (set_inode ip (\<lambda>n. n\<lparr>i_addrs := (i_addrs n)(NDIRECT := a)\<rparr>)) (kret a))
         else kret (i_addrs n NDIRECT)) (\<lambda>ind.
       if ind = 0 then kret 0
       else
         kbind (bread (i_dev n) ind) (\<lambda>bp.
         kbind (get_data bp) (\<lambda>d.
         kbind (if bload32 d (4 * bi) = 0 then
             kbind (balloc (i_dev n)) (\<lambda>a.
             kthen (kwhen (a \<noteq> 0) (kthen (set_data bp (\<lambda>d. bstore32 d (4 * bi) a)) (log_write bp)))
             (kret a))
           else kret (bload32 d (4 * bi))) (\<lambda>a.
         kthen (brelse bp) (kret a)))))
     else kpanic ''bmap: out of range'')"

definition itrunc_direct :: "nat \<Rightarrow> nat \<Rightarrow> ('a fsst_scheme, unit) K" where
  "itrunc_direct ip i = kbind (get_inode ip) (\<lambda>n.
     kwhen (i_addrs n i \<noteq> 0)
       (kthen (bfree (i_dev n) (i_addrs n i))
         (set_inode ip (\<lambda>n. n\<lparr>i_addrs := (i_addrs n)(i := 0)\<rparr>))))"

definition itrunc_indirect :: "uint \<Rightarrow> nat \<Rightarrow> nat \<Rightarrow> ('a fsst_scheme, unit) K" where
  "itrunc_indirect dev bp j = kbind (get_data bp) (\<lambda>d.
     kwhen (bload32 d (4 * j) \<noteq> 0) (bfree dev (bload32 d (4 * j))))"

definition itrunc :: "nat \<Rightarrow> ('a fsst_scheme, unit) K" where
  "itrunc ip =
     kthen (kfor [0..<NDIRECT] (itrunc_direct ip))
    (kbind (get_inode ip) (\<lambda>n.
     kthen (kwhen (i_addrs n NDIRECT \<noteq> 0)
       (kbind (bread (i_dev n) (i_addrs n NDIRECT)) (\<lambda>bp.
        kthen (kfor [0..<NINDIRECT] (itrunc_indirect (i_dev n) bp))
       (kthen (brelse bp)
       (kthen (bfree (i_dev n) (i_addrs n NDIRECT))
        (set_inode ip (\<lambda>n. n\<lparr>i_addrs := (i_addrs n)(NDIRECT := 0)\<rparr>)))))))
    (kthen (set_inode ip (\<lambda>n. n\<lparr>i_size := 0\<rparr>))
     (iupdate ip))))"

definition iput :: "nat \<Rightarrow> ('a fsst_scheme, unit) K" where
  "iput ip =
     kthen (acquire ITABLE_LOCK)
    (kbind (get_inode ip) (\<lambda>n.
     kthen (kwhen (i_ref n = 1 \<and> i_valid n \<and> i_nlink n = 0)
       (kthen (acquiresleep (INODE_SLEEP ip))
       (kthen (release ITABLE_LOCK)
       (kthen (itrunc ip)
       (kthen (set_inode ip (\<lambda>n. n\<lparr>i_type := 0\<rparr>))
       (kthen (iupdate ip)
       (kthen (set_inode ip (\<lambda>n. n\<lparr>i_valid := False\<rparr>))
       (kthen (releasesleep (INODE_SLEEP ip))
        (acquire ITABLE_LOCK)))))))))
    (kthen (set_inode ip (\<lambda>n. n\<lparr>i_ref := i_ref n - 1\<rparr>))
     (release ITABLE_LOCK))))"

definition iunlockput :: "nat \<Rightarrow> ('a fsst_scheme, unit) K" where
  "iunlockput ip = kthen (iunlock ip) (iput ip)"

definition stati :: "nat \<Rightarrow> ('a fsst_scheme, stat) K" where
  "stati ip = kbind (get_inode ip) (\<lambda>n.
     kret \<lparr>st_dev = i_dev n, st_ino = i_inum n, st_type = i_type n, st_nlink = i_nlink n, st_size = ucast (i_size n)\<rparr>)"

text \<open>The loops of \<open>readi\<close> and \<open>writei\<close> recurse on the number of bytes left, \<open>n - tot\<close>; they give the number of
  bytes done. \<open>readi_loop\<close> also gives the bytes themselves, for a destination on the kernel stack.\<close>

lemma chunk_progress: "rest \<noteq> 0 \<Longrightarrow> rest - min rest (BSIZE - off mod BSIZE) < rest"
proof -
  have "off mod BSIZE < BSIZE" by (simp add: BSIZE_def)
  then show "rest \<noteq> 0 \<Longrightarrow> ?thesis" by linarith
qed

function readi_loop :: "nat \<Rightarrow> dest \<Rightarrow> nat \<Rightarrow> nat \<Rightarrow> nat \<Rightarrow> ('a fsst_scheme, int \<times> byte list) K" where
  "readi_loop ip dst off tot rest =
     (if rest = 0 then kret (int tot, [])
      else kbind (bmap ip (off div BSIZE)) (\<lambda>a.
        if a = 0 then kret (int tot, [])
        else kbind (get_inode ip) (\<lambda>n. kbind (bread (i_dev n) a) (\<lambda>bp.
          kbind (get_data bp) (\<lambda>d.
          let m = min rest (BSIZE - off mod BSIZE); bs = bbytes d (off mod BSIZE) m in
          kbind (either_copyout dst bs) (\<lambda>r.
          if r = - 1 then kthen (brelse bp) (kret (- 1, []))
          else kthen (brelse bp)
            (kbind (readi_loop ip (dst_plus dst m) (off + m) (tot + m) (rest - m)) (\<lambda>(t, bs').
             kret (t, bs @ bs')))))))))"
  by pat_completeness auto
termination
  by (relation "measure (\<lambda>(_, _, _, _, rest). rest)") (use chunk_progress in auto)

definition readi :: "nat \<Rightarrow> dest \<Rightarrow> uint \<Rightarrow> uint \<Rightarrow> ('a fsst_scheme, int \<times> byte list) K" where
  "readi ip dst off n = kbind (get_inode ip) (\<lambda>i.
     if i_size i < off \<or> off + n < off then kret (0, [])
     else let n' = (if i_size i < off + n then i_size i - off else n) in
       readi_loop ip dst (unat off) 0 (unat n'))"

function writei_loop :: "nat \<Rightarrow> source \<Rightarrow> nat \<Rightarrow> nat \<Rightarrow> nat \<Rightarrow> ('a fsst_scheme, nat \<times> nat) K" where
  "writei_loop ip src off tot rest =
     (if rest = 0 then kret (off, tot)
      else kbind (bmap ip (off div BSIZE)) (\<lambda>a.
        if a = 0 then kret (off, tot)
        else kbind (get_inode ip) (\<lambda>n. kbind (bread (i_dev n) a) (\<lambda>bp.
          let m = min rest (BSIZE - off mod BSIZE) in
          kbind (either_copyin src m) (\<lambda>(r, bs).
          kthen (set_data bp (bput (off mod BSIZE) bs))
          (if r = - 1 then kthen (brelse bp) (kret (off, tot))
           else kthen (log_write bp)
               (kthen (brelse bp)
                (writei_loop ip (src_plus src m) (off + m) (tot + m) (rest - m)))))))))"
  by pat_completeness auto
termination
  by (relation "measure (\<lambda>(_, _, _, _, rest). rest)") (use chunk_progress in auto)

declare readi_loop.simps [simp del] writei_loop.simps [simp del]

definition writei :: "nat \<Rightarrow> source \<Rightarrow> uint \<Rightarrow> uint \<Rightarrow> ('a fsst_scheme, int) K" where
  "writei ip src off n = kbind (get_inode ip) (\<lambda>i.
     if i_size i < off \<or> off + n < off then kret (- 1)
     else if MAXFILE * BSIZE < unat (off + n) then kret (- 1)
     else kbind (writei_loop ip src (unat off) 0 (unat n)) (\<lambda>(off', tot).
       kthen (set_inode ip (\<lambda>i. if unat (i_size i) < off' then i\<lparr>i_size := of_nat off'\<rparr> else i))
      (kthen (iupdate ip)
       (kret (int tot)))))"

subsection \<open>Directories\<close>

text \<open>\<open>strncmp\<close> and \<open>strncpy\<close> of kernel/string.c on strings given by their bytes before the NUL.\<close>

fun strncmp_l :: "cstr \<Rightarrow> cstr \<Rightarrow> nat \<Rightarrow> int" where
  "strncmp_l p q 0 = 0"
| "strncmp_l [] [] (Suc n) = 0"
| "strncmp_l [] (c # q) (Suc n) = - Word.uint c"
| "strncmp_l (c # p) [] (Suc n) = Word.uint c"
| "strncmp_l (c # p) (d # q) (Suc n) =
     (if c \<noteq> 0 \<and> c = d then strncmp_l p q n else Word.uint c - Word.uint d)"

definition namecmp :: "cstr \<Rightarrow> cstr \<Rightarrow> int" where
  "namecmp s t = strncmp_l s t DIRSIZ"

definition strncpy_l :: "cstr \<Rightarrow> nat \<Rightarrow> byte list" where
  "strncpy_l t n = take n t @ replicate (n - length t) 0"

definition dirent_offs :: "uint \<Rightarrow> nat list" where
  "dirent_offs sz = map (\<lambda>k. 16 * k) [0..<(unat sz + 15) div 16]"

definition read_dirent :: "string \<Rightarrow> nat \<Rightarrow> nat \<Rightarrow> ('a fsst_scheme, dirent) K" where
  "read_dirent msg dp off = kbind (readi dp LocalDst (of_nat off) 16) (\<lambda>(r, bs).
     if r \<noteq> 16 then kpanic msg else kret (load_dirent bs))"

text \<open>The result carries the offset that the code stores in \<open>*poff\<close>.\<close>

definition dirlookup :: "nat \<Rightarrow> cstr \<Rightarrow> ('a fsst_scheme, (nat \<times> nat) option) K" where
  "dirlookup dp name = kbind (get_inode dp) (\<lambda>n.
     if i_type n \<noteq> T_DIR then kpanic ''dirlookup not DIR''
     else kscan (dirent_offs (i_size n)) (\<lambda>off.
       kbind (read_dirent ''dirlookup read'' dp off) (\<lambda>de.
       if de_inum de = 0 then kret None
       else if namecmp name (de_name de) = 0
       then kbind (iget (i_dev n) (ucast (de_inum de))) (\<lambda>ip. kret (Some (ip, off)))
       else kret None)))"

definition dirlink :: "nat \<Rightarrow> cstr \<Rightarrow> uint \<Rightarrow> ('a fsst_scheme, int) K" where
  "dirlink dp name inum = kbind (dirlookup dp name) (\<lambda>r.
     case r of
       Some (ip, _) \<Rightarrow> kthen (iput ip) (kret (- 1))
     | None \<Rightarrow> kbind (get_inode dp) (\<lambda>n.
         kbind (kscan (dirent_offs (i_size n)) (\<lambda>off.
           kbind (read_dirent ''dirlink read'' dp off) (\<lambda>de.
           kret (if de_inum de = 0 then Some off else None)))) (\<lambda>r.
         let off = (case r of Some off \<Rightarrow> off | None \<Rightarrow> 16 * ((unat (i_size n) + 15) div 16));
             de = \<lparr>de_inum = ucast inum, de_name = strncpy_l name DIRSIZ\<rparr> in
         kbind (writei dp (LocalSrc (store_dirent de)) (of_nat off) 16) (\<lambda>w.
         kret (if w \<noteq> 16 then - 1 else 0)))))"

subsection \<open>Paths\<close>

definition SLASH :: byte where "SLASH = 47"

definition skipelem :: "cstr \<Rightarrow> (cstr \<times> cstr) option" where
  "skipelem path =
     (let s = dropWhile (\<lambda>c. c = SLASH) path in
      if s = [] then None
      else let len = length (takeWhile (\<lambda>c. c \<noteq> SLASH) s);
               name = (if len \<ge> DIRSIZ then take DIRSIZ s else take len s)
           in Some (dropWhile (\<lambda>c. c = SLASH) (drop len s), name))"

lemma skipelem_shorter: "skipelem path = Some (rest, name) \<Longrightarrow> length rest < length path"
proof -
  assume a: "skipelem path = Some (rest, name)"
  let ?s = "dropWhile (\<lambda>c. c = SLASH) path" and ?len = "length (takeWhile (\<lambda>c. c \<noteq> SLASH) (dropWhile (\<lambda>c. c = SLASH) path))"
  have s: "?s \<noteq> []" and r: "rest = dropWhile (\<lambda>c. c = SLASH) (drop ?len ?s)" using a by (auto simp: skipelem_def Let_def split: if_splits)
  have "0 < ?len" using s hd_dropWhile[OF s] by (cases ?s) auto
  moreover have "length rest \<le> length (drop ?len ?s)" unfolding r by (rule length_dropWhile_le)
  moreover have "length ?s \<le> length path" by (rule length_dropWhile_le)
  moreover have "0 < length ?s" using s by simp
  ultimately show ?thesis unfolding length_drop by linarith
qed

function namex_loop :: "nat \<Rightarrow> cstr \<Rightarrow> bool \<Rightarrow> cstr \<Rightarrow> ('a fsst_scheme, nat option \<times> cstr) K" where
  "namex_loop ip path parent name0 =
     (case skipelem path of
        None \<Rightarrow> if parent then kthen (iput ip) (kret (None, name0)) else kret (Some ip, name0)
      | Some (rest, name) \<Rightarrow>
          kthen (ilock ip)
         (kbind (get_inode ip) (\<lambda>n.
          if i_type n \<noteq> T_DIR then kthen (iunlockput ip) (kret (None, name))
          else if parent \<and> rest = [] then kthen (iunlock ip) (kret (Some ip, name))
          else kbind (dirlookup ip name) (\<lambda>r.
            case r of
              None \<Rightarrow> kthen (iunlockput ip) (kret (None, name))
            | Some (next, _) \<Rightarrow> kthen (iunlockput ip) (namex_loop next rest parent name)))))"
  by pat_completeness auto
termination
  by (relation "measure (\<lambda>(_, path, _, _). length path)") (auto dest: skipelem_shorter)

declare namex_loop.simps [simp del]

text \<open>\<open>namex\<close> gives the inode and the final content of \<open>name\<close>.\<close>

definition namex :: "cstr \<Rightarrow> bool \<Rightarrow> ('a fsst_scheme, nat option \<times> cstr) K" where
  "namex path parent =
     kbind (if path \<noteq> [] \<and> hd path = SLASH then iget ROOTDEV ROOTINO
        else kbind curproc (\<lambda>p. kbind (kget (\<lambda>s. p_cwd (procs s p))) (\<lambda>cwd.
          case cwd of None \<Rightarrow> kpanic ''kerneltrap'' | Some d \<Rightarrow> idup d))) (\<lambda>ip.
     namex_loop ip path parent [])"

definition namei :: "cstr \<Rightarrow> ('a fsst_scheme, nat option) K" where
  "namei path = kbind (namex path False) (\<lambda>(ip, _). kret ip)"

definition nameiparent :: "cstr \<Rightarrow> ('a fsst_scheme, nat option \<times> cstr) K" where
  "nameiparent path = namex path True"

end
