(* ===== verification/Fslayout.thy ===== *)
theory Fslayout
  imports Fs
begin

text \<open>
  The pure parts of the file system: path names, the layout of dinodes in a block, and the bits of the free map.
\<close>

unbundle bit_operations_syntax

subsection \<open>Path names\<close>

text \<open>The reference: cut the path at every slash, drop the empty pieces, keep the first DIRSIZ bytes of each.\<close>

fun split_on :: "'b \<Rightarrow> 'b list \<Rightarrow> 'b list list" where
  "split_on c [] = [[]]"
| "split_on c (x # xs) = (if x = c then [] # split_on c xs else (x # hd (split_on c xs)) # tl (split_on c xs))"

definition path_comps :: "cstr \<Rightarrow> cstr list" where
  "path_comps path = filter (\<lambda>e. e \<noteq> []) (split_on SLASH path)"

text \<open>The elements that the loop of \<open>namex\<close> gets from repeated calls of \<open>skipelem\<close>.\<close>

function path_elems :: "cstr \<Rightarrow> cstr list" where
  "path_elems path = (case skipelem path of None \<Rightarrow> [] | Some (rest, name) \<Rightarrow> name # path_elems rest)"
  by pat_completeness auto
termination
  by (relation "measure length") (auto dest: skipelem_shorter)

declare path_elems.simps [simp del]

lemma split_on_nonempty [simp]: "split_on c xs \<noteq> []"
  by (cases xs) auto

lemma split_on_prefix:
  "c \<notin> set xs \<Longrightarrow> split_on c (xs @ ys) = (xs @ hd (split_on c ys)) # tl (split_on c ys)"
  by (induction xs) auto

lemma comps_slash: "path_comps (SLASH # p) = path_comps p"
  by (simp add: path_comps_def)

lemma comps_dropWhile: "path_comps (dropWhile (\<lambda>c. c = SLASH) p) = path_comps p"
  by (induction p) (auto simp: comps_slash)

lemma comps_elem:
  assumes "e \<noteq> []" "SLASH \<notin> set e"
  shows "path_comps (e @ SLASH # p) = e # path_comps p" "path_comps e = [e]"
  using assms split_on_prefix[of SLASH e "SLASH # p"] split_on_prefix[of SLASH e "[]"] by (simp_all add: path_comps_def)

lemma comps_step:
  assumes "s \<noteq> []" "hd s \<noteq> SLASH"
  defines "e \<equiv> takeWhile (\<lambda>c. c \<noteq> SLASH) s"
  shows "path_comps s = e # path_comps (drop (length e) s)"
proof -
  have e: "e \<noteq> []" "SLASH \<notin> set e" using assms(1,2) by (cases s; auto simp: e_def dest: set_takeWhileD)+
  have s: "s = e @ drop (length e) s" by (simp add: e_def dropWhile_eq_drop[symmetric])
  show ?thesis
  proof (cases "drop (length e) s")
    case Nil
    then show ?thesis using s comps_elem(2)[OF e] by (simp add: path_comps_def)
  next
    case (Cons x r)
    have "x = SLASH" using Cons hd_dropWhile[of "\<lambda>c. c \<noteq> SLASH" s] by (simp add: e_def dropWhile_eq_drop)
    then show ?thesis using comps_elem(1)[OF e, of r] comps_slash[of r] s Cons by metis
  qed
qed

text \<open>C31: the parser of path names agrees with its specification: the names that \<open>namex\<close> looks up, one after another, are the
  pieces of the path between slashes, in order, without the empty ones, each cut to DIRSIZ bytes; leading, trailing
  and repeated slashes make no difference.\<close>

theorem path_elems_spec: "path_elems path = map (take DIRSIZ) (path_comps path)"
proof (induction path rule: path_elems.induct)
  case (1 path)
  let ?s = "dropWhile (\<lambda>c. c = SLASH) path"
  show ?case
  proof (cases "?s = []")
    case True
    have "path_comps path = path_comps ?s" by (rule comps_dropWhile[symmetric])
    also have "\<dots> = []" unfolding True by (simp add: path_comps_def)
    finally have "path_comps path = []" .
    then show ?thesis using True by (subst path_elems.simps) (simp add: skipelem_def)
  next
    case False
    let ?e = "takeWhile (\<lambda>c. c \<noteq> SLASH) ?s" let ?rest = "dropWhile (\<lambda>c. c = SLASH) (drop (length ?e) ?s)"
    have h: "hd ?s \<noteq> SLASH" using hd_dropWhile[OF False] by simp
    have t: "take (length ?e) ?s = ?e" by (simp add: takeWhile_eq_take[symmetric])
    have n: "(if DIRSIZ \<le> length ?e then take DIRSIZ ?s else take (length ?e) ?s) = take DIRSIZ ?e"
    proof (cases "DIRSIZ \<le> length ?e")
      case True
      have "take DIRSIZ ?e = take DIRSIZ (take (length ?e) ?s)" unfolding t ..
      also have "\<dots> = take DIRSIZ ?s" using True by (simp only: take_take min_absorb1)
      finally show ?thesis using True by simp
    next
      case False
      then show ?thesis using t by simp
    qed
    have sk: "skipelem path = Some (?rest, take DIRSIZ ?e)" using False n by (simp add: skipelem_def Let_def)
    have "path_comps path = ?e # path_comps (drop (length ?e) ?s)" using comps_step[OF False h] comps_dropWhile[of path] by simp
    then show ?thesis using 1[OF sk refl] sk comps_dropWhile[of "drop (length ?e) ?s"] by (subst path_elems.simps) simp
  qed
qed

subsection \<open>Dinodes\<close>

lemma bload16_bstore16 [simp]: "bload16 (bstore16 d k v) k = v"
proof -
  have "ucast (ucast v :: byte) OR push_bit 8 (ucast (ucast (drop_bit 8 v) :: byte)) = v"
    by (rule bit_word_eqI) (auto simp: bit_simps)
  then show ?thesis by (simp add: bload16_def bstore16_def)
qed

lemma bstore_frame:
  "i < k \<or> k + 2 \<le> i \<Longrightarrow> bstore16 d k v i = d i" "i < k \<or> k + 4 \<le> i \<Longrightarrow> bstore32 d k w i = d i"
  by (auto simp: bstore16_def bstore32_def)

lemma bload16_cong: "d k = d' k \<Longrightarrow> d (k + 1) = d' (k + 1) \<Longrightarrow> bload16 d k = bload16 d' k"
  by (simp add: bload16_def)

lemma bload16_other:
  "j + 2 \<le> k \<or> k + 2 \<le> j \<Longrightarrow> bload16 (bstore16 d j v) k = bload16 d k"
  "j + 4 \<le> k \<or> k + 2 \<le> j \<Longrightarrow> bload16 (bstore32 d j w) k = bload16 d k"
  by (auto simp: bload16_def bstore_frame)

lemma bload32_cong: "(\<And>i. i < 4 \<Longrightarrow> d (k + i) = d' (k + i)) \<Longrightarrow> bload32 d k = bload32 d' k"
proof -
  assume "\<And>i. i < 4 \<Longrightarrow> d (k + i) = d' (k + i)"
  from this[of 0] this[of 1] this[of 2] this[of 3] show ?thesis by (simp add: bload32_def)
qed

definition store_addrs :: "nat \<Rightarrow> (nat \<Rightarrow> uint) \<Rightarrow> nat \<Rightarrow> block \<Rightarrow> block" where
  "store_addrs b a n d = fold (\<lambda>i d. bstore32 d (b + 4 * i) (a i)) [0..<n] d"

lemma store_addrs_Suc: "store_addrs b a (Suc n) d = bstore32 (store_addrs b a n d) (b + 4 * n) (a n)"
  by (simp add: store_addrs_def)

lemma store_addrs_frame: "i < b \<or> b + 4 * n \<le> i \<Longrightarrow> store_addrs b a n d i = d i"
proof (induction n)
  case 0
  then show ?case by (simp add: store_addrs_def)
next
  case (Suc n)
  then show ?case unfolding store_addrs_Suc by (subst bstore_frame(2)) auto
qed

lemma store_addrs_load: "j < n \<Longrightarrow> bload32 (store_addrs b a n d) (b + 4 * j) = a j"
proof (induction n)
  case (Suc n)
  show ?case
  proof (cases "j = n")
    case False
    then have "bload32 (store_addrs b a (Suc n) d) (b + 4 * j) = bload32 (store_addrs b a n d) (b + 4 * j)"
      unfolding store_addrs_Suc by (intro bload32_bstore32_other) auto
    then show ?thesis using Suc False by simp
  qed (simp add: store_addrs_Suc)
qed simp

lemma store_dinode_eq:
  "store_dinode d k v = store_addrs (64 * k + 12) (d_addrs v) (Suc NDIRECT)
     (bstore32 (bstore16 (bstore16 (bstore16 (bstore16 d (64 * k) (d_type v)) (64 * k + 2) (d_major v))
        (64 * k + 4) (d_minor v)) (64 * k + 6) (d_nlink v)) (64 * k + 8) (d_size v))"
  by (simp add: store_dinode_def store_addrs_def)

lemma store_dinode_frame:
  assumes "i < 64 * k \<or> 64 * k + 64 \<le> i"
  shows "store_dinode d k v i = d i"
proof -
  have "store_dinode d k v i = bstore32 (bstore16 (bstore16 (bstore16 (bstore16 d (64 * k) (d_type v)) (64 * k + 2) (d_major v))
        (64 * k + 4) (d_minor v)) (64 * k + 6) (d_nlink v)) (64 * k + 8) (d_size v) i"
    unfolding store_dinode_eq by (rule store_addrs_frame) (use assms in \<open>auto simp: NDIRECT_def\<close>)
  also have "\<dots> = d i" using assms by (auto simp: bstore_frame)
  finally show ?thesis .
qed

lemma load_dinode_cong:
  assumes "\<And>i. 64 * k \<le> i \<Longrightarrow> i < 64 * k + 64 \<Longrightarrow> d i = d' i"
  shows "load_dinode d k = load_dinode d' k"
proof -
  have "bload16 d (64 * k + j) = bload16 d' (64 * k + j)" if "j < 8" for j by (rule bload16_cong) (use that assms in auto)
  note h = this[of 0] this[of 2] this[of 4] this[of 6]
  have w: "bload32 d (64 * k + j) = bload32 d' (64 * k + j)" if "j \<le> 60" for j by (rule bload32_cong) (use that assms in auto)
  have "(\<lambda>i. if i \<le> NDIRECT then bload32 d (64 * k + 12 + 4 * i) else 0) = (\<lambda>i. if i \<le> NDIRECT then bload32 d' (64 * k + 12 + 4 * i) else 0)"
    using w[of "12 + 4 * _"] by (auto simp: fun_eq_iff NDIRECT_def add.assoc)
  then show ?thesis using h w[of 8] by (simp add: load_dinode_def)
qed

lemma load_store_dinode:
  "load_dinode (store_dinode d k v) k = v\<lparr>d_addrs := \<lambda>i. if i \<le> NDIRECT then d_addrs v i else 0\<rparr>"
proof -
  let ?h = "bstore32 (bstore16 (bstore16 (bstore16 (bstore16 d (64 * k) (d_type v)) (64 * k + 2) (d_major v))
        (64 * k + 4) (d_minor v)) (64 * k + 6) (d_nlink v)) (64 * k + 8) (d_size v)"
  have low: "store_dinode d k v i = ?h i" if "i < 64 * k + 12" for i
    unfolding store_dinode_eq using that by (intro store_addrs_frame) simp
  have h: "bload16 (store_dinode d k v) (64 * k + j) = bload16 ?h (64 * k + j)" if "j < 8" for j
    by (rule bload16_cong) (use that in \<open>auto simp: low\<close>)
  have "bload32 (store_dinode d k v) (64 * k + 8) = bload32 ?h (64 * k + 8)" by (rule bload32_cong) (simp add: low)
  moreover have "bload32 (store_dinode d k v) (64 * k + 12 + 4 * i) = d_addrs v i" if "i \<le> NDIRECT" for i
    unfolding store_dinode_eq using that by (intro store_addrs_load) simp
  moreover have "bload16 ?h (64 * k) = d_type v" "bload16 ?h (64 * k + 2) = d_major v" "bload16 ?h (64 * k + 4) = d_minor v"
      "bload16 ?h (64 * k + 6) = d_nlink v"
    by (simp_all add: bload16_other)
  ultimately show ?thesis using h[of 0] h[of 2] h[of 4] h[of 6] by (auto simp: load_dinode_def fun_eq_iff)
qed

subsection \<open>The free map\<close>

lemma and_bit_zero: "(x :: byte) AND push_bit k 1 = 0 \<longleftrightarrow> \<not> bit x k" if "k < 8"
proof -
  have "x AND push_bit k 1 = (if bit x k then push_bit k 1 else 0)" by (rule bit_word_eqI) (auto simp: bit_simps)
  moreover have "push_bit k (1 :: byte) \<noteq> 0" using that by (auto simp: bit_eq_iff bit_simps intro: exI[of _ k])
  ultimately show ?thesis by simp
qed

lemma bit_free_iff: "bit_free d bi \<longleftrightarrow> \<not> bit (d (bi div 8)) (bi mod 8)"
  unfolding bit_free_def by (rule and_bit_zero) simp

lemma bit_index: "bi div 8 = bj div 8 \<Longrightarrow> bi mod 8 = bj mod 8 \<Longrightarrow> bi = (bj :: nat)"
  by (metis div_mult_mod_eq)

lemma bit_free_set: "bit_free (bit_set bi d) bj \<longleftrightarrow> bj \<noteq> bi \<and> bit_free d bj"
  using bit_index[of bi bj] by (auto simp: bit_free_iff bit_set_def bit_simps)

lemma bit_free_clear: "bit_free (bit_clear bi d) bj \<longleftrightarrow> bj = bi \<or> bit_free d bj"
  using bit_index[of bi bj] by (auto simp: bit_free_iff bit_clear_def bit_simps)

end
