(* ===== verification/Procexec.thy ===== *)
theory Procexec
  imports Sched
begin

text \<open>
  Execution lemmas for the operations on processes that every component calls: \<open>killed\<close>, \<open>setkilled\<close>, \<open>wakeup\<close>,
  \<open>sleep\<close> and \<open>yield\<close>, under the conditions in which they neither panic nor deadlock.
\<close>

definition wakes :: "nat option \<Rightarrow> chan \<Rightarrow> (nat \<Rightarrow> proc) \<Rightarrow> nat \<Rightarrow> proc" where
  "wakes me ch P = (\<lambda>i. if i < NPROC \<and> me \<noteq> Some i then woken ch (P i) else P i)"

lemma wakeup_wakes [kexec]:
  "\<forall>i<NPROC. cur s \<noteq> Some i \<longrightarrow> PROC_LOCK i \<notin> held s \<Longrightarrow> wakeup ch s = Done () (s\<lparr>procs := wakes (cur s) ch (procs s)\<rparr>)"
  unfolding wakes_def by (rule wakeup_exec)

lemma wakes_me [simp]: "wakes (Some i) ch P i = P i"
  by (simp add: wakes_def)

lemma woken_fields [simp]:
  "p_pid (woken ch p) = p_pid p" "p_killed (woken ch p) = p_killed p" "p_parent (woken ch p) = p_parent p"
  "p_ofile (woken ch p) = p_ofile p" "p_cwd (woken ch p) = p_cwd p" "p_sz (woken ch p) = p_sz p"
  "p_pagetable (woken ch p) = p_pagetable p" "p_xstate (woken ch p) = p_xstate p" "p_trapframe (woken ch p) = p_trapframe p"
  "p_tf (woken ch p) = p_tf p" "p_cpu_heat (woken ch p) = p_cpu_heat p" "p_chan (woken ch p) = p_chan p"
  by (simp_all add: woken_def)

lemma wakes_fields [simp]:
  "p_pid (wakes me ch P i) = p_pid (P i)" "p_killed (wakes me ch P i) = p_killed (P i)" "p_parent (wakes me ch P i) = p_parent (P i)"
  "p_ofile (wakes me ch P i) = p_ofile (P i)" "p_cwd (wakes me ch P i) = p_cwd (P i)" "p_sz (wakes me ch P i) = p_sz (P i)"
  "p_pagetable (wakes me ch P i) = p_pagetable (P i)" "p_xstate (wakes me ch P i) = p_xstate (P i)"
  "p_trapframe (wakes me ch P i) = p_trapframe (P i)" "p_tf (wakes me ch P i) = p_tf (P i)"
  "p_cpu_heat (wakes me ch P i) = p_cpu_heat (P i)" "p_chan (wakes me ch P i) = p_chan (P i)"
  by (simp_all add: wakes_def)

lemma wakes_state: "p_state (wakes me ch P i) = p_state (P i) \<or> p_state (P i) = SLEEPING \<and> p_state (wakes me ch P i) = RUNNABLE"
  by (simp add: wakes_def woken_def)

lemma killed_exec [kexec]: "PROC_LOCK p \<notin> held s \<Longrightarrow> killed p s = Done (p_killed (procs s p)) s"
  by (simp add: killed_def kexec)

lemma setkilled_exec [kexec]:
  "PROC_LOCK p \<notin> held s \<Longrightarrow> setkilled p s = Done () (s\<lparr>procs := (procs s)(p := (procs s p)\<lparr>p_killed := True\<rparr>)\<rparr>)"
  by (simp add: setkilled_def kexec)

lemma sched_exec:
  assumes "cur s = Some p" and "held s = {PROC_LOCK p}" and "p_state (procs s p) \<noteq> RUNNING"
  shows "sched s = Swtch s"
  using assms by (simp add: sched_def kexec holding_def intr_get_def kswtch_def)

lemma yield_exec:
  assumes "cur s = Some p" and "held s = {}"
  shows "yield s = Swtch (s\<lparr>held := {PROC_LOCK p}, procs := (procs s)(p := (procs s p)\<lparr>p_state := RUNNABLE\<rparr>)\<rparr>)"
proof -
  let ?t = "s\<lparr>held := {PROC_LOCK p}, procs := (procs s)(p := (procs s p)\<lparr>p_state := RUNNABLE\<rparr>)\<rparr>"
  have "sched ?t = Swtch ?t" by (rule sched_exec[where p = p]) (use assms in simp_all)
  then show ?thesis using assms by (simp add: yield_def kexec)
qed

lemma sleep_exec:
  assumes "cur s = Some p" and "held s = {lk}" and "lk \<noteq> PROC_LOCK p"
  shows "sleep ch lk s = Swtch (s\<lparr>held := {PROC_LOCK p}, procs := (procs s)(p := sleep_mark ch (procs s p))\<rparr>)"
proof -
  let ?t = "s\<lparr>held := {PROC_LOCK p}, procs := (procs s)(p := sleep_mark ch (procs s p))\<rparr>"
  have "sched ?t = Swtch ?t" by (rule sched_exec[where p = p]) (use assms in \<open>simp_all add: sleep_mark_def\<close>)
  moreover have "insert (PROC_LOCK p) {lk} - {lk} = {PROC_LOCK p}" using assms(3) by auto
  ultimately show ?thesis using assms by (simp add: sleep_def kexec)
qed

end
