(* ===== verification/Fstx.thy ===== *)
theory Fstx
  imports Fslayout Procexec
begin

text \<open>
  Working in a transaction. \<open>tx p s L H D\<close> says that process \<open>p\<close> is inside a transaction on the root device: \<open>L\<close> is the set of
  blocks in the log, \<open>H\<close> maps the blocks it holds to their buffers, and \<open>D\<close> is the set of blocks changed and not yet
  logged. What a block reads as is \<open>view\<close>; the rules below give the effect of \<open>bread\<close>, \<open>set_data\<close>, \<open>log_write\<close> and
  \<open>brelse\<close> on it, and are all that the proofs about the file system need of the cache and the log.
\<close>

subsection \<open>The frame of a file-system step\<close>

definition tframe :: "'a lgst_scheme \<Rightarrow> 'a lgst_scheme \<Rightarrow> bool" where
  "tframe s t \<longleftrightarrow> mst.truncate t = (mst.truncate s)\<lparr>procs := procs t\<rparr> \<and> awake (procs s) (procs t)
     \<and> (\<forall>p. cur s = Some p \<longrightarrow> procs t p = procs s p) \<and> lgst.more t = lgst.more s \<and> disk t = disk s
     \<and> wtrace t = wtrace s \<and> log_start t = log_start s \<and> log_size t = log_size s \<and> log_outstanding t = log_outstanding s
     \<and> log_committing t = log_committing s \<and> log_dev t = log_dev s"

lemma tframe_refl [simp]: "tframe s s"
  by (simp add: tframe_def mst.defs)

lemma tframe_trans [trans]: "tframe s t \<Longrightarrow> tframe t u \<Longrightarrow> tframe s u"
  by (auto simp: tframe_def mst.defs intro: awake_trans)

lemma tframeD:
  assumes "tframe s t"
  shows "held t = held s" "cur t = cur s" "mem t = mem s" "lgst.more t = lgst.more s" "ticks t = ticks s" "disk t = disk s"
    "pr_locking t = pr_locking s" "cur s = Some p \<Longrightarrow> procs t p = procs s p" "log_start t = log_start s" "log_size t = log_size s"
    "log_outstanding t = log_outstanding s" "log_dev t = log_dev s" "conout t = conout s"
    "wtrace t = wtrace s" "log_committing t = log_committing s"
  using assms by (auto simp: tframe_def mst.defs)

lemma bframe_tframe: "bframe s t \<Longrightarrow> disk t = disk s \<Longrightarrow> wtrace t = wtrace s \<Longrightarrow> tframe s t"
  using lg_fields[of s t] by (simp add: tframe_def bframe_def)

lemma tframe_fs: "tframe s t \<Longrightarrow> sb t = sb s \<and> inodes t = inodes s \<and> fsst.more t = fsst.more s"
  by (drule tframeD(4)) (cases s; cases t; simp)

lemma log_write_frame:
  assumes "log_write b s = Done () t" and "LOG_LOCK \<notin> held s" "BCACHE_LOCK \<notin> held s"
  shows "tframe s t"
proof -
  have h: "insert LOG_LOCK (held s) - {LOG_LOCK} = held s" using assms(2) by auto
  show ?thesis using assms
    by (auto simp: log_write_def kexec bpin_exec Let_def h tframe_def mst.defs split: if_splits option.splits)
qed

subsection \<open>Transactions\<close>

definition tx :: "nat \<Rightarrow> 'a lgst_scheme \<Rightarrow> nat set \<Rightarrow> (nat \<rightharpoonup> nat \<times> uint) \<Rightarrow> nat set \<Rightarrow> bool" where
  "tx p s L H D \<longleftrightarrow> bc_inv s \<and> bio_ok s p \<and> LOG_LOCK \<notin> held s \<and> owned s = H \<and> finite L \<and> finite (dom H)
     \<and> lh_n s = int (card L) \<and> home s ` {..<card L} = L \<and> 1 \<le> log_outstanding s \<and> int LOGSIZE \<le> log_size s
     \<and> refs s = (\<lambda>m. (if m \<in> L then 1 else 0) + (if m \<in> dom H then 1 else 0))
     \<and> (\<forall>m. m \<notin> L \<longrightarrow> m \<notin> D \<longrightarrow> view s m = disk s m)"

lemma txD:
  assumes "tx p s L H D"
  shows "bc_inv s" "bio_ok s p" "LOG_LOCK \<notin> held s" "owned s = H" "finite L" "finite (dom H)" "lh_n s = int (card L)"
    "home s ` {..<card L} = L" "refs s = (\<lambda>m. (if m \<in> L then 1 else 0) + (if m \<in> dom H then 1 else 0))"
    "m \<notin> L \<Longrightarrow> m \<notin> D \<Longrightarrow> view s m = disk s m" "cur s = Some p"
  using assms by (simp_all add: tx_def bio_ok_def)

lemma tx_pid: "tx p s L H D \<Longrightarrow> tframe s t \<Longrightarrow> procs t p = procs s p"
  using tframeD(8) txD(11) by blast

lemma tx_clean: "tx p s L H (insert m D) \<Longrightarrow> m \<in> L \<Longrightarrow> tx p s L H D"
  by (auto simp: tx_def)

lemma tx_step:
  assumes "tx p s L H D" and "bc_step s t V N H'" and "disk t = disk s" and "wtrace t = wtrace s" and "finite (dom H')"
    and "N = (\<lambda>m. (if m \<in> L then 1 else 0) + (if m \<in> dom H' then 1 else 0))"
    and "\<And>m. m \<notin> L \<Longrightarrow> m \<notin> D' \<Longrightarrow> V m = disk s m"
  shows "tx p t L H' D'" "tframe s t"
proof -
  note S = bc_stepD[OF assms(2)]
  show "tframe s t" by (rule bframe_tframe[OF S(1) assms(3,4)])
  show "tx p t L H' D'"
    using assms(1,3,5-7) S lg_fields[OF S(1)] lg_derived[OF S(1)] bframeD(1)[OF S(1)] bio_ok_frame[OF S(1)] by (auto simp: tx_def)
qed

lemma tx_bread:
  assumes t: "tx p s L H D" and free: "H (unat w) = None" and room: "card (insert (unat w) (L \<union> dom H)) \<le> NBUF"
  shows "\<exists>i t. bread ROOTDEV w s = Done i t \<and> tx p t L (H(unat w \<mapsto> (i, p_pid (procs s p)))) D \<and> view t = view s \<and> tframe s t"
proof -
  note T = txD[OF t]
  have r: "{n. refs s n \<noteq> 0} = L \<union> dom H" unfolding T(9) by auto
  have c: "refs s (unat w) \<noteq> 0 \<or> card {n. refs s n \<noteq> 0} < NBUF"
  proof (cases "refs s (unat w) = 0")
    case True
    then have "unat w \<notin> L \<union> dom H" unfolding r[symmetric] by simp
    then show ?thesis using room T(5,6) unfolding r by simp
  qed simp
  have sm: "refs s (unat w) + 1 < 2 ^ 32" unfolding T(9) by simp
  obtain i u where u: "bread ROOTDEV w s = Done i u" "bc_step s u (view s) ((refs s)(unat w := refs s (unat w) + 1))
      ((owned s)(unat w \<mapsto> (i, p_pid (procs s p))))" "disk u = disk s" "wtrace u = wtrace s"
    using bread_spec[OF T(1,2) _ c sm] free T(4) by auto
  have n: "unat w \<notin> dom H" using free by auto
  have "tx p u L (H(unat w \<mapsto> (i, p_pid (procs s p)))) D" "tframe s u"
    by (rule tx_step[OF t u(2)[unfolded T(4)] u(3,4), where D' = D]; use T(6,9,10) n in \<open>auto simp: fun_eq_iff\<close>)+
  then show ?thesis using u(1) bc_stepD(3)[OF u(2)] by blast
qed

lemma tx_get: "tx p s L H D \<Longrightarrow> H m = Some (i, q) \<Longrightarrow> get_data i s = Done (view s m) s"
  using get_data_exec[of s m i q] txD(1,4) by metis

lemma tx_set:
  assumes t: "tx p s L H D" and o: "H m = Some (i, q)"
  shows "\<exists>t. set_data i f s = Done () t \<and> tx p t L H (insert m D) \<and> view t = (view s)(m := f (view s m)) \<and> tframe s t"
proof -
  note T = txD[OF t]
  obtain u where u: "set_data i f s = Done () u" "bc_step s u ((view s)(m := f (view s m))) (refs s) (owned s)" "disk u = disk s" "wtrace u = wtrace s"
    using set_data_spec[OF T(1)] o T(4) by metis
  have "tx p u L H (insert m D)" "tframe s u"
    by (rule tx_step[OF t u(2)[unfolded T(4)] u(3,4) T(6,9), where D' = "insert m D"]; use T(10) in auto)+
  then show ?thesis using u(1) bc_stepD(3)[OF u(2)] by blast
qed

lemma tx_log_write:
  assumes t: "tx p s L H (insert m D)" and o: "H m = Some (i, q)" and room: "Suc (card L) < LOGSIZE"
  shows "\<exists>t. log_write i s = Done () t \<and> tx p t (insert m L) H D \<and> view t = view s \<and> tframe s t"
proof -
  note T = txD[OF t]
  have lr: "log_room s (card L)" using t room by (auto simp: log_room_def tx_def bio_ok_def)
  have sm: "refs s m + 1 < 2 ^ 32" unfolding T(9) by simp
  obtain u where u: "log_write i s = Done () u" "bc_inv u" "view u = view s" "owned u = owned s" "disk u = disk s"
      "procs u = procs s" "held u = held s" "cur u = cur s"
      "if m \<in> home s ` {..<card L} then lh_n u = int (card L) \<and> home u = home s \<and> refs u = refs s
       else lh_n u = int (Suc (card L)) \<and> home u = (home s)(card L := m) \<and> refs u = (refs s)(m := refs s m + 1)"
    using log_write_spec[OF T(1) _ lr sm, of i q] o T(4) by metis
  have fr: "tframe s u" using log_write_frame[OF u(1) T(3)] T(2) by (simp add: bio_ok_def)
  have ok: "bio_ok u p" using T(2) u(7,8) by (simp add: bio_ok_def)
  have dm: "m \<in> dom H" using o by blast
  have "tx p u (insert m L) H D"
  proof (cases "m \<in> L")
    case True
    then have "insert m L = L" by blast
    then show ?thesis using u ok t True T(4,8) tframeD(10,11)[OF fr] by (auto simp: tx_def)
  next
    case False
    then have c: "card (insert m L) = Suc (card L)" using T(5) by simp
    have e: "lh_n u = int (Suc (card L))" "home u = (home s)(card L := m)" "refs u = (refs s)(m := refs s m + 1)"
      using u(9) False T(8) by auto
    have "home u ` {..<Suc (card L)} = insert m L"
      using T(8) unfolding e(2) lessThan_Suc by auto
    moreover have "refs u = (\<lambda>x. (if x \<in> insert m L then 1 else 0) + (if x \<in> dom H then 1 else 0))"
      unfolding e(3) T(9) using False dm by (auto simp: fun_eq_iff)
    ultimately show ?thesis using u ok t T(4-7) c e(1) tframeD(10,11)[OF fr] by (auto simp: tx_def)
  qed
  then show ?thesis using u(1,3) fr by blast
qed

lemma tx_brelse:
  assumes t: "tx p s L H D" and o: "H m = Some (i, p_pid (procs s p))" and c: "m \<in> L \<or> m \<notin> D"
  shows "\<exists>t. brelse i s = Done () t \<and> tx p t L (H(m := None)) D \<and> view t = view s \<and> tframe s t"
proof -
  note T = txD[OF t]
  have dm: "m \<in> dom H" using o by blast
  have cl: "refs s m = 1 \<Longrightarrow> view s m = disk s m" using T(10) c dm unfolding T(9) by (auto split: if_splits)
  obtain u where u: "brelse i s = Done () u" "bc_step s u (view s) ((refs s)(m := refs s m - 1)) ((owned s)(m := None))" "disk u = disk s" "wtrace u = wtrace s"
    using brelse_spec[OF T(1,2) _ cl, of i] o T(4) by auto
  have "tx p u L (H(m := None)) D" "tframe s u"
    by (rule tx_step[OF t u(2)[unfolded T(4)] u(3,4), where D' = D]; use T(6,9,10) dm in \<open>auto simp: fun_eq_iff\<close>)+
  then show ?thesis using u(1) bc_stepD(3)[OF u(2)] by blast
qed

end
