(* ===== verification/Ring.thy ===== *)
theory Ring
  imports Kernel_Prelude
begin

text \<open>
  Ring buffers with free-running indices, as pipe.c, uart.c and console.c use them: an array of N entries, a
  read index and a write index that only grow (and wrap with their machine width), entry \<open>i\<close> in slot
  \<open>i % N\<close>. \<open>ring\<close> is the list of the entries that have been written and not read.

  The locale \<open>fifo\<close> is the contract of a bounded queue, with what its clients rely on: what comes
  out is what went in, in order, with nothing lost or duplicated.
\<close>

definition ring :: "nat \<Rightarrow> (nat \<Rightarrow> 'b) \<Rightarrow> 'w::len word \<Rightarrow> 'w word \<Rightarrow> 'b list" where
  "ring N buf r w = map (\<lambda>i. buf (unat (r + of_nat i) mod N)) [0..<unat (w - r)]"

lemma length_ring [simp]: "length (ring N buf r w) = unat (w - r)"
  by (simp add: ring_def)

lemma ring_empty [simp]: "ring N buf r r = []"
  by (simp add: ring_def)

lemma ring_Nil_iff: "ring N buf r w = [] \<longleftrightarrow> w = r"
  by (auto simp: ring_def unat_eq_zero)

lemma unat_add_mod:
  fixes r :: "'w::len word"
  assumes "N dvd 2 ^ LENGTH('w)"
  shows "unat (r + of_nat i) mod N = (unat r + i) mod N"
proof -
  have "unat (r + of_nat i) = (unat r + i) mod 2 ^ LENGTH('w)"
    by (simp add: unat_word_ariths unat_of_nat mod_simps)
  then show ?thesis using assms by (simp add: mod_mod_cancel)
qed

lemma ring_pop:
  assumes "w \<noteq> r"
  shows "ring N buf r w = buf (unat r mod N) # ring N buf (r + 1) w"
proof -
  have n: "w - r \<noteq> 0" using assms by simp
  have e: "w - (r + 1) = w - r - 1" by (simp add: algebra_simps)
  have "unat (w - (r + 1)) = unat (w - r) - 1" unfolding e by (rule unat_minus_one[OF n])
  moreover have "0 < unat (w - r)" using n by (simp add: unat_gt_0)
  ultimately have "unat (w - r) = Suc (unat (w - (r + 1)))" by linarith
  moreover have "r + of_nat (Suc i) = r + 1 + of_nat i" for i by simp
  ultimately show ?thesis unfolding ring_def by (simp only: map_upt_Suc) (simp add: add.assoc)
qed

lemma ring_push:
  fixes r w :: "'w::len word"
  assumes "N dvd 2 ^ LENGTH('w)" and "unat (w - r) < N" and "N < 2 ^ LENGTH('w)"
  shows "ring N (buf(unat w mod N := x)) r (w + 1) = ring N buf r w @ [x]"
proof -
  let ?n = "unat (w - r)"
  have w: "w = r + of_nat ?n" by simp
  have s: "unat (w + 1 - r) = Suc ?n"
  proof -
    have e: "w + 1 - r = (w - r) + 1" by (simp add: algebra_simps)
    have "Suc ?n < 2 ^ LENGTH('w)" using assms(2,3) by linarith
    then show ?thesis unfolding e using unat_word_ariths(1)[of "w - r" 1] by simp
  qed
  have slot: "unat w mod N = (unat r + ?n) mod N" using unat_add_mod[OF assms(1), of r ?n] w by simp
  have other: "unat (r + of_nat i) mod N \<noteq> unat w mod N" if "i < ?n" for i
  proof
    assume "unat (r + of_nat i) mod N = unat w mod N"
    then have "(unat r + i) mod N = (unat r + ?n) mod N" using slot unat_add_mod[OF assms(1), of r i] by simp
    then have "N dvd (unat r + ?n) - (unat r + i)" using that mod_eq_dvd_iff_nat[of "unat r + i" "unat r + ?n" N] by simp
    then have "N dvd ?n - i" by simp
    moreover have "0 < ?n - i" "?n - i < N" using that assms(2) by linarith+
    ultimately show False by (auto dest: dvd_imp_le)
  qed
  show ?thesis using other slot unat_add_mod[OF assms(1), of r ?n]
    by (simp add: ring_def s)
qed

subsection \<open>Bounded queues\<close>

text \<open>A sequence of requests: \<open>Some x\<close> puts \<open>x\<close> if there is room, \<open>None\<close> takes an entry if there is one. The
  result is what was put, what was taken, and the final state.\<close>

fun queue_run :: "('s \<Rightarrow> 'b list) \<Rightarrow> nat \<Rightarrow> ('b \<Rightarrow> 's \<Rightarrow> 's) \<Rightarrow> ('s \<Rightarrow> 'b \<times> 's) \<Rightarrow> 'b option list \<Rightarrow> 's \<Rightarrow> 'b list \<times> 'b list \<times> 's" where
  "queue_run items cap put get [] s = ([], [], s)"
| "queue_run items cap put get (Some x # ops) s =
     (if length (items s) < cap
      then case queue_run items cap put get ops (put x s) of (ins, outs, t) \<Rightarrow> (x # ins, outs, t)
      else queue_run items cap put get ops s)"
| "queue_run items cap put get (None # ops) s =
     (if items s \<noteq> []
      then case queue_run items cap put get ops (snd (get s)) of (ins, outs, t) \<Rightarrow> (ins, fst (get s) # outs, t)
      else queue_run items cap put get ops s)"

locale fifo =
  fixes items :: "'s \<Rightarrow> 'b list" and cap :: nat and put :: "'b \<Rightarrow> 's \<Rightarrow> 's" and get :: "'s \<Rightarrow> 'b \<times> 's"
  assumes put_items: "length (items s) < cap \<Longrightarrow> items (put x s) = items s @ [x]"
    and get_items: "items s \<noteq> [] \<Longrightarrow> items s = fst (get s) # items (snd (get s))"
begin

text \<open>Whatever the interleaving of puts that find room and gets that find an entry, the entries taken
  followed by those still queued are the entries queued at first followed by those put.\<close>

lemma run_order:
  "queue_run items cap put get ops s = (ins, outs, t) \<Longrightarrow> outs @ items t = items s @ ins"
proof (induction ops arbitrary: s ins outs)
  case (Cons x ops)
  show ?case
  proof (cases x)
    case None
    show ?thesis
    proof (cases "items s = []")
      case False
      then obtain o' where "queue_run items cap put get ops (snd (get s)) = (ins, o', t)" "outs = fst (get s) # o'"
        using Cons.prems None by (auto split: prod.splits)
      then show ?thesis using Cons.IH[of "snd (get s)" ins o'] get_items[OF False] by simp
    qed (use Cons None in simp)
  next
    case (Some y)
    show ?thesis
    proof (cases "length (items s) < cap")
      case True
      then obtain i' where "queue_run items cap put get ops (put y s) = (i', outs, t)" "ins = y # i'"
        using Cons.prems Some by (auto split: prod.splits)
      then show ?thesis using Cons.IH[of "put y s" i' outs] put_items[OF True] by simp
    qed (use Cons Some in simp)
  qed
qed simp

lemma get_length: "items s \<noteq> [] \<Longrightarrow> length (items (snd (get s))) < length (items s)"
  using arg_cong[OF get_items[of s], of length] by simp

lemma run_bounded:
  "queue_run items cap put get ops s = (ins, outs, t) \<Longrightarrow> length (items s) \<le> cap \<Longrightarrow> length (items t) \<le> cap"
proof (induction ops arbitrary: s ins outs)
  case (Cons x ops)
  have p: "length (items s) < cap \<Longrightarrow> length (items (put y s)) \<le> cap" for y by (simp add: put_items)
  have g: "items s \<noteq> [] \<Longrightarrow> length (items (snd (get s))) \<le> cap" using get_length[of s] Cons.prems(2) by linarith
  show ?case using Cons p g by (cases x) (auto split: if_splits prod.splits)
qed simp

end

end
