(* ===== verification/Console.thy ===== *)
theory Console
  imports Fs Ring
begin

text \<open>
  The UART driver (kernel/uart.c) and the console (kernel/console.c).

  The device is part of the state: \<open>uart_room\<close> is the number of bytes the transmit holding register accepts
  before LSR_TX_IDLE reads 0, \<open>uart_in\<close> the received bytes not yet read from RHR, \<open>uart_cfg\<close> the trace of the
  writes to the other registers; a write to THR appends to \<open>conout\<close>. \<open>uartputc_sync\<close> is \<open>consputc\<close> of
  theory Printf: it returns once the byte is sent. The test of \<open>panicked\<close> is not modelled: a panic ends the run.

  The two buffers are rings (theory Ring): \<open>uart_queue\<close> is what waits to be sent, \<open>cons_lines\<close> what
  \<open>consoleread\<close> may return and \<open>cons_edit\<close> the line being edited.
\<close>

subsection \<open>State\<close>

definition UART_TX_BUF_SIZE :: nat where "UART_TX_BUF_SIZE = 32"
definition INPUT_BUF_SIZE :: nat where "INPUT_BUF_SIZE = 128"
definition CONSOLE :: nat where "CONSOLE = 1"

datatype devfn = DevConsoleread | DevConsolewrite

record dvst = fsst +
  uart_room :: nat
  uart_in :: "byte list"
  uart_cfg :: "(nat \<times> byte) list"
  uart_tx_buf :: "nat \<Rightarrow> byte"
  uart_tx_w :: uint64
  uart_tx_r :: uint64
  cons_buf :: "nat \<Rightarrow> byte"
  cons_r :: uint
  cons_w :: uint
  cons_e :: uint
  devsw_read :: "nat \<Rightarrow> devfn option"
  devsw_write :: "nat \<Rightarrow> devfn option"

subsection \<open>uart.c\<close>

definition IER :: nat where "IER = 1"
definition FCR :: nat where "FCR = 2"
definition LCR :: nat where "LCR = 3"

definition WriteReg :: "nat \<Rightarrow> byte \<Rightarrow> ('a dvst_scheme, unit) K" where
  "WriteReg reg v = kmod (\<lambda>s. s\<lparr>uart_cfg := uart_cfg s @ [(reg, v)]\<rparr>)"

definition uartinit :: "('a dvst_scheme, unit) K" where
  "uartinit =
     kthen (WriteReg IER 0x00)
    (kthen (WriteReg LCR (push_bit 7 1))
    (kthen (WriteReg 0 0x03)
    (kthen (WriteReg 1 0x00)
    (kthen (WriteReg LCR (push_bit 0 3))
    (kthen (WriteReg FCR (push_bit 0 1 OR push_bit 1 3))
     (WriteReg IER (push_bit 1 1 OR push_bit 0 1)))))))"

text \<open>The loop of \<open>uartstart\<close> runs at most once per waiting byte.\<close>

primrec uartstart_loop :: "nat \<Rightarrow> ('a dvst_scheme, unit) K" where
  "uartstart_loop 0 = kskip"
| "uartstart_loop (Suc n) = kbind (kget (\<lambda>s. s)) (\<lambda>s.
     if uart_tx_w s = uart_tx_r s then kskip
     else if uart_room s = 0 then kskip
     else let c = uart_tx_buf s (unat (uart_tx_r s) mod UART_TX_BUF_SIZE) in
       kthen (kmod (\<lambda>s. s\<lparr>uart_tx_r := uart_tx_r s + 1\<rparr>))
      (kthen (wakeup ChUartR)
      (kthen (kmod (\<lambda>s. s\<lparr>conout := conout s @ [char_of (unat c)], uart_room := uart_room s - 1\<rparr>))
       (uartstart_loop n))))"

definition uartstart :: "('a dvst_scheme, unit) K" where
  "uartstart = kbind (kget (\<lambda>s. unat (uart_tx_w s - uart_tx_r s))) uartstart_loop"

text \<open>One attempt of \<open>uartputc\<close>: the byte is queued, or the caller sleeps and tries again.\<close>

definition uartputc :: "byte \<Rightarrow> ('a dvst_scheme, unit) K" where
  "uartputc c =
     kthen (acquire UART_TX_LOCK)
    (kbind (kget (\<lambda>s. (uart_tx_w s, uart_tx_r s))) (\<lambda>(w, r).
     if w = r + of_nat UART_TX_BUF_SIZE then sleep ChUartR UART_TX_LOCK
     else kthen (kmod (\<lambda>s. s\<lparr>uart_tx_buf := (uart_tx_buf s)(unat (uart_tx_w s) mod UART_TX_BUF_SIZE := c)\<rparr>))
         (kthen (kmod (\<lambda>s. s\<lparr>uart_tx_w := uart_tx_w s + 1\<rparr>))
         (kthen uartstart
          (release UART_TX_LOCK)))))"

definition uartgetc :: "('a dvst_scheme, byte option) K" where
  "uartgetc = kbind (kget uart_in) (\<lambda>i. case i of
     [] \<Rightarrow> kret None
   | c # cs \<Rightarrow> kthen (kmod (\<lambda>s. s\<lparr>uart_in := cs\<rparr>)) (kret (Some c)))"

subsection \<open>console.c\<close>

definition consputc_backspace :: "('a dvst_scheme, unit) K" where
  "consputc_backspace = kthen (consputc (CHR 0x08)) (kthen (consputc (CHR 0x20)) (consputc (CHR 0x08)))"

text \<open>The loops of \<open>consolewrite\<close> and \<open>consoleread\<close> recurse on the number of bytes left. When such a loop goes
  to sleep it continues, once woken, with the arguments it had.\<close>

primrec consolewrite_loop :: "source \<Rightarrow> nat \<Rightarrow> nat \<Rightarrow> ('a dvst_scheme, int) K" where
  "consolewrite_loop src i 0 = kret (int i)"
| "consolewrite_loop src i (Suc n) = kbind (either_copyin (src_plus src i) 1) (\<lambda>(r, bs).
     if r = - 1 then kret (int i)
     else kthen (uartputc (hd bs)) (consolewrite_loop src (Suc i) n))"

definition consolewrite :: "source \<Rightarrow> int \<Rightarrow> ('a dvst_scheme, int) K" where
  "consolewrite src n = consolewrite_loop src 0 (nat n)"

primrec consoleread_loop :: "int \<Rightarrow> dest \<Rightarrow> nat \<Rightarrow> ('a dvst_scheme, int) K" where
  "consoleread_loop target dst 0 = kthen (release CONS_LOCK) (kret target)"
| "consoleread_loop target dst (Suc n) =
     kbind (kget (\<lambda>s. (cons_r s, cons_w s))) (\<lambda>(r, w).
     if r = w then
       kbind curproc (\<lambda>p. kbind (killed p) (\<lambda>k.
       if k then kthen (release CONS_LOCK) (kret (- 1))
       else kthen (sleep ChConsR CONS_LOCK) (kret (- 1))))
     else
       kbind (kget (\<lambda>s. cons_buf s (unat r mod INPUT_BUF_SIZE))) (\<lambda>c.
       kthen (kmod (\<lambda>s. s\<lparr>cons_r := cons_r s + 1\<rparr>))
       (if c = 4 then
          kthen (kwhen (int (Suc n) < target) (kmod (\<lambda>s. s\<lparr>cons_r := cons_r s - 1\<rparr>)))
         (kthen (release CONS_LOCK) (kret (target - int (Suc n))))
        else kbind (either_copyout dst [c]) (\<lambda>e.
          if e = - 1 then kthen (release CONS_LOCK) (kret (target - int (Suc n)))
          else if c = 10 then kthen (release CONS_LOCK) (kret (target - int n))
          else consoleread_loop target (dst_plus dst 1) n))))"

definition consoleread :: "dest \<Rightarrow> int \<Rightarrow> ('a dvst_scheme, int) K" where
  "consoleread dst n = kthen (acquire CONS_LOCK)
     (if 0 < n then consoleread_loop n dst (nat n) else kthen (release CONS_LOCK) (kret 0))"

text \<open>The loop of control-U runs at most once per character of the line being edited.\<close>

primrec kill_line :: "nat \<Rightarrow> ('a dvst_scheme, unit) K" where
  "kill_line 0 = kskip"
| "kill_line (Suc n) = kbind (kget (\<lambda>s. s)) (\<lambda>s.
     if cons_e s \<noteq> cons_w s \<and> cons_buf s (unat (cons_e s - 1) mod INPUT_BUF_SIZE) \<noteq> 10
     then kthen (kmod (\<lambda>s. s\<lparr>cons_e := cons_e s - 1\<rparr>)) (kthen consputc_backspace (kill_line n))
     else kskip)"

definition console_default :: "byte \<Rightarrow> ('a dvst_scheme, unit) K" where
  "console_default c0 = kbind (kget (\<lambda>s. cons_e s - cons_r s)) (\<lambda>used.
     kwhen (c0 \<noteq> 0 \<and> used < of_nat INPUT_BUF_SIZE)
      (let c = (if c0 = 13 then 10 else c0) in
       kthen (consputc (char_of (unat c)))
      (kthen (kmod (\<lambda>s. s\<lparr>cons_buf := (cons_buf s)(unat (cons_e s) mod INPUT_BUF_SIZE := c)\<rparr>))
      (kthen (kmod (\<lambda>s. s\<lparr>cons_e := cons_e s + 1\<rparr>))
      (kbind (kget (\<lambda>s. cons_e s - cons_r s)) (\<lambda>used'.
       kwhen (c = 10 \<or> c = 4 \<or> used' = of_nat INPUT_BUF_SIZE)
        (kthen (kmod (\<lambda>s. s\<lparr>cons_w := cons_e s\<rparr>)) (wakeup ChConsR))))))))"

definition consoleintr :: "byte \<Rightarrow> ('a dvst_scheme, unit) K" where
  "consoleintr c =
     kthen (acquire CONS_LOCK)
    (kthen (kmod (\<lambda>s. s\<lparr>g_last_keypress_tick := ticks s\<rparr>))
    (kthen
      (if c = 16 then procdump
       else if c = 21 then kbind (kget (\<lambda>s. unat (cons_e s - cons_w s))) kill_line
       else if c = 8 \<or> c = 0x7f then
         kbind (kget (\<lambda>s. cons_e s \<noteq> cons_w s)) (\<lambda>b.
         kwhen b (kthen (kmod (\<lambda>s. s\<lparr>cons_e := cons_e s - 1\<rparr>)) consputc_backspace))
       else if c = 3 then kthen kill_all_user_processes (kthen (consputc (CHR 0x5E)) (consputc (CHR 0x43)))
       else console_default c)
     (release CONS_LOCK)))"

definition consoleinit :: "('a dvst_scheme, unit) K" where
  "consoleinit = kthen uartinit
     (kmod (\<lambda>s. s\<lparr>devsw_read := (devsw_read s)(CONSOLE := Some DevConsoleread),
                  devsw_write := (devsw_write s)(CONSOLE := Some DevConsolewrite)\<rparr>))"

text \<open>\<open>uartintr\<close> hands every waiting byte to the console.\<close>

primrec uartintr_loop :: "nat \<Rightarrow> ('a dvst_scheme, unit) K" where
  "uartintr_loop 0 = kskip"
| "uartintr_loop (Suc n) = kbind uartgetc (\<lambda>c. case c of
     None \<Rightarrow> kskip
   | Some c \<Rightarrow> kthen (consoleintr c) (uartintr_loop n))"

definition uartintr :: "('a dvst_scheme, unit) K" where
  "uartintr =
     kthen (kbind (kget (\<lambda>s. length (uart_in s))) uartintr_loop)
    (kthen (acquire UART_TX_LOCK)
    (kthen uartstart
     (release UART_TX_LOCK)))"

end
