(* ===== verification/File.thy ===== *)
theory File
  imports Console
begin

text \<open>
  Pipes (kernel/pipe.c) and the table of open files (kernel/file.c).

  A pipe lives in a page from \<open>kalloc\<close>; \<open>pipes\<close> maps the address of the page to the struct. A file is an index
  into \<open>ftable\<close>. As in the console, a loop that goes to sleep continues with the arguments it had.
\<close>

subsection \<open>struct pipe, struct file, ftable\<close>

definition PIPESIZE :: nat where "PIPESIZE = 512"

record pipe =
  pi_data :: "nat \<Rightarrow> byte"
  pi_nread :: uint
  pi_nwrite :: uint
  pi_readopen :: bool
  pi_writeopen :: bool

datatype ftype = FD_NONE | FD_PIPE | FD_INODE | FD_DEVICE

record kfile =
  f_type :: ftype
  f_ref :: int
  f_readable :: bool
  f_writable :: bool
  f_pipe :: addr
  f_ip :: nat
  f_off :: uint
  f_major :: ushort

record ftst = dvst +
  pipes :: "addr \<Rightarrow> pipe"
  ftable :: "nat \<Rightarrow> kfile"

definition set_pipe :: "addr \<Rightarrow> (pipe \<Rightarrow> pipe) \<Rightarrow> ('a ftst_scheme, unit) K" where
  "set_pipe pi f = kmod (\<lambda>s. s\<lparr>pipes := (pipes s)(pi := f (pipes s pi))\<rparr>)"

definition set_file :: "nat \<Rightarrow> (kfile \<Rightarrow> kfile) \<Rightarrow> ('a ftst_scheme, unit) K" where
  "set_file f g = kmod (\<lambda>s. s\<lparr>ftable := (ftable s)(f := g (ftable s f))\<rparr>)"

subsection \<open>Reference counts\<close>

definition filealloc :: "('a ftst_scheme, nat option) K" where
  "filealloc =
     kthen (acquire FTABLE_LOCK)
    (kbind (kget (\<lambda>s. List.find (\<lambda>f. f_ref (ftable s f) = 0) [0..<NFILE])) (\<lambda>r.
     case r of
       Some f \<Rightarrow> kthen (set_file f (\<lambda>x. x\<lparr>f_ref := 1\<rparr>)) (kthen (release FTABLE_LOCK) (kret (Some f)))
     | None \<Rightarrow> kthen (release FTABLE_LOCK) (kret None)))"

definition filedup :: "nat \<Rightarrow> ('a ftst_scheme, nat) K" where
  "filedup f =
     kthen (acquire FTABLE_LOCK)
    (kbind (kget (\<lambda>s. f_ref (ftable s f))) (\<lambda>r.
     if r < 1 then kpanic ''filedup''
     else kthen (set_file f (\<lambda>x. x\<lparr>f_ref := f_ref x + 1\<rparr>)) (kthen (release FTABLE_LOCK) (kret f))))"

subsection \<open>pipe.c\<close>

definition pipeclose :: "addr \<Rightarrow> bool \<Rightarrow> ('a ftst_scheme, unit) K" where
  "pipeclose pi writable =
     kthen (acquire (PIPE_LOCK pi))
    (kthen (if writable
       then kthen (set_pipe pi (\<lambda>p. p\<lparr>pi_writeopen := False\<rparr>)) (wakeup (ChNread pi))
       else kthen (set_pipe pi (\<lambda>p. p\<lparr>pi_readopen := False\<rparr>)) (wakeup (ChNwrite pi)))
    (kbind (kget (\<lambda>s. pipes s pi)) (\<lambda>p.
     if \<not> pi_readopen p \<and> \<not> pi_writeopen p then kthen (release (PIPE_LOCK pi)) (kfree pi)
     else release (PIPE_LOCK pi))))"

primrec pipewrite_loop :: "addr \<Rightarrow> nat \<Rightarrow> uint64 \<Rightarrow> nat \<Rightarrow> nat \<Rightarrow> ('a ftst_scheme, int) K" where
  "pipewrite_loop pi pr addr i 0 =
     kthen (wakeup (ChNread pi)) (kthen (release (PIPE_LOCK pi)) (kret (int i)))"
| "pipewrite_loop pi pr addr i (Suc n) =
     kbind (kget (\<lambda>s. pipes s pi)) (\<lambda>p.
     kbind (if \<not> pi_readopen p then kret True else killed pr) (\<lambda>dead.
     if dead then kthen (release (PIPE_LOCK pi)) (kret (- 1))
     else if pi_nwrite p = pi_nread p + of_nat PIPESIZE then
       kthen (wakeup (ChNread pi)) (kthen (sleep (ChNwrite pi) (PIPE_LOCK pi)) (kret (- 1)))
     else kbind (kget (\<lambda>s. p_pagetable (procs s pr))) (\<lambda>pt. kbind (copyin pt (addr + of_nat i) 1) (\<lambda>(r, bs).
       if r = - 1 then kthen (wakeup (ChNread pi)) (kthen (release (PIPE_LOCK pi)) (kret (int i)))
       else kthen (set_pipe pi (\<lambda>p. p\<lparr>pi_data := (pi_data p)(unat (pi_nwrite p) mod PIPESIZE := hd bs),
                                      pi_nwrite := pi_nwrite p + 1\<rparr>))
         (pipewrite_loop pi pr addr (Suc i) n)))))"

definition pipewrite :: "addr \<Rightarrow> uint64 \<Rightarrow> int \<Rightarrow> ('a ftst_scheme, int) K" where
  "pipewrite pi addr n = kbind curproc (\<lambda>pr.
     kthen (acquire (PIPE_LOCK pi)) (pipewrite_loop pi pr addr 0 (nat n)))"

primrec piperead_loop :: "addr \<Rightarrow> nat \<Rightarrow> uint64 \<Rightarrow> nat \<Rightarrow> nat \<Rightarrow> ('a ftst_scheme, int) K" where
  "piperead_loop pi pr addr i 0 = kret (int i)"
| "piperead_loop pi pr addr i (Suc n) =
     kbind (kget (\<lambda>s. pipes s pi)) (\<lambda>p.
     if pi_nread p = pi_nwrite p then kret (int i)
     else let ch = pi_data p (unat (pi_nread p) mod PIPESIZE) in
       kthen (set_pipe pi (\<lambda>p. p\<lparr>pi_nread := pi_nread p + 1\<rparr>))
      (kbind (kget (\<lambda>s. p_pagetable (procs s pr))) (\<lambda>pt. kbind (copyout pt (addr + of_nat i) [ch]) (\<lambda>r.
       if r = - 1 then kret (int i) else piperead_loop pi pr addr (Suc i) n))))"

definition piperead :: "addr \<Rightarrow> uint64 \<Rightarrow> int \<Rightarrow> ('a ftst_scheme, int) K" where
  "piperead pi addr n = kbind curproc (\<lambda>pr.
     kthen (acquire (PIPE_LOCK pi))
    (kbind (kget (\<lambda>s. pipes s pi)) (\<lambda>p.
     if pi_nread p = pi_nwrite p \<and> pi_writeopen p then
       kbind (killed pr) (\<lambda>k.
       if k then kthen (release (PIPE_LOCK pi)) (kret (- 1))
       else kthen (sleep (ChNread pi) (PIPE_LOCK pi)) (kret (- 1)))
     else kbind (piperead_loop pi pr addr 0 (nat n)) (\<lambda>i.
       kthen (wakeup (ChNwrite pi)) (kthen (release (PIPE_LOCK pi)) (kret i))))))"

subsection \<open>file.c\<close>

definition fileclose :: "nat \<Rightarrow> ('a ftst_scheme, unit) K" where
  "fileclose f =
     kthen (acquire FTABLE_LOCK)
    (kbind (kget (\<lambda>s. ftable s f)) (\<lambda>ff.
     if f_ref ff < 1 then kpanic ''fileclose''
     else if f_ref ff - 1 > 0 then
       kthen (set_file f (\<lambda>x. x\<lparr>f_ref := f_ref x - 1\<rparr>)) (release FTABLE_LOCK)
     else
       kthen (set_file f (\<lambda>x. x\<lparr>f_ref := 0, f_type := FD_NONE\<rparr>))
      (kthen (release FTABLE_LOCK)
       (if f_type ff = FD_PIPE then pipeclose (f_pipe ff) (f_writable ff)
        else kwhen (f_type ff = FD_INODE \<or> f_type ff = FD_DEVICE)
          (kthen begin_op (kthen (iput (f_ip ff)) end_op))))))"

text \<open>\<open>pipealloc\<close> gives the two files of a new pipe, \<open>None\<close> where the code returns -1.\<close>

definition pipealloc_bad :: "nat option \<Rightarrow> nat option \<Rightarrow> ('a ftst_scheme, (nat \<times> nat) option) K" where
  "pipealloc_bad f0 f1 =
     kthen (case f0 of Some f \<Rightarrow> fileclose f | None \<Rightarrow> kskip)
    (kthen (case f1 of Some f \<Rightarrow> fileclose f | None \<Rightarrow> kskip)
     (kret None))"

definition pipealloc :: "('a ftst_scheme, (nat \<times> nat) option) K" where
  "pipealloc = kbind filealloc (\<lambda>f0. case f0 of None \<Rightarrow> pipealloc_bad None None | Some a \<Rightarrow>
     kbind filealloc (\<lambda>f1. case f1 of None \<Rightarrow> pipealloc_bad f0 None | Some b \<Rightarrow>
     kbind kalloc (\<lambda>pi.
     if pi = 0 then pipealloc_bad f0 f1
     else kthen (set_pipe pi (\<lambda>p. p\<lparr>pi_readopen := True, pi_writeopen := True, pi_nwrite := 0, pi_nread := 0\<rparr>))
       (kthen (set_file a (\<lambda>x. x\<lparr>f_type := FD_PIPE, f_readable := True, f_writable := False, f_pipe := pi\<rparr>))
       (kthen (set_file b (\<lambda>x. x\<lparr>f_type := FD_PIPE, f_readable := False, f_writable := True, f_pipe := pi\<rparr>))
        (kret (Some (a, b))))))))"

text \<open>The bytes of struct stat; the four bytes of padding before \<open>size\<close> are never set.\<close>

definition le_bytes :: "nat \<Rightarrow> 'a::len word \<Rightarrow> byte list" where
  "le_bytes n v = map (\<lambda>i. ucast (drop_bit (8 * i) v)) [0..<n]"

definition stat_bytes :: "byte list \<Rightarrow> stat \<Rightarrow> byte list" where
  "stat_bytes pad st = le_bytes 4 (st_dev st) @ le_bytes 4 (st_ino st) @ le_bytes 2 (st_type st) @ le_bytes 2 (st_nlink st)
     @ take 4 pad @ le_bytes 8 (st_size st)"

definition filestat :: "byte list \<Rightarrow> nat \<Rightarrow> uint64 \<Rightarrow> ('a ftst_scheme, int) K" where
  "filestat pad f addr = kbind curproc (\<lambda>p. kbind (kget (\<lambda>s. ftable s f)) (\<lambda>ff.
     if f_type ff = FD_INODE \<or> f_type ff = FD_DEVICE then
       kthen (ilock (f_ip ff))
      (kbind (stati (f_ip ff)) (\<lambda>st.
       kthen (iunlock (f_ip ff))
      (kbind (kget (\<lambda>s. p_pagetable (procs s p))) (\<lambda>pt.
       kbind (copyout pt addr (stat_bytes pad st)) (\<lambda>r.
       kret (if r < 0 then - 1 else 0))))))
     else kret (- 1)))"

fun dev_read :: "devfn \<Rightarrow> dest \<Rightarrow> int \<Rightarrow> ('a ftst_scheme, int) K" where
  "dev_read DevConsoleread dst n = consoleread dst n"
| "dev_read DevConsolewrite dst n = kpanic ''kerneltrap''"

fun dev_write :: "devfn \<Rightarrow> source \<Rightarrow> int \<Rightarrow> ('a ftst_scheme, int) K" where
  "dev_write DevConsolewrite src n = consolewrite src n"
| "dev_write DevConsoleread src n = kpanic ''kerneltrap''"

definition bad_major :: "ushort \<Rightarrow> bool" where
  "bad_major m \<longleftrightarrow> sint m < 0 \<or> sint m \<ge> int NDEV"

definition fileread :: "nat \<Rightarrow> uint64 \<Rightarrow> int \<Rightarrow> ('a ftst_scheme, int) K" where
  "fileread f addr n = kbind (kget (\<lambda>s. ftable s f)) (\<lambda>ff.
     if \<not> f_readable ff then kret (- 1)
     else case f_type ff of
       FD_PIPE \<Rightarrow> piperead (f_pipe ff) addr n
     | FD_DEVICE \<Rightarrow>
         if bad_major (f_major ff) then kret (- 1)
         else kbind (kget (\<lambda>s. devsw_read s (unat (f_major ff)))) (\<lambda>d.
           case d of None \<Rightarrow> kret (- 1) | Some d \<Rightarrow> dev_read d (UserDst addr) n)
     | FD_INODE \<Rightarrow>
         kthen (ilock (f_ip ff))
        (kbind (readi (f_ip ff) (UserDst addr) (f_off ff) (word_of_int n)) (\<lambda>(r, _).
         kthen (kwhen (r > 0) (set_file f (\<lambda>x. x\<lparr>f_off := f_off x + word_of_int r\<rparr>)))
        (kthen (iunlock (f_ip ff))
         (kret r))))
     | FD_NONE \<Rightarrow> kpanic ''fileread'')"

definition FILEWRITE_MAX :: nat where
  "FILEWRITE_MAX = ((MAXOPBLOCKS - 1 - 1 - 2) div 2) * BSIZE"

function filewrite_loop :: "nat \<Rightarrow> uint64 \<Rightarrow> nat \<Rightarrow> nat \<Rightarrow> ('a ftst_scheme, nat) K" where
  "filewrite_loop f addr i rest =
     (if rest = 0 then kret i
      else let n1 = min rest FILEWRITE_MAX in
        kthen begin_op
       (kbind (kget (\<lambda>s. ftable s f)) (\<lambda>ff.
        kthen (ilock (f_ip ff))
       (kbind (writei (f_ip ff) (UserSrc (addr + of_nat i)) (f_off ff) (of_nat n1)) (\<lambda>r.
        kthen (kwhen (r > 0) (set_file f (\<lambda>x. x\<lparr>f_off := f_off x + word_of_int r\<rparr>)))
       (kthen (iunlock (f_ip ff))
       (kthen end_op
        (if r \<noteq> int n1 then kret i else filewrite_loop f addr (i + n1) (rest - n1)))))))))"
  by pat_completeness auto
termination
  by (relation "measure (\<lambda>(_, _, _, rest). rest)") (auto simp: FILEWRITE_MAX_def MAXOPBLOCKS_def BSIZE_def)

declare filewrite_loop.simps [simp del]

definition filewrite :: "nat \<Rightarrow> uint64 \<Rightarrow> int \<Rightarrow> ('a ftst_scheme, int) K" where
  "filewrite f addr n = kbind (kget (\<lambda>s. ftable s f)) (\<lambda>ff.
     if \<not> f_writable ff then kret (- 1)
     else case f_type ff of
       FD_PIPE \<Rightarrow> pipewrite (f_pipe ff) addr n
     | FD_DEVICE \<Rightarrow>
         if bad_major (f_major ff) then kret (- 1)
         else kbind (kget (\<lambda>s. devsw_write s (unat (f_major ff)))) (\<lambda>d.
           case d of None \<Rightarrow> kret (- 1) | Some d \<Rightarrow> dev_write d (UserSrc addr) n)
     | FD_INODE \<Rightarrow> kbind (filewrite_loop f addr 0 (nat n)) (\<lambda>i. kret (if int i = n then n else - 1))
     | FD_NONE \<Rightarrow> kpanic ''filewrite'')"

end
