(* ===== verification/Virtio.thy ===== *)
theory Virtio
  imports File
begin

text \<open>
  The virtio block driver of kernel/virtio_disk.c.

  The queue memory that driver and device share is part of the state: the descriptor table, the avail ring,
  the used ring, the request headers and the status bytes. The address of a descriptor is a symbolic \<open>vaddr\<close>.
  \<open>vd_read\<close> is what a device register reads as after a sequence of register writes (\<open>vd_writes\<close>).
  \<open>virtio_disk_rw\<close> sleeps until its request is done, so it is modelled in the pieces between which the processor
  does other things: \<open>virtio_disk_submit\<close> up to the notification of the device, \<open>virtio_disk_wait\<close>, the loop
  that sleeps, and \<open>virtio_disk_finish\<close>, the rest.
\<close>

unbundle bit_operations_syntax

subsection \<open>struct disk and the queue (kernel/virtio.h)\<close>

definition NUM :: nat where "NUM = 8"

definition VRING_DESC_F_NEXT :: ushort where "VRING_DESC_F_NEXT = 1"
definition VRING_DESC_F_WRITE :: ushort where "VRING_DESC_F_WRITE = 2"
definition VIRTIO_BLK_T_IN :: uint where "VIRTIO_BLK_T_IN = 0"
definition VIRTIO_BLK_T_OUT :: uint where "VIRTIO_BLK_T_OUT = 1"

datatype vaddr = VNull | VReq nat | VData nat | VStatus nat

record virtq_desc =
  vq_addr :: vaddr
  vq_len :: uint
  vq_flags :: ushort
  vq_next :: ushort

record virtio_blk_req =
  vr_type :: uint
  vr_reserved :: uint
  vr_sector :: uint64

record vdst = ftst +
  vd_desc :: "nat \<Rightarrow> virtq_desc"
  vd_avail_idx :: ushort
  vd_avail_ring :: "nat \<Rightarrow> ushort"
  vd_used_idx :: ushort
  vd_used_ring :: "nat \<Rightarrow> uint"
  vd_free :: "nat \<Rightarrow> bool"
  vd_seen :: ushort
  vd_info_b :: "nat \<Rightarrow> nat option"
  vd_info_status :: "nat \<Rightarrow> byte"
  vd_ops :: "nat \<Rightarrow> virtio_blk_req"
  vd_read :: "(uint \<times> uint) list \<Rightarrow> uint \<Rightarrow> uint"
  vd_writes :: "(uint \<times> uint) list"

definition R_read :: "uint \<Rightarrow> ('a vdst_scheme, uint) K" where
  "R_read r = kget (\<lambda>s. vd_read s (vd_writes s) r)"

definition R_write :: "uint \<Rightarrow> uint \<Rightarrow> ('a vdst_scheme, unit) K" where
  "R_write r v = kmod (\<lambda>s. s\<lparr>vd_writes := vd_writes s @ [(r, v)]\<rparr>)"

subsection \<open>virtio_disk_init\<close>

definition virtio_features :: "uint64 \<Rightarrow> uint64" where
  "virtio_features f =
     (((((((f AND NOT (push_bit 5 1)) AND NOT (push_bit 7 1)) AND NOT (push_bit 11 1)) AND NOT (push_bit 12 1))
       AND NOT (push_bit 27 1)) AND NOT (push_bit 29 1)) AND NOT (push_bit 28 1))"

definition virtio_negotiate :: "('a vdst_scheme, uint) K" where
  "virtio_negotiate =
     kbind (R_read 0x000) (\<lambda>magic. kbind (R_read 0x004) (\<lambda>version. kbind (R_read 0x008) (\<lambda>devid. kbind (R_read 0x00c) (\<lambda>vendor.
     if magic \<noteq> 0x74726976 \<or> version \<noteq> 2 \<or> devid \<noteq> 2 \<or> vendor \<noteq> 0x554d4551
     then kpanic ''could not find virtio disk''
     else
       kthen (R_write 0x070 0)
      (kthen (R_write 0x070 1)
      (kthen (R_write 0x070 (1 OR 2))
      (kbind (R_read 0x010) (\<lambda>features.
       kthen (R_write 0x020 (ucast (virtio_features (ucast features))))
      (kthen (R_write 0x070 (1 OR 2 OR 8))
      (kbind (R_read 0x070) (\<lambda>status.
       if status AND 8 = 0 then kpanic ''virtio disk FEATURES_OK unset''
       else kret status))))))))))) "

definition virtio_queue :: "addr \<Rightarrow> addr \<Rightarrow> addr \<Rightarrow> ('a vdst_scheme, unit) K" where
  "virtio_queue desc avail used =
     kthen (R_write 0x038 (of_nat NUM))
    (kthen (R_write 0x080 (ucast desc))
    (kthen (R_write 0x084 (ucast (drop_bit 32 desc)))
    (kthen (R_write 0x090 (ucast avail))
    (kthen (R_write 0x094 (ucast (drop_bit 32 avail)))
    (kthen (R_write 0x0a0 (ucast used))
    (kthen (R_write 0x0a4 (ucast (drop_bit 32 used)))
     (R_write 0x044 1)))))))"

definition zero_desc :: virtq_desc where
  "zero_desc = \<lparr>vq_addr = VNull, vq_len = 0, vq_flags = 0, vq_next = 0\<rparr>"

definition virtio_disk_init :: "('a vdst_scheme, unit) K" where
  "virtio_disk_init = kbind virtio_negotiate (\<lambda>status.
     kthen (R_write 0x030 0)
    (kbind (R_read 0x044) (\<lambda>ready.
     if ready \<noteq> 0 then kpanic ''virtio disk should not be ready''
     else kbind (R_read 0x034) (\<lambda>mx.
     if mx = 0 then kpanic ''virtio disk has no queue 0''
     else if mx < of_nat NUM then kpanic ''virtio disk max queue too short''
     else kbind kalloc (\<lambda>desc. kbind kalloc (\<lambda>avail. kbind kalloc (\<lambda>used.
       if desc = 0 \<or> avail = 0 \<or> used = 0 then kpanic ''virtio disk kalloc''
       else
         kthen (set_mem (\<lambda>m. memset (memset (memset m desc 0 4096) avail 0 4096) used 0 4096))
        (kthen (kmod (\<lambda>s. s\<lparr>vd_desc := (\<lambda>_. zero_desc), vd_avail_idx := 0, vd_avail_ring := (\<lambda>_. 0),
                            vd_used_idx := 0, vd_used_ring := (\<lambda>_. 0)\<rparr>))
        (kthen (virtio_queue desc avail used)
        (kthen (kmod (\<lambda>s. s\<lparr>vd_free := (\<lambda>i. if i < NUM then True else vd_free s i)\<rparr>))
         (R_write 0x070 (status OR 4)))))))))))) "

subsection \<open>Descriptors\<close>

definition alloc_desc :: "('a vdst_scheme, nat option) K" where
  "alloc_desc = kbind (kget (\<lambda>s. List.find (vd_free s) [0..<NUM])) (\<lambda>r. case r of
     Some i \<Rightarrow> kthen (kmod (\<lambda>s. s\<lparr>vd_free := (vd_free s)(i := False)\<rparr>)) (kret (Some i))
   | None \<Rightarrow> kret None)"

definition free_desc :: "nat \<Rightarrow> ('a vdst_scheme, unit) K" where
  "free_desc i =
     (if NUM \<le> i then kpanic ''free_desc 1''
      else kbind (kget (\<lambda>s. vd_free s i)) (\<lambda>f.
        if f then kpanic ''free_desc 2''
        else kthen (kmod (\<lambda>s. s\<lparr>vd_desc := (vd_desc s)(i := zero_desc)\<rparr>))
            (kthen (kmod (\<lambda>s. s\<lparr>vd_free := (vd_free s)(i := True)\<rparr>))
             (wakeup ChDiskFree))))"

text \<open>\<open>free_chain\<close> frees a descriptor at every iteration, and freeing a free one panics: it ends after at most
  \<open>NUM + 1\<close> iterations.\<close>

primrec free_chain_loop :: "nat \<Rightarrow> nat \<Rightarrow> ('a vdst_scheme, unit) K" where
  "free_chain_loop 0 i = kskip"
| "free_chain_loop (Suc fuel) i = kbind (kget (\<lambda>s. vd_desc s i)) (\<lambda>d.
     kthen (free_desc i)
     (if vq_flags d AND VRING_DESC_F_NEXT \<noteq> 0 then free_chain_loop fuel (unat (vq_next d)) else kskip))"

definition free_chain :: "nat \<Rightarrow> ('a vdst_scheme, unit) K" where
  "free_chain i = free_chain_loop (Suc NUM) i"

definition alloc3_desc :: "('a vdst_scheme, (nat \<times> nat \<times> nat) option) K" where
  "alloc3_desc = kbind alloc_desc (\<lambda>a. case a of None \<Rightarrow> kret None | Some i \<Rightarrow>
     kbind alloc_desc (\<lambda>b. case b of None \<Rightarrow> kthen (free_desc i) (kret None) | Some j \<Rightarrow>
     kbind alloc_desc (\<lambda>c. case c of None \<Rightarrow> kthen (free_desc i) (kthen (free_desc j) (kret None)) | Some k \<Rightarrow>
     kret (Some (i, j, k)))))"

subsection \<open>Requests\<close>

definition set_desc :: "nat \<Rightarrow> virtq_desc \<Rightarrow> ('a vdst_scheme, unit) K" where
  "set_desc i d = kmod (\<lambda>s. s\<lparr>vd_desc := (vd_desc s)(i := d)\<rparr>)"

definition virtio_fill :: "nat \<Rightarrow> bool \<Rightarrow> uint64 \<Rightarrow> nat \<times> nat \<times> nat \<Rightarrow> ('a vdst_scheme, unit) K" where
  "virtio_fill b write sector idx = (case idx of (i0, i1, i2) \<Rightarrow>
     kthen (kmod (\<lambda>s. s\<lparr>vd_ops := (vd_ops s)(i0 := \<lparr>vr_type = if write then VIRTIO_BLK_T_OUT else VIRTIO_BLK_T_IN,
                          vr_reserved = 0, vr_sector = sector\<rparr>)\<rparr>))
    (kthen (set_desc i0 \<lparr>vq_addr = VReq i0, vq_len = 16, vq_flags = VRING_DESC_F_NEXT, vq_next = of_nat i1\<rparr>)
    (kthen (set_desc i1 \<lparr>vq_addr = VData b, vq_len = of_nat BSIZE,
              vq_flags = (if write then 0 else VRING_DESC_F_WRITE) OR VRING_DESC_F_NEXT, vq_next = of_nat i2\<rparr>)
    (kthen (kmod (\<lambda>s. s\<lparr>vd_info_status := (vd_info_status s)(i0 := 0xff)\<rparr>))
    (kthen (set_desc i2 \<lparr>vq_addr = VStatus i0, vq_len = 1, vq_flags = VRING_DESC_F_WRITE, vq_next = 0\<rparr>)
    (kthen (set_buf b (\<lambda>x. x\<lparr>b_disk := True\<rparr>))
     (kmod (\<lambda>s. s\<lparr>vd_info_b := (vd_info_b s)(i0 := Some b)\<rparr>))))))))"

definition virtio_disk_submit :: "nat \<Rightarrow> bool \<Rightarrow> ('a vdst_scheme, nat) K" where
  "virtio_disk_submit b write =
     kbind (kget (\<lambda>s. ucast (b_blockno (bufs s b) * of_nat (BSIZE div 512)))) (\<lambda>sector.
     kthen (acquire VDISK_LOCK)
    (kbind alloc3_desc (\<lambda>r. case r of
       None \<Rightarrow> kthen (sleep ChDiskFree VDISK_LOCK) (kret 0)
     | Some (i0, i1, i2) \<Rightarrow>
         kthen (virtio_fill b write sector (i0, i1, i2))
        (kthen (kmod (\<lambda>s. s\<lparr>vd_avail_ring := (vd_avail_ring s)(unat (vd_avail_idx s) mod NUM := of_nat i0)\<rparr>))
        (kthen (kmod (\<lambda>s. s\<lparr>vd_avail_idx := vd_avail_idx s + 1\<rparr>))
        (kthen (R_write 0x050 0)
         (kret i0)))))))"

definition virtio_disk_wait :: "nat \<Rightarrow> ('a vdst_scheme, unit) K" where
  "virtio_disk_wait b = kbind (kget (\<lambda>s. b_disk (bufs s b))) (\<lambda>busy.
     kwhen busy (sleep (ChBuf b) VDISK_LOCK))"

definition virtio_disk_finish :: "nat \<Rightarrow> ('a vdst_scheme, unit) K" where
  "virtio_disk_finish i0 =
     kthen (kmod (\<lambda>s. s\<lparr>vd_info_b := (vd_info_b s)(i0 := None)\<rparr>))
    (kthen (free_chain i0)
     (release VDISK_LOCK))"

text \<open>\<open>virtio_disk_intr\<close> handles the used-ring entries the device has added since the last interrupt; their
  number is the distance of two 16-bit counters.\<close>

primrec virtio_intr_loop :: "nat \<Rightarrow> ('a vdst_scheme, unit) K" where
  "virtio_intr_loop 0 = kskip"
| "virtio_intr_loop (Suc n) = kbind (kget (\<lambda>s. s)) (\<lambda>s.
     if vd_seen s = vd_used_idx s then kskip
     else let i = unat (vd_used_ring s (unat (vd_seen s) mod NUM)) in
       if vd_info_status s i \<noteq> 0 then kpanic ''virtio_disk_intr status''
       else case vd_info_b s i of
         None \<Rightarrow> kpanic ''kerneltrap''
       | Some b \<Rightarrow>
           kthen (set_buf b (\<lambda>x. x\<lparr>b_disk := False\<rparr>))
          (kthen (wakeup (ChBuf b))
          (kthen (kmod (\<lambda>s. s\<lparr>vd_seen := vd_seen s + 1\<rparr>))
           (virtio_intr_loop n))))"

definition virtio_disk_intr :: "('a vdst_scheme, unit) K" where
  "virtio_disk_intr =
     kthen (acquire VDISK_LOCK)
    (kbind (R_read 0x060) (\<lambda>st.
     kthen (R_write 0x064 (st AND 3))
    (kthen (kbind (kget (\<lambda>s. unat (vd_used_idx s - vd_seen s))) virtio_intr_loop)
     (release VDISK_LOCK))))"

end
