(* ===== verification/Proc.thy ===== *)
theory Proc
  imports Virtio
begin

text \<open>
  The life of a process (kernel/proc.c): \<open>allocproc\<close>, \<open>freeproc\<close>, \<open>userinit\<close>, \<open>growproc\<close>, \<open>fork\<close>, \<open>exit\<close>, \<open>wait\<close>.
  The record \<open>kos\<close> is the whole kernel state; it adds the supervisor registers, the interrupt
  controller, and the static variables of kernel/proc.c and kernel/sysproc.c.

  \<open>exit\<close> does not return: it ends in \<open>Swtch\<close>, with the process a zombie. \<open>wait\<close> is one attempt: it returns
  or goes to sleep on the process itself.
\<close>

subsection \<open>The kernel state\<close>

record kos = vdst +
  forkret_first :: bool
  k_forkret :: addr
  k_uservec :: addr
  k_userret :: addr
  k_usertrap :: addr
  k_kernelvec :: addr
  csr_sstatus :: uint64
  csr_sepc :: uint64
  csr_scause :: uint64
  csr_stval :: uint64
  csr_stvec :: uint64
  csr_satp :: uint64
  csr_sip :: uint64
  plic_irq :: uint
  plic_writes :: "(uint64 \<times> uint) list"
  last_total_ticks :: uint64
  last_cpu_active :: uint64
  last_int_count :: uint64

subsection \<open>Page tables of processes\<close>

definition proc_pagetable :: "addr \<Rightarrow> ('a mst_scheme, addr) K" where
  "proc_pagetable trapframe = kbind uvmcreate (\<lambda>pagetable.
     if pagetable = 0 then kret 0
     else kbind (kget k_trampoline) (\<lambda>trampoline.
       kbind (mappages pagetable TRAMPOLINE PGSIZE trampoline (PTE_R OR PTE_X)) (\<lambda>r.
       if r < 0 then kthen (uvmfree pagetable 0) (kret 0)
       else kbind (mappages pagetable TRAPFRAME PGSIZE trapframe (PTE_R OR PTE_W)) (\<lambda>r.
         if r < 0 then kthen (uvmunmap pagetable TRAMPOLINE 1 False) (kthen (uvmfree pagetable 0) (kret 0))
         else kret pagetable))))"

definition proc_freepagetable :: "addr \<Rightarrow> uint64 \<Rightarrow> ('a mst_scheme, unit) K" where
  "proc_freepagetable pagetable sz =
     kthen (uvmunmap pagetable TRAMPOLINE 1 False)
    (kthen (uvmunmap pagetable TRAPFRAME 1 False)
     (uvmfree pagetable sz))"

subsection \<open>Table entries\<close>

definition freeproc :: "nat \<Rightarrow> ('a mst_scheme, unit) K" where
  "freeproc p = kbind (kget (\<lambda>s. procs s p)) (\<lambda>q.
     kthen (kwhen (p_trapframe q \<noteq> 0) (kfree (p_trapframe q)))
    (kthen (setproc p (\<lambda>x. x\<lparr>p_trapframe := 0\<rparr>))
    (kthen (kwhen (p_pagetable q \<noteq> 0) (proc_freepagetable (p_pagetable q) (p_sz q)))
     (setproc p (\<lambda>x. x\<lparr>p_pagetable := 0, p_sz := 0, p_pid := 0, p_parent := None, p_name := [],
        p_chan := None, p_killed := False, p_xstate := 0, p_state := UNUSED\<rparr>)))))"

text \<open>A trapframe page fresh from \<open>kalloc\<close> is filled with 5s.\<close>

definition allocproc_found :: "nat \<Rightarrow> ('a kos_scheme, nat option) K" where
  "allocproc_found p =
     kbind allocpid (\<lambda>pid.
     kthen (setproc p (\<lambda>x. x\<lparr>p_pid := pid\<rparr>))
    (kthen (setproc p (\<lambda>x. x\<lparr>p_state := USED\<rparr>))
    (kbind kalloc (\<lambda>tf.
     kthen (setproc p (\<lambda>x. x\<lparr>p_trapframe := tf, p_tf := const_trapframe 0x0505050505050505\<rparr>))
     (if tf = 0 then kthen (freeproc p) (kthen (release (PROC_LOCK p)) (kret None))
      else kbind (proc_pagetable tf) (\<lambda>pt.
        kthen (setproc p (\<lambda>x. x\<lparr>p_pagetable := pt\<rparr>))
        (if pt = 0 then kthen (freeproc p) (kthen (release (PROC_LOCK p)) (kret None))
         else kbind (kget k_forkret) (\<lambda>forkret.
           kthen (setproc p (\<lambda>x. x\<lparr>p_context := zero_context\<lparr>c_ra := forkret, c_sp := p_kstack x + PGSIZE\<rparr>\<rparr>))
          (kthen (setproc p (\<lambda>x. x\<lparr>p_cpu_heat := 0, p_total_ticks := 0, p_last_scheduled := 0\<rparr>))
           (kret (Some p)))))))))))"

definition allocproc :: "('a kos_scheme, nat option) K" where
  "allocproc = kbind (kscan [0..<NPROC] (\<lambda>i.
     kthen (acquire (PROC_LOCK i))
    (kbind (kget (\<lambda>s. p_state (procs s i))) (\<lambda>st.
     if st = UNUSED then kret (Some i) else kthen (release (PROC_LOCK i)) (kret None)))))
     (\<lambda>r. case r of None \<Rightarrow> kret None | Some p \<Rightarrow> allocproc_found p)"

definition initcode :: "byte list" where
  "initcode =
    [0x17, 0x05, 0x00, 0x00, 0x13, 0x05, 0x45, 0x02,
     0x97, 0x05, 0x00, 0x00, 0x93, 0x85, 0x35, 0x02,
     0x93, 0x08, 0x70, 0x00, 0x73, 0x00, 0x00, 0x00,
     0x93, 0x08, 0x20, 0x00, 0x73, 0x00, 0x00, 0x00,
     0xef, 0xf0, 0x9f, 0xff, 0x2f, 0x69, 0x6e, 0x69,
     0x74, 0x00, 0x00, 0x24, 0x00, 0x00, 0x00, 0x00,
     0x00, 0x00, 0x00, 0x00]"

definition userinit :: "('a kos_scheme, unit) K" where
  "userinit = kbind allocproc (\<lambda>r.
     kthen (kmod (\<lambda>s. s\<lparr>initproc := r\<rparr>))
     (case r of
        None \<Rightarrow> kpanic ''kerneltrap''
      | Some p \<Rightarrow>
          kbind (kget (\<lambda>s. p_pagetable (procs s p))) (\<lambda>pt.
          kthen (uvmfirst pt initcode)
         (kthen (setproc p (\<lambda>x. x\<lparr>p_sz := PGSIZE, p_tf := (p_tf x)\<lparr>tf_epc := 0, tf_sp := PGSIZE\<rparr>, p_name := ''initcode''\<rparr>))
         (kbind (namei [SLASH]) (\<lambda>cwd.
          kthen (setproc p (\<lambda>x. x\<lparr>p_cwd := cwd\<rparr>))
         (kthen (setproc p (\<lambda>x. x\<lparr>p_state := RUNNABLE\<rparr>))
          (release (PROC_LOCK p)))))))))"

definition growproc :: "int \<Rightarrow> ('a mst_scheme, int) K" where
  "growproc n = kbind curproc (\<lambda>p. kbind (kget (\<lambda>s. procs s p)) (\<lambda>q.
     if n > 0 then
       kbind (uvmalloc (p_pagetable q) (p_sz q) (p_sz q + word_of_int n) PTE_W) (\<lambda>sz.
       if sz = 0 then kret (- 1) else kthen (setproc p (\<lambda>x. x\<lparr>p_sz := sz\<rparr>)) (kret 0))
     else if n < 0 then
       kbind (uvmdealloc (p_pagetable q) (p_sz q) (p_sz q + word_of_int n)) (\<lambda>sz.
       kthen (setproc p (\<lambda>x. x\<lparr>p_sz := sz\<rparr>)) (kret 0))
     else kret 0))"

subsection \<open>fork, exit, wait\<close>

definition fork_files :: "nat \<Rightarrow> nat \<Rightarrow> ('a kos_scheme, unit) K" where
  "fork_files p np = kfor [0..<NOFILE] (\<lambda>i. kbind (kget (\<lambda>s. p_ofile (procs s p) i)) (\<lambda>f. case f of
     None \<Rightarrow> kskip
   | Some f \<Rightarrow> kbind (filedup f) (\<lambda>g. setproc np (\<lambda>x. x\<lparr>p_ofile := (p_ofile x)(i := Some g)\<rparr>))))"

definition fork :: "('a kos_scheme, int) K" where
  "fork = kbind curproc (\<lambda>p. kbind allocproc (\<lambda>r. case r of
     None \<Rightarrow> kret (- 1)
   | Some np \<Rightarrow>
       kbind (kget (\<lambda>s. (procs s p, p_pagetable (procs s np)))) (\<lambda>(q, npt).
       kbind (uvmcopy (p_pagetable q) npt (p_sz q)) (\<lambda>e.
       if e < 0 then kthen (freeproc np) (kthen (release (PROC_LOCK np)) (kret (- 1)))
       else
         kthen (setproc np (\<lambda>x. x\<lparr>p_sz := p_sz q\<rparr>))
        (kthen (setproc np (\<lambda>x. x\<lparr>p_tf := (p_tf q)\<lparr>tf_a0 := 0\<rparr>\<rparr>))
        (kthen (fork_files p np)
        (kbind (case p_cwd q of None \<Rightarrow> kpanic ''kerneltrap'' | Some d \<Rightarrow> idup d) (\<lambda>cwd.
         kthen (setproc np (\<lambda>x. x\<lparr>p_cwd := Some cwd\<rparr>))
        (kthen (setproc np (\<lambda>x. x\<lparr>p_name := p_name q\<rparr>))
        (kbind (kget (\<lambda>s. p_pid (procs s np))) (\<lambda>pid.
         kthen (release (PROC_LOCK np))
        (kthen (acquire WAIT_LOCK)
        (kthen (setproc np (\<lambda>x. x\<lparr>p_parent := Some p\<rparr>))
        (kthen (release WAIT_LOCK)
        (kthen (acquire (PROC_LOCK np))
        (kthen (setproc np (\<lambda>x. x\<lparr>p_state := RUNNABLE\<rparr>))
        (kthen (release (PROC_LOCK np))
         (kret (sint pid)))))))))))))))))))"

definition exit_files :: "nat \<Rightarrow> ('a kos_scheme, unit) K" where
  "exit_files p = kfor [0..<NOFILE] (\<lambda>fd. kbind (kget (\<lambda>s. p_ofile (procs s p) fd)) (\<lambda>f. case f of
     None \<Rightarrow> kskip
   | Some f \<Rightarrow> kthen (fileclose f) (setproc p (\<lambda>x. x\<lparr>p_ofile := (p_ofile x)(fd := None)\<rparr>))))"

definition exit_zombie :: "nat \<Rightarrow> uint \<Rightarrow> ('a kos_scheme, unit) K" where
  "exit_zombie p status =
     kthen (acquire WAIT_LOCK)
    (kthen (reparent p)
    (kbind (kget (\<lambda>s. p_parent (procs s p))) (\<lambda>parent.
     kthen (wakeup_proc parent)
    (kthen (acquire (PROC_LOCK p))
    (kthen (setproc p (\<lambda>x. x\<lparr>p_xstate := status\<rparr>))
    (kthen (setproc p (\<lambda>x. x\<lparr>p_state := ZOMBIE\<rparr>))
    (kthen (release WAIT_LOCK)
    (kthen sched
     (kpanic ''zombie exit'')))))))))"

definition exit :: "uint \<Rightarrow> ('a kos_scheme, unit) K" where
  "exit status = kbind curproc (\<lambda>p. kbind (kget initproc) (\<lambda>ini.
     if ini = Some p then kpanic ''init exiting''
     else
       kthen (exit_files p)
      (kthen begin_op
      (kbind (kget (\<lambda>s. p_cwd (procs s p))) (\<lambda>cwd.
       kthen (case cwd of None \<Rightarrow> kpanic ''kerneltrap'' | Some d \<Rightarrow> iput d)
      (kthen end_op
      (kthen (setproc p (\<lambda>x. x\<lparr>p_cwd := None\<rparr>))
       (exit_zombie p status))))))))"

text \<open>\<open>wait_scan\<close> visits one entry: \<open>Some r\<close> is a return with \<open>r\<close>; otherwise the Boolean \<open>havekids\<close> is passed on.\<close>

definition wait_child :: "nat \<Rightarrow> uint64 \<Rightarrow> nat \<Rightarrow> ('a kos_scheme, int option) K" where
  "wait_child p addr i = kbind (kget (\<lambda>s. p_parent (procs s i))) (\<lambda>par.
     if par \<noteq> Some p then kret None
     else
       kthen (acquire (PROC_LOCK i))
      (kbind (kget (\<lambda>s. procs s i)) (\<lambda>q.
       if p_state q = ZOMBIE then
         kbind (kget (\<lambda>s. p_pagetable (procs s p))) (\<lambda>pt.
         kbind (if addr \<noteq> 0 then copyout pt addr (le_bytes 4 (p_xstate q)) else kret 0) (\<lambda>e.
         if e < 0 then kthen (release (PROC_LOCK i)) (kthen (release WAIT_LOCK) (kret (Some (- 1))))
         else kthen (freeproc i)
             (kthen (release (PROC_LOCK i))
             (kthen (release WAIT_LOCK)
              (kret (Some (sint (p_pid q))))))))
       else kthen (release (PROC_LOCK i)) (kret None))))"

definition wait :: "uint64 \<Rightarrow> ('a kos_scheme, int) K" where
  "wait addr = kbind curproc (\<lambda>p.
     kthen (acquire WAIT_LOCK)
    (kbind (kscan [0..<NPROC] (wait_child p addr)) (\<lambda>r. case r of
       Some v \<Rightarrow> kret v
     | None \<Rightarrow>
         kbind (kget (\<lambda>s. \<exists>i<NPROC. p_parent (procs s i) = Some p)) (\<lambda>havekids.
         kbind (if \<not> havekids then kret True else killed p) (\<lambda>stop.
         if stop then kthen (release WAIT_LOCK) (kret (- 1))
         else kthen (sleep (ChProc p) WAIT_LOCK) (kret (- 1)))))))"

end
