(* ===== verification/Sysproc.thy ===== *)
theory Sysproc
  imports Proc
begin

text \<open>
  The arguments of system calls (kernel/syscall.c) and the system calls of kernel/sysproc.c.

  A string argument is \<open>None\<close> where the code returns -1, otherwise the bytes before the NUL. \<open>sys_sleep_loop\<close> is
  one pass of the loop of \<open>sys_sleep\<close>. The tail of \<open>timestamp\<close> that \<open>sys_getactivity\<close> never writes is the parameter \<open>junk\<close>.
\<close>

unbundle bit_operations_syntax

subsection \<open>Fetching arguments (kernel/syscall.c)\<close>

fun word_bytes :: "byte list \<Rightarrow> uint64" where
  "word_bytes [] = 0"
| "word_bytes (b # bs) = ucast b OR push_bit 8 (word_bytes bs)"

definition fetchaddr :: "uint64 \<Rightarrow> ('a mst_scheme, uint64 option) K" where
  "fetchaddr addr = kbind curproc (\<lambda>p. kbind (kget (\<lambda>s. procs s p)) (\<lambda>q.
     if p_sz q \<le> addr \<or> p_sz q < addr + 8 then kret None
     else kbind (copyin (p_pagetable q) addr 8) (\<lambda>(r, bs).
       kret (if r \<noteq> 0 then None else Some (word_bytes bs)))))"

definition fetchstr :: "uint64 \<Rightarrow> nat \<Rightarrow> ('a mst_scheme, cstr option) K" where
  "fetchstr addr mx = kbind curproc (\<lambda>p. kbind (kget (\<lambda>s. p_pagetable (procs s p))) (\<lambda>pt.
     kbind (copyinstr pt addr mx) (\<lambda>(r, bs).
     kret (if r < 0 then None else Some (takeWhile (\<lambda>b. b \<noteq> 0) bs)))))"

definition argraw :: "nat \<Rightarrow> ('a mst_scheme, uint64) K" where
  "argraw n = kbind curproc (\<lambda>p. kbind (kget (\<lambda>s. p_tf (procs s p))) (\<lambda>tf.
     if n = 0 then kret (tf_a0 tf) else if n = 1 then kret (tf_a1 tf) else if n = 2 then kret (tf_a2 tf)
     else if n = 3 then kret (tf_a3 tf) else if n = 4 then kret (tf_a4 tf) else if n = 5 then kret (tf_a5 tf)
     else kpanic ''argraw''))"

definition argint :: "nat \<Rightarrow> ('a mst_scheme, uint) K" where
  "argint n = kbind (argraw n) (\<lambda>v. kret (ucast v))"

definition argaddr :: "nat \<Rightarrow> ('a mst_scheme, uint64) K" where
  "argaddr n = argraw n"

definition argstr :: "nat \<Rightarrow> nat \<Rightarrow> ('a mst_scheme, cstr option) K" where
  "argstr n mx = kbind (argaddr n) (\<lambda>addr. fetchstr addr mx)"

subsection \<open>Processes and memory\<close>

definition sys_exit :: "('a kos_scheme, uint64) K" where
  "sys_exit = kbind (argint 0) (\<lambda>n. kthen (exit n) (kret 0))"

definition sys_getpid :: "('a kos_scheme, uint64) K" where
  "sys_getpid = kbind curproc (\<lambda>p. kget (\<lambda>s. scast (p_pid (procs s p))))"

definition sys_fork :: "('a kos_scheme, uint64) K" where
  "sys_fork = kbind fork (\<lambda>r. kret (word_of_int r))"

definition sys_wait :: "('a kos_scheme, uint64) K" where
  "sys_wait = kbind (argaddr 0) (\<lambda>p. kbind (wait p) (\<lambda>r. kret (word_of_int r)))"

definition sys_sbrk :: "('a kos_scheme, uint64) K" where
  "sys_sbrk = kbind (argint 0) (\<lambda>n. kbind curproc (\<lambda>p. kbind (kget (\<lambda>s. p_sz (procs s p))) (\<lambda>addr.
     if 0 <s n then kthen (setproc p (\<lambda>q. q\<lparr>p_sz := p_sz q + scast n\<rparr>)) (kret addr)
     else if n <s 0 then kbind (growproc (sint n)) (\<lambda>r. kret (if r < 0 then - 1 else addr))
     else kret addr)))"

definition sys_sleep_loop :: "uint \<Rightarrow> uint \<Rightarrow> ('a kos_scheme, uint64) K" where
  "sys_sleep_loop ticks0 n = kbind (kget ticks) (\<lambda>now.
     if now - ucast ticks0 < scast n then
       kbind curproc (\<lambda>p. kbind (killed p) (\<lambda>k.
       if k then kthen (release TICKS_LOCK) (kret (- 1))
       else kthen (sleep ChTicks TICKS_LOCK) (kret 0)))
     else kthen (release TICKS_LOCK) (kret 0))"

definition sys_sleep :: "('a kos_scheme, uint64) K" where
  "sys_sleep = kbind (argint 0) (\<lambda>n.
     let n = (if n <s 0 then 0 else n) in
     kthen (acquire TICKS_LOCK)
    (kbind (kget (\<lambda>s. ucast (ticks s))) (\<lambda>ticks0. sys_sleep_loop ticks0 n)))"

definition sys_kill :: "('a kos_scheme, uint64) K" where
  "sys_kill = kbind (argint 0) (\<lambda>pid. kbind (kill pid) (\<lambda>r. kret (word_of_int r)))"

definition sys_uptime :: "('a kos_scheme, uint64) K" where
  "sys_uptime =
     kthen (acquire TICKS_LOCK)
    (kbind (kget (\<lambda>s. ucast (ticks s) :: uint)) (\<lambda>xticks.
     kthen (release TICKS_LOCK)
     (kret (ucast xticks))))"

subsection \<open>The activity monitor (kernel/activity.h)\<close>

record activity =
  act_cpu_percent :: uint
  act_mem_percent :: uint
  act_user_activity :: uint
  act_interrupts :: uint
  act_state :: uint
  act_timestamp :: "byte list"

definition fmt_int :: "nat \<Rightarrow> byte list" where
  "fmt_int n = (if n < 10 then [48, of_nat n + 48] else [of_nat (n div 10) + 48, of_nat (n mod 10) + 48])"

definition percent :: "uint64 \<Rightarrow> uint64 \<Rightarrow> uint" where
  "percent part whole = (if whole = 0 then 0 else ucast ((part * 100) div whole))"

definition busy_state :: "uint \<Rightarrow> uint \<Rightarrow> uint \<Rightarrow> uint" where
  "busy_state cpu user mem_p = (if 20 <s cpu \<or> user = 1 \<or> 30 <s mem_p then 1 else 0)"

text \<open>The clock starts at 19:30; ten ticks are counted as a second.\<close>

definition clock_hms :: "uint64 \<Rightarrow> nat \<times> nat \<times> nat" where
  "clock_hms t =
     (let seconds_running = t div 10;
          total_min = 30 + seconds_running div 60;
          total_hour = 19 + total_min div 60
      in (unat (total_hour mod 24), unat (total_min mod 60), unat (seconds_running mod 60)))"

definition date_prefix :: "byte list" where
  "date_prefix = [50, 48, 50, 53, 45, 49, 50, 45, 50, 50, 32]"

definition timestamp :: "byte list \<Rightarrow> uint64 \<Rightarrow> byte list" where
  "timestamp junk t = (case clock_hms t of (h, m, s) \<Rightarrow>
     date_prefix @ fmt_int h @ [58] @ fmt_int m @ [58] @ fmt_int s @ [0] @ take 12 junk)"

definition activity_bytes :: "activity \<Rightarrow> byte list" where
  "activity_bytes a = le_bytes 4 (act_cpu_percent a) @ le_bytes 4 (act_mem_percent a) @ le_bytes 4 (act_user_activity a)
     @ le_bytes 4 (act_interrupts a) @ le_bytes 4 (act_state a) @ act_timestamp a"

definition sys_getactivity :: "byte list \<Rightarrow> ('a kos_scheme, uint64) K" where
  "sys_getactivity junk = kbind (argaddr 0) (\<lambda>addr.
     kthen (acquire STATS_LOCK)
    (kbind (kget (\<lambda>s. (g_total_ticks s, g_cpu_active_ticks s, g_interrupt_count s))) (\<lambda>(current_total, current_active, current_int).
     kthen (release STATS_LOCK)
    (kbind (kget (\<lambda>s. (current_total - last_total_ticks s, current_active - last_cpu_active s, current_int - last_int_count s)))
       (\<lambda>(delta_total, delta_active, delta_int).
     kthen (kmod (\<lambda>s. s\<lparr>last_total_ticks := current_total, last_cpu_active := current_active, last_int_count := current_int\<rparr>))
    (kbind get_memory_stats (\<lambda>(free_mem, total_mem).
     kbind (kget (\<lambda>s. (ticks s, g_last_keypress_tick s))) (\<lambda>(t, key).
     let cpu = percent delta_active delta_total;
         mem_p = percent (total_mem - free_mem) total_mem;
         user = (if t - key < 100 then 1 else 0);
         act = \<lparr>act_cpu_percent = cpu, act_mem_percent = mem_p, act_user_activity = user, act_interrupts = ucast delta_int,
                act_state = busy_state cpu user mem_p, act_timestamp = timestamp junk t\<rparr> in
     kbind curproc (\<lambda>p. kbind (kget (\<lambda>s. p_pagetable (procs s p))) (\<lambda>pt.
     kbind (copyout pt addr (activity_bytes act)) (\<lambda>r.
     kret (if r < 0 then - 1 else 0))))))))))))"

end
