(* ===== verification/Exec.thy ===== *)
theory Exec
  imports Proc
begin

text \<open>
  Program loading (kernel/exec.c, kernel/elf.h). The strings of \<open>argv\<close> are given by their bytes before the NUL;
  sys_exec keeps them in pages of their own.
\<close>

unbundle bit_operations_syntax

subsection \<open>ELF headers\<close>

definition ELF_MAGIC :: uint where "ELF_MAGIC = 0x464C457F"
definition ELF_PROG_LOAD :: uint where "ELF_PROG_LOAD = 1"

record elfhdr =
  eh_magic :: uint
  eh_entry :: uint64
  eh_phoff :: uint64
  eh_phnum :: ushort

record proghdr =
  ph_type :: uint
  ph_flags :: uint
  ph_off :: uint64
  ph_vaddr :: uint64
  ph_filesz :: uint64
  ph_memsz :: uint64

definition le_word :: "byte list \<Rightarrow> nat \<Rightarrow> nat \<Rightarrow> 'a::len word" where
  "le_word bs k n = foldr (\<lambda>b w. ucast b OR push_bit 8 w) (take n (drop k bs)) 0"

text \<open>Offsets in struct elfhdr (64 bytes) and struct proghdr (56 bytes).\<close>

definition load_elfhdr :: "byte list \<Rightarrow> elfhdr" where
  "load_elfhdr bs = \<lparr>eh_magic = le_word bs 0 4, eh_entry = le_word bs 24 8, eh_phoff = le_word bs 32 8, eh_phnum = le_word bs 56 2\<rparr>"

definition load_proghdr :: "byte list \<Rightarrow> proghdr" where
  "load_proghdr bs = \<lparr>ph_type = le_word bs 0 4, ph_flags = le_word bs 4 4, ph_off = le_word bs 8 8, ph_vaddr = le_word bs 16 8,
     ph_filesz = le_word bs 32 8, ph_memsz = le_word bs 40 8\<rparr>"

definition flags2perm :: "uint \<Rightarrow> uint64" where
  "flags2perm flags = (if flags AND 1 \<noteq> 0 then PTE_X else 0) OR (if flags AND 2 \<noteq> 0 then PTE_W else 0)"

subsection \<open>Loading segments\<close>

definition loadseg :: "addr \<Rightarrow> uint64 \<Rightarrow> nat \<Rightarrow> uint \<Rightarrow> uint \<Rightarrow> ('a kos_scheme, int) K" where
  "loadseg pagetable va ip offset sz = or_ret 0 (kscan (map (\<lambda>k. of_nat (4096 * k)) [0..<(unat sz + 4095) div 4096]) (\<lambda>i :: uint.
     kbind (walkaddr pagetable (va + ucast i)) (\<lambda>pa.
     if pa = 0 then kpanic ''loadseg: address should exist''
     else let n = (if sz - i < 4096 then sz - i else 4096) in
       kbind (readi ip (KernDst pa) (offset + i) n) (\<lambda>(r, _).
       kret (if r \<noteq> int (unat n) then Some (- 1) else None)))))"

text \<open>The loop over the program headers; \<open>(sz, True)\<close> when it gives up with \<open>goto bad\<close>.\<close>

primrec load_program :: "addr \<Rightarrow> nat \<Rightarrow> nat \<Rightarrow> uint \<Rightarrow> uint64 \<Rightarrow> ('a kos_scheme, uint64 \<times> bool) K" where
  "load_program pagetable ip 0 off sz = kret (sz, False)"
| "load_program pagetable ip (Suc n) off sz =
     kbind (readi ip LocalDst off 56) (\<lambda>(r, bs).
     if r \<noteq> 56 then kret (sz, True)
     else let ph = load_proghdr bs in
       if ph_type ph \<noteq> ELF_PROG_LOAD then load_program pagetable ip n (off + 56) sz
       else if ph_memsz ph < ph_filesz ph then kret (sz, True)
       else if ph_vaddr ph + ph_memsz ph < ph_vaddr ph then kret (sz, True)
       else if ph_vaddr ph mod PGSIZE \<noteq> 0 then kret (sz, True)
       else kbind (uvmalloc pagetable sz (ph_vaddr ph + ph_memsz ph) (flags2perm (ph_flags ph))) (\<lambda>sz1.
         if sz1 = 0 then kret (sz, True)
         else kbind (loadseg pagetable (ph_vaddr ph) ip (ucast (ph_off ph)) (ucast (ph_filesz ph))) (\<lambda>e.
           if e < 0 then kret (sz1, True) else load_program pagetable ip n (off + 56) sz1)))"

subsection \<open>The stack of the new image\<close>

definition align16 :: "uint64 \<Rightarrow> uint64" where
  "align16 sp = sp - sp mod 16"

text \<open>\<open>push_args\<close> pushes the argument strings; the result is the stack pointer and \<open>ustack[0..argc)\<close>, or \<open>None\<close> for
  \<open>goto bad\<close>.\<close>

fun push_args :: "addr \<Rightarrow> uint64 \<Rightarrow> cstr list \<Rightarrow> uint64 \<Rightarrow> uint64 list \<Rightarrow> ('a kos_scheme, (uint64 \<times> uint64 list) option) K" where
  "push_args pagetable stackbase [] sp ustack = kret (Some (sp, ustack))"
| "push_args pagetable stackbase (arg # argv) sp ustack =
     (if MAXARG \<le> length ustack then kret None
      else let sp1 = align16 (sp - (of_nat (length arg) + 1)) in
        if sp1 < stackbase then kret None
        else kbind (copyout pagetable sp1 (arg @ [0])) (\<lambda>r.
          if r < 0 then kret None
          else push_args pagetable stackbase argv sp1 (ustack @ [sp1])))"

definition push_argv :: "addr \<Rightarrow> uint64 \<Rightarrow> uint64 \<Rightarrow> uint64 list \<Rightarrow> ('a kos_scheme, uint64 option) K" where
  "push_argv pagetable stackbase sp ustack =
     (let sp1 = align16 (sp - (of_nat (length ustack) + 1) * 8) in
      if sp1 < stackbase then kret None
      else kbind (copyout pagetable sp1 (concat (map (le_bytes 8) (ustack @ [0])))) (\<lambda>r.
        kret (if r < 0 then None else Some sp1)))"

definition last_elem :: "cstr \<Rightarrow> cstr" where
  "last_elem path = rev (takeWhile (\<lambda>c. c \<noteq> SLASH) (rev path))"

subsection \<open>exec\<close>

definition exec_bad :: "addr \<Rightarrow> uint64 \<Rightarrow> nat option \<Rightarrow> ('a kos_scheme, int) K" where
  "exec_bad pagetable sz ip =
     kthen (kwhen (pagetable \<noteq> 0) (proc_freepagetable pagetable sz))
    (kthen (case ip of None \<Rightarrow> kskip | Some i \<Rightarrow> kthen (iunlockput i) end_op)
     (kret (- 1)))"

definition exec_commit :: "nat \<Rightarrow> cstr \<Rightarrow> elfhdr \<Rightarrow> addr \<Rightarrow> uint64 \<Rightarrow> uint64 \<Rightarrow> uint64 \<Rightarrow> nat \<Rightarrow> ('a kos_scheme, int) K" where
  "exec_commit p path elf pagetable oldsz sz sp argc =
     kthen (setproc p (\<lambda>q. q\<lparr>p_tf := (p_tf q)\<lparr>tf_a1 := sp\<rparr>\<rparr>))
    (kthen (setproc p (\<lambda>q. q\<lparr>p_name := map (\<lambda>b. char_of (unat b)) (take 15 (last_elem path))\<rparr>))
    (kbind (kget (\<lambda>s. p_pagetable (procs s p))) (\<lambda>oldpagetable.
     kthen (setproc p (\<lambda>q. q\<lparr>p_pagetable := pagetable, p_sz := sz, p_tf := (p_tf q)\<lparr>tf_epc := eh_entry elf, tf_sp := sp\<rparr>\<rparr>))
    (kthen (proc_freepagetable oldpagetable oldsz)
     (kret (int argc))))))"

definition exec_stack :: "nat \<Rightarrow> cstr \<Rightarrow> cstr list \<Rightarrow> elfhdr \<Rightarrow> addr \<Rightarrow> uint64 \<Rightarrow> ('a kos_scheme, int) K" where
  "exec_stack p path argv elf pagetable sz0 =
     kbind (kget (\<lambda>s. p_sz (procs s p))) (\<lambda>oldsz.
     let sz = PGROUNDUP sz0 in
     kbind (uvmalloc pagetable sz (sz + 2 * PGSIZE) PTE_W) (\<lambda>sz1.
     if sz1 = 0 then exec_bad pagetable sz None
     else
       kthen (uvmclear pagetable (sz1 - 2 * PGSIZE))
      (kbind (push_args pagetable (sz1 - PGSIZE) argv sz1 []) (\<lambda>r. case r of
         None \<Rightarrow> exec_bad pagetable sz1 None
       | Some (sp, ustack) \<Rightarrow>
           kbind (push_argv pagetable (sz1 - PGSIZE) sp ustack) (\<lambda>r2. case r2 of
             None \<Rightarrow> exec_bad pagetable sz1 None
           | Some sp2 \<Rightarrow> exec_commit p path elf pagetable oldsz sz1 sp2 (length ustack))))))"

definition exec :: "cstr \<Rightarrow> cstr list \<Rightarrow> ('a kos_scheme, int) K" where
  "exec path argv = kbind curproc (\<lambda>p.
     kthen begin_op
    (kbind (namei path) (\<lambda>r. case r of
       None \<Rightarrow> kthen end_op (kret (- 1))
     | Some ip \<Rightarrow>
         kthen (ilock ip)
        (kbind (readi ip LocalDst 0 64) (\<lambda>(n, bs).
         if n \<noteq> 64 then exec_bad 0 0 (Some ip)
         else let elf = load_elfhdr bs in
         if eh_magic elf \<noteq> ELF_MAGIC then exec_bad 0 0 (Some ip)
         else kbind (kget (\<lambda>s. p_trapframe (procs s p))) (\<lambda>tf. kbind (proc_pagetable tf) (\<lambda>pagetable.
         if pagetable = 0 then exec_bad 0 0 (Some ip)
         else kbind (load_program pagetable ip (unat (eh_phnum elf)) (ucast (eh_phoff elf)) 0) (\<lambda>(sz, bad).
           if bad then exec_bad pagetable sz (Some ip)
           else kthen (iunlockput ip)
               (kthen end_op
                (exec_stack p path argv elf pagetable sz))))))))))"

end
