(* ===== verification/Sysfile.thy ===== *)
theory Sysfile
  imports Sysproc Exec
begin

text \<open>
  The file system calls of kernel/sysfile.c. Every system call returns the 64-bit word that \<open>syscall\<close> stores in a0.
\<close>

unbundle bit_operations_syntax

subsection \<open>File descriptors\<close>

definition argfd :: "nat \<Rightarrow> ('a kos_scheme, (nat \<times> nat) option) K" where
  "argfd n = kbind (argint n) (\<lambda>fd.
     if fd <s 0 \<or> of_nat NOFILE \<le>s fd then kret None
     else kbind curproc (\<lambda>p. kbind (kget (\<lambda>s. p_ofile (procs s p) (unat fd))) (\<lambda>f.
       kret (case f of None \<Rightarrow> None | Some f \<Rightarrow> Some (unat fd, f)))))"

definition fdalloc :: "nat \<Rightarrow> ('a kos_scheme, nat option) K" where
  "fdalloc f = kbind curproc (\<lambda>p.
     kbind (kget (\<lambda>s. List.find (\<lambda>fd. p_ofile (procs s p) fd = None) [0..<NOFILE])) (\<lambda>r. case r of
       None \<Rightarrow> kret None
     | Some fd \<Rightarrow> kthen (setproc p (\<lambda>q. q\<lparr>p_ofile := (p_ofile q)(fd := Some f)\<rparr>)) (kret (Some fd))))"

definition clear_fd :: "nat \<Rightarrow> ('a kos_scheme, unit) K" where
  "clear_fd fd = kbind curproc (\<lambda>p. setproc p (\<lambda>q. q\<lparr>p_ofile := (p_ofile q)(fd := None)\<rparr>))"

definition sys_dup :: "('a kos_scheme, uint64) K" where
  "sys_dup = kbind (argfd 0) (\<lambda>r. case r of None \<Rightarrow> kret (- 1) | Some (_, f) \<Rightarrow>
     kbind (fdalloc f) (\<lambda>r. case r of None \<Rightarrow> kret (- 1) | Some fd \<Rightarrow>
     kthen (filedup f) (kret (of_nat fd))))"

definition sys_read :: "('a kos_scheme, uint64) K" where
  "sys_read = kbind (argaddr 1) (\<lambda>p. kbind (argint 2) (\<lambda>n.
     kbind (argfd 0) (\<lambda>r. case r of None \<Rightarrow> kret (- 1) | Some (_, f) \<Rightarrow>
     kbind (fileread f p (sint n)) (\<lambda>v. kret (word_of_int v)))))"

definition sys_write :: "('a kos_scheme, uint64) K" where
  "sys_write = kbind (argaddr 1) (\<lambda>p. kbind (argint 2) (\<lambda>n.
     kbind (argfd 0) (\<lambda>r. case r of None \<Rightarrow> kret (- 1) | Some (_, f) \<Rightarrow>
     kbind (filewrite f p (sint n)) (\<lambda>v. kret (word_of_int v)))))"

definition sys_close :: "('a kos_scheme, uint64) K" where
  "sys_close = kbind (argfd 0) (\<lambda>r. case r of None \<Rightarrow> kret (- 1) | Some (fd, f) \<Rightarrow>
     kthen (clear_fd fd) (kthen (fileclose f) (kret 0)))"

definition sys_fstat :: "byte list \<Rightarrow> ('a kos_scheme, uint64) K" where
  "sys_fstat pad = kbind (argaddr 1) (\<lambda>st.
     kbind (argfd 0) (\<lambda>r. case r of None \<Rightarrow> kret (- 1) | Some (_, f) \<Rightarrow>
     kbind (filestat pad f st) (\<lambda>v. kret (word_of_int v))))"

subsection \<open>Links\<close>

definition fail_op :: "('a kos_scheme, uint64) K" where
  "fail_op = kthen end_op (kret (- 1))"

definition sys_link_bad :: "nat \<Rightarrow> ('a kos_scheme, uint64) K" where
  "sys_link_bad ip =
     kthen (ilock ip)
    (kthen (set_inode ip (\<lambda>n. n\<lparr>i_nlink := i_nlink n - 1\<rparr>))
    (kthen (iupdate ip)
    (kthen (iunlockput ip)
     fail_op)))"

definition sys_link :: "('a kos_scheme, uint64) K" where
  "sys_link =
     kbind (argstr 0 MAXPATH) (\<lambda>o'. case o' of None \<Rightarrow> kret (- 1) | Some old \<Rightarrow>
     kbind (argstr 1 MAXPATH) (\<lambda>n'. case n' of None \<Rightarrow> kret (- 1) | Some new \<Rightarrow>
     kthen begin_op
    (kbind (namei old) (\<lambda>r. case r of None \<Rightarrow> fail_op | Some ip \<Rightarrow>
     kthen (ilock ip)
    (kbind (get_inode ip) (\<lambda>n.
     if i_type n = T_DIR then kthen (iunlockput ip) fail_op
     else
       kthen (set_inode ip (\<lambda>n. n\<lparr>i_nlink := i_nlink n + 1\<rparr>))
      (kthen (iupdate ip)
      (kthen (iunlock ip)
      (kbind (nameiparent new) (\<lambda>(d, name). case d of None \<Rightarrow> sys_link_bad ip | Some dp \<Rightarrow>
       kthen (ilock dp)
      (kbind (kget (\<lambda>s. (inodes s dp, inodes s ip))) (\<lambda>(dn, nn).
       kbind (if i_dev dn \<noteq> i_dev nn then kret (- 1) else dirlink dp name (i_inum nn)) (\<lambda>e.
       if e < 0 then kthen (iunlockput dp) (sys_link_bad ip)
       else kthen (iunlockput dp) (kthen (iput ip) (kthen end_op (kret 0))))))))))))))))"

definition isdirempty :: "nat \<Rightarrow> ('a kos_scheme, bool) K" where
  "isdirempty dp = kbind (get_inode dp) (\<lambda>n.
     or_ret True (kscan (drop 2 (dirent_offs (i_size n))) (\<lambda>off.
       kbind (read_dirent ''isdirempty: readi'' dp off) (\<lambda>de.
       kret (if de_inum de \<noteq> 0 then Some False else None)))))"

definition sys_unlink_bad :: "nat \<Rightarrow> ('a kos_scheme, uint64) K" where
  "sys_unlink_bad dp = kthen (iunlockput dp) fail_op"

definition unlink_entry :: "nat \<Rightarrow> nat \<Rightarrow> nat \<Rightarrow> ('a kos_scheme, uint64) K" where
  "unlink_entry dp ip off = kbind (get_inode ip) (\<lambda>n.
     kbind (writei dp (LocalSrc (replicate 16 0)) (of_nat off) 16) (\<lambda>w.
     if w \<noteq> 16 then kpanic ''unlink: writei''
     else
       kthen (kwhen (i_type n = T_DIR) (kthen (set_inode dp (\<lambda>d. d\<lparr>i_nlink := i_nlink d - 1\<rparr>)) (iupdate dp)))
      (kthen (iunlockput dp)
      (kthen (set_inode ip (\<lambda>n. n\<lparr>i_nlink := i_nlink n - 1\<rparr>))
      (kthen (iupdate ip)
      (kthen (iunlockput ip)
      (kthen end_op
       (kret 0))))))))"

definition sys_unlink :: "('a kos_scheme, uint64) K" where
  "sys_unlink =
     kbind (argstr 0 MAXPATH) (\<lambda>p'. case p' of None \<Rightarrow> kret (- 1) | Some path \<Rightarrow>
     kthen begin_op
    (kbind (nameiparent path) (\<lambda>(d, name). case d of None \<Rightarrow> fail_op | Some dp \<Rightarrow>
     kthen (ilock dp)
     (if namecmp name [46] = 0 \<or> namecmp name [46, 46] = 0 then sys_unlink_bad dp
      else kbind (dirlookup dp name) (\<lambda>r. case r of None \<Rightarrow> sys_unlink_bad dp | Some (ip, off) \<Rightarrow>
        kthen (ilock ip)
       (kbind (get_inode ip) (\<lambda>n.
        if i_nlink n <s 1 then kpanic ''unlink: nlink < 1''
        else kbind (if i_type n = T_DIR then isdirempty ip else kret True) (\<lambda>empty.
          if \<not> empty then kthen (iunlockput ip) (sys_unlink_bad dp)
          else unlink_entry dp ip off))))))))"

subsection \<open>Creating and opening\<close>

definition create_fail :: "nat \<Rightarrow> nat \<Rightarrow> ('a kos_scheme, nat option) K" where
  "create_fail dp ip =
     kthen (set_inode ip (\<lambda>n. n\<lparr>i_nlink := 0\<rparr>))
    (kthen (iupdate ip)
    (kthen (iunlockput ip)
    (kthen (iunlockput dp)
     (kret None))))"

definition create_dots :: "nat \<Rightarrow> nat \<Rightarrow> ('a kos_scheme, int) K" where
  "create_dots dp ip = kbind (kget (\<lambda>s. (i_inum (inodes s ip), i_inum (inodes s dp)))) (\<lambda>(inum, parent).
     kbind (dirlink ip [46] inum) (\<lambda>r. if r < 0 then kret r else dirlink ip [46, 46] parent))"

definition create_new :: "nat \<Rightarrow> nat \<Rightarrow> cstr \<Rightarrow> ushort \<Rightarrow> ushort \<Rightarrow> ushort \<Rightarrow> ('a kos_scheme, nat option) K" where
  "create_new dp ip name type major minor =
     kthen (ilock ip)
    (kthen (set_inode ip (\<lambda>n. n\<lparr>i_major := major, i_minor := minor, i_nlink := 1\<rparr>))
    (kthen (iupdate ip)
    (kbind (if type = T_DIR then create_dots dp ip else kret 0) (\<lambda>e.
     if e < 0 then create_fail dp ip
     else kbind (get_inode ip) (\<lambda>n. kbind (dirlink dp name (i_inum n)) (\<lambda>e.
       if e < 0 then create_fail dp ip
       else
         kthen (kwhen (type = T_DIR) (kthen (set_inode dp (\<lambda>d. d\<lparr>i_nlink := i_nlink d + 1\<rparr>)) (iupdate dp)))
        (kthen (iunlockput dp)
         (kret (Some ip)))))))))"

definition create :: "cstr \<Rightarrow> ushort \<Rightarrow> ushort \<Rightarrow> ushort \<Rightarrow> ('a kos_scheme, nat option) K" where
  "create path type major minor =
     kbind (nameiparent path) (\<lambda>(d, name). case d of None \<Rightarrow> kret None | Some dp \<Rightarrow>
     kthen (ilock dp)
    (kbind (dirlookup dp name) (\<lambda>r. case r of
       Some (ip, _) \<Rightarrow>
         kthen (iunlockput dp)
        (kthen (ilock ip)
        (kbind (get_inode ip) (\<lambda>n.
         if type = T_FILE \<and> (i_type n = T_FILE \<or> i_type n = T_DEVICE) then kret (Some ip)
         else kthen (iunlockput ip) (kret None))))
     | None \<Rightarrow>
         kbind (get_inode dp) (\<lambda>dn. kbind (ialloc (i_dev dn) type) (\<lambda>r. case r of
           None \<Rightarrow> kthen (iunlockput dp) (kret None)
         | Some ip \<Rightarrow> create_new dp ip name type major minor)))))"

definition O_RDONLY :: uint where "O_RDONLY = 0"
definition O_WRONLY :: uint where "O_WRONLY = 1"
definition O_RDWR :: uint where "O_RDWR = 2"
definition O_CREATE :: uint where "O_CREATE = 0x200"
definition O_TRUNC :: uint where "O_TRUNC = 0x400"

definition open_file :: "nat \<Rightarrow> uint \<Rightarrow> ('a kos_scheme, uint64) K" where
  "open_file ip omode = kbind (get_inode ip) (\<lambda>n.
     if i_type n = T_DEVICE \<and> bad_major (i_major n) then kthen (iunlockput ip) fail_op
     else kbind filealloc (\<lambda>r. case r of
       None \<Rightarrow> kthen (iunlockput ip) fail_op
     | Some f \<Rightarrow>
         kbind (fdalloc f) (\<lambda>r. case r of
           None \<Rightarrow> kthen (fileclose f) (kthen (iunlockput ip) fail_op)
         | Some fd \<Rightarrow>
             kthen (if i_type n = T_DEVICE then set_file f (\<lambda>x. x\<lparr>f_type := FD_DEVICE, f_major := i_major n\<rparr>)
                    else set_file f (\<lambda>x. x\<lparr>f_type := FD_INODE, f_off := 0\<rparr>))
            (kthen (set_file f (\<lambda>x. x\<lparr>f_ip := ip, f_readable := (omode AND O_WRONLY = 0),
                      f_writable := (omode AND O_WRONLY \<noteq> 0 \<or> omode AND O_RDWR \<noteq> 0)\<rparr>))
            (kthen (kwhen (omode AND O_TRUNC \<noteq> 0 \<and> i_type n = T_FILE) (itrunc ip))
            (kthen (iunlock ip)
            (kthen end_op
             (kret (of_nat fd)))))))))"

definition sys_open :: "('a kos_scheme, uint64) K" where
  "sys_open = kbind (argint 1) (\<lambda>omode.
     kbind (argstr 0 MAXPATH) (\<lambda>p'. case p' of None \<Rightarrow> kret (- 1) | Some path \<Rightarrow>
     kthen begin_op
     (if omode AND O_CREATE \<noteq> 0 then
        kbind (create path T_FILE 0 0) (\<lambda>r. case r of None \<Rightarrow> fail_op | Some ip \<Rightarrow> open_file ip omode)
      else
        kbind (namei path) (\<lambda>r. case r of None \<Rightarrow> fail_op | Some ip \<Rightarrow>
        kthen (ilock ip)
       (kbind (get_inode ip) (\<lambda>n.
        if i_type n = T_DIR \<and> omode \<noteq> O_RDONLY then kthen (iunlockput ip) fail_op
        else open_file ip omode))))))"

definition sys_mkdir :: "('a kos_scheme, uint64) K" where
  "sys_mkdir =
     kthen begin_op
    (kbind (argstr 0 MAXPATH) (\<lambda>p'. case p' of None \<Rightarrow> fail_op | Some path \<Rightarrow>
     kbind (create path T_DIR 0 0) (\<lambda>r. case r of None \<Rightarrow> fail_op | Some ip \<Rightarrow>
     kthen (iunlockput ip) (kthen end_op (kret 0)))))"

definition sys_mknod :: "('a kos_scheme, uint64) K" where
  "sys_mknod =
     kthen begin_op
    (kbind (argint 1) (\<lambda>major. kbind (argint 2) (\<lambda>minor.
     kbind (argstr 0 MAXPATH) (\<lambda>p'. case p' of None \<Rightarrow> fail_op | Some path \<Rightarrow>
     kbind (create path T_DEVICE (ucast major) (ucast minor)) (\<lambda>r. case r of None \<Rightarrow> fail_op | Some ip \<Rightarrow>
     kthen (iunlockput ip) (kthen end_op (kret 0)))))))"

definition sys_chdir :: "('a kos_scheme, uint64) K" where
  "sys_chdir = kbind curproc (\<lambda>p.
     kthen begin_op
    (kbind (argstr 0 MAXPATH) (\<lambda>p'. case p' of None \<Rightarrow> fail_op | Some path \<Rightarrow>
     kbind (namei path) (\<lambda>r. case r of None \<Rightarrow> fail_op | Some ip \<Rightarrow>
     kthen (ilock ip)
    (kbind (get_inode ip) (\<lambda>n.
     if i_type n \<noteq> T_DIR then kthen (iunlockput ip) fail_op
     else
       kthen (iunlock ip)
      (kbind (kget (\<lambda>s. p_cwd (procs s p))) (\<lambda>cwd.
       kthen (case cwd of None \<Rightarrow> kpanic ''kerneltrap'' | Some d \<Rightarrow> iput d)
      (kthen end_op
      (kthen (setproc p (\<lambda>q. q\<lparr>p_cwd := Some ip\<rparr>))
       (kret 0)))))))))))"

subsection \<open>exec and pipe\<close>

text \<open>\<open>exec_args\<close> collects the argument strings with the pages they are kept in; \<open>False\<close> is \<open>goto bad\<close>. The third
  argument counts the entries of \<open>argv\<close> that are left.\<close>

primrec exec_args :: "uint64 \<Rightarrow> nat \<Rightarrow> nat \<Rightarrow> (addr \<times> cstr) list \<Rightarrow> ('a kos_scheme, bool \<times> (addr \<times> cstr) list) K" where
  "exec_args uargv i 0 acc = kret (False, acc)"
| "exec_args uargv i (Suc n) acc =
     kbind (fetchaddr (uargv + 8 * of_nat i)) (\<lambda>r. case r of
       None \<Rightarrow> kret (False, acc)
     | Some uarg \<Rightarrow>
         if uarg = 0 then kret (True, acc)
         else kbind kalloc (\<lambda>pg.
           if pg = 0 then kret (False, acc)
           else kbind (fetchstr uarg 4096) (\<lambda>r. case r of
             None \<Rightarrow> kret (False, acc @ [(pg, [])])
           | Some str \<Rightarrow>
               kthen (set_mem (\<lambda>m. poke m pg (str @ [0])))
               (exec_args uargv (Suc i) n (acc @ [(pg, str)])))))"

definition sys_exec :: "('a kos_scheme, uint64) K" where
  "sys_exec = kbind (argaddr 1) (\<lambda>uargv.
     kbind (argstr 0 MAXPATH) (\<lambda>p'. case p' of None \<Rightarrow> kret (- 1) | Some path \<Rightarrow>
     kbind (exec_args uargv 0 MAXARG []) (\<lambda>(ok, args).
     kbind (if ok then exec path (map snd args) else kret (- 1)) (\<lambda>ret.
     kthen (kfor (map fst args) kfree)
     (kret (word_of_int ret))))))"

definition sys_pipe_fail :: "nat list \<Rightarrow> nat \<Rightarrow> nat \<Rightarrow> ('a kos_scheme, uint64) K" where
  "sys_pipe_fail fds rfile wfile = kthen (kfor fds clear_fd) (kthen (fileclose rfile) (kthen (fileclose wfile) (kret (- 1))))"

definition sys_pipe :: "('a kos_scheme, uint64) K" where
  "sys_pipe = kbind curproc (\<lambda>p. kbind (argaddr 0) (\<lambda>fdarray.
     kbind pipealloc (\<lambda>r. case r of None \<Rightarrow> kret (- 1) | Some (rfile, wfile) \<Rightarrow>
     kbind (fdalloc rfile) (\<lambda>r. case r of None \<Rightarrow> sys_pipe_fail [] rfile wfile | Some fd0 \<Rightarrow>
     kbind (fdalloc wfile) (\<lambda>r. case r of None \<Rightarrow> sys_pipe_fail [fd0] rfile wfile | Some fd1 \<Rightarrow>
     kbind (kget (\<lambda>s. p_pagetable (procs s p))) (\<lambda>pt.
     kbind (copyout pt fdarray (le_bytes 4 (of_nat fd0 :: uint))) (\<lambda>e.
     kbind (if e < 0 then kret e else copyout pt (fdarray + 4) (le_bytes 4 (of_nat fd1 :: uint))) (\<lambda>e.
     if e < 0 then sys_pipe_fail [fd0, fd1] rfile wfile else kret 0))))))))"

end
