(* ===== verification/Trap.thy ===== *)
theory Trap
  imports Sysfile
begin

text \<open>
  System call dispatch (kernel/syscall.c), traps (kernel/trap.c), the interrupt controller (kernel/plic.c) and
  the boot code (kernel/start.c, kernel/main.c).

  \<open>csr_sstatus\<close> holds SPP and SPIE; the bit SIE is the field \<open>intr\<close> of the kernel state. \<open>plic_irq\<close> is what the claim
  register of the PLIC reads as; writes to its registers are the trace \<open>plic_writes\<close>. The parameters \<open>pad\<close> and
  \<open>junk\<close> are the bytes of the kernel stack that \<open>fstat\<close> and \<open>getactivity\<close> copy out without having set them.
  \<open>usertrapret\<close> ends with the jump to userret; its result is the satp value passed to it.
\<close>

unbundle bit_operations_syntax

subsection \<open>System call dispatch (kernel/syscall.c, kernel/syscall.h)\<close>

definition syscalls :: "byte list \<Rightarrow> byte list \<Rightarrow> (('a kos_scheme, uint64) K option) list" where
  "syscalls pad junk =
     [None, Some sys_fork, Some sys_exit, Some sys_wait, Some sys_pipe, Some sys_read, Some sys_kill, Some sys_exec,
      Some (sys_fstat pad), Some sys_chdir, Some sys_dup, Some sys_getpid, Some sys_sbrk, Some sys_sleep,
      Some sys_uptime, Some sys_open, Some sys_write, Some sys_mknod, Some sys_unlink, Some sys_link,
      Some sys_mkdir, Some sys_close, Some (sys_getactivity junk)]"

definition set_a0 :: "nat \<Rightarrow> uint64 \<Rightarrow> ('a kos_scheme, unit) K" where
  "set_a0 p v = setproc p (\<lambda>q. q\<lparr>p_tf := (p_tf q)\<lparr>tf_a0 := v\<rparr>\<rparr>)"

definition syscall :: "byte list \<Rightarrow> byte list \<Rightarrow> ('a kos_scheme, unit) K" where
  "syscall pad junk = kbind curproc (\<lambda>p. kbind (kget (\<lambda>s. procs s p)) (\<lambda>q.
     let num = ucast (tf_a7 (p_tf q)) :: uint;
         unknown = kthen (printf (''%d %s: unknown sys call %d'' @ [CHR 0x0A])
             [FNum (scast (p_pid q)), FStr (Some (p_name q)), FNum (scast num)]) (set_a0 p (- 1))
     in let tbl = syscalls pad junk
     in if 0 <s num \<and> unat num < length tbl then
          case tbl ! unat num of
            Some f \<Rightarrow> kbind f (set_a0 p)
          | None \<Rightarrow> unknown
        else unknown))"

subsection \<open>plic.c\<close>

definition PLIC_SENABLE :: "nat \<Rightarrow> uint64" where "PLIC_SENABLE hart = PLIC + 0x2080 + of_nat hart * 0x100"
definition PLIC_SPRIORITY :: "nat \<Rightarrow> uint64" where "PLIC_SPRIORITY hart = PLIC + 0x201000 + of_nat hart * 0x2000"
definition PLIC_SCLAIM :: "nat \<Rightarrow> uint64" where "PLIC_SCLAIM hart = PLIC + 0x201004 + of_nat hart * 0x2000"

definition plic_write :: "uint64 \<Rightarrow> uint \<Rightarrow> ('a kos_scheme, unit) K" where
  "plic_write a v = kmod (\<lambda>s. s\<lparr>plic_writes := plic_writes s @ [(a, v)]\<rparr>)"

definition plicinit :: "('a kos_scheme, unit) K" where
  "plicinit = kthen (plic_write (PLIC + ucast UART0_IRQ * 4) 1) (plic_write (PLIC + ucast VIRTIO0_IRQ * 4) 1)"

definition plicinithart :: "('a kos_scheme, unit) K" where
  "plicinithart = kbind (kget hartid) (\<lambda>hart.
     kthen (plic_write (PLIC_SENABLE hart) (push_bit (unat UART0_IRQ) 1 OR push_bit (unat VIRTIO0_IRQ) 1))
     (plic_write (PLIC_SPRIORITY hart) 0))"

definition plic_claim :: "('a kos_scheme, uint) K" where
  "plic_claim = kget plic_irq"

definition plic_complete :: "uint \<Rightarrow> ('a kos_scheme, unit) K" where
  "plic_complete irq = kbind (kget hartid) (\<lambda>hart. plic_write (PLIC_SCLAIM hart) irq)"

subsection \<open>trap.c\<close>

definition trapinithart :: "('a kos_scheme, unit) K" where
  "trapinithart = kmod (\<lambda>s. s\<lparr>csr_stvec := k_kernelvec s\<rparr>)"

definition clockintr :: "('a kos_scheme, unit) K" where
  "clockintr =
     kthen (acquire TICKS_LOCK)
    (kthen (kmod (\<lambda>s. s\<lparr>ticks := ticks s + 1\<rparr>))
    (kthen (wakeup ChTicks)
     (release TICKS_LOCK)))"

definition external_intr :: "uint64 \<Rightarrow> bool" where
  "external_intr scause \<longleftrightarrow> scause AND 0x8000000000000000 \<noteq> 0 \<and> scause AND 0xff = 9"

definition devintr :: "('a kos_scheme, nat) K" where
  "devintr = kbind (kget csr_scause) (\<lambda>scause.
     if external_intr scause then
       kbind plic_claim (\<lambda>irq.
       kthen (if irq = UART0_IRQ then uartintr
              else if irq = VIRTIO0_IRQ then virtio_disk_intr
              else kwhen (irq \<noteq> 0) (printf (''unexpected interrupt irq=%d'' @ [CHR 0x0A]) [FNum (scast irq)]))
      (kthen (kwhen (irq \<noteq> 0) (plic_complete irq))
       (kret 1)))
     else if scause = 0x8000000000000001 then
       kbind (kget hartid) (\<lambda>h.
       kthen (kwhen (h = 0) clockintr)
      (kthen (kmod (\<lambda>s. s\<lparr>csr_sip := csr_sip s AND NOT 2\<rparr>))
       (kret 2)))
     else kret 0)"

definition usertrapret :: "('a kos_scheme, uint64) K" where
  "usertrapret = kbind curproc (\<lambda>p.
     kthen (kmod (\<lambda>s. s\<lparr>intr := False\<rparr>))
    (kthen (kmod (\<lambda>s. s\<lparr>csr_stvec := TRAMPOLINE + (k_uservec s - k_trampoline s)\<rparr>))
    (kbind (kget (\<lambda>s. (csr_satp s, k_usertrap s, hartid s))) (\<lambda>(satp, usertrap_addr, hart).
     kthen (setproc p (\<lambda>q. q\<lparr>p_tf := (p_tf q)\<lparr>tf_kernel_satp := satp, tf_kernel_sp := p_kstack q + PGSIZE,
              tf_kernel_trap := usertrap_addr, tf_kernel_hartid := of_nat hart\<rparr>\<rparr>))
    (kthen (kmod (\<lambda>s. s\<lparr>csr_sstatus := (csr_sstatus s AND NOT SSTATUS_SPP) OR SSTATUS_SPIE\<rparr>))
    (kthen (kmod (\<lambda>s. s\<lparr>csr_sepc := tf_epc (p_tf (procs s p))\<rparr>))
     (kget (\<lambda>s. MAKE_SATP (p_pagetable (procs s p))))))))))"

definition count_interrupt :: "('a kos_scheme, unit) K" where
  "count_interrupt =
     kthen (acquire STATS_LOCK)
    (kthen (kmod (\<lambda>s. s\<lparr>g_interrupt_count := g_interrupt_count s + 1\<rparr>))
     (release STATS_LOCK))"

text \<open>The arrow in the messages of \<open>usertrap\<close> is the UTF-8 sequence E2 86 92.\<close>

definition arrow :: string where
  "arrow = ''  '' @ [CHR 0xE2, CHR 0x86, CHR 0x92] @ '' ''"

definition page_fault :: "nat \<Rightarrow> uint64 \<Rightarrow> ('a kos_scheme, unit) K" where
  "page_fault p scause = kbind (kget (\<lambda>s. (procs s p, csr_stval s))) (\<lambda>(q, fault_va).
     kthen (printf (''[PAGE FAULT] pid=%d va=%p scause=%p'' @ [CHR 0x0A]) [FNum (scast (p_pid q)), FNum fault_va, FNum scause])
     (if p_sz q \<le> fault_va
      then kthen (printf (arrow @ ''Out of bounds (va >= sz)'' @ [CHR 0x0A]) []) (setkilled p)
      else kbind (lazy_alloc (p_pagetable q) fault_va) (\<lambda>r.
        kwhen (r < 0) (kthen (printf (arrow @ ''lazy_alloc() failed - out of memory'' @ [CHR 0x0A]) []) (setkilled p)))))"

definition unexpected_trap :: "nat \<Rightarrow> ('a kos_scheme, unit) K" where
  "unexpected_trap p = kbind (kget (\<lambda>s. s)) (\<lambda>s.
     kthen (printf (''usertrap(): unexpected scause %p pid=%d'' @ [CHR 0x0A]) [FNum (csr_scause s), FNum (scast (p_pid (procs s p)))])
    (kthen (printf (''            sepc=%p stval=%p'' @ [CHR 0x0A]) [FNum (csr_sepc s), FNum (csr_stval s)])
     (setkilled p)))"

text \<open>The branch of \<open>usertrap\<close> for an external interrupt that \<open>devintr\<close> did not recognise.\<close>

definition late_timer :: "('a kos_scheme, nat) K" where
  "late_timer = kbind devintr (\<lambda>which_dev.
     kthen (kwhen (which_dev = 2)
       (kbind (kget cur) (\<lambda>c. kthen (case c of None \<Rightarrow> kskip | Some p \<Rightarrow>
            kthen (acquire (PROC_LOCK p))
           (kthen (setproc p (\<lambda>q. q\<lparr>p_cpu_heat := p_cpu_heat q + 5, p_total_ticks := p_total_ticks q + 1\<rparr>))
            (release (PROC_LOCK p))))
         yield)))
     (kret which_dev))"

definition usertrap_dispatch :: "byte list \<Rightarrow> byte list \<Rightarrow> nat \<Rightarrow> uint64 \<Rightarrow> ('a kos_scheme, nat) K" where
  "usertrap_dispatch pad junk p scause =
     (if scause = 8 then
        kbind (killed p) (\<lambda>k.
        kthen (kwhen k (exit (- 1)))
       (kthen (setproc p (\<lambda>q. q\<lparr>p_tf := (p_tf q)\<lparr>tf_epc := tf_epc (p_tf q) + 4\<rparr>\<rparr>))
       (kthen (kmod (\<lambda>s. s\<lparr>intr := True\<rparr>))
       (kthen (syscall pad junk)
        (kret 0)))))
      else kbind devintr (\<lambda>which_dev.
        if which_dev \<noteq> 0 then kthen count_interrupt (kret which_dev)
        else if external_intr scause then late_timer
        else if scause = 13 \<or> scause = 15 then kthen (page_fault p scause) (kret 0)
        else kthen (unexpected_trap p) (kret 0)))"

definition user_tick :: "nat \<Rightarrow> ('a kos_scheme, unit) K" where
  "user_tick p =
     kthen (acquire STATS_LOCK)
    (kthen (kmod (\<lambda>s. s\<lparr>g_total_ticks := g_total_ticks s + 1\<rparr>))
    (kbind (kget (\<lambda>s. p_state (procs s p))) (\<lambda>st.
     kthen (kwhen (st = RUNNING) (kmod (\<lambda>s. s\<lparr>g_cpu_active_ticks := g_cpu_active_ticks s + 1\<rparr>)))
    (kthen (release STATS_LOCK)
    (kthen (acquire (PROC_LOCK p))
    (kthen (setproc p (\<lambda>q. q\<lparr>p_cpu_heat := p_cpu_heat q + 1\<rparr>))
    (kbind (kget (\<lambda>s. procs s p)) (\<lambda>q.
     kthen (kwhen (p_cpu_heat q mod 10 = 0)
       (printf (''DEBUG TRAP: PID %d Heat monte a %d'' @ [CHR 0x0A]) [FNum (scast (p_pid q)), FNum (p_cpu_heat q)]))
     (release (PROC_LOCK p))))))))))"

definition usertrap :: "byte list \<Rightarrow> byte list \<Rightarrow> ('a kos_scheme, uint64) K" where
  "usertrap pad junk = kbind (kget (\<lambda>s. (csr_scause s, csr_sstatus s))) (\<lambda>(scause, sstatus).
     if sstatus AND SSTATUS_SPP \<noteq> 0 then kpanic ''usertrap: not from user mode''
     else
       kthen (kmod (\<lambda>s. s\<lparr>csr_stvec := k_kernelvec s\<rparr>))
      (kbind curproc (\<lambda>p.
       kbind (kget csr_sepc) (\<lambda>sepc.
       kthen (setproc p (\<lambda>q. q\<lparr>p_tf := (p_tf q)\<lparr>tf_epc := sepc\<rparr>\<rparr>))
      (kbind (usertrap_dispatch pad junk p scause) (\<lambda>which_dev.
       kbind (killed p) (\<lambda>k.
       kthen (kwhen k (exit (- 1)))
      (kthen (kwhen (which_dev = 2) (kthen (user_tick p) yield))
       usertrapret))))))))"

definition kerneltrap :: "('a kos_scheme, unit) K" where
  "kerneltrap = kbind (kget (\<lambda>s. (csr_sepc s, csr_sstatus s, csr_scause s, csr_stval s))) (\<lambda>(sepc, sstatus, scause, stval).
     if sstatus AND SSTATUS_SPP = 0 then kpanic ''kerneltrap: not from supervisor mode''
     else kbind (kget intr_get) (\<lambda>on.
     if on then kpanic ''kerneltrap: interrupts enabled''
     else kbind devintr (\<lambda>which_dev.
     if which_dev = 0 then
       kthen (printf (''scause %p'' @ [CHR 0x0A]) [FNum scause])
      (kthen (printf (''sepc=%p stval=%p'' @ [CHR 0x0A]) [FNum sepc, FNum stval])
       (kpanic ''kerneltrap''))
     else
       kthen (acquire STATS_LOCK)
      (kthen (kmod (\<lambda>s. s\<lparr>g_interrupt_count := g_interrupt_count s + 1\<rparr>))
      (kbind (kget (\<lambda>s. (cur s, case cur s of None \<Rightarrow> False | Some p \<Rightarrow> p_state (procs s p) = RUNNING))) (\<lambda>(c, running).
       kthen (kwhen (which_dev = 2)
         (kthen (kmod (\<lambda>s. s\<lparr>g_total_ticks := g_total_ticks s + 1\<rparr>))
          (kwhen running (kmod (\<lambda>s. s\<lparr>g_cpu_active_ticks := g_cpu_active_ticks s + 1\<rparr>)))))
      (kthen (release STATS_LOCK)
      (kthen (kwhen (which_dev = 2 \<and> running)
         (kthen (case c of None \<Rightarrow> kskip | Some p \<Rightarrow> setproc p (\<lambda>q. q\<lparr>p_cpu_heat := p_cpu_heat q + 1\<rparr>)) yield))
       (kmod (\<lambda>s. s\<lparr>csr_sepc := sepc, csr_sstatus := sstatus\<rparr>))))))))))"

definition forkret :: "('a kos_scheme, uint64) K" where
  "forkret = kbind curproc (\<lambda>p.
     kthen (release (PROC_LOCK p))
    (kbind (kget forkret_first) (\<lambda>first.
     kthen (kwhen first (kthen (fsinit ROOTDEV) (kmod (\<lambda>s. s\<lparr>forkret_first := False\<rparr>))))
     usertrapret)))"

subsection \<open>start.c and main.c\<close>

record machine =
  m_mstatus :: uint64
  m_mepc :: uint64
  m_satp :: uint64
  m_medeleg :: uint64
  m_mideleg :: uint64
  m_sie :: uint64
  m_pmpaddr0 :: uint64
  m_pmpcfg0 :: uint64
  m_mhartid :: uint64
  m_tp :: uint64
  m_mscratch :: uint64
  m_mtvec :: uint64
  m_mie :: uint64
  m_mtime :: uint64
  m_mtimecmp :: "nat \<Rightarrow> uint64"
  m_scratch :: "nat \<Rightarrow> nat \<Rightarrow> uint64"

definition CLINT_MTIMECMP :: "nat \<Rightarrow> uint64" where
  "CLINT_MTIMECMP h = 0x2000000 + 0x4000 + 8 * of_nat h"

text \<open>\<open>scratch_addr\<close> is the address of \<open>timer_scratch[id][0]\<close>, \<open>timervec\<close> and \<open>main_addr\<close> those of the code.\<close>

definition timerinit :: "(nat \<Rightarrow> uint64) \<Rightarrow> uint64 \<Rightarrow> 'a machine_scheme \<Rightarrow> 'a machine_scheme" where
  "timerinit scratch_addr timervec m =
     (let id = unat (m_mhartid m); interval = 1000000
      in m\<lparr>m_mtimecmp := (m_mtimecmp m)(id := m_mtime m + interval),
           m_scratch := (m_scratch m)(id := (m_scratch m id)(3 := CLINT_MTIMECMP id, 4 := interval)),
           m_mscratch := scratch_addr id,
           m_mtvec := timervec,
           m_mstatus := m_mstatus m OR push_bit 3 1,
           m_mie := m_mie m OR push_bit 7 1\<rparr>)"

definition start :: "(nat \<Rightarrow> uint64) \<Rightarrow> uint64 \<Rightarrow> uint64 \<Rightarrow> 'a machine_scheme \<Rightarrow> 'a machine_scheme" where
  "start scratch_addr timervec main_addr m =
     (let m1 = m\<lparr>m_mstatus := (m_mstatus m AND NOT (push_bit 11 3)) OR push_bit 11 1,
                 m_mepc := main_addr, m_satp := 0, m_medeleg := 0xffff, m_mideleg := 0xffff,
                 m_sie := m_sie m OR push_bit 9 1 OR push_bit 5 1 OR push_bit 1 1,
                 m_pmpaddr0 := 0x3fffffffffffff, m_pmpcfg0 := 0xf\<rparr>;
          m2 = timerinit scratch_addr timervec m1
      in m2\<lparr>m_tp := m_mhartid m2\<rparr>)"

definition kvminithart :: "('a kos_scheme, unit) K" where
  "kvminithart = kmod (\<lambda>s. s\<lparr>csr_satp := MAKE_SATP (kernel_pagetable s)\<rparr>)"

definition banner :: string where
  "banner = ''====================== BIENVENUE DANS XV6  =========================='' @ [CHR 0x0A]"

text \<open>What \<open>main\<close> does before it calls \<open>scheduler\<close>, on the first hart and on the others.\<close>

definition main_boot :: "('a kos_scheme, unit) K" where
  "main_boot =
     kthen consoleinit (kthen printfinit
    (kthen (printf [CHR 0x0A] []) (kthen (printf banner []) (kthen (printf [CHR 0x0A] [])
    (kthen kinit (kthen kvminit (kthen kvminithart (kthen procinit (kthen trapinithart
    (kthen plicinit (kthen plicinithart (kthen binit (kthen iinit (kthen virtio_disk_init userinit))))))))))))))"

definition main_hart :: "('a kos_scheme, unit) K" where
  "main_hart =
     kthen (kmod (\<lambda>s. s\<lparr>total_heat_skips := 0, total_schedules := 0, total_heat_penalty_ticks := 0\<rparr>))
    (kbind (kget hartid) (\<lambda>h.
     kthen (printf (''hart %d starting'' @ [CHR 0x0A]) [FNum (of_nat h)])
    (kthen kvminithart (kthen trapinithart plicinithart))))"

end
