(* ===== verification/Bootstate.thy ===== *)
theory Bootstate
  imports Trap
begin

text \<open>
  A concrete kernel state, from which the witnesses of the components start: the static variables are zero except
  \<open>nextpid\<close> and the flag \<open>first\<close> of \<open>forkret\<close>, process 0 is the current one, no lock is held and the log has one open
  transaction.
\<close>

definition zero_inode :: inode where
  "zero_inode = \<lparr>i_dev = 0, i_inum = 0, i_ref = 0, i_valid = False, i_type = 0, i_major = 0, i_minor = 0, i_nlink = 0, i_size = 0,
     i_addrs = (\<lambda>_. 0)\<rparr>"

definition zero_pipe :: pipe where
  "zero_pipe = \<lparr>pi_data = (\<lambda>_. 0), pi_nread = 0, pi_nwrite = 0, pi_readopen = False, pi_writeopen = False\<rparr>"

definition zero_file :: kfile where
  "zero_file = \<lparr>f_type = FD_NONE, f_ref = 0, f_readable = False, f_writable = False, f_pipe = 0, f_ip = 0, f_off = 0, f_major = 0\<rparr>"

definition zero_req :: virtio_blk_req where
  "zero_req = \<lparr>vr_type = 0, vr_reserved = 0, vr_sector = 0\<rparr>"

definition boot_fsst :: fsst where
  "boot_fsst = lgst.extend boot_lgst (fsst.fields (load_superblock (\<lambda>_. 0)) (\<lambda>_. zero_inode))"

definition boot_dvst :: dvst where
  "boot_dvst = fsst.extend boot_fsst (dvst.fields 0 [] [] (\<lambda>_. 0) 0 0 (\<lambda>_. 0) 0 0 0 (\<lambda>_. None) (\<lambda>_. None))"

definition boot_ftst :: ftst where
  "boot_ftst = dvst.extend boot_dvst (ftst.fields (\<lambda>_. zero_pipe) (\<lambda>_. zero_file))"

definition boot_vdst :: vdst where
  "boot_vdst = ftst.extend boot_ftst (vdst.fields (\<lambda>_. zero_desc) 0 (\<lambda>_. 0) 0 (\<lambda>_. 0) (\<lambda>_. False) 0 (\<lambda>_. None) (\<lambda>_. 0)
     (\<lambda>_. zero_req) (\<lambda>_ _. 0) [])"

definition boot_kos :: kos where
  "boot_kos = vdst.extend boot_vdst (kos.fields True (KERNBASE + 0x1000) (KERNBASE + 0x7000) (KERNBASE + 0x709c) (KERNBASE + 0x2000)
     (KERNBASE + 0x5000) 0 0 0 0 0 0 0 0 [] 0 0 0)"

lemmas boot_kos_defs = boot_kos_def boot_vdst_def boot_ftst_def boot_dvst_def boot_fsst_def boot_lgst_def boot_bst_def boot_mst_def
  boot_kst_def kos.defs vdst.defs ftst.defs dvst.defs fsst.defs lgst.defs bst.defs mst.defs kst.defs

lemma boot_kos_simps [simp]:
  "held boot_kos = {}" "cur boot_kos = Some 0" "pr_locking boot_kos = False" "csr_sstatus boot_kos = 0" "k_trampoline boot_kos = KERNBASE + 0x7000"
  "ticks boot_kos = 0" "hartid boot_kos = 0" "ftable boot_kos = (\<lambda>_. zero_file)" "pipes boot_kos = (\<lambda>_. zero_pipe)" "nextpid boot_kos = 1"
  "initproc boot_kos = None" "intr boot_kos = False" "csr_sepc boot_kos = 0"
  by (simp_all add: boot_kos_defs)

end
