(* ===== verification/Fsalloc.thy ===== *)
theory Fsalloc
  imports Fstx Bootstate
begin

text \<open>
  The block allocator: \<open>bzero\<close>, \<open>balloc\<close> and \<open>bfree\<close> on what the blocks of the disk read as. \<open>block_free s b\<close> is the bit of block
  \<open>b\<close> in the free map.
\<close>

definition bm_block :: "superblock \<Rightarrow> nat \<Rightarrow> nat" where
  "bm_block k b = unat (BBLOCK (of_nat b) k)"

definition block_free :: "'a fsst_scheme \<Rightarrow> nat \<Rightarrow> bool" where
  "block_free s b \<longleftrightarrow> bit_free (view s (bm_block (sb s) b)) (b mod BPB)"

text \<open>Room for \<open>k\<close> more blocks in the log and in the cache.\<close>

definition tx_room :: "nat set \<Rightarrow> (nat \<rightharpoonup> nat \<times> uint) \<Rightarrow> nat \<Rightarrow> bool" where
  "tx_room L H k \<longleftrightarrow> card L + k < LOGSIZE \<and> card L + card (dom H) + k \<le> NBUF"

lemma room_insert:
  assumes "tx_room L H (Suc k)"
  shows "tx_room (insert m L) H k" "Suc (card L) < LOGSIZE" "tx_room L H k"
  using assms card_insert_le_m1[of "Suc (card L)" L m] by (auto simp: tx_room_def)

lemma room_bread:
  assumes "tx_room L H (Suc k)" "finite L" "finite (dom H)"
  shows "card (insert m (L \<union> dom H)) \<le> NBUF"
proof -
  have "card (insert m (L \<union> dom H)) \<le> Suc (card (L \<union> dom H))" using assms(2,3) by (simp add: card_insert_if)
  moreover have "card (L \<union> dom H) \<le> card L + card (dom H)" by (rule card_Un_le)
  ultimately show ?thesis using assms(1) by (simp add: tx_room_def)
qed

text \<open>Read a block, change it, log it and release it.\<close>

definition edit_block :: "uint \<Rightarrow> (block \<Rightarrow> block) \<Rightarrow> ('a fsst_scheme, unit) K" where
  "edit_block w f = kbind (bread ROOTDEV w) (\<lambda>bp. kthen (set_data bp f) (kthen (log_write bp) (brelse bp)))"

lemma edit_held:
  assumes t: "tx p s L H D" and o: "H m = Some (i, p_pid (procs s p))" and room: "Suc (card L) < LOGSIZE"
  shows "\<exists>t. kthen (set_data i f) (log_write i) s = Done () t \<and> tx p t (insert m L) H D
    \<and> view t = (view s)(m := f (view s m)) \<and> tframe s t"
proof -
  obtain a where a: "set_data i f s = Done () a" "tx p a L H (insert m D)" "view a = (view s)(m := f (view s m))" "tframe s a"
    using tx_set[OF t o] by blast
  obtain b where b: "log_write i a = Done () b" "tx p b (insert m L) H D" "view b = view a" "tframe a b"
    using tx_log_write[OF a(2) o room] by blast
  show ?thesis using a b tframe_trans[OF a(4) b(4)] by (auto simp: kexec)
qed

lemma edit_release:
  assumes t: "tx p s L H D" and o: "H m = Some (i, p_pid (procs s p))" and room: "Suc (card L) < LOGSIZE"
  shows "\<exists>t. kthen (set_data i f) (kthen (log_write i) (brelse i)) s = Done () t \<and> tx p t (insert m L) (H(m := None)) D
    \<and> view t = (view s)(m := f (view s m)) \<and> tframe s t"
proof -
  obtain a where a: "kthen (set_data i f) (log_write i) s = Done () a" "tx p a (insert m L) H D"
      "view a = (view s)(m := f (view s m))" "tframe s a"
    using edit_held[OF assms] by blast
  have o': "H m = Some (i, p_pid (procs a p))" using o tx_pid[OF t a(4)] by simp
  obtain c where c: "brelse i a = Done () c" "tx p c (insert m L) (H(m := None)) D" "view c = view a" "tframe a c"
    using tx_brelse[OF a(2) o'] by auto
  have "kthen (set_data i f) (kthen (log_write i) (brelse i)) s = Done () c"
    using a(1) c(1) by (auto simp: kexec split: outcome.splits)
  then show ?thesis using c a(3) tframe_trans[OF a(4) c(4)] by auto
qed

lemma tx_edit:
  assumes t: "tx p s L H D" and free: "H (unat w) = None" and room: "tx_room L H (Suc k)"
  shows "\<exists>t. edit_block w f s = Done () t \<and> tx p t (insert (unat w) L) H D
    \<and> view t = (view s)(unat w := f (view s (unat w))) \<and> tframe s t"
proof -
  let ?m = "unat w"
  obtain i a where a: "bread ROOTDEV w s = Done i a" "tx p a L (H(?m \<mapsto> (i, p_pid (procs s p)))) D" "view a = view s" "tframe s a"
    using tx_bread[OF t free room_bread[OF room txD(5,6)[OF t]]] by blast
  have o: "(H(?m \<mapsto> (i, p_pid (procs s p)))) ?m = Some (i, p_pid (procs a p))" using tx_pid[OF t a(4)] by simp
  have r: "Suc (card L) < LOGSIZE" using room by (simp add: tx_room_def)
  obtain b where b: "kthen (set_data i f) (kthen (log_write i) (brelse i)) a = Done () b"
      "tx p b (insert ?m L) ((H(?m \<mapsto> (i, p_pid (procs s p))))(?m := None)) D"
      "view b = (view a)(?m := f (view a ?m))" "tframe a b"
    using edit_release[OF a(2) o r, of f] by blast
  have "(H(?m \<mapsto> (i, p_pid (procs s p))))(?m := None) = H" using free by auto
  then show ?thesis using a b tframe_trans[OF a(4) b(4)] by (auto simp: edit_block_def kexec)
qed

lemma bzero_edit: "bzero ROOTDEV w = edit_block w (\<lambda>_ _. 0)"
  by (simp add: bzero_def edit_block_def)

subsection \<open>balloc\<close>

text \<open>The shape of the free map: its blocks are where the superblock says, without wrap-around, and not in use by the caller; a free
  block is neither a block of the map nor held by the caller.\<close>

definition fmap_ok :: "'a fsst_scheme \<Rightarrow> (nat \<rightharpoonup> nat \<times> uint) \<Rightarrow> bool" where
  "fmap_ok s H \<longleftrightarrow> (let N = unat (sb_size (sb s)); bm = unat (sb_bmapstart (sb s)) in
     bm + N div BPB < 2 ^ 32 \<and> (\<forall>b<N. H (bm_block (sb s) b) = None)
     \<and> (\<forall>b<N. block_free s b \<longrightarrow> H b = None \<and> (\<forall>c<N. bm_block (sb s) c \<noteq> b)))"

lemma bm_block_eq:
  assumes "unat (sb_bmapstart k) + N div BPB < 2 ^ 32" and "b \<le> N" "N < 2 ^ 32"
  shows "bm_block k b = b div BPB + unat (sb_bmapstart k)"
proof -
  have "unat (of_nat b :: uint) = b" using assms(2,3) by (simp add: unat_of_nat)
  moreover have "unat (of_nat BPB :: uint) = BPB" by (simp add: BPB_def BSIZE_def)
  moreover have "b div BPB \<le> N div BPB" using assms(2) by (rule div_le_mono)
  ultimately show ?thesis using assms(1) by (simp add: bm_block_def BBLOCK_def unat_word_ariths unat_div)
qed

definition first_bit :: "'a fsst_scheme \<Rightarrow> nat \<Rightarrow> nat option" where
  "first_bit s k = List.find (bit_free (view s (bm_block (sb s) (k * BPB)))) [0..<min BPB (unat (sb_size (sb s)) - k * BPB)]"

lemma read_map:
  assumes t: "tx p s L H {}" and free: "H (unat w) = None" and room: "tx_room L H (Suc k)"
  shows "\<exists>i a. bread ROOTDEV w s = Done i a \<and> tx p a L (H(unat w \<mapsto> (i, p_pid (procs a p)))) {} \<and> view a = view s \<and> tframe s a
    \<and> get_data i a = Done (view s (unat w)) a"
proof -
  let ?m = "unat w"
  obtain i a where a: "bread ROOTDEV w s = Done i a" "tx p a L (H(?m \<mapsto> (i, p_pid (procs s p)))) {}" "view a = view s" "tframe s a"
    using tx_bread[OF t free room_bread[OF room txD(5,6)[OF t]]] by blast
  have "get_data i a = Done (view a ?m) a" by (rule tx_get[OF a(2), of ?m]) simp
  then show ?thesis using a tx_pid[OF t a(4)] by auto
qed

lemma balloc_one_none:
  assumes t: "tx p s L H {}" and H: "H (bm_block (sb s) (k * BPB)) = None" and room: "tx_room L H (Suc n)"
    and f: "first_bit s k = None"
  shows "\<exists>t. balloc_one ROOTDEV (sb s) k s = Done None t \<and> tx p t L H {} \<and> view t = view s \<and> tframe s t"
proof -
  let ?w = "BBLOCK (of_nat (k * BPB)) (sb s)" let ?m = "unat ?w"
  have free: "H ?m = None" using H by (simp only: bm_block_def)
  obtain i a where a: "bread ROOTDEV ?w s = Done i a" "tx p a L (H(?m \<mapsto> (i, p_pid (procs a p)))) {}" "view a = view s" "tframe s a"
      "get_data i a = Done (view s ?m) a"
    using read_map[OF t free room] by blast
  obtain b where b: "brelse i a = Done () b" "tx p b L ((H(?m \<mapsto> (i, p_pid (procs a p))))(?m := None)) {}" "view b = view a" "tframe a b"
    using tx_brelse[OF a(2), of ?m i] by auto
  have h: "(H(?m \<mapsto> (i, p_pid (procs a p))))(?m := None) = H" using free by auto
  have f': "List.find (bit_free (view s ?m)) [0..<min BPB (unat (sb_size (sb s)) - k * BPB)] = None"
    using f by (simp only: first_bit_def bm_block_def)
  have "balloc_one ROOTDEV (sb s) k s = Done None b"
    unfolding balloc_one_def Let_def using a(1,5) b(1) f' by (simp add: kbind_def kthen_def kret_def del: of_nat_mult)
  then show ?thesis using b a(3) h tframe_trans[OF a(4) b(4)] by auto
qed

lemma balloc_one_some:
  assumes t: "tx p s L H {}" and H: "H (bm_block (sb s) (k * BPB)) = None" and room: "tx_room L H (Suc (Suc n))"
    and f: "first_bit s k = Some bi" and b32: "k * BPB + bi < 2 ^ 32" and Hb: "H (k * BPB + bi) = None"
  shows "\<exists>t. balloc_one ROOTDEV (sb s) k s = Done (Some (of_nat (k * BPB + bi))) t
    \<and> tx p t (insert (k * BPB + bi) (insert (bm_block (sb s) (k * BPB)) L)) H {}
    \<and> view t = (view s)(bm_block (sb s) (k * BPB) := bit_set bi (view s (bm_block (sb s) (k * BPB))), k * BPB + bi := \<lambda>_. 0)
    \<and> tframe s t"
proof -
  let ?w = "BBLOCK (of_nat (k * BPB)) (sb s)" let ?m = "unat ?w" let ?b = "k * BPB + bi"
  have free: "H ?m = None" using H by (simp only: bm_block_def)
  obtain i a where a: "bread ROOTDEV ?w s = Done i a" "tx p a L (H(?m \<mapsto> (i, p_pid (procs a p)))) {}" "view a = view s" "tframe s a"
      "get_data i a = Done (view s ?m) a"
    using read_map[OF t free room] by blast
  obtain c where c: "kthen (set_data i (bit_set bi)) (kthen (log_write i) (brelse i)) a = Done () c"
      "tx p c (insert ?m L) ((H(?m \<mapsto> (i, p_pid (procs a p))))(?m := None)) {}"
      "view c = (view a)(?m := bit_set bi (view a ?m))" "tframe a c"
    using edit_release[OF a(2), of ?m i "bit_set bi"] room by (auto simp: tx_room_def)
  have h: "(H(?m \<mapsto> (i, p_pid (procs a p))))(?m := None) = H" using free by auto
  have ub: "unat (of_nat ?b :: uint) = ?b" using b32 by (simp only: unat_of_nat) simp
  have fb: "H (unat (of_nat ?b :: uint)) = None" using Hb ub by simp
  obtain d where d: "bzero ROOTDEV (of_nat ?b) c = Done () d" "tx p d (insert ?b (insert ?m L)) H {}"
      "view d = (view c)(?b := \<lambda>_. 0)" "tframe c d"
    using tx_edit[OF c(2)[unfolded h] fb room_insert(1)[OF room], of "\<lambda>_ _. 0"] unfolding bzero_edit ub by blast
  have f': "List.find (bit_free (view s ?m)) [0..<min BPB (unat (sb_size (sb s)) - k * BPB)] = Some bi"
    using f by (simp only: first_bit_def bm_block_def)
  have "balloc_one ROOTDEV (sb s) k s = Done (Some (of_nat ?b)) d"
    unfolding balloc_one_def Let_def using a(1,5) c(1) d(1) f'
    by (auto simp: kbind_def kthen_def kret_def simp del: of_nat_mult of_nat_add split: outcome.splits)
  then show ?thesis using d c(3) a(3) tframe_trans[OF tframe_trans[OF a(4) c(4)] d(4)] unfolding bm_block_def by auto
qed

text \<open>A search of one map block is a search of the blocks it describes.\<close>

lemma free_in_map:
  assumes "unat (sb_bmapstart (sb s)) + N div BPB < 2 ^ 32" and "N = unat (sb_size (sb s))" and "bi < BPB" "k * BPB + bi < N"
  shows "bm_block (sb s) (k * BPB + bi) = bm_block (sb s) (k * BPB)"
    and "block_free s (k * BPB + bi) \<longleftrightarrow> bit_free (view s (bm_block (sb s) (k * BPB))) bi"
proof -
  have N: "N < 2 ^ 32" using unsigned_less[of "sb_size (sb s)", where ?'a = nat] assms(2) by simp
  have d: "(k * BPB + bi) div BPB = k" "(k * BPB) div BPB = k" "(k * BPB + bi) mod BPB = bi" using assms(3) by simp_all
  show e: "bm_block (sb s) (k * BPB + bi) = bm_block (sb s) (k * BPB)"
    using bm_block_eq[OF assms(1) _ N, of "k * BPB + bi"] bm_block_eq[OF assms(1) _ N, of "k * BPB"] assms(4) d by simp
  show "block_free s (k * BPB + bi) \<longleftrightarrow> bit_free (view s (bm_block (sb s) (k * BPB))) bi"
    unfolding block_free_def e d(3) ..
qed

lemma first_bit_None:
  assumes "unat (sb_bmapstart (sb s)) + N div BPB < 2 ^ 32" and "N = unat (sb_size (sb s))" and "first_bit s k = None"
    and "k * BPB \<le> c" "c < Suc k * BPB" "c < N"
  shows "\<not> block_free s c"
proof -
  define bi where "bi = c - k * BPB"
  have c: "c = k * BPB + bi" "bi < BPB" "bi < N - k * BPB" using assms(4-6) by (auto simp: bi_def)
  then have "\<not> bit_free (view s (bm_block (sb s) (k * BPB))) bi"
    using assms(2,3) by (auto simp: first_bit_def find_None_iff)
  then show ?thesis using free_in_map(2)[OF assms(1,2) c(2)] assms(6) c(1) by simp
qed

lemma first_bit_Some:
  assumes "unat (sb_bmapstart (sb s)) + N div BPB < 2 ^ 32" and "N = unat (sb_size (sb s))" and "first_bit s k = Some bi"
  shows "bi < BPB" "k * BPB + bi < N" "block_free s (k * BPB + bi)"
    "k * BPB \<le> c \<Longrightarrow> c < k * BPB + bi \<Longrightarrow> \<not> block_free s c"
proof -
  let ?v = "view s (bm_block (sb s) (k * BPB))"
  obtain i where i: "i < min BPB (N - k * BPB)" "bit_free ?v i" "bi = i" "\<And>j. j < i \<Longrightarrow> \<not> bit_free ?v j"
    using assms(2,3) by (auto simp: first_bit_def find_Some_iff)
  show b: "bi < BPB" and n: "k * BPB + bi < N" using i(1,3) by auto
  show "block_free s (k * BPB + bi)" using free_in_map(2)[OF assms(1,2) b n] i(2,3) by simp
  assume c: "k * BPB \<le> c" "c < k * BPB + bi"
  then have e: "c = k * BPB + (c - k * BPB)" "c - k * BPB < bi" by auto
  have "c - k * BPB < BPB" "k * BPB + (c - k * BPB) < N" using e c b n by linarith+
  from free_in_map(2)[OF assms(1,2) this] i(3) i(4)[of "c - k * BPB"] e show "\<not> block_free s c" by simp
qed

text \<open>Setting the bit of a block in the map and zeroing it takes exactly that block from the free ones.\<close>

lemma map_after_alloc:
  fixes s t :: "'a fsst_scheme"
  assumes "fmap_ok s H" and "N = unat (sb_size (sb s))" and "b < N" "block_free s b" "c < N" "sb t = sb s"
    and v: "view t = (view s)(bm_block (sb s) b := bit_set (b mod BPB) (view s (bm_block (sb s) b)), b := \<lambda>_. 0)"
  shows "block_free t c \<longleftrightarrow> block_free s c \<and> c \<noteq> b"
proof -
  have N: "N < 2 ^ 32" using unsigned_less[of "sb_size (sb s)", where ?'a = nat] assms(2) by simp
  have bm: "unat (sb_bmapstart (sb s)) + N div BPB < 2 ^ 32" "bm_block (sb s) c \<noteq> b"
    using assms(1-5) by (auto simp: fmap_ok_def Let_def)
  have e: "bm_block (sb s) x = x div BPB + unat (sb_bmapstart (sb s))" if "x < N" for x
    by (rule bm_block_eq[OF bm(1) _ N]) (use that in simp)
  show ?thesis
  proof (cases "c div BPB = b div BPB")
    case True
    then have m: "bm_block (sb s) c = bm_block (sb s) b" using e assms(3,5) by simp
    have "c mod BPB = b mod BPB \<longleftrightarrow> c = b" using True by (metis div_mult_mod_eq)
    then show ?thesis using bm(2) assms(6) m by (auto simp: block_free_def v bit_free_set)
  next
    case False
    then have "bm_block (sb s) c \<noteq> bm_block (sb s) b" using e assms(3,5) by simp
    then show ?thesis using bm(2) assms(6) False by (auto simp: block_free_def v)
  qed
qed

text \<open>What a successful search of the first map blocks leaves: block \<open>b\<close> is the first free one, marked and zeroed.\<close>

definition took :: "nat \<Rightarrow> 'a fsst_scheme \<Rightarrow> nat set \<Rightarrow> (nat \<rightharpoonup> nat \<times> uint) \<Rightarrow> nat \<Rightarrow> 'a fsst_scheme \<Rightarrow> bool" where
  "took p s L H b t \<longleftrightarrow> b < unat (sb_size (sb s)) \<and> block_free s b \<and> (\<forall>c<b. \<not> block_free s c)
     \<and> tx p t (insert b (insert (bm_block (sb s) b) L)) H {} \<and> tframe s t
     \<and> view t = (view s)(bm_block (sb s) b := bit_set (b mod BPB) (view s (bm_block (sb s) b)), b := \<lambda>_. 0)"

lemma balloc_one_step:
  fixes s u :: "'a fsst_scheme"
  assumes fm: "fmap_ok s H" and N: "N = unat (sb_size (sb s))" and k: "k * BPB < N" and room: "tx_room L H 2"
    and t: "tx p u L H {}" and v: "view u = view s" and fr: "tframe s u" and none: "\<forall>c<k * BPB. \<not> block_free s c"
  shows "(\<exists>t. balloc_one ROOTDEV (sb s) k u = Done None t \<and> tx p t L H {} \<and> view t = view s \<and> tframe s t
      \<and> (\<forall>c<N. c < Suc k * BPB \<longrightarrow> \<not> block_free s c))
    \<or> (\<exists>b t. balloc_one ROOTDEV (sb s) k u = Done (Some (of_nat b)) t \<and> took p s L H b t)"
proof -
  have u: "sb u = sb s" using tframe_fs[OF fr] by simp
  have bf: "block_free u c = block_free s c" "first_bit u k = first_bit s k" for c by (simp_all add: block_free_def first_bit_def u v)
  have bm: "unat (sb_bmapstart (sb s)) + N div BPB < 2 ^ 32" and Hk: "H (bm_block (sb u) (k * BPB)) = None"
    using fm k N u by (auto simp: fmap_ok_def Let_def)
  have r2: "tx_room L H (Suc (Suc 0))" using room by (simp add: numeral_2_eq_2)
  show ?thesis
  proof (cases "first_bit s k")
    case None
    obtain t where "balloc_one ROOTDEV (sb s) k u = Done None t" "tx p t L H {}" "view t = view s" "tframe s t"
      using balloc_one_none[OF t Hk r2] None bf(2) u v tframe_trans[OF fr] by metis
    moreover have "\<not> block_free s c" if "c < N" "c < Suc k * BPB" for c
      using first_bit_None[OF bm N None, of c] none that by (cases "c < k * BPB") auto
    ultimately show ?thesis by blast
  next
    case (Some bi)
    note F = first_bit_Some[OF bm N Some]
    let ?b = "k * BPB + bi"
    have b32: "?b < 2 ^ 32" using F(2) unsigned_less[of "sb_size (sb s)", where ?'a = nat] N by simp
    have fu: "first_bit u k = Some bi" using Some bf(2) by simp
    have Hb: "H ?b = None" using fm F(2,3) N by (auto simp: fmap_ok_def Let_def)
    have first: "\<forall>c<?b. \<not> block_free s c" using F(4) none by (meson not_le)
    have mb: "bm_block (sb s) ?b = bm_block (sb s) (k * BPB)" "?b mod BPB = bi" using free_in_map(1)[OF bm N F(1,2)] F(1) by simp_all
    obtain t where B: "balloc_one ROOTDEV (sb s) k u = Done (Some (of_nat ?b)) t" "tx p t (insert ?b (insert (bm_block (sb s) (k * BPB)) L)) H {}"
        "view t = (view s)(bm_block (sb s) (k * BPB) := bit_set bi (view s (bm_block (sb s) (k * BPB))), ?b := \<lambda>_. 0)" "tframe u t"
      using balloc_one_some[OF t Hk r2 fu b32 Hb] unfolding u v by blast
    have "took p s L H ?b t" unfolding took_def mb using B(2,3) F(2,3) first N tframe_trans[OF fr B(4)] by simp
    then show ?thesis using B(1) by blast
  qed
qed

lemma balloc_search:
  fixes s :: "'a fsst_scheme"
  assumes t: "tx p s L H {}" and fm: "fmap_ok s H" and room: "tx_room L H 2"
  defines "N \<equiv> unat (sb_size (sb s))"
  shows "(\<exists>t. kscan [0..<(N + BPB - 1) div BPB] (balloc_one ROOTDEV (sb s)) s = Done None t \<and> tx p t L H {} \<and> view t = view s
      \<and> tframe s t \<and> (\<forall>c<N. \<not> block_free s c))
    \<or> (\<exists>b t. kscan [0..<(N + BPB - 1) div BPB] (balloc_one ROOTDEV (sb s)) s = Done (Some (of_nat b)) t \<and> took p s L H b t)"
proof -
  let ?n = "(N + BPB - 1) div BPB"
  define I where "I k u \<longleftrightarrow> tx p u L H {} \<and> view u = view s \<and> tframe s u \<and> (\<forall>c<N. c < k * BPB \<longrightarrow> \<not> block_free s c)" for k u
  have B: "0 < BPB" by (simp add: BPB_def BSIZE_def)
  have lt: "k * BPB < N" if "k < ?n" for k
    using that B less_eq_div_iff_mult_less_eq[of BPB "Suc k" "N + BPB - 1"] by (simp add: Suc_le_eq)
  have cov: "N \<le> ?n * BPB" using B dividend_less_div_times[of BPB "N + BPB - 1"] by simp
  have "(\<exists>t. kscan [0..<?n] (balloc_one ROOTDEV (sb s)) s = Done None t \<and> I ?n t)
    \<or> (\<exists>i v t. i < ?n \<and> kscan [0..<?n] (balloc_one ROOTDEV (sb s)) s = Done (Some v) t \<and> (\<exists>b. v = of_nat b \<and> took p s L H b t))"
  proof (rule kscan_inv_upt)
    fix k u assume k: "k < ?n" and i: "I k u"
    have "\<forall>c<k * BPB. \<not> block_free s c" using i lt[OF k] by (auto simp: I_def)
    with balloc_one_step[OF fm meta_eq_to_obj_eq[OF N_def] lt[OF k] room, of p u] i
    show "(\<exists>w. balloc_one ROOTDEV (sb s) k u = Done None w \<and> I (Suc k) w)
        \<or> (\<exists>v w. balloc_one ROOTDEV (sb s) k u = Done (Some v) w \<and> (\<exists>b. v = of_nat b \<and> took p s L H b w))"
      unfolding I_def by blast
  qed (use t in \<open>simp add: I_def\<close>)
  then show ?thesis using cov unfolding I_def by (blast intro: order_less_le_trans)
qed

lemma balloc_run:
  fixes s :: "'a fsst_scheme"
  assumes "tx p s L H {}" and "fmap_ok s H" and "tx_room L H 2" and "PR_LOCK \<notin> held s"
  shows "(\<exists>b t. balloc ROOTDEV s = Done (of_nat b) t \<and> took p s L H b t)
    \<or> (\<exists>str t. balloc ROOTDEV s = Done 0 (printed str t) \<and> tx p t L H {} \<and> view t = view s \<and> tframe s t
        \<and> (\<forall>c<unat (sb_size (sb s)). \<not> block_free s c))"
proof -
  let ?n = "(unat (sb_size (sb s)) + BPB - 1) div BPB"
  consider t where "kscan [0..<?n] (balloc_one ROOTDEV (sb s)) s = Done None t" "tx p t L H {}" "view t = view s"
      "tframe s t" "\<forall>c<unat (sb_size (sb s)). \<not> block_free s c"
    | b t where "kscan [0..<?n] (balloc_one ROOTDEV (sb s)) s = Done (Some (of_nat b)) t" "took p s L H b t"
    using balloc_search[OF assms(1-3)] by blast
  then show ?thesis
  proof cases
    case (1 t)
    have "PR_LOCK \<notin> held t" using assms(4) tframeD(1)[OF 1(4)] by simp
    then obtain str where "printf (''balloc: out of blocks'' @ [CHR 0x0A]) [] t = Done () (printed str t)"
      using printf_fits[of "''balloc: out of blocks'' @ [CHR 0x0A]" "[]" t] by auto
    then have "balloc ROOTDEV s = Done 0 (printed str t)" using 1(1) by (simp add: balloc_def kexec)
    then show ?thesis using 1(2-5) by blast
  next
    case (2 b t)
    have "balloc ROOTDEV s = Done (of_nat b) t" using 2(1) by (simp add: balloc_def kexec)
    then show ?thesis using 2(2) by blast
  qed
qed

text \<open>C6: \<open>balloc\<close> in a transaction, on a file system whose free map does not describe its own blocks as free: when a block is free it
  returns the first one, that block reads as zeros afterwards and is the only one to have left the free map, every block that is
  neither it nor its map block reads as before, and both are in the transaction's log; when none is free it
  returns 0 after a message and changes no block.
\<close>

theorem balloc_correct:
  fixes s :: "'a fsst_scheme"
  assumes "tx p s L H {}" and "fmap_ok s H" and "tx_room L H 2" and "PR_LOCK \<notin> held s"
  defines "N \<equiv> unat (sb_size (sb s))"
  shows "if \<exists>b<N. block_free s b
    then \<exists>b t. balloc ROOTDEV s = Done (of_nat b) t \<and> b < N \<and> block_free s b \<and> (\<forall>c<b. \<not> block_free s c)
       \<and> view t b = (\<lambda>_. 0) \<and> (\<forall>c<N. block_free t c \<longleftrightarrow> block_free s c \<and> c \<noteq> b)
       \<and> (\<forall>m. m \<noteq> b \<and> m \<noteq> bm_block (sb s) b \<longrightarrow> view t m = view s m)
       \<and> tx p t (insert b (insert (bm_block (sb s) b) L)) H {}
    else \<exists>str t. balloc ROOTDEV s = Done 0 (printed str t) \<and> view t = view s \<and> tx p t L H {}"
proof -
  from balloc_run[OF assms(1-4)] show ?thesis
  proof (elim disjE exE conjE)
    fix str t assume "balloc ROOTDEV s = Done 0 (printed str t)" "tx p t L H {}" "view t = view s" "\<forall>c<unat (sb_size (sb s)). \<not> block_free s c"
    then show ?thesis by (auto simp: N_def)
  next
    fix b t assume B: "balloc ROOTDEV s = Done (of_nat b) t" "took p s L H b t"
    have T: "b < N" "block_free s b" "\<forall>c<b. \<not> block_free s c" "tx p t (insert b (insert (bm_block (sb s) b) L)) H {}" "sb t = sb s"
        "view t = (view s)(bm_block (sb s) b := bit_set (b mod BPB) (view s (bm_block (sb s) b)), b := \<lambda>_. 0)"
      using B(2) tframe_fs[of s t] by (auto simp: took_def N_def)
    have "\<forall>c<N. block_free t c \<longleftrightarrow> block_free s c \<and> c \<noteq> b"
      using map_after_alloc[OF assms(2) _ T(1,2) _ T(5,6)] by (simp add: N_def)
    moreover have "view t b = (\<lambda>_. 0)" "\<forall>m. m \<noteq> b \<and> m \<noteq> bm_block (sb s) b \<longrightarrow> view t m = view s m" unfolding T(6) by auto
    moreover have "\<exists>b<N. block_free s b" using T(1,2) by blast
    ultimately show ?thesis using T(1-4) B(1) by (simp only: if_True) blast
  qed
qed

text \<open>A disk of 100 blocks with its free map in block 45, blocks 0 to 59 in use.\<close>

definition ex_map :: block where
  "ex_map = (\<lambda>i. if i < 7 then 255 else if i = 7 then 15 else 0)"

definition ex_sb :: superblock where
  "ex_sb = (load_superblock (\<lambda>_. 0))\<lparr>sb_size := 100, sb_bmapstart := 45\<rparr>"

lemma ex_map_used: "\<forall>b<60. \<not> bit_free ex_map b"
  by code_simp

lemma ex_map_free: "bit_free ex_map 60"
  by code_simp

lemma ex_sb_simps [simp]: "sb_size ex_sb = 100" "sb_bmapstart ex_sb = 45"
  by (simp_all add: ex_sb_def)

lemma ex_bm: "b < 100 \<Longrightarrow> bm_block ex_sb b = 45"
  using bm_block_eq[of ex_sb 100 b] by (simp add: BPB_def BSIZE_def)

lemma ex_fs: "\<exists>s :: fsst. tx 0 s {} Map.empty {} \<and> sb s = ex_sb \<and> view s = (\<lambda>m. if m = 45 then ex_map else (\<lambda>_. 0)) \<and> held s = {}"
proof -
  let ?D = "\<lambda>m. if m = 45 then ex_map else (\<lambda>_. 0 :: byte)"
  let ?s = "boot_fsst\<lparr>disk := ?D, sb := ex_sb\<rparr>"
  have c: "cold_cache ?s" "bio_ok ?s 0"
    by (simp_all add: boot_kos_defs cold_cache_def bio_ok_def zero_buf_def)
  obtain t where t: "binit ?s = Done () t" "bc_idle 0 t" "disk t = disk ?s" using binit_idle[OF c] by blast
  have f: "sb t = ex_sb" "held t = {}" "lh_n t = 0" "log_size t = 30" "log_outstanding t = 1"
    using t(1) unfolding binit_exec by (auto simp: boot_kos_defs)
  have v: "view t = ?D" using idle_view[OF t(2)] t(3) by simp
  have "tx 0 t {} Map.empty {}"
    using t(2,3) f v by (simp add: tx_def bc_idle_def LOGSIZE_def MAXOPBLOCKS_def)
  then show ?thesis using f v by blast
qed

theorem balloc_correct_witness:
  "\<exists>(s :: fsst) t. balloc ROOTDEV s = Done 60 t \<and> block_free s 60 \<and> \<not> block_free t 60 \<and> view t 60 = (\<lambda>_. 0)"
proof -
  obtain s :: fsst where s: "tx 0 s {} Map.empty {}" "sb s = ex_sb" "view s = (\<lambda>m. if m = 45 then ex_map else (\<lambda>_. 0))" "held s = {}"
    using ex_fs by blast
  have bf: "block_free s b \<longleftrightarrow> bit_free ex_map b" if "b < 100" for b
    using that ex_bm[OF that] by (simp add: block_free_def s(2,3) BPB_def BSIZE_def)
  have used: "\<not> block_free s b" if "b < 60" for b using ex_map_used bf[of b] that by simp
  have fm: "fmap_ok s Map.empty"
    using used[of 45] ex_bm by (auto simp: fmap_ok_def Let_def s(2) BPB_def BSIZE_def)
  have room: "tx_room {} (Map.empty :: nat \<rightharpoonup> nat \<times> uint) 2" by (simp add: tx_room_def LOGSIZE_def MAXOPBLOCKS_def NBUF_def)
  have ex: "\<exists>b<unat (sb_size (sb s)). block_free s b" using bf[of 60] ex_map_free by (auto simp: s(2) intro!: exI[of _ 60])
  obtain b t where b: "balloc ROOTDEV s = Done (of_nat b) t" "b < 100" "block_free s b" "\<forall>c<b. \<not> block_free s c" "view t b = (\<lambda>_. 0)"
      "\<forall>c<100. block_free t c \<longleftrightarrow> block_free s c \<and> c \<noteq> b"
    using balloc_correct[OF s(1) fm room] ex by (auto simp: s(2,4))
  have "b = 60" using b(3,4) used[of b] bf[of 60] ex_map_free by (cases b "60 :: nat" rule: linorder_cases) auto
  then show ?thesis using b by (intro exI[of _ s] exI[of _ t]) simp
qed

end
