(* ===== verification/Fsfile.thy ===== *)
theory Fsfile
  imports Fsalloc
begin

text \<open>
  The contents of a file. \<open>file_byte s ip o\<close> is the byte at offset \<open>o\<close> of the file of inode \<open>ip\<close>, found through the direct and indirect
  block addresses. \<open>readi\<close> into the kernel stack reads this array of bytes, and \<open>writei\<close> from the kernel stack into blocks that the file
  has writes it, as the directory operations use them; a \<open>writei\<close> from any source that may allocate blocks is the subject of Fswrite.
\<close>

subsection \<open>The file as an array of bytes\<close>

definition fblk :: "'a fsst_scheme \<Rightarrow> nat \<Rightarrow> nat \<Rightarrow> uint" where
  "fblk s ip bn = (if bn < NDIRECT then i_addrs (inodes s ip) bn
     else bload32 (view s (unat (i_addrs (inodes s ip) NDIRECT))) (4 * (bn - NDIRECT)))"

definition file_byte :: "'a fsst_scheme \<Rightarrow> nat \<Rightarrow> nat \<Rightarrow> byte" where
  "file_byte s ip k = view s (unat (fblk s ip (k div BSIZE))) (k mod BSIZE)"

text \<open>The first \<open>n\<close> bytes of the file have blocks, none of which the caller holds.\<close>

definition file_ok :: "'a fsst_scheme \<Rightarrow> nat \<Rightarrow> (nat \<rightharpoonup> nat \<times> uint) \<Rightarrow> nat \<Rightarrow> bool" where
  "file_ok s ip H n \<longleftrightarrow> i_dev (inodes s ip) = ROOTDEV \<and> n \<le> MAXFILE * BSIZE
     \<and> (\<forall>bn. bn * BSIZE < n \<longrightarrow> fblk s ip bn \<noteq> 0 \<and> H (unat (fblk s ip bn)) = None)
     \<and> (NDIRECT * BSIZE < n \<longrightarrow> i_addrs (inodes s ip) NDIRECT \<noteq> 0 \<and> H (unat (i_addrs (inodes s ip) NDIRECT)) = None)"

lemma BSIZE_pos [simp]: "0 < BSIZE"
  by (simp add: BSIZE_def)

lemma file_cong:
  assumes "view t = view s" "inodes t = inodes s"
  shows "fblk t ip = fblk s ip" "file_byte t ip = file_byte s ip" "file_ok t ip H n = file_ok s ip H n"
  by (simp_all only: fblk_def[abs_def] file_byte_def[abs_def] file_ok_def assms)

lemma block_of: "k < n \<Longrightarrow> (k div BSIZE) * BSIZE < n"
  using div_mult_mod_eq[of k BSIZE] by linarith

lemma read_release:
  assumes t: "tx p s L H {}" and free: "H (unat w) = None" and room: "tx_room L H (Suc k)"
  shows "\<exists>i a b. bread ROOTDEV w s = Done i a \<and> get_data i a = Done (view s (unat w)) a \<and> brelse i a = Done () b
    \<and> tx p b L H {} \<and> view b = view s \<and> tframe s a \<and> tframe s b"
proof -
  obtain i a where a: "bread ROOTDEV w s = Done i a" "tx p a L (H(unat w \<mapsto> (i, p_pid (procs a p)))) {}" "view a = view s" "tframe s a"
      "get_data i a = Done (view s (unat w)) a"
    using read_map[OF t free room] by blast
  obtain b where b: "brelse i a = Done () b" "tx p b L ((H(unat w \<mapsto> (i, p_pid (procs a p))))(unat w := None)) {}" "view b = view a" "tframe a b"
    using tx_brelse[OF a(2), of "unat w" i] by auto
  have "(H(unat w \<mapsto> (i, p_pid (procs a p))))(unat w := None) = H" using free by auto
  then show ?thesis using a b tframe_trans[OF a(4) b(4)] by auto
qed

lemma bmap_mapped:
  fixes s :: "'a fsst_scheme"
  assumes t: "tx p s L H {}" and room: "tx_room L H (Suc k)" and f: "file_ok s ip H n" and bn: "bn * BSIZE < n"
  shows "\<exists>t. bmap ip bn s = Done (fblk s ip bn) t \<and> tx p t L H {} \<and> view t = view s \<and> tframe s t"
proof (cases "bn < NDIRECT")
  case True
  then show ?thesis using f bn t by (auto simp: bmap_def get_inode_def kexec file_ok_def fblk_def)
next
  case False
  let ?n = "inodes s ip" let ?w = "i_addrs ?n NDIRECT"
  have "NDIRECT * BSIZE < n" by (rule order.strict_trans1[OF mult_le_mono1 bn]) (use False in simp)
  then have w: "?w \<noteq> 0" "H (unat ?w) = None" and dev: "i_dev ?n = ROOTDEV" and nz: "fblk s ip bn \<noteq> 0"
    using f bn by (auto simp: file_ok_def)
  have "n \<le> MAXFILE * BSIZE" using f by (simp add: file_ok_def)
  then have "bn * BSIZE < MAXFILE * BSIZE" using bn by (rule order.strict_trans2[rotated])
  then have "bn < MAXFILE" by simp
  then have "bn - NDIRECT < NINDIRECT" using False by (simp add: MAXFILE_def)
  moreover obtain i a b where r: "bread ROOTDEV ?w s = Done i a" "get_data i a = Done (view s (unat ?w)) a" "brelse i a = Done () b"
      "tx p b L H {}" "view b = view s" "tframe s a" "tframe s b"
    using read_release[OF t w(2) room] by blast
  moreover have "fblk s ip bn = bload32 (view s (unat ?w)) (4 * (bn - NDIRECT))" using False by (simp add: fblk_def)
  ultimately show ?thesis using False w(1) dev nz by (auto simp: bmap_def get_inode_def kexec Let_def)
qed

subsection \<open>readi\<close>

lemma same_block:
  assumes "off mod BSIZE + j < BSIZE"
  shows "(off + j) div BSIZE = off div BSIZE" "(off + j) mod BSIZE = off mod BSIZE + j"
proof -
  obtain q r where o: "off = q * BSIZE + r" "r < BSIZE" using div_mult_mod_eq[of off BSIZE] mod_less_divisor[OF BSIZE_pos] by metis
  then have r: "off mod BSIZE = r" "off div BSIZE = q" by simp_all
  have "(q * BSIZE + (r + j)) div BSIZE = q" "(q * BSIZE + (r + j)) mod BSIZE = r + j" using assms unfolding r by simp_all
  then show "(off + j) div BSIZE = off div BSIZE" "(off + j) mod BSIZE = off mod BSIZE + j" unfolding r by (simp_all add: o(1) add.assoc)
qed

lemma chunk_bytes:
  assumes "m \<le> BSIZE - off mod BSIZE"
  shows "bbytes (view s (unat (fblk s ip (off div BSIZE)))) (off mod BSIZE) m = map (file_byte s ip) [off..<off + m]"
proof (rule nth_equalityI)
  fix j assume "j < length (bbytes (view s (unat (fblk s ip (off div BSIZE)))) (off mod BSIZE) m)"
  then have j: "j < m" by (simp add: bbytes_def)
  then have l: "off mod BSIZE + j < BSIZE" using assms mod_less_divisor[of BSIZE off] BSIZE_pos by linarith
  show "bbytes (view s (unat (fblk s ip (off div BSIZE)))) (off mod BSIZE) m ! j = map (file_byte s ip) [off..<off + m] ! j"
    using j same_block[OF l] by (simp add: bbytes_def file_byte_def)
qed (simp add: bbytes_def)

lemma readi_loop_spec:
  fixes s :: "'a fsst_scheme"
  assumes "tx p s L H {}" and "tx_room L H (Suc k)" and "file_ok s ip H n" and "off + rest \<le> n"
  shows "\<exists>t. readi_loop ip LocalDst off tot rest s = Done (int (tot + rest), map (file_byte s ip) [off..<off + rest]) t
    \<and> tx p t L H {} \<and> view t = view s \<and> tframe s t"
  using assms
proof (induction rest arbitrary: s off tot rule: less_induct)
  case (less rest)
  show ?case
  proof (cases "rest = 0")
    case True
    then show ?thesis using less.prems(1) by (auto simp: readi_loop.simps[of _ _ _ _ 0] kexec)
  next
    case False
    let ?m = "min rest (BSIZE - off mod BSIZE)" and ?bn = "off div BSIZE"
    have bn: "?bn * BSIZE < n" using less.prems(4) False by (intro block_of) simp
    have blk: "fblk s ip ?bn \<noteq> 0" "H (unat (fblk s ip ?bn)) = None" "i_dev (inodes s ip) = ROOTDEV" using less.prems(3) bn by (auto simp: file_ok_def)
    obtain a where a: "bmap ip ?bn s = Done (fblk s ip ?bn) a" "tx p a L H {}" "view a = view s" "tframe s a"
      using bmap_mapped[OF less.prems(1-3) bn] by blast
    obtain i b c where r: "bread ROOTDEV (fblk s ip ?bn) a = Done i b" "get_data i b = Done (view a (unat (fblk s ip ?bn))) b"
        "brelse i b = Done () c" "tx p c L H {}" "view c = view a" "tframe a b" "tframe a c"
      using read_release[OF a(2) blk(2) less.prems(2)] by blast
    have ac: "inodes a = inodes s" "inodes c = inodes s" using tframe_fs[OF a(4)] tframe_fs[OF r(7)] by simp_all
    have v: "view c = view s" using r(5) a(3) by simp
    note C = file_cong[OF v ac(2)]
    have lt: "rest - ?m < rest" using chunk_progress[OF False] .
    have le: "off + ?m + (rest - ?m) \<le> n" using less.prems(4) by simp
    obtain t where t: "readi_loop ip LocalDst (off + ?m) (tot + ?m) (rest - ?m) c
          = Done (int (tot + ?m + (rest - ?m)), map (file_byte s ip) [off + ?m..<off + ?m + (rest - ?m)]) t"
        "tx p t L H {}" "view t = view c" "tframe c t"
      using less.IH[OF lt r(4) less.prems(2) less.prems(3)[folded C(3)] le, of "tot + ?m"] unfolding C by blast
    have e: "tot + ?m + (rest - ?m) = tot + rest" "off + ?m + (rest - ?m) = off + rest" by simp_all
    have bs: "bbytes (view a (unat (fblk s ip ?bn))) (off mod BSIZE) ?m = map (file_byte s ip) [off..<off + ?m]"
      unfolding a(3) by (rule chunk_bytes) simp
    have up: "[off..<off + ?m] @ [off + ?m..<off + rest] = [off..<off + rest]"
      using upt_add_eq_append[of off "off + ?m" "rest - ?m", OF le_add1] unfolding e(2) by (rule sym)
    have "readi_loop ip LocalDst off tot rest s = Done (int (tot + rest), map (file_byte s ip) [off..<off + rest]) t"
      unfolding readi_loop.simps[of ip LocalDst off tot rest] up[symmetric] map_append
      using False a(1) blk r(1-3) t(1) ac(1) e bs by (simp add: kexec get_inode_def Let_def del: of_nat_add)
    then show ?thesis using t(2,3) v tframe_trans[OF tframe_trans[OF a(4) r(7)] t(4)] by auto
  qed
qed

subsection \<open>writei\<close>

text \<open>The blocks of the file are different from one another and from the indirect block.\<close>

definition file_inj :: "'a fsst_scheme \<Rightarrow> nat \<Rightarrow> nat \<Rightarrow> bool" where
  "file_inj s ip n \<longleftrightarrow> (\<forall>bn bm. bn * BSIZE < n \<longrightarrow> bm * BSIZE < n \<longrightarrow> fblk s ip bn = fblk s ip bm \<longrightarrow> bn = bm)
     \<and> (NDIRECT * BSIZE < n \<longrightarrow> (\<forall>bn. bn * BSIZE < n \<longrightarrow> fblk s ip bn \<noteq> i_addrs (inodes s ip) NDIRECT))"

text \<open>The number of blocks that a write of \<open>rest\<close> bytes at \<open>off\<close> touches.\<close>

definition touched :: "nat \<Rightarrow> nat \<Rightarrow> nat" where
  "touched off rest = (if rest = 0 then 0 else (off mod BSIZE + rest + (BSIZE - 1)) div BSIZE)"

lemma touched_step:
  assumes "rest \<noteq> 0"
  shows "touched off rest = Suc (touched (off + min rest (BSIZE - off mod BSIZE)) (rest - min rest (BSIZE - off mod BSIZE)))"
proof (cases "rest \<le> BSIZE - off mod BSIZE")
  case True
  have l: "off mod BSIZE < BSIZE" by simp
  have "BSIZE \<le> off mod BSIZE + rest + (BSIZE - 1)" "off mod BSIZE + rest + (BSIZE - 1) < BSIZE + BSIZE"
    using True assms l by linarith+
  then have "(off mod BSIZE + rest + (BSIZE - 1)) div BSIZE = 1" by (intro div_nat_eqI) simp_all
  then show ?thesis using True assms by (simp add: touched_def)
next
  case False
  have l: "off mod BSIZE < BSIZE" by simp
  let ?m = "BSIZE - off mod BSIZE"
  have "off + ?m = off div BSIZE * BSIZE + BSIZE" using div_mult_mod_eq[of off BSIZE] l by linarith
  then have z: "(off + ?m) mod BSIZE = 0" by simp
  have e: "off mod BSIZE + rest + (BSIZE - 1) = (0 + (rest - ?m) + (BSIZE - 1)) + BSIZE" using False l by linarith
  have m: "min rest ?m = ?m" "rest - ?m \<noteq> 0" using False by simp_all
  show ?thesis unfolding touched_def m(1) z e using assms m(2) by (simp only: if_False div_add_self2[OF BSIZE_pos[THEN less_imp_neq, symmetric]] Suc_eq_plus1)
qed

lemma edit_parts:
  assumes "edit_block w f s = Done () t"
  obtains i a b c where "bread ROOTDEV w s = Done i a" "set_data i f a = Done () b" "log_write i b = Done () c" "brelse i c = Done () t"
  using assms by (auto simp: edit_block_def kexec split: outcome.splits)

lemma bput_append: "bput (off + length xs) ys (bput off xs d) = bput off (xs @ ys) d"
  by (rule ext) (auto simp: bput_def nth_append)

lemma bput_take_drop: "m \<le> length bs \<Longrightarrow> bput (off + m) (drop m bs) (bput off (take m bs) d) = bput off bs d"
  using bput_append[of off "take m bs" "drop m bs" d] by simp

text \<open>Writing part of one block of the file changes exactly those bytes of the file.\<close>

lemma same_base:
  fixes x y a b c l :: nat
  assumes "x = c + a" "y = c + b"
  shows "x - y = a - b" "y \<le> x \<longleftrightarrow> b \<le> a" "x < y + l \<longleftrightarrow> a < b + l"
  using assms by auto

lemma write_chunk_blocks:
  fixes s t :: "'a fsst_scheme"
  assumes inj: "file_inj s ip n" and k: "off < n" and bn: "bn * BSIZE < n"
    and v: "view t = (view s)(unat (fblk s ip (off div BSIZE)) := d)" and i: "inodes t = inodes s"
  shows "fblk t ip bn = fblk s ip bn"
proof (cases "bn < NDIRECT")
  case False
  have "NDIRECT * BSIZE < n" by (rule order.strict_trans1[OF mult_le_mono1 bn]) (use False in simp)
  then have "unat (i_addrs (inodes s ip) NDIRECT) \<noteq> unat (fblk s ip (off div BSIZE))"
    using inj block_of[OF k] by (metis file_inj_def word_unat_eq_iff)
  then show ?thesis using False by (simp add: fblk_def v i)
qed (simp add: fblk_def i)

lemma write_chunk_bytes:
  fixes s t :: "'a fsst_scheme"
  assumes inj: "file_inj s ip n" and k: "off < n" and len: "length bs \<le> BSIZE - off mod BSIZE" and x: "x < n"
    and v: "view t = (view s)(unat (fblk s ip (off div BSIZE)) := bput (off mod BSIZE) bs (view s (unat (fblk s ip (off div BSIZE)))))"
    and i: "inodes t = inodes s"
  shows "file_byte t ip x = bput off bs (file_byte s ip) x"
proof -
  have bx: "x div BSIZE * BSIZE < n" by (rule block_of[OF x])
  have ft: "file_byte t ip x = view t (unat (fblk s ip (x div BSIZE))) (x mod BSIZE)"
    using write_chunk_blocks[OF inj k bx v i] by (simp add: file_byte_def)
  show ?thesis
  proof (cases "x div BSIZE = off div BSIZE")
    case True
    have "x = off div BSIZE * BSIZE + x mod BSIZE" unfolding True[symmetric] by simp
    note b = same_base[OF this div_mult_mod_eq[symmetric, of off BSIZE]]
    show ?thesis unfolding ft True bput_def b by (simp add: v bput_def file_byte_def True)
  next
    case False
    then have "fblk s ip (x div BSIZE) \<noteq> fblk s ip (off div BSIZE)" using inj bx block_of[OF k] unfolding file_inj_def by blast
    then have e: "view t (unat (fblk s ip (x div BSIZE))) = view s (unat (fblk s ip (x div BSIZE)))" by (simp add: v word_unat_eq_iff)
    have n: "\<not> (off \<le> x \<and> x < off + length bs)"
    proof
      assume a: "off \<le> x \<and> x < off + length bs"
      have "off mod BSIZE < BSIZE" by simp
      then have "off mod BSIZE + (x - off) < BSIZE" using a len by linarith
      from same_block(1)[OF this] a False show False by simp
    qed
    show ?thesis unfolding ft e bput_def if_not_P[OF n] by (simp add: file_byte_def)
  qed
qed

text \<open>What a write of part of the file leaves: the blocks of the file are the same ones, the bytes of the file are updated, and no
  block that is not one of the file changes.\<close>

definition file_wrote :: "'a fsst_scheme \<Rightarrow> nat \<Rightarrow> nat \<Rightarrow> nat \<Rightarrow> byte list \<Rightarrow> 'a fsst_scheme \<Rightarrow> bool" where
  "file_wrote s ip n off bs t \<longleftrightarrow> (\<forall>bn. bn * BSIZE < n \<longrightarrow> fblk t ip bn = fblk s ip bn)
     \<and> (\<forall>x<n. file_byte t ip x = bput off bs (file_byte s ip) x)
     \<and> (\<forall>m. (\<forall>bn. bn * BSIZE < n \<longrightarrow> m \<noteq> unat (fblk s ip bn)) \<longrightarrow> view t m = view s m)"

lemma file_wrote_chunk:
  assumes "file_inj s ip n" "off < n" "length bs \<le> BSIZE - off mod BSIZE" "inodes t = inodes s"
    "view t = (view s)(unat (fblk s ip (off div BSIZE)) := bput (off mod BSIZE) bs (view s (unat (fblk s ip (off div BSIZE)))))"
  shows "file_wrote s ip n off bs t"
  using write_chunk_blocks[OF assms(1,2) _ assms(5,4)] write_chunk_bytes[OF assms(1-3) _ assms(5,4)] block_of[OF assms(2)]
  by (auto simp: file_wrote_def assms(5))

lemma file_wrote_ok:
  assumes "file_wrote s ip n off bs t" "inodes t = inodes s"
  shows "file_ok t ip H n = file_ok s ip H n" "file_inj t ip n = file_inj s ip n"
  using assms by (auto simp: file_wrote_def file_ok_def file_inj_def)

lemma file_wrote_trans:
  assumes a: "file_wrote s ip n off (take m bs) t" and b: "file_wrote t ip n (off + m) (drop m bs) u" and m: "m \<le> length bs"
  shows "file_wrote s ip n off bs u"
proof -
  have "file_byte u ip x = bput off bs (file_byte s ip) x" if x: "x < n" for x
  proof -
    have "file_byte u ip x = bput (off + m) (drop m bs) (file_byte t ip) x" using b x by (simp add: file_wrote_def)
    also have "\<dots> = bput (off + m) (drop m bs) (bput off (take m bs) (file_byte s ip)) x"
      using a x by (simp add: file_wrote_def bput_def)
    finally show ?thesis using bput_take_drop[OF m] by metis
  qed
  then show ?thesis using a b by (simp add: file_wrote_def)
qed

text \<open>The blocks of the first \<open>n\<close> bytes.\<close>

definition fblks :: "'a fsst_scheme \<Rightarrow> nat \<Rightarrow> nat \<Rightarrow> nat set" where
  "fblks s ip n = {unat (fblk s ip bn) |bn. bn * BSIZE < n}"

lemma fblks_cong: "(\<And>bn. bn * BSIZE < n \<Longrightarrow> fblk t ip bn = fblk s ip bn) \<Longrightarrow> fblks t ip n = fblks s ip n"
  unfolding fblks_def by (intro Collect_cong) metis

lemma writei_loop_spec:
  fixes s :: "'a fsst_scheme"
  assumes "tx p s L H {}" and "tx_room L H (touched off (length bs) + Suc k)" and "file_ok s ip H n" and "file_inj s ip n"
    and "off + length bs \<le> n"
  shows "\<exists>t L'. writei_loop ip (LocalSrc bs) off tot (length bs) s = Done (off + length bs, tot + length bs) t
    \<and> tx p t L' H {} \<and> tx_room L' H (Suc k) \<and> tframe s t \<and> file_wrote s ip n off bs t
    \<and> L' \<subseteq> L \<union> fblks s ip n"
  using assms
proof (induction "length bs" arbitrary: s L off tot bs rule: less_induct)
  case less
  show ?case
  proof (cases "bs = []")
    case True
    then show ?thesis using less.prems(1,2)
      by (auto simp: writei_loop.simps[of _ _ _ _ 0] kexec touched_def file_wrote_def bput_def intro!: exI[of _ L])
  next
    case False
    let ?r = "length bs" let ?m = "min ?r (BSIZE - off mod BSIZE)" and ?bn = "off div BSIZE"
    let ?w = "fblk s ip ?bn" and ?f = "bput (off mod BSIZE) (take ?m bs)"
    have r0: "?r \<noteq> 0" using False by simp
    have k: "off < n" using less.prems(5) r0 by linarith
    have room: "tx_room L H (Suc (touched (off + ?m) (?r - ?m) + Suc k))"
      using less.prems(2) unfolding touched_step[OF r0, of off] by simp
    have bn: "?bn * BSIZE < n" by (rule block_of[OF k])
    have blk: "?w \<noteq> 0" "H (unat ?w) = None" "i_dev (inodes s ip) = ROOTDEV" using less.prems(3) bn by (auto simp: file_ok_def)
    obtain a where a: "bmap ip ?bn s = Done ?w a" "tx p a L H {}" "view a = view s" "tframe s a"
      using bmap_mapped[OF less.prems(1) room less.prems(3) bn] by blast
    obtain c where c: "edit_block ?w ?f a = Done () c" "tx p c (insert (unat ?w) L) H {}"
        "view c = (view a)(unat ?w := ?f (view a (unat ?w)))" "tframe a c"
      using tx_edit[OF a(2) blk(2) room] by blast
    obtain i b1 b2 b3 where e: "bread ROOTDEV ?w a = Done i b1" "set_data i ?f b1 = Done () b2" "log_write i b2 = Done () b3"
        "brelse i b3 = Done () c"
      using edit_parts[OF c(1)] by blast
    have ac: "inodes a = inodes s" "inodes c = inodes s" using tframe_fs[OF a(4)] tframe_fs[OF c(4)] by simp_all
    have l: "length (take ?m bs) \<le> BSIZE - off mod BSIZE" by simp
    have fw: "file_wrote s ip n off (take ?m bs) c"
      by (rule file_wrote_chunk[OF less.prems(4) k l ac(2)]) (simp only: c(3) a(3))
    have len: "length (drop ?m bs) = ?r - ?m" by simp
    have lt: "length (drop ?m bs) < ?r" unfolding len by (rule chunk_progress[OF r0])
    have le: "off + ?m + length (drop ?m bs) \<le> n" using less.prems(5) unfolding len by simp
    have room': "tx_room (insert (unat ?w) L) H (touched (off + ?m) (length (drop ?m bs)) + Suc k)"
      unfolding len by (rule room_insert(1)[OF room])
    obtain t L' where t: "writei_loop ip (LocalSrc (drop ?m bs)) (off + ?m) (tot + ?m) (?r - ?m) c
          = Done (off + ?m + (?r - ?m), tot + ?m + (?r - ?m)) t"
        "tx p t L' H {}" "tx_room L' H (Suc k)" "tframe c t" "file_wrote c ip n (off + ?m) (drop ?m bs) t"
        "L' \<subseteq> insert (unat ?w) L \<union> fblks c ip n"
      using less.hyps[OF lt c(2) room' _ _ le, of "tot + ?m"] less.prems(3,4) unfolding len file_wrote_ok[OF fw ac(2)] by blast
    have e': "off + ?m + (?r - ?m) = off + ?r" "tot + ?m + (?r - ?m) = tot + ?r" by simp_all
    have "writei_loop ip (LocalSrc bs) off tot ?r s = Done (off + ?r, tot + ?r) t"
      unfolding writei_loop.simps[of ip "LocalSrc bs" off tot ?r]
      using r0 a(1) blk e t(1)[unfolded e'] ac(1) by (simp add: kexec get_inode_def Let_def)
    moreover have "fblks c ip n = fblks s ip n" by (rule fblks_cong) (use fw in \<open>simp add: file_wrote_def\<close>)
    then have "L' \<subseteq> L \<union> fblks s ip n" using t(6) bn by (auto simp: fblks_def)
    ultimately show ?thesis using t(2,3) file_wrote_trans[OF fw t(5)] tframe_trans[OF tframe_trans[OF a(4) c(4)] t(4)] by auto
  qed
qed

text \<open>\<open>iupdate\<close> edits the block of the on-disk inode, which is none of the blocks of the file.\<close>

definition iblk :: "'a fsst_scheme \<Rightarrow> nat \<Rightarrow> uint" where
  "iblk s ip = IBLOCK (i_inum (inodes s ip)) (sb s)"

definition inode_apart :: "'a fsst_scheme \<Rightarrow> nat \<Rightarrow> (nat \<rightharpoonup> nat \<times> uint) \<Rightarrow> nat \<Rightarrow> bool" where
  "inode_apart s ip H n \<longleftrightarrow> H (unat (iblk s ip)) = None \<and> (\<forall>bn. bn * BSIZE < n \<longrightarrow> fblk s ip bn \<noteq> iblk s ip)
     \<and> (NDIRECT * BSIZE < n \<longrightarrow> i_addrs (inodes s ip) NDIRECT \<noteq> iblk s ip)"

lemma iupdate_edit:
  "i_dev (inodes s ip) = ROOTDEV \<Longrightarrow>
   iupdate ip s = edit_block (iblk s ip) (\<lambda>d. store_dinode d (unat (i_inum (inodes s ip)) mod IPB) (dinode_of (inodes s ip))) s"
  by (simp add: iupdate_def edit_block_def iblk_def get_inode_def kexec)

lemma inodes_update_buf [simp]: "buf_of (s\<lparr>inodes := f\<rparr>) = buf_of s"
  by (rule ext) (simp add: buf_of_def)

lemma inodes_update_cache [simp]:
  "view (s\<lparr>inodes := f\<rparr>) = view s" "owned (s\<lparr>inodes := f\<rparr>) = owned s" "refs (s\<lparr>inodes := f\<rparr>) = refs s"
  "home (s\<lparr>inodes := f\<rparr>) = home s"
  by (rule ext, simp add: view_def owned_def refs_def home_def Let_def split: option.split)+

lemma inodes_update_tx [simp]: "tx p (s\<lparr>inodes := f\<rparr>) L H D = tx p s L H D"
  by (simp add: tx_def bc_inv_def bio_ok_def)

lemma tframe_inodes: "tframe s t \<Longrightarrow> tframe (s\<lparr>inodes := f\<rparr>) (t\<lparr>inodes := f\<rparr>)"
  using tframe_fs[of s t] by (cases s; cases t) (simp add: tframe_def mst.defs)

lemma fblk_apart:
  assumes v: "view t = (view s)(unat w := d)" and a: "i_addrs (inodes t ip) = i_addrs (inodes s ip)" and bn: "bn * BSIZE < n"
    and ap: "NDIRECT * BSIZE < n \<longrightarrow> i_addrs (inodes s ip) NDIRECT \<noteq> w"
  shows "fblk t ip bn = fblk s ip bn"
proof (cases "bn < NDIRECT")
  case False
  have "NDIRECT * BSIZE < n" by (rule order.strict_trans1[OF mult_le_mono1 bn]) (use False in simp)
  then show ?thesis using ap by (simp add: fblk_def v a word_unat_eq_iff)
qed (simp add: fblk_def a)

lemma file_byte_apart:
  assumes v: "view t = (view s)(unat w := d)" and a: "i_addrs (inodes t ip) = i_addrs (inodes s ip)" and x: "x < n"
    and ap: "NDIRECT * BSIZE < n \<longrightarrow> i_addrs (inodes s ip) NDIRECT \<noteq> w" "\<forall>bn. bn * BSIZE < n \<longrightarrow> fblk s ip bn \<noteq> w"
  shows "file_byte t ip x = file_byte s ip x"
  using ap(2) block_of[OF x] fblk_apart[OF v a block_of[OF x] ap(1)] by (simp add: file_byte_def v word_unat_eq_iff)

lemma write_bound:
  assumes "unat (off :: uint) + l \<le> n" "n \<le> MAXFILE * BSIZE"
  shows "unat (of_nat l :: uint) = l" "unat (off + of_nat l) = unat off + l"
proof -
  have b: "unat off + l < 2 ^ 32" using assms by (simp add: MAXFILE_def NDIRECT_def NINDIRECT_def BSIZE_def)
  then show l: "unat (of_nat l :: uint) = l" by (simp add: unat_of_nat take_bit_nat_eq_self)
  show "unat (off + of_nat l) = unat off + l" using b by (subst unat_plus_simple[THEN iffD1]) (simp_all add: l no_olen_add_nat)
qed

definition grown :: "inode \<Rightarrow> uint \<Rightarrow> inode" where
  "grown i e = i\<lparr>i_size := max (i_size i) e\<rparr>"

lemma grown_simps [simp]:
  "i_size (grown i e) = max (i_size i) e" "i_addrs (grown i e) = i_addrs i" "i_dev (grown i e) = i_dev i" "i_inum (grown i e) = i_inum i"
  by (simp_all add: grown_def)

lemma grow_eq: "unat e = o' \<Longrightarrow> (if unat (i_size i) < o' then i\<lparr>i_size := of_nat o'\<rparr> else i) = grown i e"
  by (cases i) (auto simp: grown_def max_def word_le_nat_alt word_unat_eq_iff)

lemma writei_spec:
  fixes s :: "'a fsst_scheme"
  assumes t: "tx p s L H {}" and room: "tx_room L H (touched (unat off) (length bs) + Suc (Suc k))" and ok: "file_ok s ip H n"
    and inj: "file_inj s ip n" and ap: "inode_apart s ip H n" and sz: "off \<le> i_size (inodes s ip)" and le: "unat off + length bs \<le> n"
  shows "\<exists>t L'. writei ip (LocalSrc bs) off (of_nat (length bs)) s = Done (int (length bs)) t \<and> tx p t L' H {} \<and> tx_room L' H (Suc k)
    \<and> unat (iblk s ip) \<in> L' \<and> L' \<subseteq> insert (unat (iblk s ip)) (L \<union> fblks s ip n) \<and> tframe (s\<lparr>inodes := inodes t\<rparr>) t
    \<and> inodes t = (inodes s)(ip := grown (inodes s ip) (off + of_nat (length bs)))
    \<and> (\<forall>bn. bn * BSIZE < n \<longrightarrow> fblk t ip bn = fblk s ip bn)
    \<and> (\<forall>x<n. file_byte t ip x = bput (unat off) bs (file_byte s ip) x)
    \<and> (\<forall>m. m \<noteq> unat (iblk s ip) \<longrightarrow> (\<forall>bn. bn * BSIZE < n \<longrightarrow> m \<noteq> unat (fblk s ip bn)) \<longrightarrow> view t m = view s m)
    \<and> view t (unat (iblk s ip)) = store_dinode (view s (unat (iblk s ip))) (unat (i_inum (inodes s ip)) mod IPB) (dinode_of (inodes t ip))"
proof -
  let ?e = "off + of_nat (length bs)"
  have mx: "n \<le> MAXFILE * BSIZE" and dev: "i_dev (inodes s ip) = ROOTDEV" using ok by (simp_all add: file_ok_def)
  note u = write_bound[OF le mx]
  obtain a L' where a: "writei_loop ip (LocalSrc bs) (unat off) 0 (length bs) s = Done (unat off + length bs, 0 + length bs) a"
      "tx p a L' H {}" "tx_room L' H (Suc (Suc k))" "tframe s a" "file_wrote s ip n (unat off) bs a"
      "L' \<subseteq> L \<union> fblks s ip n"
    using writei_loop_spec[OF t room ok inj le] by blast
  have fs: "sb a = sb s" "inodes a = inodes s" using tframe_fs[OF a(4)] by simp_all
  define b where "b = a\<lparr>inodes := (inodes s)(ip := grown (inodes s ip) ?e)\<rparr>"
  have b: "sb b = sb s" "inodes b = (inodes s)(ip := grown (inodes s ip) ?e)" "view b = view a" "tx p b L' H {}" "iblk b ip = iblk s ip"
    using a(2) fs by (simp_all add: b_def iblk_def)
  have si: "set_inode ip (\<lambda>i. if unat (i_size i) < unat off + length bs then i\<lparr>i_size := of_nat (unat off + length bs)\<rparr> else i) a = Done () b"
    unfolding set_inode_def grow_eq[OF u(2)] by (simp add: kexec b_def fs)
  have fr: "H (unat (iblk s ip)) = None" using ap by (simp add: inode_apart_def)
  let ?f = "\<lambda>d. store_dinode d (unat (i_inum (inodes b ip)) mod IPB) (dinode_of (inodes b ip))"
  obtain c where c: "edit_block (iblk s ip) ?f b = Done () c" "tx p c (insert (unat (iblk s ip)) L') H {}"
      "view c = (view b)(unat (iblk s ip) := ?f (view b (unat (iblk s ip))))" "tframe b c"
    using tx_edit[OF b(4) fr a(3)] by blast
  have cf: "sb c = sb b" "inodes c = inodes b" using tframe_fs[OF c(4)] by simp_all
  have fr: "tframe (s\<lparr>inodes := inodes c\<rparr>) c"
    using tframe_trans[OF tframe_inodes[OF a(4), of "inodes c"]] c(4) b(2) cf(2) by (simp add: b_def)
  have iu: "iupdate ip b = Done () c" using c(1) iupdate_edit[of b ip] dev by (simp add: b(2,5))
  have no: "\<not> i_size (inodes s ip) < off" "\<not> ?e < off" "\<not> MAXFILE * BSIZE < unat ?e"
    using sz le mx unfolding word_less_nat_alt u(2) by (simp_all add: word_le_nat_alt)
  have run: "writei ip (LocalSrc bs) off (of_nat (length bs)) s = Done (int (length bs)) c"
    unfolding writei_def using no a(1) si iu u(1) by (simp add: kexec get_inode_def)
  have v: "view c = (view a)(unat (iblk s ip) := ?f (view a (unat (iblk s ip))))" by (simp only: c(3) b(3))
  have ia: "i_addrs (inodes c ip) = i_addrs (inodes a ip)" by (simp add: cf(2) b(2) fs)
  have ap': "NDIRECT * BSIZE < n \<longrightarrow> i_addrs (inodes a ip) NDIRECT \<noteq> iblk s ip" "\<forall>bn. bn * BSIZE < n \<longrightarrow> fblk a ip bn \<noteq> iblk s ip"
    using ap a(5) by (auto simp: inode_apart_def fs file_wrote_def)
  have fb: "fblk c ip bn = fblk s ip bn" if "bn * BSIZE < n" for bn
    using fblk_apart[OF v ia that ap'(1)] a(5) that by (simp add: file_wrote_def)
  have fy: "file_byte c ip x = bput (unat off) bs (file_byte s ip) x" if "x < n" for x
    using file_byte_apart[OF v ia that ap'] a(5) that by (simp add: file_wrote_def)
  have "\<forall>bn. bn * BSIZE < n \<longrightarrow> unat (iblk s ip) \<noteq> unat (fblk s ip bn)" using ap unfolding inode_apart_def word_unat_eq_iff by metis
  then have ib: "view a (unat (iblk s ip)) = view s (unat (iblk s ip))" using a(5) by (simp add: file_wrote_def)
  show ?thesis
    using run c(2) room_insert(1)[OF a(3)] cf b(1,2) fb fy a(5,6) fr by (auto simp: v ib file_wrote_def intro!: exI[of _ c])
qed

subsection \<open>The file as a list of bytes\<close>

text \<open>The abstract file: the list of its bytes, what a read of it gives, and what a write leaves.\<close>

definition file_bytes :: "'a fsst_scheme \<Rightarrow> nat \<Rightarrow> byte list" where
  "file_bytes s ip = map (file_byte s ip) [0..<unat (i_size (inodes s ip))]"

definition file_read :: "byte list \<Rightarrow> nat \<Rightarrow> nat \<Rightarrow> byte list" where
  "file_read F off n = take n (drop off F)"

definition file_write :: "byte list \<Rightarrow> nat \<Rightarrow> byte list \<Rightarrow> byte list" where
  "file_write F off bs = take off F @ bs @ drop (off + length bs) F"

lemma file_write_nth:
  assumes "off \<le> length F"
  shows "length (file_write F off bs) = max (length F) (off + length bs)"
    "x < max (length F) (off + length bs) \<Longrightarrow> file_write F off bs ! x = bput off bs ((!) F) x"
  using assms by (auto simp: file_write_def bput_def nth_append)

lemma file_bytes_read: "map (file_byte s ip) [off..<min (off + n) (unat (i_size (inodes s ip)))] = file_read (file_bytes s ip) off n"
  by (rule nth_equalityI) (auto simp: file_read_def file_bytes_def intro!: arg_cong[of _ _ "file_byte s ip"] nth_upt)

lemma file_bytes_write:
  assumes sz: "off \<le> unat (i_size (inodes s ip))" and g: "unat (i_size (inodes t ip)) = max (unat (i_size (inodes s ip))) (off + length bs)"
    and b: "\<forall>x<unat (i_size (inodes t ip)). file_byte t ip x = bput off bs (file_byte s ip) x"
  shows "file_bytes t ip = file_write (file_bytes s ip) off bs"
proof (rule nth_equalityI)
  have l: "length (file_bytes s ip) = unat (i_size (inodes s ip))" by (simp add: file_bytes_def)
  note W = file_write_nth[OF sz[folded l], where bs = bs]
  show "length (file_bytes t ip) = length (file_write (file_bytes s ip) off bs)" using W(1) l g by (simp add: file_bytes_def)
  fix x assume "x < length (file_bytes t ip)"
  then have x: "x < unat (i_size (inodes t ip))" by (simp add: file_bytes_def)
  have "bput off bs ((!) (file_bytes s ip)) x = bput off bs (file_byte s ip) x" using x sz unfolding g by (auto simp: bput_def file_bytes_def)
  then show "file_bytes t ip ! x = file_write (file_bytes s ip) off bs ! x"
    using W(2)[of x] b x l g by (simp add: file_bytes_def)
qed

lemma readi_spec:
  fixes s :: "'a fsst_scheme"
  assumes "tx p s L H {}" and "tx_room L H (Suc k)" and "file_ok s ip H (unat (i_size (inodes s ip)))"
  shows "\<exists>t bs. readi ip LocalDst off n s = Done (int (length bs), bs) t
    \<and> bs = (if off + n < off then [] else file_read (file_bytes s ip) (unat off) (unat n))
    \<and> tx p t L H {} \<and> view t = view s \<and> tframe s t"
proof -
  let ?sz = "i_size (inodes s ip)"
  consider (over) "off + n < off" | (past) "\<not> off + n < off" "?sz < off" | (within) "\<not> off + n < off" "off \<le> ?sz" by fastforce
  then show ?thesis
  proof cases
    case over
    then show ?thesis using assms(1) by (simp add: readi_def get_inode_def kexec)
  next
    case past
    then have "file_read (file_bytes s ip) (unat off) (unat n) = []" by (simp add: file_read_def file_bytes_def word_less_nat_alt)
    then show ?thesis using past assms(1) by (simp add: readi_def get_inode_def kexec)
  next
    case within
    let ?n = "if ?sz < off + n then ?sz - off else n"
    have o: "unat (off + n) = unat off + unat n" using within(1) by (simp add: unat_plus_simple not_less)
    have e: "unat off + unat ?n = min (unat off + unat n) (unat ?sz)"
      using within(2) o by (auto simp: word_less_nat_alt word_le_nat_alt unat_sub_if')
    have le: "unat off + unat ?n \<le> unat ?sz" unfolding e by simp
    obtain t where t: "readi_loop ip LocalDst (unat off) 0 (unat ?n) s
          = Done (int (0 + unat ?n), map (file_byte s ip) [unat off..<unat off + unat ?n]) t"
        "tx p t L H {}" "view t = view s" "tframe s t"
      using readi_loop_spec[OF assms le, of 0] by blast
    let ?bs = "file_read (file_bytes s ip) (unat off) (unat n)"
    have bs: "map (file_byte s ip) [unat off..<unat off + unat ?n] = ?bs" unfolding e by (rule file_bytes_read)
    have l: "unat ?n = length ?bs" unfolding bs[symmetric] by simp
    have "\<not> (?sz < off \<or> off + n < off)" using within by (simp add: not_less)
    then have "readi ip LocalDst off n s = readi_loop ip LocalDst (unat off) 0 (unat ?n) s"
      unfolding readi_def by (simp only: get_inode_def kexec outcome.case Let_def if_False)
    then have "readi ip LocalDst off n s = Done (int (length ?bs), ?bs) t" unfolding t(1) bs by (simp only: l add_0)
    then show ?thesis using t(2-4) within(1) by auto
  qed
qed

text \<open>C14: \<open>readi\<close> into a kernel buffer reads the abstract file. Inside a transaction that has a buffer to spare, on a file all of whose
  bytes have blocks, it returns the bytes of the file from \<open>off\<close> on, at most \<open>n\<close> of them and none past the end of the file, and their
  number; when \<open>off + n\<close> wraps around it returns nothing. It changes no block and no inode.\<close>

theorem readi_refines:
  fixes s :: "'a fsst_scheme"
  assumes "tx p s L H {}" and "tx_room L H (Suc k)" and "file_ok s ip H (unat (i_size (inodes s ip)))"
  shows "\<exists>t bs. readi ip LocalDst off n s = Done (int (length bs), bs) t
    \<and> bs = (if off + n < off then [] else file_read (file_bytes s ip) (unat off) (unat n))
    \<and> tx p t L H {} \<and> view t = view s \<and> inodes t = inodes s \<and> sb t = sb s"
  using readi_spec[OF assms, of off n] tframe_fs[of s] by blast

definition ex_file :: "uint \<Rightarrow> uint \<Rightarrow> inode" where
  "ex_file n w = \<lparr>i_dev = ROOTDEV, i_inum = 5, i_ref = 1, i_valid = True, i_type = T_FILE, i_major = 0, i_minor = 0, i_nlink = 1,
     i_size = n, i_addrs = (\<lambda>i. if i = 0 then w else 0)\<rparr>"

lemma ex_file_state:
  "\<exists>s :: fsst. tx 0 s {} Map.empty {} \<and> sb s = ex_sb \<and> view s = (\<lambda>m. if m = 45 then ex_map else (\<lambda>_. 0)) \<and> inodes s = (\<lambda>_. ex_file n w)"
proof -
  obtain s :: fsst where "tx 0 s {} Map.empty {}" "sb s = ex_sb" "view s = (\<lambda>m. if m = 45 then ex_map else (\<lambda>_. 0))" using ex_fs by blast
  then show ?thesis by (intro exI[of _ "s\<lparr>inodes := \<lambda>_. ex_file n w\<rparr>"]) simp
qed

lemma small_file:
  assumes "i_addrs (inodes s ip) 0 = w"
  shows "fblk s ip 0 = w" "bn * BSIZE < 20 \<Longrightarrow> bn = 0" "\<not> NDIRECT * BSIZE < 20" "x < 20 \<Longrightarrow> file_byte s ip x = view s (unat w) x"
proof -
  show b: "fblk s ip 0 = w" by (simp add: fblk_def assms NDIRECT_def)
  show "bn * BSIZE < 20 \<Longrightarrow> bn = 0" by (cases bn) (simp_all add: BSIZE_def)
  show "\<not> NDIRECT * BSIZE < 20" by (simp add: NDIRECT_def BSIZE_def)
  show "x < 20 \<Longrightarrow> file_byte s ip x = view s (unat w) x" using b by (simp add: file_byte_def BSIZE_def)
qed

lemma small_file_ok:
  assumes "i_addrs (inodes s ip) 0 = w" "i_dev (inodes s ip) = ROOTDEV" "w \<noteq> 0" "k < 20"
  shows "file_ok s ip Map.empty k" "file_inj s ip k" "w \<noteq> iblk s ip \<Longrightarrow> inode_apart s ip Map.empty k"
proof -
  have "bn = 0" if "bn * BSIZE < k" for bn using that assms(4) by (intro small_file(2)[OF assms(1)]) simp
  moreover have "\<not> NDIRECT * BSIZE < k" using assms(4) small_file(3)[OF assms(1)] by simp
  moreover have "k \<le> MAXFILE * BSIZE" using assms(4) by (simp add: MAXFILE_def NDIRECT_def BSIZE_def)
  ultimately show "file_ok s ip Map.empty k" "file_inj s ip k" "w \<noteq> iblk s ip \<Longrightarrow> inode_apart s ip Map.empty k"
    using small_file(1)[OF assms(1)] assms(2,3) by (auto simp: file_ok_def file_inj_def inode_apart_def)
qed

theorem readi_refines_witness:
  "\<exists>(s :: fsst) t. readi 0 LocalDst 6 4 s = Done (3, [255, 15, 0]) t \<and> view t = view s"
proof -
  obtain s :: fsst where s: "tx 0 s {} Map.empty {}" "view s = (\<lambda>m. if m = 45 then ex_map else (\<lambda>_. 0))" "inodes s = (\<lambda>_. ex_file 9 45)"
    using ex_file_state[of 9 45] by blast
  have sz: "unat (i_size (inodes s 0)) = 9" by (simp add: s(3) ex_file_def)
  have room: "tx_room {} (Map.empty :: nat \<rightharpoonup> nat \<times> uint) (Suc 0)" by (simp add: tx_room_def LOGSIZE_def MAXOPBLOCKS_def NBUF_def)
  have A: "i_addrs (inodes s 0) 0 = 45" "i_dev (inodes s 0) = ROOTDEV" by (simp_all add: s(3) ex_file_def)
  have ok: "file_ok s 0 Map.empty (unat (i_size (inodes s 0)))" unfolding sz by (rule small_file_ok[OF A]) simp_all
  have "file_bytes s 0 = map ex_map [0..<9]" unfolding file_bytes_def sz using small_file(4)[OF A(1)] by (simp add: s(2))
  then have r: "file_read (file_bytes s 0) (unat (6 :: uint)) (unat (4 :: uint)) = [255, 15, 0]"
    by (simp add: file_read_def upt_rec ex_map_def)
  obtain t bs where "readi 0 LocalDst 6 4 s = Done (int (length bs), bs) t" "view t = view s"
      "bs = (if (6 :: uint) + 4 < 6 then [] else file_read (file_bytes s 0) (unat (6 :: uint)) (unat (4 :: uint)))"
    using readi_refines[OF s(1) room ok, of 6 4] by blast
  then show ?thesis using r by auto
qed

lemma writei_file:
  fixes s :: "'a fsst_scheme" and off :: uint
  assumes "tx p s L H {}" and "tx_room L H (touched (unat off) (length bs) + Suc (Suc k))"
    and "N = max (unat (i_size (inodes s ip))) (unat off + length bs)"
    and "file_ok s ip H N" and "file_inj s ip N" and "inode_apart s ip H N" and "off \<le> i_size (inodes s ip)"
  shows "\<exists>t L'. writei ip (LocalSrc bs) off (of_nat (length bs)) s = Done (int (length bs)) t \<and> tx p t L' H {} \<and> tx_room L' H (Suc k) 
    \<and> unat (iblk s ip) \<in> L' \<and> L' \<subseteq> insert (unat (iblk s ip)) (L \<union> fblks s ip N) \<and> tframe (s\<lparr>inodes := inodes t\<rparr>) t
    \<and> file_bytes t ip = file_write (file_bytes s ip) (unat off) bs \<and> file_ok t ip H N
    \<and> (\<forall>bn. bn * BSIZE < N \<longrightarrow> fblk t ip bn = fblk s ip bn)
    \<and> inodes t = (inodes s)(ip := (inodes s ip)\<lparr>i_size := of_nat N\<rparr>)
    \<and> load_dinode (view t (unat (iblk s ip))) (unat (i_inum (inodes s ip)) mod IPB)
        = (dinode_of (inodes t ip))\<lparr>d_addrs := \<lambda>i. if i \<le> NDIRECT then i_addrs (inodes s ip) i else 0\<rparr>
    \<and> (\<forall>m. m \<noteq> unat (iblk s ip) \<longrightarrow> (\<forall>bn. bn * BSIZE < N \<longrightarrow> m \<noteq> unat (fblk s ip bn)) \<longrightarrow> view t m = view s m)"
proof -
  let ?e = "off + of_nat (length bs)" and ?sz = "i_size (inodes s ip)"
  have le: "unat off + length bs \<le> N" using assms(3) by simp
  have mx: "N \<le> MAXFILE * BSIZE" using assms(4) by (simp add: file_ok_def)
  have g: "max ?sz ?e = of_nat N" unfolding assms(3) write_bound(2)[OF le mx, symmetric]
    by (simp add: max_def word_le_nat_alt)
  have un: "unat (of_nat N :: uint) = N" using g by (metis assms(3) max_def word_le_nat_alt write_bound(2)[OF le mx])
  obtain t L' where t: "writei ip (LocalSrc bs) off (of_nat (length bs)) s = Done (int (length bs)) t" "tx p t L' H {}" "tx_room L' H (Suc k)" 
      "unat (iblk s ip) \<in> L' \<and> L' \<subseteq> insert (unat (iblk s ip)) (L \<union> fblks s ip N) \<and> tframe (s\<lparr>inodes := inodes t\<rparr>) t"
      "inodes t = (inodes s)(ip := grown (inodes s ip) ?e)" "\<forall>bn. bn * BSIZE < N \<longrightarrow> fblk t ip bn = fblk s ip bn"
      "\<forall>x<N. file_byte t ip x = bput (unat off) bs (file_byte s ip) x"
      "\<forall>m. m \<noteq> unat (iblk s ip) \<longrightarrow> (\<forall>bn. bn * BSIZE < N \<longrightarrow> m \<noteq> unat (fblk s ip bn)) \<longrightarrow> view t m = view s m"
      "view t (unat (iblk s ip)) = store_dinode (view s (unat (iblk s ip))) (unat (i_inum (inodes s ip)) mod IPB) (dinode_of (inodes t ip))"
    using writei_spec[OF assms(1,2,4-7) le] by blast
  have it: "inodes t = (inodes s)(ip := (inodes s ip)\<lparr>i_size := of_nat N\<rparr>)" unfolding t(5) grown_def g ..
  have "file_bytes t ip = file_write (file_bytes s ip) (unat off) bs"
    by (rule file_bytes_write) (use assms(3)[symmetric] assms(7) t(7) in \<open>simp_all add: it un word_le_nat_alt\<close>)
  moreover have "file_ok t ip H N" using assms(4) t(6) by (simp add: file_ok_def it)
  moreover have "load_dinode (view t (unat (iblk s ip))) (unat (i_inum (inodes s ip)) mod IPB)
        = (dinode_of (inodes t ip))\<lparr>d_addrs := \<lambda>i. if i \<le> NDIRECT then i_addrs (inodes s ip) i else 0\<rparr>"
    unfolding t(9) load_store_dinode by (simp add: dinode_of_def it cong: if_cong)
  ultimately show ?thesis using t(1-4,6,8) it by blast
qed

end
