(* ===== verification/Fsdir.thy ===== *)
theory Fsdir
  imports Fsfile
begin

text \<open>
  Directories. The entries of a directory are the 16-byte pieces of its file; an entry with inode number 0 is free. The abstract directory
  is the map from names, cut to \<open>DIRSIZ\<close> bytes, to inode numbers: \<open>dirlookup\<close> looks a name up in it and \<open>dirlink\<close> adds one.
\<close>

subsection \<open>Names\<close>

definition cname :: "byte list \<Rightarrow> cstr" where
  "cname e = takeWhile (\<lambda>c. c \<noteq> 0) e"

lemma strncmp_l_iff: "0 \<notin> set p \<Longrightarrow> strncmp_l p q n = 0 \<longleftrightarrow> take n p = cname (take n q)"
  by (induction p q n rule: strncmp_l.induct) (auto simp: cname_def uint_0_iff dest: word_uint_eq_iff[THEN iffD2])

lemma namecmp_iff: "0 \<notin> set name \<Longrightarrow> length e = DIRSIZ \<Longrightarrow> namecmp name e = 0 \<longleftrightarrow> take DIRSIZ name = cname e"
  by (simp add: namecmp_def strncmp_l_iff)

lemma cname_strncpy: "0 \<notin> set name \<Longrightarrow> cname (strncpy_l name n) = take n name"
proof -
  assume z: "0 \<notin> set name"
  have "\<forall>c \<in> set (take n name). c \<noteq> 0" using z in_set_takeD by fastforce
  then show ?thesis by (cases "n - length name") (auto simp: cname_def strncpy_l_def takeWhile_append)
qed

lemma length_strncpy [simp]: "length (strncpy_l name n) = n"
  by (simp add: strncpy_l_def)

lemma load_store_dirent:
  assumes "length (de_name de) = DIRSIZ"
  shows "load_dirent (store_dirent de) = de" "length (store_dirent de) = 16"
proof -
  have "(ucast (ucast (w :: ushort) :: byte) :: ushort) OR push_bit 8 (ucast (ucast (drop_bit 8 w) :: byte)) = w" for w
    by (rule bit_word_eqI) (auto simp: bit_simps)
  then show "load_dirent (store_dirent de) = de" using assms by (cases de) (simp add: load_dirent_def store_dirent_def)
  show "length (store_dirent de) = 16" using assms by (simp add: store_dirent_def DIRSIZ_def)
qed

subsection \<open>Directories\<close>

definition dir_ents :: "byte list \<Rightarrow> dirent list" where
  "dir_ents F = map (\<lambda>k. load_dirent (file_read F (16 * k) 16)) [0..<length F div 16]"

definition dir_slot :: "dirent list \<Rightarrow> cstr \<Rightarrow> nat option" where
  "dir_slot es name = List.find (\<lambda>k. de_inum (es ! k) \<noteq> 0 \<and> cname (de_name (es ! k)) = name) [0..<length es]"

definition dir_map :: "dirent list \<Rightarrow> cstr \<rightharpoonup> ushort" where
  "dir_map es name = map_option (\<lambda>k. de_inum (es ! k)) (dir_slot es name)"

definition dir_ok :: "'a fsst_scheme \<Rightarrow> nat \<Rightarrow> (nat \<rightharpoonup> nat \<times> uint) \<Rightarrow> bool" where
  "dir_ok s dp H \<longleftrightarrow> i_type (inodes s dp) = T_DIR \<and> 16 dvd unat (i_size (inodes s dp)) \<and> file_ok s dp H (unat (i_size (inodes s dp)))"

lemma dir_ents_length [simp]: "length (dir_ents F) = length F div 16"
  by (simp add: dir_ents_def)

lemma dir_ents_name: "k < length F div 16 \<Longrightarrow> length (de_name (dir_ents F ! k)) = DIRSIZ"
  by (simp add: dir_ents_def load_dirent_def file_read_def DIRSIZ_def)

lemma length_file_bytes [simp]: "length (file_bytes s ip) = unat (i_size (inodes s ip))"
  by (simp add: file_bytes_def)

lemma dir_cong:
  assumes "view t = view s" "inodes t = inodes s"
  shows "file_bytes t dp = file_bytes s dp" "dir_ok t dp H = dir_ok s dp H"
  using file_cong[OF assms] by (simp_all add: file_bytes_def dir_ok_def assms(2))

text \<open>Reading entry \<open>k\<close>.\<close>

lemma read_dirent_spec:
  fixes s :: "'a fsst_scheme"
  assumes t: "tx p s L H {}" and room: "tx_room L H (Suc j)" and ok: "dir_ok s dp H" and k: "k < unat (i_size (inodes s dp)) div 16"
  shows "\<exists>t. read_dirent msg dp (16 * k) s = Done (dir_ents (file_bytes s dp) ! k) t \<and> tx p t L H {} \<and> view t = view s \<and> tframe s t"
proof -
  let ?sz = "unat (i_size (inodes s dp))"
  have f: "file_ok s dp H ?sz" using ok by (simp add: dir_ok_def)
  then have mx: "?sz \<le> MAXFILE * BSIZE" by (simp add: file_ok_def)
  have le: "16 * k + 16 \<le> ?sz" using k by simp
  have b: "16 * k + 16 < 2 ^ 32" using le mx by (simp add: MAXFILE_def NDIRECT_def NINDIRECT_def BSIZE_def)
  have u: "unat (of_nat (16 * k) :: uint) = 16 * k" using b by (simp add: unat_of_nat take_bit_nat_eq_self del: of_nat_mult)
  have "unat (of_nat (16 * k) :: uint) + 16 < 2 ^ 32" unfolding u by (rule b)
  then have no: "\<not> (of_nat (16 * k) :: uint) + 16 < of_nat (16 * k)" by (simp add: no_olen_add_nat not_less del: of_nat_mult)
  obtain t where t: "readi dp LocalDst (of_nat (16 * k)) 16 s
        = Done (int (length (file_read (file_bytes s dp) (16 * k) 16)), file_read (file_bytes s dp) (16 * k) 16) t"
      "tx p t L H {}" "view t = view s" "tframe s t"
    using readi_spec[OF t room f, of "of_nat (16 * k)" 16] no u by (auto simp del: of_nat_mult)
  have "length (file_read (file_bytes s dp) (16 * k) 16) = 16" using le by (simp add: file_read_def)
  then show ?thesis using t k by (simp add: read_dirent_def kexec dir_ents_def del: of_nat_mult)
qed

subsection \<open>iget and iput of a found inode\<close>

text \<open>The in-memory inode that \<open>iget\<close> returns: the cached one with one more reference, or a free slot that takes the number.\<close>

definition igot :: "(nat \<Rightarrow> inode) \<Rightarrow> uint \<Rightarrow> uint \<Rightarrow> nat \<Rightarrow> inode \<Rightarrow> bool" where
  "igot ns dev inum ip n \<longleftrightarrow> ip < NINODE \<and> i_dev n = dev \<and> i_inum n = inum
     \<and> (if 0 < i_ref (ns ip) then n = (ns ip)\<lparr>i_ref := i_ref (ns ip) + 1\<rparr>
        else i_ref (ns ip) = 0 \<and> n = (ns ip)\<lparr>i_dev := dev, i_inum := inum, i_ref := 1, i_valid := False\<rparr>
          \<and> (\<forall>j<NINODE. 0 < i_ref (ns j) \<longrightarrow> i_dev (ns j) = dev \<longrightarrow> i_inum (ns j) \<noteq> inum))"

lemma find_upt_iff: "List.find P [0..<n] = Some i \<longleftrightarrow> i < n \<and> P i \<and> (\<forall>j<i. \<not> P j)"
  by (auto simp: find_Some_iff intro!: exI[of _ i])

lemma iget_spec:
  fixes s :: "'a fsst_scheme"
  assumes h: "ITABLE_LOCK \<notin> held s" and f: "\<exists>i<NINODE. i_ref (inodes s i) = 0"
  shows "\<exists>ip n. iget dev inum s = Done ip (s\<lparr>inodes := (inodes s)(ip := n)\<rparr>) \<and> igot (inodes s) dev inum ip n"
proof -
  let ?P = "\<lambda>i. 0 < i_ref (inodes s i) \<and> i_dev (inodes s i) = dev \<and> i_inum (inodes s i) = inum"
  have hh: "insert ITABLE_LOCK (held s) - {ITABLE_LOCK} = held s" using h by auto
  show ?thesis
  proof (cases "List.find ?P [0..<NINODE]")
    case (Some ip)
    let ?n = "(inodes s ip)\<lparr>i_ref := i_ref (inodes s ip) + 1\<rparr>"
    have "iget dev inum s = Done ip (s\<lparr>inodes := (inodes s)(ip := ?n)\<rparr>)"
      using h Some by (simp add: iget_def set_inode_def kexec hh)
    then show ?thesis using Some[unfolded find_upt_iff] by (auto simp: igot_def intro!: exI[of _ ip] exI[of _ ?n])
  next
    case None
    obtain ip where ip: "List.find (\<lambda>i. i_ref (inodes s i) = 0) [0..<NINODE] = Some ip"
      using f by (cases "List.find (\<lambda>i. i_ref (inodes s i) = 0) [0..<NINODE]") (auto simp: find_None_iff)
    let ?n = "(inodes s ip)\<lparr>i_dev := dev, i_inum := inum, i_ref := 1, i_valid := False\<rparr>"
    have "iget dev inum s = Done ip (s\<lparr>inodes := (inodes s)(ip := ?n)\<rparr>)"
      using h None ip by (simp add: iget_def set_inode_def kexec hh)
    then show ?thesis using ip[unfolded find_upt_iff] None by (auto simp: igot_def find_None_iff intro!: exI[of _ ip] exI[of _ ?n])
  qed
qed

text \<open>Giving back an inode that was just got: it is not the last reference to a valid inode, so nothing is truncated.\<close>

lemma iput_got:
  fixes s :: "'a fsst_scheme"
  assumes h: "ITABLE_LOCK \<notin> held s" and g: "igot ns dev inum ip (inodes s ip)"
  shows "iput ip s = Done () (s\<lparr>inodes := (inodes s)(ip := (inodes s ip)\<lparr>i_ref := i_ref (inodes s ip) - 1\<rparr>)\<rparr>)"
proof -
  have hh: "insert ITABLE_LOCK (held s) - {ITABLE_LOCK} = held s" using h by auto
  have "\<not> (i_ref (inodes s ip) = 1 \<and> i_valid (inodes s ip))"
  proof (cases "0 < i_ref (ns ip)")
    case True
    then have "inodes s ip = (ns ip)\<lparr>i_ref := i_ref (ns ip) + 1\<rparr>" using g by (simp add: igot_def)
    then have "i_ref (inodes s ip) = i_ref (ns ip) + 1" by simp
    then show ?thesis using True by simp
  next
    case False
    then have "inodes s ip = (ns ip)\<lparr>i_dev := dev, i_inum := inum, i_ref := 1, i_valid := False\<rparr>" using g by (simp add: igot_def)
    then have "\<not> i_valid (inodes s ip)" by simp
    then show ?thesis by simp
  qed
  then show ?thesis using h by (auto simp: iput_def set_inode_def get_inode_def kexec hh)
qed

lemma igot_keeps:
  assumes "igot ns dev inum ip n" "0 < i_ref (ns dp)"
  shows "i_addrs (if dp = ip then n else ns dp) = i_addrs (ns dp)" "i_size (if dp = ip then n else ns dp) = i_size (ns dp)"
    "i_type (if dp = ip then n else ns dp) = i_type (ns dp)" "i_dev (if dp = ip then n else ns dp) = i_dev (ns dp)"
    "i_inum (if dp = ip then n else ns dp) = i_inum (ns dp)"
  using assms by (auto simp: igot_def split: if_splits)

subsection \<open>dirlookup\<close>

lemma kscan_map: "kscan (map g xs) f = kscan xs (\<lambda>x. f (g x))"
  by (induction xs) (simp_all cong: option.case_cong)

lemma dirent_offs_dvd: "16 dvd unat sz \<Longrightarrow> dirent_offs sz = map (\<lambda>k. 16 * k) [0..<unat sz div 16]"
  by (auto simp: dirent_offs_def dvd_def)

definition ent_hit :: "cstr \<Rightarrow> dirent \<Rightarrow> bool" where
  "ent_hit name e \<longleftrightarrow> de_inum e \<noteq> 0 \<and> cname (de_name e) = name"

lemma dir_slot_iff:
  "dir_slot es name = None \<longleftrightarrow> (\<forall>k<length es. \<not> ent_hit name (es ! k))"
  "dir_slot es name = Some k \<longleftrightarrow> k < length es \<and> ent_hit name (es ! k) \<and> (\<forall>j<k. \<not> ent_hit name (es ! j))"
  by (auto simp: dir_slot_def ent_hit_def find_None_iff find_upt_iff)

lemma dirlookup_spec:
  fixes s :: "'a fsst_scheme"
  assumes t: "tx p s L H {}" and room: "tx_room L H (Suc j)" and ok: "dir_ok s dp H" and nm: "0 \<notin> set name"
    and h: "ITABLE_LOCK \<notin> held s" and f: "\<exists>i<NINODE. i_ref (inodes s i) = 0"
  defines "es \<equiv> dir_ents (file_bytes s dp)"
  shows "(\<exists>t. dirlookup dp name s = Done None t \<and> tx p t L H {} \<and> view t = view s \<and> tframe s t \<and> dir_slot es (take DIRSIZ name) = None)
    \<or> (\<exists>k ip n t. dirlookup dp name s = Done (Some (ip, 16 * k)) (t\<lparr>inodes := (inodes s)(ip := n)\<rparr>) \<and> tx p t L H {} \<and> view t = view s
         \<and> tframe s t \<and> dir_slot es (take DIRSIZ name) = Some k \<and> igot (inodes s) (i_dev (inodes s dp)) (ucast (de_inum (es ! k))) ip n)"
proof -
  let ?m = "unat (i_size (inodes s dp)) div 16" and ?nm = "take DIRSIZ name"
  let ?I = "\<lambda>i t. tx p t L H {} \<and> view t = view s \<and> tframe s t \<and> (\<forall>j<i. \<not> ent_hit ?nm (es ! j))"
  let ?Q = "\<lambda>i v t. \<exists>u n. t = u\<lparr>inodes := (inodes s)(fst v := n)\<rparr> \<and> snd v = 16 * i \<and> ?I i u \<and> ent_hit ?nm (es ! i)
      \<and> igot (inodes s) (i_dev (inodes s dp)) (ucast (de_inum (es ! i))) (fst v) n"
  let ?f = "\<lambda>k. kbind (read_dirent ''dirlookup read'' dp (16 * k)) (\<lambda>de.
       if de_inum de = 0 then kret None
       else if namecmp name (de_name de) = 0
       then kbind (iget (i_dev (inodes s dp)) (ucast (de_inum de))) (\<lambda>ip. kret (Some (ip, 16 * k)))
       else kret None)"
  have len: "length es = ?m" by (simp add: es_def)
  have "(\<exists>t. kscan [0..<?m] ?f s = Done None t \<and> ?I ?m t) \<or> (\<exists>i v t. i < ?m \<and> kscan [0..<?m] ?f s = Done (Some v) t \<and> ?Q i v t)"
  proof (rule kscan_inv_upt)
    fix i a assume i: "i < ?m" and I: "?I i a"
    have fa: "tframe s a" and ta: "tx p a L H {}" and va: "view a = view s" using I by simp_all
    have fr: "inodes a = inodes s" "held a = held s" using tframe_fs[OF fa] tframeD(1)[OF fa] by simp_all
    note C = dir_cong[OF va fr(1)]
    have oka: "dir_ok a dp H" and ia: "i < unat (i_size (inodes a dp)) div 16" using ok C(2) i fr by simp_all
    obtain u where u: "read_dirent ''dirlookup read'' dp (16 * i) a = Done (es ! i) u" "tx p u L H {}" "view u = view a" "tframe a u"
      using read_dirent_spec[OF ta room oka ia, of "''dirlookup read''"] unfolding C(1) es_def by blast
    have fu: "inodes u = inodes s" "held u = held s" using tframe_fs[OF u(4)] tframeD(1)[OF u(4)] fr by simp_all
    have I': "?I i u" using I u(2,3) tframe_trans[OF fa u(4)] by simp
    have hit: "ent_hit ?nm (es ! i) \<longleftrightarrow> de_inum (es ! i) \<noteq> 0 \<and> namecmp name (de_name (es ! i)) = 0"
      using namecmp_iff[OF nm] dir_ents_name[of i "file_bytes s dp"] i by (auto simp: ent_hit_def es_def)
    show "(\<exists>u. ?f i a = Done None u \<and> ?I (Suc i) u) \<or> (\<exists>v u. ?f i a = Done (Some v) u \<and> ?Q i v u)"
    proof (cases "ent_hit ?nm (es ! i)")
      case False
      then have "?f i a = Done None u" using u(1) by (auto simp: hit kexec)
      moreover have "?I (Suc i) u" using I' False by (auto simp: less_Suc_eq)
      ultimately show ?thesis by blast
    next
      case True
      obtain ip n where g: "iget (i_dev (inodes s dp)) (ucast (de_inum (es ! i))) u = Done ip (u\<lparr>inodes := (inodes s)(ip := n)\<rparr>)"
          "igot (inodes s) (i_dev (inodes s dp)) (ucast (de_inum (es ! i))) ip n"
        using iget_spec[of u "i_dev (inodes s dp)" "ucast (de_inum (es ! i))"] h f unfolding fu by blast
      have "?f i a = Done (Some (ip, 16 * i)) (u\<lparr>inodes := (inodes s)(ip := n)\<rparr>)" using u(1) g(1) True by (auto simp: hit kexec)
      then show ?thesis using I' g(2) True by fastforce
    qed
  qed (use t in simp)
  moreover have "dirlookup dp name s = kscan [0..<?m] ?f s"
    using ok by (simp add: dirlookup_def get_inode_def kexec dir_ok_def dirent_offs_dvd kscan_map)
  ultimately show ?thesis unfolding dir_slot_iff len by (elim disjE exE conjE) (fastforce, fastforce)
qed

text \<open>C13: \<open>dirlookup\<close> looks a name up in the abstract directory. In a directory whose bytes have blocks, with the inode table not
  locked and a free entry in it, a name that the directory does not have gives a null pointer and changes nothing; a name that it has gives
  an in-memory inode of the same device with exactly the inode number of the first entry of that name, one reference more than before, and
  the offset of the entry. No block and no other inode changes, and no entry makes it panic.\<close>

theorem dirlookup_refines:
  fixes s :: "'a fsst_scheme"
  assumes "tx p s L H {}" and "tx_room L H (Suc j)" and "dir_ok s dp H" and "0 \<notin> set name"
    and "ITABLE_LOCK \<notin> held s" and "\<exists>i<NINODE. i_ref (inodes s i) = 0"
  shows "case dir_map (dir_ents (file_bytes s dp)) (take DIRSIZ name) of
      None \<Rightarrow> \<exists>t. dirlookup dp name s = Done None t \<and> tx p t L H {} \<and> view t = view s \<and> inodes t = inodes s
    | Some v \<Rightarrow> \<exists>ip k t. dirlookup dp name s = Done (Some (ip, 16 * k)) t \<and> tx p t L H {} \<and> view t = view s
        \<and> dir_slot (dir_ents (file_bytes s dp)) (take DIRSIZ name) = Some k
        \<and> ip < NINODE \<and> i_dev (inodes t ip) = i_dev (inodes s dp) \<and> i_inum (inodes t ip) = ucast v
        \<and> i_ref (inodes t ip) = i_ref (inodes s ip) + 1 \<and> (\<forall>i. i \<noteq> ip \<longrightarrow> inodes t i = inodes s i)"
  using dirlookup_spec[OF assms]
proof (elim disjE exE conjE)
  fix t assume "dirlookup dp name s = Done None t" "tx p t L H {}" "view t = view s" "tframe s t"
    "dir_slot (dir_ents (file_bytes s dp)) (take DIRSIZ name) = None"
  then show ?thesis using tframe_fs[of s t] by (simp add: dir_map_def)
next
  fix k ip n t
  assume a: "dirlookup dp name s = Done (Some (ip, 16 * k)) (t\<lparr>inodes := (inodes s)(ip := n)\<rparr>)" "tx p t L H {}" "view t = view s"
    "dir_slot (dir_ents (file_bytes s dp)) (take DIRSIZ name) = Some k"
    "igot (inodes s) (i_dev (inodes s dp)) (ucast (de_inum (dir_ents (file_bytes s dp) ! k))) ip n"
  have "i_ref n = i_ref (inodes s ip) + 1" using a(5) by (auto simp: igot_def split: if_splits)
  then show ?thesis using a by (auto simp: dir_map_def igot_def intro!: exI[of _ ip] exI[of _ k] exI[of _ "t\<lparr>inodes := (inodes s)(ip := n)\<rparr>"])
qed

subsection \<open>dirlink\<close>

lemma file_read_write:
  assumes "length bs = 16" "16 * k \<le> length F"
  shows "file_read (file_write F (16 * k) bs) (16 * k) 16 = bs"
    "j \<noteq> k \<Longrightarrow> 16 * j + 16 \<le> length F \<Longrightarrow> file_read (file_write F (16 * k) bs) (16 * j) 16 = file_read F (16 * j) 16"
proof -
  show "file_read (file_write F (16 * k) bs) (16 * k) 16 = bs" using assms by (simp add: file_read_def file_write_def)
  assume j: "j \<noteq> k" "16 * j + 16 \<le> length F"
  note W = file_write_nth[OF assms(2), where bs = bs]
  show "file_read (file_write F (16 * k) bs) (16 * j) 16 = file_read F (16 * j) 16"
  proof (rule nth_equalityI)
    fix i assume "i < length (file_read (file_write F (16 * k) bs) (16 * j) 16)"
    then have i: "i < 16" by (simp add: file_read_def)
    then have "\<not> (16 * k \<le> 16 * j + i \<and> 16 * j + i < 16 * k + 16)" using j(1) by presburger
    then show "file_read (file_write F (16 * k) bs) (16 * j) 16 ! i = file_read F (16 * j) 16 ! i"
      using i j(2) W assms(1) by (auto simp: file_read_def bput_def)
  qed (use j(2) W in \<open>simp add: file_read_def\<close>)
qed

text \<open>Writing entry \<open>k\<close>, an old one or one behind the last.\<close>

lemma dir_ents_write:
  assumes "16 dvd length F" "k \<le> length F div 16" "length (de_name de) = DIRSIZ"
  defines "es' \<equiv> dir_ents (file_write F (16 * k) (store_dirent de))"
  shows "length es' = max (length F div 16) (Suc k)" "es' ! k = de" "j \<noteq> k \<Longrightarrow> j < length F div 16 \<Longrightarrow> es' ! j = dir_ents F ! j"
proof -
  have k: "16 * k \<le> length F" using assms(2) by linarith
  note sd = load_store_dirent[OF assms(3)]
  note W = file_write_nth(1)[OF k, where bs = "store_dirent de"] and R = file_read_write[OF sd(2) k]
  show l: "length es' = max (length F div 16) (Suc k)" unfolding es'_def dir_ents_length W sd(2) using assms(1) by (auto simp: dvd_def)
  show "es' ! k = de" using l R(1) sd(1) unfolding es'_def dir_ents_length by (simp add: dir_ents_def)
  show "es' ! j = dir_ents F ! j" if "j \<noteq> k" "j < length F div 16"
    using l R(2)[of j] that unfolding es'_def dir_ents_length by (simp add: dir_ents_def)
qed

lemma dir_map_insert:
  assumes k: "k < length es'" "length es' = max (length es) (Suc k)" "k \<le> length es" and e: "es' ! k = de"
    and o: "\<And>j. j \<noteq> k \<Longrightarrow> j < length es \<Longrightarrow> es' ! j = es ! j" and fr: "k < length es \<Longrightarrow> de_inum (es ! k) = 0"
    and n: "de_inum de \<noteq> 0" and new: "dir_slot es (cname (de_name de)) = None"
  shows "dir_map es' = (dir_map es)(cname (de_name de) \<mapsto> de_inum de)"
proof (rule ext)
  fix nm
  have len: "j < length es' \<longleftrightarrow> j < length es \<or> j = k" for j using k by auto
  have hit: "ent_hit nm (es' ! j) \<longleftrightarrow> (if j = k then nm = cname (de_name de) else ent_hit nm (es ! j))" if "j < length es'" for j
    using that e o[of j] n by (auto simp: len ent_hit_def)
  have old: "\<not> ent_hit nm (es ! k)" if "k < length es" using fr[OF that] by (simp add: ent_hit_def)
  show "dir_map es' nm = ((dir_map es)(cname (de_name de) \<mapsto> de_inum de)) nm"
  proof (cases "nm = cname (de_name de)")
    case True
    then have "dir_slot es' nm = Some k" using new k hit unfolding dir_slot_iff by (auto simp: len)
    then show ?thesis using True e by (simp add: dir_map_def)
  next
    case False
    show ?thesis
    proof (cases "dir_slot es nm")
      case None
      then have "dir_slot es' nm = None" using False hit unfolding dir_slot_iff by (auto simp: len)
      then show ?thesis using None False by (simp add: dir_map_def)
    next
      case (Some i)
      then have i: "i < length es" "ent_hit nm (es ! i)" "\<forall>j<i. \<not> ent_hit nm (es ! j)" by (auto simp: dir_slot_iff)
      then have ik: "i \<noteq> k" using old by auto
      then have "dir_slot es' nm = Some i" using i False hit unfolding dir_slot_iff by (auto simp: len)
      then show ?thesis using Some False o[OF ik i(1)] by (simp add: dir_map_def)
    qed
  qed
qed

text \<open>The entry that \<open>dirlink\<close> fills: the first free one, or a new one at the end.\<close>

definition new_slot :: "dirent list \<Rightarrow> nat" where
  "new_slot es = (case List.find (\<lambda>k. de_inum (es ! k) = 0) [0..<length es] of Some k \<Rightarrow> k | None \<Rightarrow> length es)"

lemma new_slot: "new_slot es \<le> length es" "new_slot es < length es \<Longrightarrow> de_inum (es ! new_slot es) = 0"
  by (auto simp: new_slot_def find_upt_iff split: option.split)

lemma dirlink_scan:
  fixes s :: "'a fsst_scheme"
  assumes t: "tx p s L H {}" and room: "tx_room L H (Suc j)" and ok: "dir_ok s dp H"
  defines "es \<equiv> dir_ents (file_bytes s dp)"
  shows "\<exists>t r. kscan (dirent_offs (i_size (inodes s dp))) (\<lambda>off. kbind (read_dirent ''dirlink read'' dp off) (\<lambda>de.
           kret (if de_inum de = 0 then Some off else None))) s = Done r t
    \<and> (case r of Some off \<Rightarrow> off | None \<Rightarrow> 16 * ((unat (i_size (inodes s dp)) + 15) div 16)) = 16 * new_slot es
    \<and> tx p t L H {} \<and> view t = view s \<and> tframe s t"
proof -
  let ?m = "unat (i_size (inodes s dp)) div 16"
  let ?I = "\<lambda>i t. tx p t L H {} \<and> view t = view s \<and> tframe s t \<and> (\<forall>j<i. de_inum (es ! j) \<noteq> 0)"
  let ?Q = "\<lambda>i v t. ?I i t \<and> v = 16 * i \<and> de_inum (es ! i) = 0"
  let ?f = "\<lambda>k. kbind (read_dirent ''dirlink read'' dp (16 * k)) (\<lambda>de. kret (if de_inum de = 0 then Some (16 * k) else None))"
  have len: "length es = ?m" by (simp add: es_def)
  have dv: "16 dvd unat (i_size (inodes s dp))" using ok by (simp add: dir_ok_def)
  have sc: "(\<exists>t. kscan [0..<?m] ?f s = Done None t \<and> ?I ?m t) \<or> (\<exists>i v t. i < ?m \<and> kscan [0..<?m] ?f s = Done (Some v) t \<and> ?Q i v t)"
  proof (rule kscan_inv_upt)
    fix i a assume i: "i < ?m" and I: "?I i a"
    have fa: "tframe s a" and ta: "tx p a L H {}" and va: "view a = view s" using I by simp_all
    have fr: "inodes a = inodes s" using tframe_fs[OF fa] by simp
    note C = dir_cong[OF va fr]
    have oka: "dir_ok a dp H" and ia: "i < unat (i_size (inodes a dp)) div 16" using ok C(2) i fr by simp_all
    obtain u where u: "read_dirent ''dirlink read'' dp (16 * i) a = Done (es ! i) u" "tx p u L H {}" "view u = view a" "tframe a u"
      using read_dirent_spec[OF ta room oka ia, of "''dirlink read''"] unfolding C(1) es_def by blast
    have I': "?I i u" using I u(2,3) tframe_trans[OF fa u(4)] by simp
    have r: "?f i a = Done (if de_inum (es ! i) = 0 then Some (16 * i) else None) u" using u(1) by (simp add: kexec)
    show "(\<exists>u. ?f i a = Done None u \<and> ?I (Suc i) u) \<or> (\<exists>v u. ?f i a = Done (Some v) u \<and> ?Q i v u)"
    proof (cases "de_inum (es ! i) = 0")
      case True
      then show ?thesis using r I' by auto
    next
      case False
      then have "?f i a = Done None u" "?I (Suc i) u" using r I' by (auto simp: less_Suc_eq)
      then show ?thesis by blast
    qed
  qed (use t in simp)
  have eq: "kscan (dirent_offs (i_size (inodes s dp))) (\<lambda>off. kbind (read_dirent ''dirlink read'' dp off) (\<lambda>de.
      kret (if de_inum de = 0 then Some off else None))) = kscan [0..<?m] ?f"
    unfolding dirent_offs_dvd[OF dv] kscan_map ..
  have ns: "new_slot es = i" if "i < ?m" "de_inum (es ! i) = 0" "\<forall>j<i. de_inum (es ! j) \<noteq> 0" for i
  proof -
    have "List.find (\<lambda>k. de_inum (es ! k) = 0) [0..<length es] = Some i" using that by (simp add: find_upt_iff len)
    then show ?thesis by (simp add: new_slot_def)
  qed
  have nn: "16 * ((unat (i_size (inodes s dp)) + 15) div 16) = 16 * new_slot es" if "\<forall>j<?m. de_inum (es ! j) \<noteq> 0"
  proof -
    have "List.find (\<lambda>k. de_inum (es ! k) = 0) [0..<length es] = None" using that by (auto simp: find_None_iff len)
    then show ?thesis using dv by (auto simp: new_slot_def len dvd_def)
  qed
  show ?thesis using sc
  proof (elim disjE exE conjE)
    fix t assume "kscan [0..<?m] ?f s = Done None t" "tx p t L H {}" "view t = view s" "tframe s t" "\<forall>j<?m. de_inum (es ! j) \<noteq> 0"
    then show ?thesis unfolding eq using nn by (intro exI[of _ t] exI[of _ None]) simp
  next
    fix i v t assume "i < ?m" "kscan [0..<?m] ?f s = Done (Some v) t" "tx p t L H {}" "view t = view s" "tframe s t"
      "\<forall>j<i. de_inum (es ! j) \<noteq> 0" "v = 16 * i" "de_inum (es ! i) = 0"
    then show ?thesis unfolding eq using ns[of i] by (intro exI[of _ t] exI[of _ "Some v"]) simp
  qed
qed

lemma touched_slot: "touched (16 * k) 16 = 1"
proof -
  have "16 * k mod BSIZE = 16 * (k mod 64)" by (simp add: BSIZE_def mult_mod_right)
  then have "16 * k mod BSIZE + 16 \<le> BSIZE" by (simp add: BSIZE_def)
  then show ?thesis unfolding touched_def by (simp add: BSIZE_def)
qed

lemma file_inj_cong:
  assumes "view t = view s" "inodes t = inodes s" "sb t = sb s"
  shows "file_inj t ip n = file_inj s ip n" "inode_apart t ip H n = inode_apart s ip H n" "iblk t ip = iblk s ip"
proof -
  show b: "iblk t ip = iblk s ip" by (simp add: iblk_def assms)
  show "file_inj t ip n = file_inj s ip n" "inode_apart t ip H n = inode_apart s ip H n"
    by (simp_all only: file_inj_def inode_apart_def file_cong(1)[OF assms(1,2)] b assms(2))
qed

lemma dirlink_new:
  fixes s :: "'a fsst_scheme" and inum :: uint
  assumes t: "tx p s L H {}" and room: "tx_room L H (Suc (Suc (Suc j)))" and ok: "dir_ok s dp H" and nm: "0 \<notin> set name"
    and l: "dirlookup dp name s = Done None a" "tx p a L H {}" "view a = view s" "tframe s a"
    and new: "dir_slot (dir_ents (file_bytes s dp)) (take DIRSIZ name) = None" and z: "(ucast inum :: ushort) \<noteq> 0"
    and N: "N = max (unat (i_size (inodes s dp))) (16 * new_slot (dir_ents (file_bytes s dp)) + 16)"
    and f: "file_ok s dp H N" "file_inj s dp N" "inode_apart s dp H N"
  shows "\<exists>t L'. dirlink dp name inum s = Done 0 t \<and> tx p t L' H {} \<and> tx_room L' H (Suc j) \<and> held t = held s \<and> dir_ok t dp H
    \<and> unat (iblk s dp) \<in> L' \<and> L' \<subseteq> insert (unat (iblk s dp)) (L \<union> fblks s dp N) \<and> tframe (s\<lparr>inodes := inodes t\<rparr>) t
    \<and> (\<forall>bn. bn * BSIZE < N \<longrightarrow> fblk t dp bn = fblk s dp bn) \<and> inodes t = (inodes s)(dp := (inodes s dp)\<lparr>i_size := of_nat N\<rparr>)
    \<and> load_dinode (view t (unat (iblk s dp))) (unat (i_inum (inodes s dp)) mod IPB)
        = (dinode_of (inodes t dp))\<lparr>d_addrs := \<lambda>i. if i \<le> NDIRECT then i_addrs (inodes s dp) i else 0\<rparr>
    \<and> dir_map (dir_ents (file_bytes t dp)) = (dir_map (dir_ents (file_bytes s dp)))(take DIRSIZ name \<mapsto> ucast inum)
    \<and> (\<forall>i. i \<noteq> dp \<longrightarrow> inodes t i = inodes s i)
    \<and> (\<forall>m. m \<noteq> unat (iblk s dp) \<longrightarrow> (\<forall>bn. bn * BSIZE < N \<longrightarrow> m \<noteq> unat (fblk s dp bn)) \<longrightarrow> view t m = view s m)"
proof -
  let ?es = "dir_ents (file_bytes s dp)" and ?sz = "unat (i_size (inodes s dp))"
  let ?k = "new_slot ?es" and ?de = "\<lparr>de_inum = ucast inum, de_name = strncpy_l name DIRSIZ\<rparr>"
  let ?bs = "store_dirent ?de"
  have ia: "inodes a = inodes s" using tframe_fs[OF l(4)] by simp
  note Ca = dir_cong[OF l(3) ia]
  have oka: "dir_ok a dp H" using ok Ca(2) by simp
  have room1: "tx_room L H (Suc (Suc (Suc j)))" by (rule room)
  obtain b r where b: "kscan (dirent_offs (i_size (inodes a dp))) (\<lambda>off. kbind (read_dirent ''dirlink read'' dp off) (\<lambda>de.
           kret (if de_inum de = 0 then Some off else None))) a = Done r b"
      "(case r of Some off \<Rightarrow> off | None \<Rightarrow> 16 * ((?sz + 15) div 16)) = 16 * ?k" "tx p b L H {}" "view b = view a" "tframe a b"
    using dirlink_scan[OF l(2) room1 oka] unfolding Ca(1) ia by blast
  have vb: "view b = view s" and tb: "tframe s b" using b(4) l(3) tframe_trans[OF l(4) b(5)] by simp_all
  have ib: "inodes b = inodes s" "sb b = sb s" using tframe_fs[OF tb] by simp_all
  note Cb = dir_cong[OF vb ib(1)] file_cong[OF vb ib(1)] file_inj_cong[OF vb ib]
  have dv: "16 dvd ?sz" and ty: "i_type (inodes s dp) = T_DIR" using ok by (simp_all add: dir_ok_def)
  have len: "length ?bs = 16" by (rule load_store_dirent) simp
  have kle: "?k \<le> ?sz div 16" using new_slot(1)[of ?es] by simp
  then have k16: "16 * ?k \<le> ?sz" by linarith
  have mx: "N \<le> MAXFILE * BSIZE" using f(1) by (simp add: file_ok_def)
  have "16 * ?k < 2 ^ 32" using N mx by (simp add: MAXFILE_def NDIRECT_def NINDIRECT_def BSIZE_def)
  then have u: "unat (of_nat (16 * ?k) :: uint) = 16 * ?k" by (simp add: unat_of_nat take_bit_nat_eq_self del: of_nat_mult)
  have room2: "tx_room L H (touched (unat (of_nat (16 * ?k) :: uint)) (length ?bs) + Suc (Suc j))"
    unfolding u len touched_slot using room by simp
  have N': "N = max (unat (i_size (inodes b dp))) (unat (of_nat (16 * ?k) :: uint) + length ?bs)" unfolding u len ib N ..
  have off: "(of_nat (16 * ?k) :: uint) \<le> i_size (inodes b dp)" unfolding word_le_nat_alt u ib by (rule k16)
  have fb: "file_ok b dp H N" "file_inj b dp N" "inode_apart b dp H N" using f Cb by simp_all
  obtain t L' where t: "writei dp (LocalSrc ?bs) (of_nat (16 * ?k)) (of_nat (length ?bs)) b = Done (int (length ?bs)) t"
      "tx p t L' H {}" "tx_room L' H (Suc j)" "unat (iblk b dp) \<in> L' \<and> L' \<subseteq> insert (unat (iblk b dp)) (L \<union> fblks b dp N) \<and> tframe (b\<lparr>inodes := inodes t\<rparr>) t"
      "file_bytes t dp = file_write (file_bytes b dp) (16 * ?k) ?bs" "file_ok t dp H N"
      "inodes t = (inodes b)(dp := (inodes b dp)\<lparr>i_size := of_nat N\<rparr>)"
      "\<forall>m. m \<noteq> unat (iblk b dp) \<longrightarrow> (\<forall>bn. bn * BSIZE < N \<longrightarrow> m \<noteq> unat (fblk b dp bn)) \<longrightarrow> view t m = view b m"
      "\<forall>bn. bn * BSIZE < N \<longrightarrow> fblk t dp bn = fblk b dp bn"
      "load_dinode (view t (unat (iblk b dp))) (unat (i_inum (inodes b dp)) mod IPB)
        = (dinode_of (inodes t dp))\<lparr>d_addrs := \<lambda>i. if i \<le> NDIRECT then i_addrs (inodes b dp) i else 0\<rparr>"
    using writei_file[OF b(3) room2 N' fb off] unfolding u by blast
  have "N < 2 ^ 32" using mx by (simp add: MAXFILE_def NDIRECT_def NINDIRECT_def BSIZE_def)
  then have uN: "unat (of_nat N :: uint) = N" by (simp add: unat_of_nat take_bit_nat_eq_self)
  have "dir_ok t dp H" using t(6) dv ty by (simp add: dir_ok_def t(7) ib uN) (simp add: N max_def)
  moreover have "dir_map (dir_ents (file_bytes t dp)) = (dir_map ?es)(take DIRSIZ name \<mapsto> ucast inum)"
  proof -
    have D: "16 dvd length (file_bytes s dp)" "?k \<le> length (file_bytes s dp) div 16" "length (de_name ?de) = DIRSIZ" using dv kle by simp_all
    note W = dir_ents_write[OF D, folded Cb(1) t(5)[unfolded Cb(1)]]
    show ?thesis using dir_map_insert[OF _ _ _ W(2), of ?es] W(1,3) new_slot[of ?es] z new cname_strncpy[OF nm, of DIRSIZ]
      by (simp add: t(5) Cb(1))
  qed
  moreover have "dirlink dp name inum s = Done 0 t"
    using l(1) b(1,2) t(1) ia ib by (simp add: dirlink_def kexec get_inode_def Let_def len del: of_nat_mult)
  moreover have fr: "tframe (s\<lparr>inodes := inodes t\<rparr>) t" using tframe_trans[OF tframe_inodes[OF tb, of "inodes t"]] t(4) by simp
  moreover have "held t = held s" using tframeD(1)[OF fr] by simp
  moreover have "unat (iblk s dp) \<in> L' \<and> L' \<subseteq> insert (unat (iblk s dp)) (L \<union> fblks s dp N)" using t(4) fblks_cong[of N b dp s] Cb by simp
  ultimately show ?thesis using t(2,3) t(7-10)[unfolded ib(1) vb Cb] by (intro exI[of _ t] exI[of _ L']) simp
qed

lemma file_bytes_cong:
  assumes "view t = view s" "i_addrs (inodes t ip) = i_addrs (inodes s ip)" "i_size (inodes t ip) = i_size (inodes s ip)"
  shows "file_bytes t ip = file_bytes s ip"
  unfolding file_bytes_def file_byte_def fblk_def assms ..

lemma dirlink_old:
  fixes s a :: "'a fsst_scheme"
  assumes h: "ITABLE_LOCK \<notin> held s" and r: "0 < i_ref (inodes s dp)"
    and l: "dirlookup dp name s = Done (Some (ip, off)) (a\<lparr>inodes := (inodes s)(ip := n)\<rparr>)" "tx p a L H {}" "view a = view s" "tframe s a"
    and g: "igot (inodes s) dev inum' ip n"
  shows "\<exists>t. dirlink dp name inum s = Done (- 1) t \<and> tx p t L H {} \<and> view t = view s \<and> file_bytes t dp = file_bytes s dp
    \<and> (\<forall>i. i_ref (inodes t i) = i_ref (inodes s i))"
proof -
  let ?u = "a\<lparr>inodes := (inodes s)(ip := n)\<rparr>" let ?n = "n\<lparr>i_ref := i_ref n - 1\<rparr>"
  let ?t = "?u\<lparr>inodes := (inodes s)(ip := ?n)\<rparr>"
  have h': "ITABLE_LOCK \<notin> held ?u" using h tframeD(1)[OF l(4)] by simp
  have "iput ip ?u = Done () ?t" using iput_got[OF h', of "inodes s" dev inum' ip] g by simp
  then have "dirlink dp name inum s = Done (- 1) ?t" using l(1) by (simp add: dirlink_def kexec)
  moreover have "tx p ?t L H {}" "view ?t = view s" using l(2,3) by simp_all
  moreover have "file_bytes ?t dp = file_bytes s dp"
    by (rule file_bytes_cong) (use l(3) igot_keeps(1,2)[OF g r] in \<open>auto split: if_splits\<close>)
  moreover have "i_ref n = i_ref (inodes s ip) + 1" using g by (auto simp: igot_def split: if_splits)
  ultimately show ?thesis by auto
qed

text \<open>C8: \<open>dirlink\<close> adds a name to the abstract directory. When the directory already has the name, the result is -1 and neither a block, nor
  the directory, nor a reference count changes. Otherwise, with a block for the entry and room in the transaction, the result is 0,
  and the directory is the old one with the name, cut to \<open>DIRSIZ\<close> bytes, bound to the inode number: every other name keeps its
  inode number, no other inode changes, and no block other than those of the directory and its inode.\<close>

theorem dirlink_refines:
  fixes s :: "'a fsst_scheme" and inum :: uint
  assumes "tx p s L H {}" and "tx_room L H (Suc (Suc (Suc j)))" and "dir_ok s dp H" and "0 \<notin> set name"
    and "ITABLE_LOCK \<notin> held s" and "\<exists>i<NINODE. i_ref (inodes s i) = 0" and "0 < i_ref (inodes s dp)" and "(ucast inum :: ushort) \<noteq> 0"
    and "N = max (unat (i_size (inodes s dp))) (16 * new_slot (dir_ents (file_bytes s dp)) + 16)"
    and "file_ok s dp H N" and "file_inj s dp N" and "inode_apart s dp H N"
  shows "case dir_map (dir_ents (file_bytes s dp)) (take DIRSIZ name) of
      Some v \<Rightarrow> \<exists>t. dirlink dp name inum s = Done (- 1) t \<and> tx p t L H {} \<and> view t = view s \<and> file_bytes t dp = file_bytes s dp
        \<and> (\<forall>i. i_ref (inodes t i) = i_ref (inodes s i))
    | None \<Rightarrow> \<exists>t L'. dirlink dp name inum s = Done 0 t \<and> tx p t L' H {} \<and> tx_room L' H (Suc j) \<and> held t = held s \<and> dir_ok t dp H
        \<and> dir_map (dir_ents (file_bytes t dp)) = (dir_map (dir_ents (file_bytes s dp)))(take DIRSIZ name \<mapsto> ucast inum)
        \<and> (\<forall>i. i \<noteq> dp \<longrightarrow> inodes t i = inodes s i)
        \<and> (\<forall>m. m \<noteq> unat (iblk s dp) \<longrightarrow> (\<forall>bn. bn * BSIZE < N \<longrightarrow> m \<noteq> unat (fblk s dp bn)) \<longrightarrow> view t m = view s m)"
  using dirlookup_spec[OF assms(1-6)]
proof (elim disjE exE conjE)
  fix a assume a: "dirlookup dp name s = Done None a" "tx p a L H {}" "view a = view s" "tframe s a"
    "dir_slot (dir_ents (file_bytes s dp)) (take DIRSIZ name) = None"
  then have m: "dir_map (dir_ents (file_bytes s dp)) (take DIRSIZ name) = None" by (simp add: dir_map_def)
  show ?thesis unfolding m option.case using dirlink_new[OF assms(1-4) a assms(8-12)] by blast
next
  fix k ip n a
  assume a: "dirlookup dp name s = Done (Some (ip, 16 * k)) (a\<lparr>inodes := (inodes s)(ip := n)\<rparr>)" "tx p a L H {}" "view a = view s"
    "tframe s a" "dir_slot (dir_ents (file_bytes s dp)) (take DIRSIZ name) = Some k"
    "igot (inodes s) (i_dev (inodes s dp)) (ucast (de_inum (dir_ents (file_bytes s dp) ! k))) ip n"
  then show ?thesis using dirlink_old[OF assms(5,7) a(1-4,6)] by (simp add: dir_map_def)
qed

subsection \<open>An example\<close>

definition ex_dir_inodes :: "nat \<Rightarrow> inode" where
  "ex_dir_inodes i = (if i = 0 then (ex_file 0 60)\<lparr>i_type := T_DIR\<rparr> else (ex_file 0 0)\<lparr>i_ref := 0\<rparr>)"

lemma ex_dir_inodes_simps [simp]:
  "i_size (ex_dir_inodes 0) = 0" "i_addrs (ex_dir_inodes 0) 0 = 60" "i_type (ex_dir_inodes 0) = T_DIR" "i_dev (ex_dir_inodes 0) = ROOTDEV"
  "i_ref (ex_dir_inodes 0) = 1" "i_inum (ex_dir_inodes 0) = 5"
  by (simp_all add: ex_dir_inodes_def ex_file_def)

text \<open>An empty directory, and what the hypotheses of the theorems are there.\<close>

lemma ex_dir:
  "\<exists>s :: fsst. tx 0 s {} Map.empty {} \<and> inodes s = ex_dir_inodes \<and> held s = {} \<and> dir_ok s 0 Map.empty \<and> dir_ents (file_bytes s 0) = []
     \<and> file_ok s 0 Map.empty 16 \<and> file_inj s 0 16 \<and> inode_apart s 0 Map.empty 16"
proof -
  obtain s0 :: fsst where s0: "tx 0 s0 {} Map.empty {}" "sb s0 = ex_sb" "held s0 = {}" using ex_fs by blast
  define s where "s = s0\<lparr>inodes := ex_dir_inodes\<rparr>"
  have s: "tx 0 s {} Map.empty {}" "sb s = ex_sb" "held s = {}" "inodes s = ex_dir_inodes" using s0 by (simp_all add: s_def)
  have ib: "iblk s 0 = 0" by (simp add: iblk_def IBLOCK_def s(2,4) ex_sb_def load_superblock_def bload32_def IPB_def BSIZE_def)
  have A: "i_addrs (inodes s 0) 0 = 60" "i_dev (inodes s 0) = ROOTDEV" by (simp_all add: s(4))
  have ok: "file_ok s 0 Map.empty 16" "file_inj s 0 16" "inode_apart s 0 Map.empty 16" by (rule small_file_ok[OF A]; simp add: ib)+
  have "file_ok s 0 Map.empty 0" by (rule small_file_ok[OF A]) simp_all
  then have "dir_ok s 0 Map.empty" "dir_ents (file_bytes s 0) = []" by (simp_all add: dir_ok_def s(4) dir_ents_def file_bytes_def)
  then show ?thesis using s ok by blast
qed

lemma dir_empty [simp]: "dir_slot [] nm = None" "new_slot [] = 0" "dir_map [] = Map.empty"
  by (simp_all add: dir_slot_def new_slot_def dir_map_def fun_eq_iff)

lemma ex_room: "tx_room {} (Map.empty :: nat \<rightharpoonup> nat \<times> uint) (Suc (Suc (Suc 0)))"
  by (simp add: tx_room_def LOGSIZE_def MAXOPBLOCKS_def NBUF_def)

lemma ex_free: "\<exists>i<NINODE. i_ref (ex_dir_inodes i) = 0"
  by (intro exI[of _ 1]) (simp add: NINODE_def ex_dir_inodes_def)

theorem dirlink_refines_witness:
  "\<exists>(s :: fsst) t. dirlink 0 [97] 7 s = Done 0 t \<and> dir_map (dir_ents (file_bytes s 0)) [97] = None
     \<and> dir_map (dir_ents (file_bytes t 0)) = [[97] \<mapsto> 7]"
proof -
  obtain s :: fsst where s: "tx 0 s {} Map.empty {}" "inodes s = ex_dir_inodes" "held s = {}" "dir_ok s 0 Map.empty"
      "dir_ents (file_bytes s 0) = []" "file_ok s 0 Map.empty 16" "file_inj s 0 16" "inode_apart s 0 Map.empty 16"
    using ex_dir by blast
  have a: "0 \<notin> set [97 :: byte]" "ITABLE_LOCK \<notin> held s" "\<exists>i<NINODE. i_ref (inodes s i) = 0" "0 < i_ref (inodes s 0)"
      "(ucast (7 :: uint) :: ushort) \<noteq> 0" "16 = max (unat (i_size (inodes s 0))) (16 * new_slot (dir_ents (file_bytes s 0)) + 16)"
    using ex_free by (simp_all add: s)
  obtain t where "dirlink 0 [97] 7 s = Done 0 t" "dir_map (dir_ents (file_bytes t 0)) = [[97] \<mapsto> 7]"
    using dirlink_refines[OF s(1) ex_room s(4) a s(6-8)] by (auto simp: s(5) DIRSIZ_def)
  then show ?thesis by (intro exI[of _ s] exI[of _ t]) (simp add: s(5))
qed

theorem dirlookup_refines_witness:
  "\<exists>(s :: fsst) ip k t. dirlookup 0 [97] s = Done (Some (ip, 16 * k)) t \<and> i_inum (inodes t ip) = 7 \<and> view t = view s"
proof -
  obtain s :: fsst where s: "tx 0 s {} Map.empty {}" "inodes s = ex_dir_inodes" "held s = {}" "dir_ok s 0 Map.empty"
      "dir_ents (file_bytes s 0) = []" "file_ok s 0 Map.empty 16" "file_inj s 0 16" "inode_apart s 0 Map.empty 16"
    using ex_dir by blast
  have a: "0 \<notin> set [97 :: byte]" "ITABLE_LOCK \<notin> held s" "\<exists>i<NINODE. i_ref (inodes s i) = 0"
      "dir_slot (dir_ents (file_bytes s 0)) (take DIRSIZ [97]) = None"
      "(ucast (7 :: uint) :: ushort) \<noteq> 0" "16 = max (unat (i_size (inodes s 0))) (16 * new_slot (dir_ents (file_bytes s 0)) + 16)"
    using ex_free by (simp_all add: s)
  obtain b where b: "dirlookup 0 [97] s = Done None b" "tx 0 b {} Map.empty {}" "view b = view s" "tframe s b"
    using dirlookup_spec[OF s(1) ex_room s(4) a(1-3)] a(4) by auto
  have e: "take DIRSIZ [97 :: byte] = [97]" "(ucast (7 :: uint) :: ushort) = 7" by (simp_all add: DIRSIZ_def)
  obtain t :: fsst and L where t: "tx 0 t L Map.empty {}" "tx_room L Map.empty (Suc 0)" "held t = held s" "dir_ok t 0 Map.empty"
      "dir_map (dir_ents (file_bytes t 0)) = [[97] \<mapsto> 7]" "\<forall>i. i \<noteq> 0 \<longrightarrow> inodes t i = inodes s i"
    using dirlink_new[OF s(1) ex_room s(4) a(1) b a(4-6) s(6-8)] unfolding s(5) dir_empty e by blast
  have f: "ITABLE_LOCK \<notin> held t" "\<exists>i<NINODE. i_ref (inodes t i) = 0" using t(3,6) s(2,3) by (auto simp: NINODE_def ex_dir_inodes_def intro!: exI[of _ 1])
  have m: "dir_map (dir_ents (file_bytes t 0)) (take DIRSIZ [97]) = Some 7" by (simp add: t(5) DIRSIZ_def)
  obtain ip k u where u: "dirlookup 0 [97] t = Done (Some (ip, 16 * k)) u" "view u = view t" "i_inum (inodes u ip) = ucast (7 :: ushort)"
    using dirlookup_refines[OF t(1,2,4) a(1) f] unfolding m option.case by blast
  show ?thesis using u by (intro exI[of _ t] exI[of _ ip] exI[of _ k] exI[of _ u]) simp
qed

end
