(* ===== verification/Fscrash.thy ===== *)
theory Fscrash
  imports Fsdir
begin

text \<open>
  Whole transactions: \<open>begin_op\<close>, some changes, \<open>end_op\<close>. The last \<open>end_op\<close> commits, and the changes reach the disk together or not at
  all. The file that an inode on disk describes (\<open>disk_file\<close>) is compared with the file that the kernel sees.
\<close>

subsection \<open>begin_op and end_op\<close>

definition log_idle :: "nat \<Rightarrow> 'a lgst_scheme \<Rightarrow> bool" where
  "log_idle p s \<longleftrightarrow> bc_idle p s \<and> LOG_LOCK \<notin> held s \<and> \<not> log_committing s \<and> lh_n s = 0 \<and> log_outstanding s = 0 \<and> int LOGSIZE \<le> log_size s
     \<and> log_dev s = ROOTDEV \<and> unat (log_start s) + LOGSIZE < 2 ^ 32 \<and> bload32 (disk s (unat (log_start s))) 0 = 0"

lemma begin_op_idle:
  assumes "log_idle p s"
  shows "begin_op s = Done () (s\<lparr>log_outstanding := 1\<rparr>)" "tx p (s\<lparr>log_outstanding := 1\<rparr>) {} Map.empty {}"
proof -
  have h: "insert LOG_LOCK (held s) - {LOG_LOCK} = held s" using assms by (auto simp: log_idle_def)
  show "begin_op s = Done () (s\<lparr>log_outstanding := 1\<rparr>)"
    using assms by (simp add: log_idle_def begin_op_def kexec h LOGSIZE_def)
  have "bc_idle p s" using assms by (simp add: log_idle_def)
  then show "tx p (s\<lparr>log_outstanding := 1\<rparr>) {} Map.empty {}"
    using assms idle_view[of p s] by (simp add: tx_def log_idle_def bc_idle_def fun_eq_iff)
qed

lemma tx_ready:
  assumes t: "tx p s L Map.empty {}" and "log_dev s = ROOTDEV" "unat (log_start s) + LOGSIZE < 2 ^ 32" "L \<inter> lg_area s = {}" "card L < LOGSIZE"
  shows "txn_ready p (card L) s"
proof -
  note T = txD[OF t]
  have "inj_on (home s) {..<card L}" by (rule eq_card_imp_inj_on) (simp_all add: T(8))
  moreover have "\<forall>k<card L. home s k \<notin> lg_area s" using T(8) assms(4) by blast
  ultimately show ?thesis using T assms(2,3,5) by (simp add: txn_ready_def txn_shape_def)
qed

lemma ready_upd: "txn_ready p n (s\<lparr>log_outstanding := a, log_committing := b\<rparr>) = txn_ready p n s"
proof -
  have "home (s\<lparr>log_outstanding := a, log_committing := b\<rparr>) = home s" by (simp add: home_def fun_eq_iff)
  then show ?thesis by (simp add: txn_ready_def txn_shape_def lg_area_def)
qed

lemma idle_procs: "bc_idle p (s\<lparr>log_committing := c, procs := P\<rparr>) = bc_idle p s"
proof -
  have "bc_inv (s\<lparr>procs := P\<rparr>) = bc_inv s" "owned (s\<lparr>procs := P\<rparr>) = owned s" "refs (s\<lparr>procs := P\<rparr>) = refs s" "bio_ok (s\<lparr>procs := P\<rparr>) p = bio_ok s p" for s :: "'a lgst_scheme"
    by (rule cache_cong, simp_all)+ (simp add: bio_ok_def)
  then show ?thesis by (simp add: bc_idle_def)
qed

lemma end_op_commit:
  fixes s :: "'a lgst_scheme"
  assumes r: "txn_ready p n s" and n: "0 < n" and h: "LOG_LOCK \<notin> held s" and o: "log_outstanding s = 1" "\<not> log_committing s"
    and e: "bload32 (disk s (unat (log_start s))) 0 = 0"
  shows "\<exists>u W. end_op s = Done () u \<and> bc_idle p u \<and> wtrace u = wtrace s @ W \<and> (\<forall>m. m \<notin> lg_area s \<longrightarrow> disk u m = view s m)
    \<and> (\<forall>k q (r :: 'b lgst_scheme). bc_idle q r \<longrightarrow> disk r = apply_writes (take k W) (disk s) \<longrightarrow>
         (\<exists>t. initlog ROOTDEV (log_start s) nlog r = Done () t
            \<and> ((\<forall>m. m \<notin> lg_area s \<longrightarrow> disk t m = disk s m) \<or> (\<forall>m. m \<notin> lg_area s \<longrightarrow> disk t m = view s m))))"
proof -
  define s1 where "s1 = s\<lparr>log_outstanding := 0, log_committing := True\<rparr>"
  have s1: "disk s1 = disk s" "view s1 = view s" "wtrace s1 = wtrace s" "log_start s1 = log_start s" "lg_area s1 = lg_area s" "held s1 = held s"
    by (simp_all add: s1_def lg_area_def)
  have r1: "txn_ready p n s1" using r unfolding s1_def ready_upd .
  obtain u W where u: "commit s1 = Done () u" "bc_idle p u" "held u = held s1" "wtrace u = wtrace s1 @ W" "\<forall>m. m \<notin> lg_area s1 \<longrightarrow> disk u m = view s1 m"
      "\<forall>k q (r :: 'b lgst_scheme). bc_idle q r \<longrightarrow> disk r = apply_writes (take k W) (disk s1) \<longrightarrow>
         (\<exists>t. initlog ROOTDEV (log_start s1) nlog r = Done () t
            \<and> ((\<forall>m. m \<notin> lg_area s1 \<longrightarrow> disk t m = disk s1 m) \<or> (\<forall>m. m \<notin> lg_area s1 \<longrightarrow> disk t m = view s1 m)))"
    using commit_atomic[OF r1 n, of nlog] e unfolding s1(1,4) by blast
  have hh: "insert LOG_LOCK (held s) - {LOG_LOCK} = held s" using h by auto
  have hu: "LOG_LOCK \<notin> held u" "insert LOG_LOCK (held u) - {LOG_LOCK} = held u" using h u(3) s1(6) by auto
  have pl: "\<forall>i<NPROC. cur u \<noteq> Some i \<longrightarrow> PROC_LOCK i \<notin> held u" using u(2) by (simp add: bc_idle_def bio_ok_def)
  let ?P = "wakes (cur u) ChLog (procs u)"
  have "end_op s = Done () (u\<lparr>log_committing := False, procs := ?P\<rparr>)"
    using h o u(1) hu pl by (simp add: end_op_def kexec hh s1_def)
  moreover have "bc_idle p (u\<lparr>log_committing := False, procs := ?P\<rparr>)" unfolding idle_procs by (rule u(2))
  ultimately show ?thesis using u(4-6) unfolding s1 by (intro exI[of _ "u\<lparr>log_committing := False, procs := ?P\<rparr>"] exI[of _ W]) simp
qed

subsection \<open>The file on the disk\<close>

definition dblk :: "(nat \<Rightarrow> block) \<Rightarrow> dinode \<Rightarrow> nat \<Rightarrow> uint" where
  "dblk d di bn = (if bn < NDIRECT then d_addrs di bn else bload32 (d (unat (d_addrs di NDIRECT))) (4 * (bn - NDIRECT)))"

text \<open>The bytes of the file of inode \<open>k\<close> of the inode block \<open>ib\<close>, read from the disk \<open>d\<close> alone.\<close>

definition disk_file :: "(nat \<Rightarrow> block) \<Rightarrow> nat \<Rightarrow> nat \<Rightarrow> byte list" where
  "disk_file d ib k = (let di = load_dinode (d ib) k in map (\<lambda>x. d (unat (dblk d di (x div BSIZE))) (x mod BSIZE)) [0..<unat (d_size di)])"

definition islot :: "'a fsst_scheme \<Rightarrow> nat \<Rightarrow> nat" where
  "islot s ip = unat (i_inum (inodes s ip)) mod IPB"

text \<open>The inode block has the fields of the inode in memory.\<close>

definition synced :: "'a fsst_scheme \<Rightarrow> nat \<Rightarrow> bool" where
  "synced s ip \<longleftrightarrow> load_dinode (view s (unat (iblk s ip))) (islot s ip)
     = (dinode_of (inodes s ip))\<lparr>d_addrs := \<lambda>i. if i \<le> NDIRECT then i_addrs (inodes s ip) i else 0\<rparr>"

definition outside :: "nat set \<Rightarrow> 'a fsst_scheme \<Rightarrow> nat \<Rightarrow> nat \<Rightarrow> bool" where
  "outside A s ip n \<longleftrightarrow> unat (iblk s ip) \<notin> A \<and> fblks s ip n \<inter> A = {} \<and> (NDIRECT * BSIZE < n \<longrightarrow> unat (i_addrs (inodes s ip) NDIRECT) \<notin> A)"

lemma disk_file_outside:
  assumes sy: "synced s ip" and o: "outside A s ip (unat (i_size (inodes s ip)))" and d: "\<forall>m. m \<notin> A \<longrightarrow> d m = view s m"
  shows "disk_file d (unat (iblk s ip)) (islot s ip) = file_bytes s ip"
proof -
  let ?sz = "unat (i_size (inodes s ip))"
  define di where "di = (dinode_of (inodes s ip))\<lparr>d_addrs := \<lambda>i. if i \<le> NDIRECT then i_addrs (inodes s ip) i else 0\<rparr>"
  have l: "load_dinode (d (unat (iblk s ip))) (islot s ip) = di"
    using sy o d by (simp add: synced_def outside_def di_def[symmetric])
  have "d (unat (dblk d di (x div BSIZE))) (x mod BSIZE) = file_byte s ip x" if x: "x < ?sz" for x
  proof -
    let ?bn = "x div BSIZE"
    have bn: "?bn * BSIZE < ?sz" by (rule block_of[OF x])
    have "dblk d di ?bn = fblk s ip ?bn"
    proof (cases "?bn < NDIRECT")
      case False
      have "NDIRECT * BSIZE < ?sz" by (rule order.strict_trans1[OF mult_le_mono1 bn]) (use False in simp)
      then show ?thesis using False o d by (simp add: dblk_def fblk_def di_def outside_def)
    qed (simp add: dblk_def fblk_def di_def)
    moreover have "unat (fblk s ip ?bn) \<notin> A" using o bn by (auto simp: outside_def fblks_def)
    ultimately show ?thesis using d by (simp add: file_byte_def)
  qed
  then show ?thesis unfolding disk_file_def l by (simp add: Let_def file_bytes_def di_def dinode_of_def)
qed

subsection \<open>Linking a name in a transaction\<close>

text \<open>What a directory needs for a new entry: it is well formed, in step with its inode on disk, and has a block for the entry.\<close>

definition link_ready :: "'a fsst_scheme \<Rightarrow> nat \<Rightarrow> bool" where
  "link_ready s dp \<longleftrightarrow> (let N = max (unat (i_size (inodes s dp))) (16 * new_slot (dir_ents (file_bytes s dp)) + 16) in
     dir_ok s dp Map.empty \<and> synced s dp \<and> file_ok s dp Map.empty N \<and> file_inj s dp N \<and> inode_apart s dp Map.empty N \<and> outside (lg_area s) s dp N
     \<and> ITABLE_LOCK \<notin> held s \<and> (\<exists>i<NINODE. i_ref (inodes s i) = 0))"

lemma outside_mono: "outside A s ip n \<Longrightarrow> m \<le> n \<Longrightarrow> outside A s ip m"
  unfolding outside_def fblks_def by (fastforce intro: order.strict_trans2)

lemma link_run:
  fixes s :: "'a fsst_scheme" and inum :: uint
  assumes i: "log_idle p s" and l: "link_ready s dp" and nm: "0 \<notin> set name" and z: "(ucast inum :: ushort) \<noteq> 0"
    and new: "dir_map (dir_ents (file_bytes s dp)) (take DIRSIZ name) = None"
  obtains t and L :: "nat set" where "kthen begin_op (dirlink dp name inum) s = Done 0 t" "txn_ready p (card L) t" "0 < card L" "LOG_LOCK \<notin> held t"
    "log_outstanding t = 1" "\<not> log_committing t" "disk t = disk s" "wtrace t = wtrace s" "log_start t = log_start s" "lg_area t = lg_area s"
    "dir_map (dir_ents (file_bytes t dp)) = (dir_map (dir_ents (file_bytes s dp)))(take DIRSIZ name \<mapsto> ucast inum)"
    "synced t dp" "outside (lg_area s) t dp (unat (i_size (inodes t dp)))" "iblk t dp = iblk s dp" "islot t dp = islot s dp"
proof -
  define N where "N = max (unat (i_size (inodes s dp))) (16 * new_slot (dir_ents (file_bytes s dp)) + 16)"
  have R: "dir_ok s dp Map.empty" "synced s dp" "file_ok s dp Map.empty N" "file_inj s dp N" "inode_apart s dp Map.empty N" "outside (lg_area s) s dp N"
      "ITABLE_LOCK \<notin> held s" "\<exists>i<NINODE. i_ref (inodes s i) = 0"
    using l by (simp_all add: link_ready_def Let_def N_def)
  define a where "a = s\<lparr>log_outstanding := 1\<rparr>"
  have ca: "view a = view s" "inodes a = inodes s" "sb a = sb s" "held a = held s" by (simp_all add: a_def)
  note Ca = dir_cong[OF ca(1,2)] file_cong[OF ca(1,2)] file_inj_cong[OF ca(1-3)]
  have ta: "tx p a {} Map.empty {}" using begin_op_idle(2)[OF i] by (simp add: a_def)
  have none: "dir_slot (dir_ents (file_bytes a dp)) (take DIRSIZ name) = None" using new by (simp add: dir_map_def Ca)
  have pa: "dir_ok a dp Map.empty" "ITABLE_LOCK \<notin> held a" "\<exists>i<NINODE. i_ref (inodes a i) = 0" using R Ca ca by simp_all
  obtain b where b: "dirlookup dp name a = Done None b" "tx p b {} Map.empty {}" "view b = view a" "tframe a b"
    using dirlookup_spec[OF ta ex_room pa(1) nm pa(2,3)] none by auto
  have N: "N = max (unat (i_size (inodes a dp))) (16 * new_slot (dir_ents (file_bytes a dp)) + 16)" by (simp add: N_def Ca ca)
  have f: "file_ok a dp Map.empty N" "file_inj a dp N" "inode_apart a dp Map.empty N" using R Ca by simp_all
  obtain t L where t: "dirlink dp name inum a = Done 0 t" "tx p t L Map.empty {}" "tx_room L Map.empty (Suc 0)" "held t = held a" "dir_ok t dp Map.empty"
      "unat (iblk a dp) \<in> L" "L \<subseteq> insert (unat (iblk a dp)) ({} \<union> fblks a dp N)" "tframe (a\<lparr>inodes := inodes t\<rparr>) t"
      "\<forall>bn. bn * BSIZE < N \<longrightarrow> fblk t dp bn = fblk a dp bn" "inodes t = (inodes a)(dp := (inodes a dp)\<lparr>i_size := of_nat N\<rparr>)"
      "load_dinode (view t (unat (iblk a dp))) (unat (i_inum (inodes a dp)) mod IPB)
        = (dinode_of (inodes t dp))\<lparr>d_addrs := \<lambda>i. if i \<le> NDIRECT then i_addrs (inodes a dp) i else 0\<rparr>"
      "dir_map (dir_ents (file_bytes t dp)) = (dir_map (dir_ents (file_bytes a dp)))(take DIRSIZ name \<mapsto> ucast inum)"
    using dirlink_new[OF ta ex_room pa(1) nm b none z N f] by blast
  note F = tframeD[OF t(8)]
  have sbt: "sb t = sb s" using tframe_fs[OF t(8)] by (simp add: a_def)
  have ib: "iblk t dp = iblk s dp" "islot t dp = islot s dp" by (simp_all add: iblk_def islot_def sbt t(10) ca)
  have fb: "fblks a dp N = fblks s dp N" by (rule fblks_cong) (simp add: Ca)
  have ft: "fblks t dp N = fblks s dp N" using fblks_cong[of N t dp a] t(9) fb by simp
  have la: "lg_area t = lg_area s" using F(9) by (simp add: lg_area_def a_def)
  have io: "unat (iblk s dp) \<notin> lg_area s" "fblks s dp N \<inter> lg_area s = {}" using R(6) by (simp_all add: outside_def)
  have "N \<le> MAXFILE * BSIZE" using R(3) by (simp add: file_ok_def)
  then have "N < 2 ^ 32" by (simp add: MAXFILE_def NDIRECT_def NINDIRECT_def BSIZE_def)
  then have uN: "unat (of_nat N :: uint) = N" by (simp add: unat_of_nat take_bit_nat_eq_self)
  have ot: "outside (lg_area s) t dp N" using R(6) ib(1) ft by (simp add: outside_def t(10) ca)
  have "L \<inter> lg_area t = {}" using t(7) io unfolding la fb Ca by auto
  moreover have "card L < LOGSIZE" using t(3) by (simp add: tx_room_def)
  ultimately have rd: "txn_ready p (card L) t" using tx_ready[OF t(2)] F(9,12) i by (simp add: log_idle_def a_def)
  have pos: "0 < card L" using t(6) txD(5)[OF t(2)] card_gt_0_iff by blast
  have run: "kthen begin_op (dirlink dp name inum) s = Done 0 t" using begin_op_idle(1)[OF i] t(1) by (simp add: kexec a_def)
  have ht: "held t = held s" using t(4) ca(4) by simp
  have sy: "synced t dp" using t(11) ib by (simp add: synced_def Ca islot_def t(10) ca cong: if_cong)
  show thesis
    by (rule that[OF run rd pos]) (use F i ht la ot uN ib sy t(10,12) Ca ca in \<open>simp_all add: a_def log_idle_def\<close>)
qed

subsection \<open>An example\<close>

text \<open>An empty directory in inode 5 of an idle file system whose log begins at block 2.\<close>

definition ex_link_disk :: "nat \<Rightarrow> block" where
  "ex_link_disk m = (if m = 0 then store_dinode (\<lambda>_. 0) 5 (dinode_of (ex_dir_inodes 0)) else (\<lambda>_. 0))"

lemma ex_link: "\<exists>s :: fsst. log_idle 0 s \<and> link_ready s 0 \<and> dir_ents (file_bytes s 0) = []"
proof -
  let ?s = "boot_fsst\<lparr>disk := ex_link_disk, sb := ex_sb\<rparr>"
  have c: "cold_cache ?s" "bio_ok ?s 0" by (simp_all add: boot_kos_defs cold_cache_def bio_ok_def zero_buf_def)
  obtain t where t: "binit ?s = Done () t" "bc_idle 0 t" "disk t = disk ?s" using binit_idle[OF c] by blast
  have f: "sb t = ex_sb" "held t = {}" "lh_n t = 0" "log_size t = 30" "\<not> log_committing t"
    using t(1) unfolding binit_exec by (auto simp: boot_kos_defs)
  define s where "s = t\<lparr>log_outstanding := 0, log_dev := ROOTDEV, log_start := 2, inodes := ex_dir_inodes\<rparr>"
  have b: "bc_idle 0 s" using t(2) by (simp add: s_def bc_idle_def) (simp add: bc_inv_def bio_ok_def)
  have s: "sb s = ex_sb" "held s = {}" "inodes s = ex_dir_inodes" "disk s = ex_link_disk" "view s = ex_link_disk" "log_start s = 2"
    using f t(3) idle_view[OF b] by (simp_all add: s_def)
  have "log_idle 0 s" using b f t(3)
    by (simp add: log_idle_def s_def ex_link_disk_def LOGSIZE_def MAXOPBLOCKS_def bload32_def)
  moreover have ib: "iblk s 0 = 0" by (simp add: iblk_def IBLOCK_def s(1,3) ex_sb_def load_superblock_def bload32_def IPB_def BSIZE_def)
  have sl: "islot s 0 = 5" by (simp add: islot_def s(3) IPB_def BSIZE_def)
  have A: "i_addrs (inodes s 0) 0 = 60" "i_dev (inodes s 0) = ROOTDEV" by (simp_all add: s(3))
  have ok: "file_ok s 0 Map.empty 16" "file_inj s 0 16" "inode_apart s 0 Map.empty 16" by (rule small_file_ok[OF A]; simp add: ib)+
  have "file_ok s 0 Map.empty 0" by (rule small_file_ok[OF A]) simp_all
  then have d: "dir_ok s 0 Map.empty" "dir_ents (file_bytes s 0) = []" by (simp_all add: dir_ok_def s(3) dir_ents_def file_bytes_def)
  have sy: "synced s 0"
    unfolding synced_def ib sl s(3,5) by (simp add: ex_link_disk_def load_store_dinode dinode_of_def cong: if_cong)
  have "fblks s 0 16 \<subseteq> {60}"
  proof -
    have "unat (fblk s 0 bn) = 60" if "bn * BSIZE < 16" for bn
    proof -
      have "bn = 0" using that by (intro small_file(2)[OF A(1)]) simp
      then show ?thesis using small_file(1)[OF A(1)] by simp
    qed
    then show ?thesis by (auto simp: fblks_def)
  qed
  moreover have "\<not> NDIRECT * BSIZE < 16" by (simp add: NDIRECT_def BSIZE_def)
  ultimately have "outside (lg_area s) s 0 16" by (auto simp: outside_def ib lg_area_def s(6) LOGSIZE_def MAXOPBLOCKS_def)
  then have "link_ready s 0" using d ok sy ex_free by (simp add: link_ready_def Let_def s(2,3))
  then show ?thesis using \<open>log_idle 0 s\<close> d(2) by blast
qed

end
