(* ===== verification/Fsinode.thy ===== *)
theory Fsinode
  imports Fsfile
begin

text \<open>
  Inodes on disk and in memory: \<open>iupdate\<close> writes an in-memory inode to its slot of an inode block, \<open>ilock\<close> fills an in-memory inode
  from that slot.
\<close>

subsection \<open>ilock\<close>

text \<open>The sleep locks of inodes are none of the buffer cache's.\<close>

lemma inode_sleep_cache [simp]:
  "view (s\<lparr>slocks := (slocks s)(INODE_SLEEP j := l)\<rparr>) = view s" "refs (s\<lparr>slocks := (slocks s)(INODE_SLEEP j := l)\<rparr>) = refs s"
  "owned (s\<lparr>slocks := (slocks s)(INODE_SLEEP j := l)\<rparr>) = owned s" "home (s\<lparr>slocks := (slocks s)(INODE_SLEEP j := l)\<rparr>) = home s"
  by (rule ext, simp add: view_def owned_def refs_def home_def buf_of_def Let_def split: option.split)+

lemma inode_sleep_tx [simp]: "tx p (s\<lparr>slocks := (slocks s)(INODE_SLEEP j := l)\<rparr>) L H D = tx p s L H D"
  by (simp add: tx_def bc_inv_def bio_ok_def)

text \<open>The in-memory inode \<open>n\<close> with the content of the on-disk inode \<open>d\<close>.\<close>

definition loaded :: "inode \<Rightarrow> dinode \<Rightarrow> inode" where
  "loaded n d = n\<lparr>i_type := d_type d, i_major := d_major d, i_minor := d_minor d, i_nlink := d_nlink d, i_size := d_size d,
     i_addrs := d_addrs d, i_valid := True\<rparr>"

text \<open>An entry of the inode table that is referenced, has no content yet and is not locked.\<close>

definition fresh_entry :: "'a fsst_scheme \<Rightarrow> nat \<Rightarrow> bool" where
  "fresh_entry s jp \<longleftrightarrow> i_dev (inodes s jp) = ROOTDEV \<and> 1 \<le> i_ref (inodes s jp) \<and> \<not> i_valid (inodes s jp)
     \<and> \<not> sl_locked (slocks s (INODE_SLEEP jp))"

lemma ilock_spec:
  fixes s :: "'a fsst_scheme"
  assumes t: "tx p s L H {}" and room: "tx_room L H (Suc k)" and free: "H (unat (iblk s jp)) = None" and f: "fresh_entry s jp"
  defines "d \<equiv> load_dinode (view s (unat (iblk s jp))) (unat (i_inum (inodes s jp)) mod IPB)"
  shows "if d_type d = 0 then ilock jp s = Panic ''ilock: no type''
    else \<exists>u. ilock jp s = Done () u \<and> tx p u L H {} \<and> view u = view s \<and> inodes u = (inodes s)(jp := loaded (inodes s jp) d)"
proof -
  let ?n = "inodes s jp" let ?l = "\<lparr>sl_locked = True, sl_pid = p_pid (procs s p)\<rparr>"
  let ?s = "s\<lparr>slocks := (slocks s)(INODE_SLEEP jp := ?l)\<rparr>"
  have F: "i_dev ?n = ROOTDEV" "\<not> i_ref ?n < 1" "\<not> i_valid ?n" "\<not> sl_locked (slocks s (INODE_SLEEP jp))"
    using f by (auto simp: fresh_entry_def)
  have al: "acquiresleep (INODE_SLEEP jp) s = Done () ?s" by (rule acquiresleep_exec[OF txD(2)[OF t] F(4)])
  have t': "tx p ?s L H {}" using t by simp
  obtain i a where a: "bread ROOTDEV (iblk s jp) ?s = Done i a" "tx p a L (H(unat (iblk s jp) \<mapsto> (i, p_pid (procs a p)))) {}" "view a = view ?s"
      "tframe ?s a" "get_data i a = Done (view ?s (unat (iblk s jp))) a"
    using read_map[OF t' free room] by blast
  have ia: "inodes a = inodes s" using tframe_fs[OF a(4)] by simp
  let ?b = "a\<lparr>inodes := (inodes a)(jp := (loaded ?n d)\<lparr>i_valid := False\<rparr>)\<rparr>"
  have tb: "tx p ?b L (H(unat (iblk s jp) \<mapsto> (i, p_pid (procs ?b p)))) {}" using a(2) by simp
  obtain c where c: "brelse i ?b = Done () c" "tx p c L ((H(unat (iblk s jp) \<mapsto> (i, p_pid (procs ?b p))))(unat (iblk s jp) := None)) {}"
      "view c = view ?b" "tframe ?b c"
    using tx_brelse[OF tb, of "unat (iblk s jp)" i] by auto
  have h: "(H(unat (iblk s jp) \<mapsto> (i, p_pid (procs ?b p))))(unat (iblk s jp) := None) = H" using free by auto
  have ic: "inodes c = (inodes s)(jp := (loaded ?n d)\<lparr>i_valid := False\<rparr>)" using tframe_fs[OF c(4)] ia by simp
  let ?u = "c\<lparr>inodes := (inodes s)(jp := loaded ?n d)\<rparr>"
  have ld: "(loaded ?n d)\<lparr>i_valid := False\<rparr> = ?n\<lparr>i_type := d_type d, i_major := d_major d, i_minor := d_minor d, i_nlink := d_nlink d,
      i_size := d_size d, i_addrs := d_addrs d\<rparr>"
    using F(3) by (simp add: loaded_def)
  have "ilock jp s = (if d_type d = 0 then Panic ''ilock: no type'' else Done () ?u)"
    using al a(1,5) c(1)[unfolded ld] F(1-3) ia ic[unfolded ld]
    by (simp add: loaded_def ilock_def get_inode_def set_inode_def kexec Let_def iblk_def[symmetric] d_def[symmetric])
  then show ?thesis using c(2)[unfolded h] c(3) a(3) by auto
qed

text \<open>C32: an inode survives the trip to the disk. In a transaction, \<open>iupdate\<close> of the in-memory inode \<open>ip\<close> returns and changes no block
  but that of the inode, where every other inode reads as before. Whatever then happens to the inode table, when in a later
  transaction in which that block has not been written again an entry \<open>jp\<close> of the table stands for the same inode number and has no
  content yet, \<open>ilock\<close> of it gives it the type, device numbers, link count, size and block addresses that \<open>ip\<close> had, marks it valid
  and changes no other entry and no block; if the inode was written with type 0 it panics instead.\<close>

theorem iupdate_ilock:
  fixes s :: "'a fsst_scheme"
  assumes "tx p s L H {}" and "tx_room L H (Suc k)" and "H (unat (iblk s ip)) = None" and "i_dev (inodes s ip) = ROOTDEV"
  shows "\<exists>t. iupdate ip s = Done () t \<and> tx p t (insert (unat (iblk s ip)) L) H {} \<and> inodes t = inodes s \<and> sb t = sb s
    \<and> (\<forall>m. m \<noteq> unat (iblk s ip) \<longrightarrow> view t m = view s m)
    \<and> (\<forall>j. j \<noteq> unat (i_inum (inodes s ip)) mod IPB \<longrightarrow>
          load_dinode (view t (unat (iblk s ip))) j = load_dinode (view s (unat (iblk s ip))) j)
    \<and> (\<forall>(u :: 'a fsst_scheme) q L' H' jp. tx q u L' H' {} \<and> tx_room L' H' 1 \<and> sb u = sb s \<and> H' (unat (iblk s ip)) = None
         \<and> view u (unat (iblk s ip)) = view t (unat (iblk s ip)) \<and> fresh_entry u jp \<and> i_inum (inodes u jp) = i_inum (inodes s ip) \<longrightarrow>
         (if i_type (inodes s ip) = 0 then ilock jp u = Panic ''ilock: no type''
          else \<exists>w. ilock jp u = Done () w \<and> tx q w L' H' {} \<and> view w = view u \<and> (\<forall>j. j \<noteq> jp \<longrightarrow> inodes w j = inodes u j)
            \<and> i_dev (inodes w jp) = i_dev (inodes u jp) \<and> i_inum (inodes w jp) = i_inum (inodes u jp)
            \<and> i_ref (inodes w jp) = i_ref (inodes u jp) \<and> i_valid (inodes w jp)
            \<and> i_type (inodes w jp) = i_type (inodes s ip) \<and> i_major (inodes w jp) = i_major (inodes s ip)
            \<and> i_minor (inodes w jp) = i_minor (inodes s ip) \<and> i_nlink (inodes w jp) = i_nlink (inodes s ip)
            \<and> i_size (inodes w jp) = i_size (inodes s ip)
            \<and> (\<forall>i\<le>NDIRECT. i_addrs (inodes w jp) i = i_addrs (inodes s ip) i)))"
proof -
  let ?m = "unat (iblk s ip)" and ?k = "unat (i_inum (inodes s ip)) mod IPB" and ?n = "inodes s ip"
  obtain t where t: "iupdate ip s = Done () t" "tx p t (insert ?m L) H {}" "tframe s t"
      "view t = (view s)(?m := store_dinode (view s ?m) ?k (dinode_of ?n))"
    using tx_edit[OF assms(1,3,2), of "\<lambda>d. store_dinode d ?k (dinode_of ?n)"] iupdate_edit[OF assms(4)] by auto
  let ?d = "load_dinode (view t ?m) ?k"
  have d: "d_type ?d = i_type ?n" "d_major ?d = i_major ?n" "d_minor ?d = i_minor ?n" "d_nlink ?d = i_nlink ?n" "d_size ?d = i_size ?n"
    "i \<le> NDIRECT \<Longrightarrow> d_addrs ?d i = i_addrs ?n i" for i
    unfolding t(4) by (simp_all add: load_store_dinode dinode_of_def)
  have lock: "if i_type ?n = 0 then ilock jp u = Panic ''ilock: no type''
      else \<exists>w. ilock jp u = Done () w \<and> tx q w L' H' {} \<and> view w = view u \<and> inodes w = (inodes u)(jp := loaded (inodes u jp) ?d)"
    if A: "tx q u L' H' {} \<and> tx_room L' H' 1 \<and> sb u = sb s \<and> H' ?m = None \<and> view u ?m = view t ?m
      \<and> fresh_entry u jp \<and> i_inum (inodes u jp) = i_inum ?n" for u :: "'a fsst_scheme" and q L' H' jp
  proof -
    have e: "iblk u jp = iblk s ip" "view u ?m = view t ?m" "i_inum (inodes u jp) = i_inum ?n" using A by (simp_all add: iblk_def)
    have r: "tx q u L' H' {}" "tx_room L' H' (Suc 0)" "H' (unat (iblk u jp)) = None" "fresh_entry u jp" using A e(1) by simp_all
    show ?thesis using ilock_spec[OF r] unfolding e d(1) .
  qed
  have o: "load_dinode (view t ?m) j = load_dinode (view s ?m) j" if "j \<noteq> ?k" for j
    unfolding t(4) fun_upd_same by (rule load_dinode_cong, rule store_dinode_frame) (use that in auto)
  show ?thesis
  proof (intro exI[of _ t] conjI allI impI)
    fix u :: "'a fsst_scheme" and q L' H' jp
    assume A: "tx q u L' H' {} \<and> tx_room L' H' 1 \<and> sb u = sb s \<and> H' ?m = None \<and> view u ?m = view t ?m
      \<and> fresh_entry u jp \<and> i_inum (inodes u jp) = i_inum ?n"
    show "if i_type ?n = 0 then ilock jp u = Panic ''ilock: no type''
      else \<exists>w. ilock jp u = Done () w \<and> tx q w L' H' {} \<and> view w = view u \<and> (\<forall>j. j \<noteq> jp \<longrightarrow> inodes w j = inodes u j)
            \<and> i_dev (inodes w jp) = i_dev (inodes u jp) \<and> i_inum (inodes w jp) = i_inum (inodes u jp)
            \<and> i_ref (inodes w jp) = i_ref (inodes u jp) \<and> i_valid (inodes w jp)
            \<and> i_type (inodes w jp) = i_type ?n \<and> i_major (inodes w jp) = i_major ?n
            \<and> i_minor (inodes w jp) = i_minor ?n \<and> i_nlink (inodes w jp) = i_nlink ?n \<and> i_size (inodes w jp) = i_size ?n
            \<and> (\<forall>i\<le>NDIRECT. i_addrs (inodes w jp) i = i_addrs ?n i)"
    proof (cases "i_type ?n = 0")
      case False
      then obtain w where w: "ilock jp u = Done () w" "tx q w L' H' {}" "view w = view u"
          "inodes w = (inodes u)(jp := loaded (inodes u jp) ?d)"
        using lock[OF A] by auto
      show ?thesis using False w d by (auto simp: loaded_def intro!: exI[of _ w])
    qed (use lock[OF A] in simp)
  qed (use t o tframe_fs[OF t(3)] in simp_all)
qed

text \<open>An inode with a link count of 3 and the size 1500 is written, forgotten, and read into another entry of the table.\<close>

definition ex_inode :: inode where
  "ex_inode = \<lparr>i_dev = ROOTDEV, i_inum = 5, i_ref = 1, i_valid = True, i_type = T_DEVICE, i_major = 7, i_minor = 9, i_nlink = 3,
     i_size = 1500, i_addrs = (\<lambda>i. if i = 0 then 70 else if i = 12 then 71 else 0)\<rparr>"

definition ex_entry :: inode where
  "ex_entry = \<lparr>i_dev = ROOTDEV, i_inum = 5, i_ref = 1, i_valid = False, i_type = 0, i_major = 0, i_minor = 0, i_nlink = 0,
     i_size = 0, i_addrs = (\<lambda>_. 0)\<rparr>"

theorem iupdate_ilock_witness:
  "\<exists>(s :: fsst) t w. iupdate 0 s = Done () t \<and> inodes s 0 = ex_inode
     \<and> ilock 1 (t\<lparr>slocks := (slocks t)(INODE_SLEEP 1 := \<lparr>sl_locked = False, sl_pid = 0\<rparr>), inodes := \<lambda>_. ex_entry\<rparr>) = Done () w
     \<and> i_type (inodes w 1) = T_DEVICE \<and> i_major (inodes w 1) = 7 \<and> i_minor (inodes w 1) = 9 \<and> i_nlink (inodes w 1) = 3
     \<and> i_size (inodes w 1) = 1500 \<and> i_addrs (inodes w 1) 12 = 71"
proof -
  obtain r :: fsst where r: "tx 0 r {} Map.empty {}" using ex_fs by blast
  define s where "s = r\<lparr>inodes := \<lambda>_. ex_inode\<rparr>"
  have s: "tx 0 s {} Map.empty {}" "inodes s 0 = ex_inode" "i_dev (inodes s 0) = ROOTDEV" using r by (simp_all add: s_def ex_inode_def)
  have room: "tx_room {} (Map.empty :: nat \<rightharpoonup> nat \<times> uint) (Suc 1)" "tx_room {m} (Map.empty :: nat \<rightharpoonup> nat \<times> uint) 1" for m
    by (simp_all add: tx_room_def LOGSIZE_def MAXOPBLOCKS_def NBUF_def)
  let ?u = "\<lambda>t :: fsst. t\<lparr>slocks := (slocks t)(INODE_SLEEP 1 := \<lparr>sl_locked = False, sl_pid = 0\<rparr>), inodes := \<lambda>_. ex_entry\<rparr>"
  have u: "fresh_entry (?u t) 1" "view (?u t) = view t" "sb (?u t) = sb t" "i_inum (inodes (?u t) 1) = i_inum (inodes s 0)"
    "tx 0 (?u t) L H D = tx 0 t L H D" for t L H D
    by (simp_all add: fresh_entry_def ex_entry_def s(2) ex_inode_def)
  have ty: "i_type (inodes s 0) \<noteq> 0" by (simp add: s(2) ex_inode_def T_DEVICE_def)
  have em: "(Map.empty :: nat \<rightharpoonup> nat \<times> uint) (unat (iblk s 0)) = None" by simp
  have "\<exists>t w. iupdate 0 s = Done () t \<and> ilock 1 (?u t) = Done () w \<and> i_type (inodes w 1) = i_type (inodes s 0)
      \<and> i_major (inodes w 1) = i_major (inodes s 0) \<and> i_minor (inodes w 1) = i_minor (inodes s 0)
      \<and> i_nlink (inodes w 1) = i_nlink (inodes s 0) \<and> i_size (inodes w 1) = i_size (inodes s 0)
      \<and> i_addrs (inodes w 1) 12 = i_addrs (inodes s 0) 12"
    using iupdate_ilock[OF s(1) room(1) em s(3)]
    apply (elim exE conjE)
    subgoal premises P for t
    proof -
      have h: "tx 0 (?u t) {unat (iblk s 0)} Map.empty {} \<and> tx_room {unat (iblk s 0)} (Map.empty :: nat \<rightharpoonup> nat \<times> uint) 1 \<and> sb (?u t) = sb s
          \<and> (Map.empty :: nat \<rightharpoonup> nat \<times> uint) (unat (iblk s 0)) = None \<and> view (?u t) (unat (iblk s 0)) = view t (unat (iblk s 0))
          \<and> fresh_entry (?u t) 1 \<and> i_inum (inodes (?u t) 1) = i_inum (inodes s 0)"
        unfolding u(2-5) using P(2,4) room(2) u(1) by blast
      have "12 \<le> NDIRECT" by (simp add: NDIRECT_def)
      then show ?thesis using P(1) P(7)[rule_format, OF h] unfolding if_not_P[OF ty] by blast
    qed
    done
  moreover have "i_type ex_inode = T_DEVICE" "i_major ex_inode = 7" "i_minor ex_inode = 9" "i_nlink ex_inode = 3" "i_size ex_inode = 1500"
    "i_addrs ex_inode 12 = 71" by (simp_all add: ex_inode_def)
  ultimately show ?thesis using s(2) by metis
qed

end
