(* ===== verification/Trapspec.thy ===== *)
theory Trapspec
  imports Bootstate Procexec
begin

text \<open>
  What traps do: the interrupts taken in user space, the clock tick and its effect on the heat of a process, and system
  call dispatch.
\<close>

subsection \<open>Interrupts from user space\<close>

lemma external_not_8: "external_intr scause \<Longrightarrow> scause \<noteq> 8"
  by (auto simp: external_intr_def)

lemma devintr_external:
  assumes "external_intr (csr_scause s)" and "devintr s = Done w t"
  shows "w = 1"
  using assms by (auto simp: devintr_def kexec split: outcome.splits if_splits)

text \<open>C38: the branch of \<open>usertrap\<close> that adds 5 to the heat of the process is never taken. On an external interrupt \<open>devintr\<close>
  has already returned 1 before the branch is tested, so the trap does what \<open>devintr\<close> does, counts one
  interrupt, and nothing else.\<close>

theorem usertrap_heat_branch_dead:
  assumes "csr_scause s = scause" and "external_intr scause"
  shows "usertrap_dispatch pad junk p scause s = kbind devintr (\<lambda>_. kthen count_interrupt (kret 1)) s"
  using assms devintr_external[of s] external_not_8[OF assms(2)]
  by (auto simp: usertrap_dispatch_def kexec split: outcome.splits)

subsection \<open>The clock tick\<close>

lemma clockintr_exec [kexec]:
  assumes "held s = {}"
  shows "clockintr s = Done () (s\<lparr>ticks := ticks s + 1, procs := wakes (cur s) ChTicks (procs s)\<rparr>)"
  using assms by (simp add: clockintr_def kexec)

definition tick_procs :: "'a kos_scheme \<Rightarrow> nat \<Rightarrow> proc" where
  "tick_procs s = (if hartid s = 0 then wakes (cur s) ChTicks (procs s) else procs s)"

lemma devintr_timer:
  assumes "held s = {}" and "csr_scause s = 0x8000000000000001"
  shows "devintr s = Done 2 (s\<lparr>ticks := ticks s + (if hartid s = 0 then 1 else 0), procs := tick_procs s, csr_sip := csr_sip s AND NOT 2\<rparr>)"
proof -
  have "\<not> external_intr 0x8000000000000001" by (simp add: external_intr_def)
  then show ?thesis using assms by (simp add: devintr_def kexec tick_procs_def)
qed

lemma user_tick_exec:
  assumes "STATS_LOCK \<notin> held s" "PROC_LOCK p \<notin> held s" "PR_LOCK \<notin> held s" and "p_state (procs s p) = RUNNING"
  shows "\<exists>str. user_tick p s = Done () (s\<lparr>g_total_ticks := g_total_ticks s + 1, g_cpu_active_ticks := g_cpu_active_ticks s + 1,
    procs := (procs s)(p := (procs s p)\<lparr>p_cpu_heat := p_cpu_heat (procs s p) + 1\<rparr>), conout := conout s @ str\<rparr>)"
proof (cases "(p_cpu_heat (procs s p) + 1) mod 10 = 0")
  case True
  then show ?thesis using assms by (auto simp: user_tick_def kexec printed_def simp del: format.simps)
next
  case False
  then show ?thesis using assms by (auto simp: user_tick_def kexec intro: exI[of _ "[]"])
qed

text \<open>C27: a timer interrupt in user space makes the running process hotter by exactly one, counts one tick and one
  active tick, advances the clock on hart 0 only, and gives up the processor: the process is left RUNNABLE with its
  user program counter saved, holding only its own lock.\<close>

theorem user_timer_tick:
  assumes me: "cur s = Some p" "held s = {}" "p_state (procs s p) = RUNNING" "\<not> p_killed (procs s p)"
    and trap: "csr_scause s = 0x8000000000000001" "csr_sstatus s AND SSTATUS_SPP = 0"
  shows "\<exists>t. usertrap pad junk s = Swtch t \<and> held t = {PROC_LOCK p}
    \<and> p_state (procs t p) = RUNNABLE \<and> p_cpu_heat (procs t p) = p_cpu_heat (procs s p) + 1
    \<and> tf_epc (p_tf (procs t p)) = csr_sepc s
    \<and> ticks t = ticks s + (if hartid s = 0 then 1 else 0)
    \<and> g_total_ticks t = g_total_ticks s + 1 \<and> g_cpu_active_ticks t = g_cpu_active_ticks s + 1
    \<and> g_interrupt_count t = g_interrupt_count s + 1"
proof -
  let ?s1 = "s\<lparr>csr_stvec := k_kernelvec s, procs := (procs s)(p := (procs s p)\<lparr>p_tf := (p_tf (procs s p))\<lparr>tf_epc := csr_sepc s\<rparr>\<rparr>)\<rparr>"
  obtain s2 where d: "devintr ?s1 = Done 2 s2" and s2: "held s2 = {}" "cur s2 = Some p" "procs s2 p = procs ?s1 p"
      "ticks s2 = ticks s + (if hartid s = 0 then 1 else 0)" "g_total_ticks s2 = g_total_ticks s"
      "g_cpu_active_ticks s2 = g_cpu_active_ticks s" "g_interrupt_count s2 = g_interrupt_count s"
    using devintr_timer[of ?s1] me(1,2) trap(1) by (simp add: tick_procs_def)
  let ?s3 = "s2\<lparr>g_interrupt_count := g_interrupt_count s + 1\<rparr>"
  have disp: "usertrap_dispatch pad junk p 0x8000000000000001 ?s1 = Done 2 ?s3"
    using d s2 by (simp add: usertrap_dispatch_def count_interrupt_def kexec)
  obtain s4 where t: "user_tick p ?s3 = Done () s4" and s4: "held s4 = {}" "cur s4 = Some p"
      "procs s4 p = (procs s2 p)\<lparr>p_cpu_heat := p_cpu_heat (procs s2 p) + 1\<rparr>" "ticks s4 = ticks s2"
      "g_total_ticks s4 = g_total_ticks s + 1" "g_cpu_active_ticks s4 = g_cpu_active_ticks s + 1"
      "g_interrupt_count s4 = g_interrupt_count s + 1"
    using user_tick_exec[of ?s3 p] s2 me(3) by auto
  have "usertrap pad junk s = Swtch (s4\<lparr>held := {PROC_LOCK p}, procs := (procs s4)(p := (procs s4 p)\<lparr>p_state := RUNNABLE\<rparr>)\<rparr>)"
    using disp t yield_exec[OF s4(2,1)] me trap s2 by (simp add: usertrap_def kexec)
  then show ?thesis using s2 s4 by simp
qed

theorem usertrap_heat_branch_dead_witness:
  "external_intr 0x8000000000000009 \<and>
   usertrap_dispatch [] [] 0 0x8000000000000009 (boot_kos\<lparr>csr_scause := 0x8000000000000009\<rparr>)
     = kbind devintr (\<lambda>_. kthen count_interrupt (kret 1)) (boot_kos\<lparr>csr_scause := 0x8000000000000009\<rparr>)"
proof -
  have e: "external_intr 0x8000000000000009" by (simp add: external_intr_def)
  show ?thesis
    using usertrap_heat_branch_dead[of "boot_kos\<lparr>csr_scause := 0x8000000000000009\<rparr>" "0x8000000000000009", OF _ e] e by simp
qed

definition ex_running :: kos where
  "ex_running = boot_kos\<lparr>procs := \<lambda>_. zero_proc\<lparr>p_state := RUNNING, p_pid := 7\<rparr>\<rparr>"

theorem user_timer_tick_witness:
  "\<exists>t. usertrap [] [] (ex_running\<lparr>csr_scause := 0x8000000000000001, csr_sepc := 0x400\<rparr>) = Swtch t
     \<and> p_cpu_heat (procs t 0) = 1 \<and> ticks t = 1 \<and> p_state (procs t 0) = RUNNABLE"
  using user_timer_tick[of "ex_running\<lparr>csr_scause := 0x8000000000000001, csr_sepc := 0x400\<rparr>" 0 "[]" "[]"]
  by (auto simp: ex_running_def zero_proc_def)

subsection \<open>System calls\<close>

text \<open>The state in which \<open>usertrap\<close> calls \<open>syscall\<close>: the program counter is saved past the ecall and interrupts are on.\<close>

definition trap_entry :: "nat \<Rightarrow> 'a kos_scheme \<Rightarrow> 'a kos_scheme" where
  "trap_entry p s = s\<lparr>csr_stvec := k_kernelvec s,
     procs := (procs s)(p := (procs s p)\<lparr>p_tf := (p_tf (procs s p))\<lparr>tf_epc := csr_sepc s + 4\<rparr>\<rparr>), intr := True\<rparr>"

text \<open>C22: a system call and its return. When the entry \<open>n\<close> of the table that register a7 selects returns \<open>v\<close>, the trap returns
  to user space: a0 is \<open>v\<close>, execution goes on at the saved program counter, which was moved past the ecall, in user mode
  with interrupts enabled after the return and disabled until then, in the process's own page table, with the next trap
  going to uservec.\<close>

theorem ecall_returns:
  fixes s t :: "'a kos_scheme"
  assumes me: "cur s = Some p" "held s = {}" "\<not> p_killed (procs s p)"
    and trap: "csr_scause s = 8" "csr_sstatus s AND SSTATUS_SPP = 0"
    and num: "ucast (tf_a7 (p_tf (procs s p))) = (of_nat n :: uint)" "0 < n" "n < 23"
    and call: "the (syscalls pad junk ! n) (trap_entry p s) = Done v t"
    and t: "cur t = Some p" "held t = {}" "\<not> p_killed (procs t p)"
  shows "\<exists>u. usertrap pad junk s = Done (MAKE_SATP (p_pagetable (procs t p))) u
    \<and> tf_a0 (p_tf (procs u p)) = v \<and> csr_sepc u = tf_epc (p_tf (procs t p)) \<and> \<not> intr u
    \<and> csr_sstatus u = (csr_sstatus t AND NOT SSTATUS_SPP) OR SSTATUS_SPIE
    \<and> csr_stvec u = TRAMPOLINE + (k_uservec t - k_trampoline t)
    \<and> tf_kernel_sp (p_tf (procs u p)) = p_kstack (procs t p) + PGSIZE"
proof -
  have n: "unat (of_nat n :: uint) = n" using num(3) by (simp add: unat_of_nat)
  have s: "0 <s (of_nat n :: uint)" using sint_small[of "of_nat n"] n num(2,3) by (simp add: word_sless_alt)
  let ?tbl = "syscalls pad junk :: ('a kos_scheme, uint64) K option list"
  have len: "length ?tbl = 23" by (simp add: syscalls_def)
  have "list_all (\<lambda>x. x \<noteq> None) (tl ?tbl)" by (simp add: syscalls_def)
  then have "tl ?tbl ! (n - 1) \<noteq> None" using num(2,3) len by (simp add: list_all_length)
  then obtain f where f: "?tbl ! n = Some f" using num(2,3) len by (auto simp: nth_tl)
  let ?e = "trap_entry p s" and ?u = "t\<lparr>procs := (procs t)(p := (procs t p)\<lparr>p_tf := (p_tf (procs t p))\<lparr>tf_a0 := v\<rparr>\<rparr>)\<rparr>"
  have a7: "ucast (tf_a7 (p_tf (procs ?e p))) = (of_nat n :: uint)" using num(1) by (simp add: trap_entry_def)
  have "cur ?e = Some p" using me(1) by (simp add: trap_entry_def)
  then have "syscall pad junk ?e = Done () ?u"
    using a7 n s num(3) f call len by (simp add: syscall_def kexec Let_def set_a0_def)
  then have disp: "usertrap_dispatch pad junk p 8 (s\<lparr>csr_stvec := k_kernelvec s,
      procs := (procs s)(p := (procs s p)\<lparr>p_tf := (p_tf (procs s p))\<lparr>tf_epc := csr_sepc s\<rparr>\<rparr>)\<rparr>) = Done 0 ?u"
    using me(2,3) by (simp add: usertrap_dispatch_def kexec trap_entry_def)
  show ?thesis using disp me trap t by (simp add: usertrap_def usertrapret_def kexec)
qed

theorem ecall_returns_witness:
  "\<exists>u. usertrap [] [] (ex_running\<lparr>csr_scause := 8, csr_sepc := 0x400,
       procs := \<lambda>_. zero_proc\<lparr>p_state := RUNNING, p_pid := 7, p_tf := (const_trapframe 0)\<lparr>tf_a7 := 11\<rparr>\<rparr>\<rparr>) = Done (MAKE_SATP 0) u
     \<and> tf_a0 (p_tf (procs u 0)) = 7 \<and> csr_sepc u = 0x404"
proof -
  let ?s = "ex_running\<lparr>csr_scause := 8, csr_sepc := 0x400,
       procs := \<lambda>_. zero_proc\<lparr>p_state := RUNNING, p_pid := 7, p_tf := (const_trapframe 0)\<lparr>tf_a7 := 11\<rparr>\<rparr>\<rparr>"
  have "the (syscalls [] [] ! 11) (trap_entry 0 ?s) = Done 7 (trap_entry 0 ?s)"
    by (simp add: syscalls_def sys_getpid_def kexec trap_entry_def ex_running_def)
  from ecall_returns[OF _ _ _ _ _ _ _ _ this] show ?thesis
    by (auto simp add: ex_running_def trap_entry_def zero_proc_def)
qed

end
