(* ===== verification/Sysprocspec.thy ===== *)
theory Sysprocspec
  imports Trapspec Uvm
begin

text \<open>
  What the system calls of sysproc.c give to user programs: the lazily allocated heap (sbrk followed by the page fault of the
  first access), sleeping, and the time stamp of the activity monitor.
\<close>

unbundle bit_operations_syntax

declare mod_0_imp_dvd [rule del]

subsection \<open>The lazily allocated heap\<close>

lemma uvm_inv_cong:
  assumes "uvm_inv s p xs" and "mem t = mem s" "freelist t = freelist s" "free_pages t = free_pages s" "k_end t = k_end s" "KMEM_LOCK \<notin> held t"
  shows "uvm_inv t p xs"
proof -
  have "kmem_inv t xs = kmem_inv s xs" unfolding kmem_inv_def assms(2-5) by (rule refl)
  then have "pt_inv 2 t p xs" using uvm_invD(1)[OF assms(1)] assms(6) unfolding pt_inv_def assms(2,5) by blast
  then show ?thesis using assms(1) unfolding uvm_inv_def assms(2,5) by blast
qed

text \<open>\<open>heap_page\<close>: the page that contains \<open>va\<close> is mapped, writable by the user, and reads as zeroes.\<close>

definition heap_page :: "'a mst_scheme \<Rightarrow> addr \<Rightarrow> uint64 \<Rightarrow> bool" where
  "heap_page s pt va \<longleftrightarrow> (\<forall>vb<TRAPFRAME. PGROUNDDOWN vb = PGROUNDDOWN va \<longrightarrow> ubyte (mem s) pt vb = 0
     \<and> PTE_FLAGS (lookup 2 (mem s) pt vb) = PTE_R OR PTE_W OR PTE_U OR PTE_V)"

lemma lazy_alloc_fresh:
  assumes i: "uvm_inv s p xs" and va: "va < TRAPFRAME" and free: "\<not> pvalid (lookup 2 (mem s) p va)" and room: "3 \<le> length xs"
  shows "\<exists>t ys. lazy_alloc p va s = Done 0 t \<and> mem_step s t \<and> uvm_inv t p ys \<and> heap_page t p va"
proof -
  let ?a = "PGROUNDDOWN va" and ?perm = "PTE_R OR PTE_W OR PTE_U"
  have free': "\<not> pvalid (lookup 2 (mem s) p ?a)" using free by (simp add: lookup_PGROUNDDOWN)
  have perm: "?perm < 2 ^ 10" "?perm OR PTE_V \<noteq> PTE_V" by simp_all
  have "walkaddr p ?a s = Done 0 s"
    using walkaddr_exec[OF pt_invD(1)[OF uvm_invD(1)[OF i]], of ?a] free' by (simp add: Let_def)
  then have e: "lazy_alloc p va s = kbind (map_new_page p ?a zero_fill ?perm) (\<lambda>b. kret (if b then 0 else - 1)) s"
    unfolding lazy_alloc_eq by (simp add: kexec)
  obtain t n where r: "map_new_page p ?a zero_fill ?perm s = Done True t" and A: "new_page p s t xs n ?a ?perm zero_fill"
    using map_new_page_spec[OF i PGROUNDDOWN_less[OF va] PGROUNDDOWN_aligned free' perm zero_fill_local] room
    by (auto simp: no_page_def)
  have al: "hd xs mod 4096 = 0" and inv: "\<exists>ys. uvm_inv t p ys" and st: "mem_step s t" using A by (auto simp: new_page_def)
  have "ubyte (mem t) p vb = 0" if "vb < TRAPFRAME" "PGROUNDDOWN vb = ?a" for vb
    unfolding new_page_content(1)[OF A TRAPFRAME_MAXVA[OF that(1)] that(2)]
    by (rule zero_fill_in[OF al]) (use PGROUNDDOWN_add[OF al, of "vb - ?a"] PGROUNDDOWN_offset[of vb] that(2) in simp)
  moreover have "PTE_FLAGS (lookup 2 (mem t) p vb) = PTE_R OR PTE_W OR PTE_U OR PTE_V" if "vb < TRAPFRAME" "PGROUNDDOWN vb = ?a" for vb
    using new_page_content(2)[OF A TRAPFRAME_MAXVA[OF that(1)] that(2)] by (simp add: or.assoc)
  ultimately have "heap_page t p va" by (simp add: heap_page_def)
  moreover have "lazy_alloc p va s = Done 0 t" unfolding e using r by (simp add: kexec)
  ultimately show ?thesis using inv st by blast
qed

text \<open>A growing \<open>sbrk\<close> changes the size of the process and nothing else.\<close>

definition grown :: "nat \<Rightarrow> uint \<Rightarrow> 'a kos_scheme \<Rightarrow> 'a kos_scheme" where
  "grown p n s = s\<lparr>procs := (procs s)(p := (procs s p)\<lparr>p_sz := p_sz (procs s p) + scast n\<rparr>)\<rparr>"

lemma sys_sbrk_grow:
  assumes "cur s = Some p" and "ucast (tf_a0 (p_tf (procs s p))) = n" and "0 <s n"
  shows "sys_sbrk s = Done (p_sz (procs s p)) (grown p n s)"
  using assms by (simp add: sys_sbrk_def argint_def argraw_def kexec grown_def)

lemma printf_msg:
  assumes "fits fmt ap" and "PR_LOCK \<notin> held s"
  shows "\<exists>str. printf fmt ap s = Done () (printed str s)"
  using printf_fits[of fmt ap s] assms by blast

lemma printed_mst [simp]:
  "mem (printed str s) = mem s" "freelist (printed str s) = freelist s" "free_pages (printed str s) = free_pages s"
  "k_end (printed str s) = k_end s"
  by (simp_all add: printed_def)

lemma page_fault_beyond:
  assumes "held s = {}" and "p_sz (procs s p) \<le> csr_stval s"
  shows "\<exists>t. page_fault p scause s = Done () t \<and> p_killed (procs t p) \<and> mem t = mem s"
  using assms by (auto simp: page_fault_def kexec arrow_def simp del: format.simps)

lemma page_fault_lazy:
  assumes h: "held s = {}" and va: "csr_stval s < p_sz (procs s p)" "csr_stval s < TRAPFRAME"
    and i: "uvm_inv s (p_pagetable (procs s p)) xs" "3 \<le> length xs"
    and free: "\<not> pvalid (lookup 2 (mem s) (p_pagetable (procs s p)) (csr_stval s))"
  shows "\<exists>t ys. page_fault p scause s = Done () t \<and> procs t = procs s \<and> uvm_inv t (p_pagetable (procs s p)) ys
    \<and> heap_page t (p_pagetable (procs s p)) (csr_stval s)"
proof -
  obtain str where pr: "printf (''[PAGE FAULT] pid=%d va=%p scause=%p'' @ [CHR 0x0A])
      [FNum (scast (p_pid (procs s p))), FNum (csr_stval s), FNum scause] s = Done () (printed str s)"
    using printf_msg[of "''[PAGE FAULT] pid=%d va=%p scause=%p'' @ [CHR 0x0A]"
      "[FNum (scast (p_pid (procs s p))), FNum (csr_stval s), FNum scause]" s] h by auto
  have "uvm_inv (printed str s) (p_pagetable (procs s p)) xs" by (rule uvm_inv_cong[OF i(1)]) (simp_all add: h)
  from lazy_alloc_fresh[OF this va(2) _ i(2)] free obtain t ys where t:
      "lazy_alloc (p_pagetable (procs s p)) (csr_stval s) (printed str s) = Done 0 t" "mem_step (printed str s) t"
      "uvm_inv t (p_pagetable (procs s p)) ys" "heap_page t (p_pagetable (procs s p)) (csr_stval s)"
    by auto
  have "page_fault p scause s = Done () t" using pr t(1) va(1) by (simp add: page_fault_def kexec del: format.simps)
  then show ?thesis using t(3,4) mem_step_frame(2)[OF t(2)] by auto
qed

text \<open>C9: the heap is allocated lazily and the program cannot tell. A growing sbrk returns the old size and changes only the size
  of the process: no page is taken. The first access to a byte of the new region faults; with three free pages the
  handler then maps a page that is user-writable and reads as zeroes, and does not kill the process, while an access past the
  new size kills it.\<close>

theorem lazy_heap:
  fixes n :: uint
  assumes me: "cur s = Some p" "held s = {}" and n: "ucast (tf_a0 (p_tf (procs s p))) = n" "0 <s n"
    and i: "uvm_inv s (p_pagetable (procs s p)) xs" "3 \<le> length xs"
    and va: "va < p_sz (procs s p) + scast n" "va < TRAPFRAME" "\<not> pvalid (lookup 2 (mem s) (p_pagetable (procs s p)) va)"
  shows "\<exists>t. sys_sbrk s = Done (p_sz (procs s p)) t \<and> p_sz (procs t p) = p_sz (procs s p) + scast n
    \<and> mem t = mem s \<and> free_pages t = free_pages s
    \<and> (\<exists>u ys. page_fault p 15 (t\<lparr>csr_stval := va\<rparr>) = Done () u \<and> procs u = procs t
          \<and> uvm_inv u (p_pagetable (procs s p)) ys \<and> heap_page u (p_pagetable (procs s p)) va)
    \<and> (\<forall>vb. p_sz (procs s p) + scast n \<le> vb \<longrightarrow> (\<exists>u. page_fault p 15 (t\<lparr>csr_stval := vb\<rparr>) = Done () u \<and> p_killed (procs u p)))"
proof -
  let ?t = "grown p n s" let ?f = "?t\<lparr>csr_stval := va\<rparr>"
  have f: "held ?f = {}" "csr_stval ?f = va" "p_sz (procs ?f p) = p_sz (procs s p) + scast n" "mem ?f = mem s"
      "p_pagetable (procs ?f p) = p_pagetable (procs s p)" using me(2) by (simp_all add: grown_def)
  have "uvm_inv ?f (p_pagetable (procs ?f p)) xs" unfolding f(5) by (rule uvm_inv_cong[OF i(1)]) (simp_all add: grown_def me(2))
  from page_fault_lazy[OF f(1) _ _ this i(2), where scause = 15] obtain u ys where u: "page_fault p 15 ?f = Done () u" "procs u = procs ?f"
      "uvm_inv u (p_pagetable (procs s p)) ys" "heap_page u (p_pagetable (procs s p)) va"
    using va unfolding f by auto
  moreover have "\<exists>u. page_fault p 15 (?t\<lparr>csr_stval := vb\<rparr>) = Done () u \<and> p_killed (procs u p)"
    if "p_sz (procs s p) + scast n \<le> vb" for vb
    using page_fault_beyond[of "?t\<lparr>csr_stval := vb\<rparr>" p 15] that f(1,3) by auto
  moreover have "mem ?t = mem s" "free_pages ?t = free_pages s" "p_sz (procs ?t p) = p_sz (procs s p) + scast n" "procs ?f = procs ?t"
    by (simp_all add: grown_def)
  ultimately show ?thesis using sys_sbrk_grow[OF me(1) n] by metis
qed

definition ex_heap :: kos where
  "ex_heap = boot_kos\<lparr>mem := mem ex_vm, freelist := freelist ex_vm, free_pages := free_pages ex_vm,
     procs := \<lambda>_. zero_proc\<lparr>p_state := RUNNING, p_pagetable := 0x87FFF000, p_sz := 0x5000,
       p_tf := (const_trapframe 0)\<lparr>tf_a0 := 0x1000\<rparr>\<rparr>\<rparr>"

lemma ex_heap_inv: "uvm_inv ex_heap 0x87FFF000 ex_free"
proof -
  have "k_end ex_vm = 0x80020000" by (simp add: ex_vm_def ex_free_def)
  then show ?thesis by (intro uvm_inv_cong[OF ex_vm_inv]) (simp_all add: ex_heap_def, simp add: boot_kos_defs)
qed

theorem lazy_heap_witness:
  "\<exists>t u. sys_sbrk ex_heap = Done 0x5000 t \<and> p_sz (procs t 0) = 0x6000 \<and> page_fault 0 15 (t\<lparr>csr_stval := 0x5123\<rparr>) = Done () u
     \<and> heap_page u 0x87FFF000 0x5123"
proof -
  have f: "cur ex_heap = Some 0" "held ex_heap = {}" "p_pagetable (procs ex_heap 0) = 0x87FFF000" "p_sz (procs ex_heap 0) = 0x5000"
      "ucast (tf_a0 (p_tf (procs ex_heap 0))) = (0x1000 :: uint)" "mem ex_heap = mem ex_vm"
    by (simp_all add: ex_heap_def)
  have "\<exists>t. sys_sbrk ex_heap = Done 0x5000 t \<and> p_sz (procs t 0) = 0x5000 + scast (0x1000 :: uint)
    \<and> mem t = mem ex_heap \<and> free_pages t = free_pages ex_heap
    \<and> (\<exists>u ys. page_fault 0 15 (t\<lparr>csr_stval := 0x5123\<rparr>) = Done () u \<and> procs u = procs t
          \<and> uvm_inv u 0x87FFF000 ys \<and> heap_page u 0x87FFF000 0x5123)
    \<and> (\<forall>vb. 0x5000 + scast (0x1000 :: uint) \<le> vb \<longrightarrow> (\<exists>u. page_fault 0 15 (t\<lparr>csr_stval := vb\<rparr>) = Done () u \<and> p_killed (procs u 0)))"
    by (rule lazy_heap[of ex_heap 0 "0x1000" ex_free "0x5123", unfolded f(3,4)])
      (use ex_heap_inv in \<open>simp_all add: f ex_free_def TRAPFRAME_eq ex_vm_empty word_sless_alt\<close>)
  then show ?thesis by auto
qed

subsection \<open>Sleeping\<close>

lemma low_word: "unat (ucast (t :: uint64) :: uint) = unat t mod 2 ^ 32"
  by (simp add: unsigned_ucast_eq take_bit_eq_mod)

lemma high_part:
  fixes t :: uint64
  shows "unat (t - ucast (ucast t :: uint)) = unat t - unat t mod 2 ^ 32"
proof -
  have "unat (ucast (ucast t :: uint) :: uint64) = unat t mod 2 ^ 32"
    using low_word[of t] by (simp add: unat_mod unsigned_ucast_eq take_bit_eq_mod)
  then show ?thesis by (simp add: unat_sub_if')
qed

lemma scast_nonneg:
  fixes n :: uint
  assumes "0 \<le> sint n"
  shows "unat (scast n :: uint64) = nat (sint n)" "nat (sint n) < 2 ^ 31"
proof -
  have b: "sint n < 2 ^ 31" using sint_less[of n] by simp
  have "Word.uint (word_of_int (sint n) :: uint64) = sint n"
    unfolding uint_word_of_int by (rule mod_pos_pos_trivial[OF assms]) (use b in simp)
  moreover have "(scast n :: uint64) = word_of_int (sint n)" by (rule scast_eq)
  ultimately show "unat (scast n :: uint64) = nat (sint n)" by (simp only: unat_eq_nat_uint)
  show "nat (sint n) < 2 ^ 31" using b by (simp add: nat_less_iff[OF assms])
qed

text \<open>C39: sleep stops working after 2^32 clock ticks. \<open>ticks0\<close> is a 32-bit variable while \<open>ticks\<close> has 64 bits, so their difference
  is then at least 2^32: whatever its argument, sleep returns 0 at once and changes nothing.\<close>

theorem sys_sleep_wraps:
  assumes me: "cur s = Some p" "TICKS_LOCK \<notin> held s" and t: "2 ^ 32 \<le> ticks s"
  shows "sys_sleep s = Done 0 s"
proof -
  define n :: uint where "n = (let a = ucast (tf_a0 (p_tf (procs s p))) :: uint in if a <s 0 then 0 else a)"
  have pos: "0 \<le> sint n" by (simp add: n_def Let_def word_sless_alt not_less)
  have "(2 :: nat) ^ 31 < 2 ^ 32" by simp
  then have n: "unat (scast n :: uint64) < 2 ^ 32" unfolding scast_nonneg(1)[OF pos] by (rule order.strict_trans[OF scast_nonneg(2)[OF pos]])
  have "2 ^ 32 \<le> unat (ticks s)" using t by (simp add: word_le_nat_alt)
  then have "1 \<le> unat (ticks s) div 2 ^ 32" by simp
  moreover have "unat (ticks s) - unat (ticks s) mod 2 ^ 32 = unat (ticks s) div 2 ^ 32 * 2 ^ 32" by (simp add: minus_mod_eq_div_mult)
  ultimately have "2 ^ 32 \<le> unat (ticks s) - unat (ticks s) mod 2 ^ 32" by simp
  then have "\<not> ticks s - ucast (ucast (ticks s) :: uint) < scast n" using n unfolding word_less_nat_alt high_part not_less by (rule order.strict_implies_order[OF order.strict_trans2, rotated])
  then show ?thesis using me by (simp add: sys_sleep_def sys_sleep_loop_def argint_def argraw_def kexec n_def Let_def)
qed

theorem sys_sleep_wraps_witness:
  "sys_sleep (ex_heap\<lparr>ticks := 0x100000005\<rparr>) = Done 0 (ex_heap\<lparr>ticks := 0x100000005\<rparr>)"
  using sys_sleep_wraps[of "ex_heap\<lparr>ticks := 0x100000005\<rparr>" 0] by (simp add: ex_heap_def)

text \<open>Until the 32-bit counter wraps, sleep waits for exactly as many ticks as asked. Each time it tests, the process goes to sleep on the clock if
  fewer than \<open>n\<close> ticks have passed since \<open>ticks0\<close>, and returns 0 otherwise.\<close>

theorem sys_sleep_waits:
  assumes me: "cur s = Some p" "held s = {TICKS_LOCK}" "\<not> p_killed (procs s p)"
    and t: "unat ticks0 \<le> unat (ticks s)" and n: "0 \<le> sint n"
  shows "sys_sleep_loop ticks0 n s =
    (if unat (ticks s) - unat ticks0 < nat (sint n)
     then Swtch (s\<lparr>held := {PROC_LOCK p}, procs := (procs s)(p := sleep_mark ChTicks (procs s p))\<rparr>)
     else Done 0 (s\<lparr>held := {}\<rparr>))"
proof -
  have u: "unat (ucast ticks0 :: uint64) = unat ticks0"
  proof -
    have "unat ticks0 < 2 ^ 32" using unsigned_less[of ticks0, where ?'a = nat] by simp
    then show ?thesis by (simp add: unsigned_ucast_eq take_bit_nat_eq_self)
  qed
  have "unat (ticks s - ucast ticks0) = unat (ticks s) - unat ticks0" using t u by (simp add: unat_sub_if')
  then have "ticks s - ucast ticks0 < scast n \<longleftrightarrow> unat (ticks s) - unat ticks0 < nat (sint n)"
    unfolding word_less_nat_alt scast_nonneg(1)[OF n] by (simp only:)
  then show ?thesis using me sleep_exec[OF me(1,2), of ChTicks] by (simp add: sys_sleep_loop_def kexec)
qed

theorem sys_sleep_waits_witness:
  "sys_sleep_loop 4 10 (ex_heap\<lparr>held := {TICKS_LOCK}, ticks := 14\<rparr>) = Done 0 (ex_heap\<lparr>held := {}, ticks := 14\<rparr>)"
  using sys_sleep_waits[of "ex_heap\<lparr>held := {TICKS_LOCK}, ticks := 14\<rparr>" 0 4 10] by (simp add: ex_heap_def zero_proc_def)

subsection \<open>The time stamp of the activity monitor\<close>

definition digit2 :: "byte list \<Rightarrow> nat \<Rightarrow> nat" where
  "digit2 bs i = (unat (bs ! i) - 48) * 10 + (unat (bs ! Suc i) - 48)"

lemma digit_byte: "n < 10 \<Longrightarrow> unat (of_nat n + 48 :: byte) = n + 48"
  by (simp add: unat_word_ariths unat_of_nat)

lemma fmt_int_digits:
  assumes "n < 100"
  shows "\<exists>a b. fmt_int n = [of_nat a + 48, of_nat b + 48] \<and> a < 10 \<and> b < 10 \<and> a * 10 + b = n"
proof (cases "n < 10")
  case True
  then show ?thesis by (intro exI[of _ 0] exI[of _ n]) (simp add: fmt_int_def)
next
  case False
  then show ?thesis using assms by (intro exI[of _ "n div 10"] exI[of _ "n mod 10"]) (simp add: fmt_int_def less_mult_imp_div_less)
qed

lemma clock_hms_value:
  assumes "clock_hms t = (h, m, s)"
  shows "h < 24" "m < 60" "s < 60" "h * 3600 + m * 60 + s = (19 * 3600 + 30 * 60 + unat t div 10) mod 86400"
proof -
  let ?T = "unat t div 10" let ?M = "30 + ?T div 60" let ?H = "19 + ?M div 60"
  have b: "unat t < 2 ^ 64" by (rule unat_lt64)
  have T: "unat (t div 10) = ?T" by (simp add: unat_div)
  have plus: "unat (k + w) = unat k + unat w" if "unat k < 2 ^ 63" "unat w < 2 ^ 63" for k w :: uint64
    using that by (simp add: unat_word_ariths)
  let ?W = "30 + t div 10 div 60"
  have M: "unat ?W = ?M" using b plus[of 30 "t div 10 div 60"] T by (simp add: unat_div less_mult_imp_div_less)
  have "unat (?W div 60) = ?M div 60" unfolding unat_div M by simp
  then have H: "unat (19 + ?W div 60) = ?H" using b plus[of 19 "?W div 60"] by (simp add: less_mult_imp_div_less)
  have e: "h = ?H mod 24" "m = ?M mod 60" "s = ?T mod 60"
    using assms T M H by (auto simp: clock_hms_def Let_def unat_mod)
  show "h < 24" "m < 60" "s < 60" using e by simp_all
  have "19 * 3600 + 30 * 60 + ?T = 86400 * (?H div 24) + (h * 3600 + m * 60 + s)"
    using div_mult_mod_eq[of ?H 24] div_mult_mod_eq[of ?M 60] div_mult_mod_eq[of ?T 60] e by linarith
  then show "h * 3600 + m * 60 + s = (19 * 3600 + 30 * 60 + ?T) mod 86400"
    using \<open>h < 24\<close> \<open>m < 60\<close> \<open>s < 60\<close> by simp
qed

text \<open>The time stamp that getactivity returns is always a well-formed "2025-12-22 HH:MM:SS" with its terminating NUL, in 32 bytes,
  and the time of day it shows is 19:30:00 plus one second for every ten ticks since boot, modulo 24 hours.\<close>

theorem timestamp_valid:
  fixes t :: uint64
  assumes "length junk = 12"
  defines "ts \<equiv> timestamp junk t"
  shows "length ts = 32 \<and> take 11 ts = date_prefix \<and> ts ! 13 = 58 \<and> ts ! 16 = 58 \<and> ts ! 19 = 0
    \<and> digit2 ts 11 < 24 \<and> digit2 ts 14 < 60 \<and> digit2 ts 17 < 60
    \<and> digit2 ts 11 * 3600 + digit2 ts 14 * 60 + digit2 ts 17 = (19 * 3600 + 30 * 60 + unat t div 10) mod 86400"
proof -
  obtain h m s where c: "clock_hms t = (h, m, s)" by (cases "clock_hms t")
  note C = clock_hms_value[OF c]
  obtain a b where h: "fmt_int h = [of_nat a + 48, of_nat b + 48]" "a < 10" "b < 10" "a * 10 + b = h" using fmt_int_digits[of h] C(1) by auto
  obtain a' b' where m: "fmt_int m = [of_nat a' + 48, of_nat b' + 48]" "a' < 10" "b' < 10" "a' * 10 + b' = m" using fmt_int_digits[of m] C(2) by auto
  obtain a'' b'' where s: "fmt_int s = [of_nat a'' + 48, of_nat b'' + 48]" "a'' < 10" "b'' < 10" "a'' * 10 + b'' = s" using fmt_int_digits[of s] C(3) by auto
  have ts: "ts = date_prefix @ [of_nat a + 48, of_nat b + 48, 58, of_nat a' + 48, of_nat b' + 48, 58, of_nat a'' + 48, of_nat b'' + 48, 0] @ junk"
    using c h(1) m(1) s(1) assms(1) by (simp add: ts_def timestamp_def)
  have d: "digit2 ts 11 = h" "digit2 ts 14 = m" "digit2 ts 17 = s"
    unfolding ts digit2_def using h m s by (simp_all add: date_prefix_def digit_byte)
  show ?thesis unfolding d using C ts assms(1) by (simp add: date_prefix_def)
qed

theorem timestamp_valid_witness:
  "take 19 (timestamp (replicate 12 0) 605) = [50, 48, 50, 53, 45, 49, 50, 45, 50, 50, 32, 49, 57, 58, 51, 49, 58, 48, 48]
   \<and> digit2 (timestamp (replicate 12 0) 605) 14 < 60"
proof
  show "digit2 (timestamp (replicate 12 0) 605) 14 < 60" using timestamp_valid[of "replicate 12 0" 605] by simp
  have "unat (605 div 10 :: uint64) = 60" by simp
  show "take 19 (timestamp (replicate 12 0) 605) = [50, 48, 50, 53, 45, 49, 50, 45, 50, 50, 32, 49, 57, 58, 51, 49, 58, 48, 48]"
    by (simp add: timestamp_def clock_hms_def fmt_int_def date_prefix_def Let_def)
qed

end
