(* ===== verification/Ucopy.thy ===== *)
theory Ucopy
  imports Uvm
begin

text \<open>
  \<open>copyout\<close>, \<open>copyin\<close>, \<open>copyinstr\<close> and \<open>uvmcopy\<close> of kernel/vm.c against the view of user memory as
  bytes at virtual addresses: the copies go through the page table page by page, and the
  theorems say what they do to the bytes.
\<close>

unbundle bit_operations_syntax

declare mod_0_imp_dvd [rule del]

lemma poke_at:
  "length bs \<le> 2 ^ 64 \<Longrightarrow>
   poke m a bs x = (if unat (x - a) < length bs then bs ! unat (x - a) else m x)"
proof (induction bs arbitrary: m a)
  case Nil
  then show ?case by simp
next
  case (Cons b bs)
  show ?case
  proof (cases "x = a")
    case True
    have "unat (a - (a + 1)) = 2 ^ 64 - 1" by (simp add: unsigned_minus_1_eq_mask mask_eq_exp_minus_1)
    then show ?thesis using Cons True by simp
  next
    case False
    then have ne: "x - a \<noteq> 0" by simp
    then have u: "unat (x - a) = Suc (unat (x - (a + 1)))"
      by (metis diff_diff_eq unat_minus_one Suc_pred' unat_gt_0 word_neq_0_conv)
    show ?thesis using Cons False by (simp add: u)
  qed
qed

lemma in_chunk:
  assumes "i < 4096 - unat (va - PGROUNDDOWN va)"
  shows "PGROUNDDOWN (va + of_nat i) = PGROUNDDOWN va"
    "va + of_nat i - PGROUNDDOWN (va + of_nat i) = va - PGROUNDDOWN va + of_nat i"
proof -
  have "unat (va - PGROUNDDOWN va + of_nat i) = unat (va - PGROUNDDOWN va) + i"
    using assms by (simp add: unat_word_ariths unat_of_nat)
  then have "PGROUNDDOWN (PGROUNDDOWN va + (va - PGROUNDDOWN va + of_nat i)) = PGROUNDDOWN va"
    by (intro PGROUNDDOWN_add) (use assms in simp_all)
  then show a: "PGROUNDDOWN (va + of_nat i) = PGROUNDDOWN va" by (simp add: add.assoc[symmetric])
  show "va + of_nat i - PGROUNDDOWN (va + of_nat i) = va - PGROUNDDOWN va + of_nat i"
    unfolding a by simp
qed

lemma next_page: "PGROUNDDOWN va + PGSIZE = va + of_nat (4096 - unat (va - PGROUNDDOWN va))"
proof -
  have "unat (va - PGROUNDDOWN va) \<le> 4096" by (simp add: PGROUNDDOWN_offset)
  then have "(of_nat (4096 - unat (va - PGROUNDDOWN va)) :: uint64) = 4096 - (va - PGROUNDDOWN va)"
    by (simp add: of_nat_diff)
  then show ?thesis by (simp add: PGSIZE_def)
qed

text \<open>The addresses of a buffer of \<open>n\<close> bytes at \<open>va\<close> that are user-accessible (and writable).\<close>

definition readable :: "'a mst_scheme \<Rightarrow> addr \<Rightarrow> uint64 \<Rightarrow> nat \<Rightarrow> bool" where
  "readable s p va n \<longleftrightarrow> unat va + n \<le> unat TRAPFRAME \<and>
     (\<forall>i<n. let e = lookup 2 (mem s) p (va + of_nat i) in pvalid e \<and> e AND PTE_U \<noteq> 0)"

definition writable :: "'a mst_scheme \<Rightarrow> addr \<Rightarrow> uint64 \<Rightarrow> nat \<Rightarrow> bool" where
  "writable s p va n \<longleftrightarrow> readable s p va n \<and> (\<forall>i<n. lookup 2 (mem s) p (va + of_nat i) AND PTE_W \<noteq> 0)"

lemma buf_addr:
  assumes "unat va + n \<le> unat TRAPFRAME" and "i < n"
  shows "va + of_nat i < TRAPFRAME"
proof -
  have "unat (va + of_nat i) = unat va + i"
    by (rule unat_offset) (use assms in \<open>simp add: TRAPFRAME_eq\<close>)
  then show ?thesis using assms by (simp add: word_less_nat_alt)
qed

lemma offset_offset: "(va :: uint64) + of_nat k + of_nat i = va + of_nat (k + i)"
  by (simp add: add.assoc)

lemma readable_tail:
  assumes "readable s p va n" and "k \<le> n"
  shows "readable s p (va + of_nat k) (n - k)"
proof -
  have u: "unat va + n \<le> unat TRAPFRAME" using assms(1) by (simp add: readable_def)
  then have "unat (va + of_nat k) = unat va + k"
    by (intro unat_offset) (use assms(2) in \<open>simp add: TRAPFRAME_eq\<close>)
  moreover have "k + i < n" if "i < n - k" for i using that by simp
  ultimately show ?thesis
    using assms u unfolding readable_def offset_offset by (simp del: of_nat_add)
qed

lemma writable_tail:
  assumes "writable s p va n" and "k \<le> n"
  shows "writable s p (va + of_nat k) (n - k)"
proof -
  have "k + i < n" if "i < n - k" for i using that by simp
  then show ?thesis
    using assms readable_tail[OF _ assms(2)] unfolding writable_def offset_offset by blast
qed

subsection \<open>copyin\<close>

lemma upt_split: "k \<le> n \<Longrightarrow> [0..<n] = [0..<k] @ map ((+) k) [0..<n - k]"
  by (rule nth_equalityI) (auto simp: nth_append)

lemma peek_chunk:
  assumes "n \<le> 4096 - unat (va - PGROUNDDOWN va)"
  shows "peek (mem s) (PTE2PA (lookup 2 (mem s) p va) + (va - PGROUNDDOWN va)) n
    = map (\<lambda>i. ubyte (mem s) p (va + of_nat i)) [0..<n]"
proof -
  have "mem s (PTE2PA (lookup 2 (mem s) p va) + (va - PGROUNDDOWN va) + of_nat i) = ubyte (mem s) p (va + of_nat i)"
    if "i < n" for i
  proof -
    have i: "i < 4096 - unat (va - PGROUNDDOWN va)" using assms that by simp
    have "lookup 2 (mem s) p (va + of_nat i) = lookup 2 (mem s) p va"
      by (rule lookup_page[OF in_chunk(1)[OF i]])
    then show ?thesis unfolding ubyte_def in_chunk(2)[OF i] by (simp add: add.assoc)
  qed
  then show ?thesis by (simp add: peek_def)
qed

lemma walkaddr_user:
  assumes i: "uvm_inv s p xs" and r: "readable s p va n" and n: "0 < n"
  shows "walkaddr p (PGROUNDDOWN va) s = Done (PTE2PA (lookup 2 (mem s) p va)) s"
    "PTE2PA (lookup 2 (mem s) p va) \<noteq> 0" "va < TRAPFRAME" "pvalid (lookup 2 (mem s) p va)"
proof -
  have u: "unat va + n \<le> unat TRAPFRAME" and e: "pvalid (lookup 2 (mem s) p va)" "lookup 2 (mem s) p va AND PTE_U \<noteq> 0"
    using r n by (auto simp: readable_def Let_def dest: spec[of _ 0])
  have "unat va < unat TRAPFRAME" using u n by linarith
  then show t: "va < TRAPFRAME" by (simp add: word_less_nat_alt)
  show "pvalid (lookup 2 (mem s) p va)" by (rule e(1))
  show "walkaddr p (PGROUNDDOWN va) s = Done (PTE2PA (lookup 2 (mem s) p va)) s"
    using walkaddr_exec[OF pt_invD(1)[OF uvm_invD(1)[OF i]], of "PGROUNDDOWN va"] e
      PGROUNDDOWN_less[OF TRAPFRAME_MAXVA[OF t]]
    by (simp add: lookup_PGROUNDDOWN Let_def)
  show "PTE2PA (lookup 2 (mem s) p va) \<noteq> 0" using uvm_invD(2)[OF i t e(1)] page_ok_facts(2) by blast
qed

lemma copyin_bytes:
  assumes "uvm_inv s p xs" and "readable s p va n"
  shows "copyin p va n s = Done (0, map (\<lambda>i. ubyte (mem s) p (va + of_nat i)) [0..<n]) s"
  using assms(2)
proof (induction n arbitrary: va rule: less_induct)
  case (less n)
  show ?case
  proof (cases "n = 0")
    case True
    then show ?thesis by (simp add: copyin.simps kexec)
  next
    case False
    let ?o = "4096 - unat (va - PGROUNDDOWN va)" let ?k = "min ?o n"
    note W = walkaddr_user[OF assms(1) less.prems] note W' = W[OF False[unfolded neq0_conv]]
    have k: "0 < ?k" "?k \<le> n" "?k \<le> ?o" using page_room[of va] False by auto
    have rest: "copyin p (PGROUNDDOWN va + PGSIZE) (n - ?k) s =
        Done (0, map (\<lambda>i. ubyte (mem s) p (va + of_nat (?k + i))) [0..<n - ?k]) s"
    proof (cases "?o \<le> n")
      case True
      then have e: "PGROUNDDOWN va + PGSIZE = va + of_nat ?k" unfolding next_page by (simp add: min_absorb1)
      have ae: "va + of_nat ?k + of_nat i = va + of_nat (?k + i)" for i by simp
      have "copyin p (va + of_nat ?k) (n - ?k) s =
          Done (0, map (\<lambda>i. ubyte (mem s) p (va + of_nat ?k + of_nat i)) [0..<n - ?k]) s"
        by (rule less.IH) (use k readable_tail[OF less.prems k(2)] in auto)
      then show ?thesis unfolding e ae .
    next
      case False
      then show ?thesis by (simp add: copyin.simps kexec min_absorb2)
    qed
    have sp: "[0..<n] = [0..<?k] @ map ((+) ?k) [0..<n - ?k]"
      using k(2) upt_split[of ?k n] by simp
    have "copyin p va n s = Done (0, map (\<lambda>i. ubyte (mem s) p (va + of_nat i)) [0..<?k]
        @ map (\<lambda>i. ubyte (mem s) p (va + of_nat (?k + i))) [0..<n - ?k]) s"
      using False W'(1,2) rest peek_chunk[OF k(3), of s p]
      by (subst copyin.simps) (simp add: kexec Let_def)
    also have "map (\<lambda>i. ubyte (mem s) p (va + of_nat i)) [0..<?k]
        @ map (\<lambda>i. ubyte (mem s) p (va + of_nat (?k + i))) [0..<n - ?k]
        = map (\<lambda>i. ubyte (mem s) p (va + of_nat i)) [0..<n]"
      unfolding sp by (simp add: comp_def)
    finally show ?thesis .
  qed
qed

subsection \<open>copyout\<close>

text \<open>\<open>uwritten p s t xs va bs\<close>: the bytes \<open>bs\<close> have been written at \<open>va\<close>; every other mapped byte, the
  mapping and the free list are as before.\<close>

definition uwritten :: "addr \<Rightarrow> 'a mst_scheme \<Rightarrow> 'a mst_scheme \<Rightarrow> addr list \<Rightarrow> uint64 \<Rightarrow> byte list \<Rightarrow> bool" where
  "uwritten p s t xs va bs \<longleftrightarrow> mem_step s t \<and> uvm_inv t p xs
     \<and> (\<forall>vb. lookup 2 (mem t) p vb = lookup 2 (mem s) p vb)
     \<and> (\<forall>vb<TRAPFRAME. pvalid (lookup 2 (mem s) p vb) \<longrightarrow> ubyte (mem t) p vb =
          (if unat (vb - va) < length bs then bs ! unat (vb - va) else ubyte (mem s) p vb))"

lemma unat_add_page: "unat (x :: uint64) + unat y < 4096 \<Longrightarrow> unat (x + y) < 4096"
  by (simp add: unat_word_ariths)

lemma user_write:
  assumes i: "uvm_inv s p xs" and va: "va < TRAPFRAME" "pvalid (lookup 2 (mem s) p va)"
    and len: "length bs \<le> 4096 - unat (va - PGROUNDDOWN va)"
  defines "t \<equiv> s\<lparr>mem := poke (mem s) (PTE2PA (lookup 2 (mem s) p va) + (va - PGROUNDDOWN va)) bs\<rparr>"
  shows "uwritten p s t xs va bs"
proof -
  let ?pa = "PTE2PA (lookup 2 (mem s) p va)" and ?o = "va - PGROUNDDOWN va"
  note D = uvm_invD[OF i] note P = pt_invD[OF D(1)]
  have l64: "length bs \<le> 2 ^ 64" using len by simp
  have out: "mem t b = mem s b" if "PGROUNDDOWN b \<noteq> ?pa" for b
  proof -
    have "\<not> unat (b - (?pa + ?o)) < length bs"
    proof
      assume h: "unat (b - (?pa + ?o)) < length bs"
      have "unat (?o + (b - (?pa + ?o))) < 4096"
        by (rule unat_add_page) (use h len in linarith)
      from PGROUNDDOWN_add[OF PTE2PA_aligned[of "lookup 2 (mem s) p va"] this] have "PGROUNDDOWN b = ?pa" by (simp add: algebra_simps)
      then show False using that by simp
    qed
    then show ?thesis unfolding t_def by (simp add: poke_at[OF l64])
  qed
  have a: "mem t b = mem s b" if "PGROUNDDOWN b \<in> pt_set 2 (mem s) p" for b
    by (rule out) (use that D(3)[OF va] in auto)
  have c: "pt_set 2 (mem t) p = pt_set 2 (mem s) p" "pt_ok 2 (mem t) p" using pt_cong[OF P(1) a] by blast+
  have lk: "lookup 2 (mem t) p vb = lookup 2 (mem s) p vb" for vb using lookup_cong[OF P(1) a] by blast
  have st: "mem_step s t" by (simp add: t_def)
  have k: "kmem_inv t xs"
    unfolding t_def
  proof (rule kmem_inv_mem[OF P(2)])
    fix b assume "PGROUNDDOWN b \<in> set xs"
    then have "PGROUNDDOWN b \<noteq> ?pa" using D(4)[OF va] by metis
    then show "poke (mem s) (?pa + ?o) bs b = mem s b" using out[of b] by (simp add: t_def)
  qed
  have "pt_inv 2 t p xs" unfolding pt_inv_def using c k P mem_step_frame[OF st] by simp
  then have inv: "uvm_inv t p xs"
    by (rule uvm_inv_shrink[OF i]) (use c lk D(4) mem_step_frame[OF st] in auto)
  have "ubyte (mem t) p vb = (if unat (vb - va) < length bs then bs ! unat (vb - va) else ubyte (mem s) p vb)"
    if v: "vb < TRAPFRAME" "pvalid (lookup 2 (mem s) p vb)" for vb
  proof (cases "PGROUNDDOWN vb = PGROUNDDOWN va")
    case True
    then have e: "lookup 2 (mem s) p vb = lookup 2 (mem s) p va" by (rule lookup_page)
    have mt: "mem t = poke (mem s) (?pa + ?o) bs" by (simp add: t_def)
    have "?pa + (vb - PGROUNDDOWN va) - (?pa + ?o) = vb - va" by simp
    then show ?thesis unfolding ubyte_def lk e True by (simp add: mt poke_at[OF l64])
  next
    case False
    have n: "\<not> unat (vb - va) < length bs"
    proof
      assume "unat (vb - va) < length bs"
      then have "unat (vb - va) < 4096 - unat ?o" using len by simp
      from in_chunk(1)[OF this] False show False by simp
    qed
    have "PTE2PA (lookup 2 (mem s) p vb) \<noteq> ?pa" using D(6)[OF v(1) va(1) v(2) va(2)] False by blast
    then have "ubyte (mem t) p vb = ubyte (mem s) p vb" by (intro ubyte_frame[OF lk]) (use out in auto)
    then show ?thesis using n by simp
  qed
  then show ?thesis unfolding uwritten_def using st inv lk by blast
qed

lemma uwritten_writable: "uwritten p s t xs va bs \<Longrightarrow> writable t p vb n = writable s p vb n"
  "uwritten p s t xs va bs \<Longrightarrow> readable t p vb n = readable s p vb n"
  by (simp_all add: uwritten_def writable_def readable_def)

lemma uwritten_append:
  assumes a: "uwritten p s t xs va bs" and b: "uwritten p t u xs (va + of_nat (length bs)) cs"
    and fit: "unat va + (length bs + length cs) \<le> unat TRAPFRAME"
  shows "uwritten p s u xs va (bs @ cs)"
proof -
  have st: "mem_step s u" using mem_step_trans[of s t u] a b by (simp add: uwritten_def)
  have lk: "lookup 2 (mem u) p vb = lookup 2 (mem s) p vb" for vb using a b by (simp add: uwritten_def)
  have "ubyte (mem u) p vb = (if unat (vb - va) < length (bs @ cs) then (bs @ cs) ! unat (vb - va) else ubyte (mem s) p vb)"
    if v: "vb < TRAPFRAME" "pvalid (lookup 2 (mem s) p vb)" for vb
  proof -
    let ?n = "length bs" let ?d = "unat (vb - va)" let ?e = "unat (vb - (va + of_nat ?n))"
    have T: "unat TRAPFRAME = 0x3FFFFFE000" by (simp add: TRAPFRAME_eq)
    have un: "unat (of_nat ?n :: uint64) = ?n" using fit T by (simp add: unat_of_nat)
    have "?e = (if ?n \<le> ?d then ?d - ?n else 2 ^ 64 + ?d - ?n)"
    proof (cases "?n \<le> ?d")
      case True
      then have "(of_nat ?n :: uint64) \<le> vb - va" by (simp add: word_le_nat_alt un)
      then have "unat (vb - va - of_nat ?n) = ?d - unat (of_nat ?n :: uint64)" by (rule unat_sub)
      then show ?thesis using True un by (simp add: diff_diff_eq)
    next
      case False
      have "vb - (va + of_nat ?n) = (vb - va) - of_nat ?n" by simp
      also have "unat \<dots> = (2 ^ 64 + ?d - ?n)"
        using False fit T un unat_sub_if_size[of "vb - va" "of_nat ?n"] by (simp add: word_size)
      finally show ?thesis using False by simp
    qed
    then show ?thesis
      using a b v fit T unfolding uwritten_def by (auto simp: nth_append)
  qed
  then show ?thesis unfolding uwritten_def using st lk b by (simp add: uwritten_def)
qed

lemma writable_first:
  assumes w: "writable s p va n" and n: "0 < n"
  shows "lookup 2 (mem s) p va AND PTE_W \<noteq> 0" "lookup 2 (mem s) p va AND PTE_U \<noteq> 0"
  using w n by (auto simp: writable_def readable_def Let_def dest: spec[of _ 0])

lemma copyout_step:
  assumes i: "uvm_inv s p xs" and w: "writable s p va (length bs)" and ne: "bs \<noteq> []"
  defines "k \<equiv> min (4096 - unat (va - PGROUNDDOWN va)) (length bs)"
  defines "t \<equiv> s\<lparr>mem := poke (mem s) (PTE2PA (lookup 2 (mem s) p va) + (va - PGROUNDDOWN va)) (take k bs)\<rparr>"
  shows "copyout p va bs s = copyout p (PGROUNDDOWN va + PGSIZE) (drop k bs) t" "uwritten p s t xs va (take k bs)"
proof -
  note P = pt_invD[OF uvm_invD(1)[OF i]]
  have n: "0 < length bs" using ne by simp
  have r: "readable s p va (length bs)" using w by (simp add: writable_def)
  note W = walkaddr_user[OF i r n] note F = writable_first[OF w n]
  let ?v = "PGROUNDDOWN va"
  have vM: "?v < MAXVA" by (rule PGROUNDDOWN_less[OF TRAPFRAME_MAXVA[OF W(3)]])
  have lk: "lookup 2 (mem s) p ?v = lookup 2 (mem s) p va" by (rule lookup_PGROUNDDOWN)
  have n0: "pte_addr 2 (mem s) p ?v \<noteq> 0" using lookup_None[OF _ P(1), of ?v] lk W(4) by fastforce
  have ld: "load64 (mem s) (pte_addr 2 (mem s) p ?v) = lookup 2 (mem s) p va"
    using pte_addr_load(2)[OF P(1) n0] lk by simp
  show "copyout p va bs s = copyout p (?v + PGSIZE) (drop k bs) t"
    using ne vM n0 W(4) F
    by (subst copyout.simps) (simp add: walk_find kexec Let_def ld pvalid_def t_def flip: k_def not_le)
  show "uwritten p s t xs va (take k bs)"
    unfolding t_def by (rule user_write[OF i W(3,4)]) (simp add: k_def)
qed

lemma copyout_bytes:
  assumes "uvm_inv s p xs" and "writable s p va (length bs)"
  shows "\<exists>t. copyout p va bs s = Done 0 t \<and> uwritten p s t xs va bs"
  using assms
proof (induction "length bs" arbitrary: s va bs rule: less_induct)
  case less
  show ?case
  proof (cases "bs = []")
    case True
    then show ?thesis using less.prems(1) by (simp add: copyout.simps kexec uwritten_def)
  next
    case False
    let ?o = "4096 - unat (va - PGROUNDDOWN va)" let ?k = "min ?o (length bs)"
    let ?t = "s\<lparr>mem := poke (mem s) (PTE2PA (lookup 2 (mem s) p va) + (va - PGROUNDDOWN va)) (take ?k bs)\<rparr>"
    note S = copyout_step[OF less.prems False]
    have k: "0 < ?k" "?k \<le> length bs" using page_room[of va] False by auto
    have wt: "writable ?t p (va + of_nat ?k) (length (drop ?k bs))"
      using writable_tail[OF less.prems(2) k(2)] uwritten_writable(1)[OF S(2)] by simp
    have it: "uvm_inv ?t p xs" using S(2) by (simp add: uwritten_def)
    have "\<exists>u. copyout p (va + of_nat ?k) (drop ?k bs) ?t = Done 0 u \<and> uwritten p ?t u xs (va + of_nat ?k) (drop ?k bs)"
      by (rule less.hyps[OF _ it wt]) (use k in simp)
    then obtain u where u: "copyout p (va + of_nat ?k) (drop ?k bs) ?t = Done 0 u"
      and w: "uwritten p ?t u xs (va + of_nat ?k) (drop ?k bs)" by blast
    have "copyout p (PGROUNDDOWN va + PGSIZE) (drop ?k bs) ?t = Done 0 u"
    proof (cases "?o \<le> length bs")
      case True
      then show ?thesis using u unfolding next_page by (simp add: min_absorb1)
    next
      case False
      then show ?thesis using u by (simp add: min_absorb2 copyout.simps kexec)
    qed
    moreover have "unat va + (length (take ?k bs) + length (drop ?k bs)) \<le> unat TRAPFRAME"
      using less.prems(2) k(2) by (simp add: writable_def readable_def)
    then have "uwritten p s u xs va (take ?k bs @ drop ?k bs)"
      using uwritten_append[OF S(2), of u "drop ?k bs"] w k(2) by (simp add: min_absorb2)
    ultimately show ?thesis using S(1) by (simp only: append_take_drop_id) blast
  qed
qed

text \<open>C23: \<open>copyout\<close> and \<open>copyin\<close> are inverse. When every page of a user buffer below TRAPFRAME is mapped,
  user-accessible and writable, \<open>copyout\<close> of any bytes succeeds across page boundaries, reading the
  buffer back with \<open>copyin\<close> gives exactly these bytes, no other byte of the process changes, and
  the page table and the free list are untouched.\<close>

theorem copyout_copyin_roundtrip:
  assumes "uvm_inv s p xs" and "writable s p va (length bs)"
  shows "\<exists>t. copyout p va bs s = Done 0 t \<and> copyin p va (length bs) t = Done (0, bs) t \<and> uvm_inv t p xs
    \<and> (\<forall>vb<TRAPFRAME. pvalid (lookup 2 (mem s) p vb) \<longrightarrow> \<not> unat (vb - va) < length bs \<longrightarrow>
         ubyte (mem t) p vb = ubyte (mem s) p vb)
    \<and> (\<forall>vb. lookup 2 (mem t) p vb = lookup 2 (mem s) p vb)"
proof -
  obtain t where t: "copyout p va bs s = Done 0 t" and w: "uwritten p s t xs va bs"
    using copyout_bytes[OF assms] by blast
  have r: "readable s p va (length bs)" using assms(2) by (simp add: writable_def)
  have it: "uvm_inv t p xs" using w by (simp add: uwritten_def)
  have u: "unat va + length bs \<le> unat TRAPFRAME" using r by (simp add: readable_def)
  have "ubyte (mem t) p (va + of_nat i) = bs ! i" if "i < length bs" for i
  proof -
    have "unat (of_nat i :: uint64) = i" using that u by (simp add: unat_of_nat TRAPFRAME_eq)
    then show ?thesis
      using w buf_addr[OF u that] r that unfolding uwritten_def readable_def by (simp add: Let_def)
  qed
  then have "map (\<lambda>i. ubyte (mem t) p (va + of_nat i)) [0..<length bs] = bs" by (intro nth_equalityI) simp_all
  then have "copyin p va (length bs) t = Done (0, bs) t"
    using copyin_bytes[OF it, of va "length bs"] r uwritten_writable(2)[OF w] by simp
  then show ?thesis using t it w by (auto simp: uwritten_def)
qed

end
