(* ===== verification/Ufork.thy ===== *)
theory Ufork
  imports Ucopy
begin

text \<open>
  Two address spaces side by side, and \<open>uvmcopy\<close>, with which \<open>fork\<close> duplicates the memory of
  the parent. The footprint of an address space is the set of physical pages it owns; an
  operation on one space leaves a space with a disjoint footprint alone.
\<close>

unbundle bit_operations_syntax

declare mod_0_imp_dvd [rule del]

definition foot :: "'a mst_scheme \<Rightarrow> addr \<Rightarrow> addr set" where
  "foot s p = pt_set 2 (mem s) p \<union>
     {PTE2PA (lookup 2 (mem s) p va) | va. va < TRAPFRAME \<and> pvalid (lookup 2 (mem s) p va)}"

definition spaces :: "'a mst_scheme \<Rightarrow> addr \<Rightarrow> addr \<Rightarrow> addr list \<Rightarrow> bool" where
  "spaces s old new xs \<longleftrightarrow> uvm_inv s old xs \<and> uvm_inv s new xs \<and> foot s old \<inter> foot s new = {}"

text \<open>\<open>touches p s t xs ys\<close>: an operation on the space \<open>p\<close> that took pages from the free list \<open>xs\<close>
  and left the free list \<open>ys\<close>: it wrote no other page, and every page of the space and of the free list
  is afterwards in the space or in the free list, so none is lost.\<close>

definition touches :: "addr \<Rightarrow> 'a mst_scheme \<Rightarrow> 'a mst_scheme \<Rightarrow> addr list \<Rightarrow> addr list \<Rightarrow> bool" where
  "touches p s t xs ys \<longleftrightarrow> mem_step s t \<and> uvm_inv t p ys \<and> foot t p \<union> set ys = foot s p \<union> set xs
     \<and> (\<forall>b. PGROUNDDOWN b \<notin> foot s p \<union> set xs \<longrightarrow> mem t b = mem s b)"

text \<open>The mapping and the contents of a space have not changed.\<close>

definition same_space :: "addr \<Rightarrow> 'a mst_scheme \<Rightarrow> 'a mst_scheme \<Rightarrow> bool" where
  "same_space p s t \<longleftrightarrow> (\<forall>va. lookup 2 (mem t) p va = lookup 2 (mem s) p va)
     \<and> (\<forall>va<TRAPFRAME. pvalid (lookup 2 (mem s) p va) \<longrightarrow> ubyte (mem t) p va = ubyte (mem s) p va)"

lemma same_space_refl: "same_space p s s"
  by (simp add: same_space_def)

lemma same_space_trans: "same_space p s t \<Longrightarrow> same_space p t u \<Longrightarrow> same_space p s u"
  by (simp add: same_space_def)

lemma foot_mapped: "va < TRAPFRAME \<Longrightarrow> pvalid (lookup 2 (mem s) p va) \<Longrightarrow> PTE2PA (lookup 2 (mem s) p va) \<in> foot s p"
  by (auto simp: foot_def)

lemma foot_disjoint_free: "uvm_inv s p xs \<Longrightarrow> foot s p \<inter> set xs = {}"
  using pt_invD(3)[OF uvm_invD(1)] uvm_invD(4) by (fastforce simp: foot_def)

lemma touches_other:
  assumes sp: "spaces s old new xs" and t: "touches new s t xs ys"
  shows "spaces t old new ys" "same_space old s t" "foot t old = foot s old"
proof -
  have O: "uvm_inv s old xs" "foot s old \<inter> foot s new = {}" using sp by (auto simp: spaces_def)
  have dis: "foot s old \<inter> (foot s new \<union> set xs) = {}" using O foot_disjoint_free[OF O(1)] by blast
  have T: "mem_step s t" "uvm_inv t new ys" "set ys \<subseteq> foot s new \<union> set xs" "foot t new \<subseteq> foot s new \<union> set xs"
    "\<And>b. PGROUNDDOWN b \<notin> foot s new \<union> set xs \<Longrightarrow> mem t b = mem s b"
    using t unfolding touches_def by blast+
  note D = uvm_invD[OF O(1)] note P = pt_invD[OF D(1)]
  have a: "mem t b = mem s b" if "PGROUNDDOWN b \<in> foot s old" for b by (rule T(5)) (use that dis in blast)
  have a': "mem t b = mem s b" if "PGROUNDDOWN b \<in> pt_set 2 (mem s) old" for b
    by (rule a) (use that in \<open>auto simp: foot_def\<close>)
  have ps: "pt_set 2 (mem t) old = pt_set 2 (mem s) old" "pt_ok 2 (mem t) old" using pt_cong[OF P(1) a'] by blast+
  have lk: "lookup 2 (mem t) old va = lookup 2 (mem s) old va" for va using lookup_cong[OF P(1) a'] by blast
  have nf: "foot s old \<inter> set ys = {}" using dis T(3) by blast
  have "pt_inv 2 t old ys"
    unfolding pt_inv_def using ps P(4,5) pt_invD(2)[OF uvm_invD(1)[OF T(2)]] mem_step_frame[OF T(1)] nf
    by (auto simp: foot_def)
  then have i: "uvm_inv t old ys"
    by (rule uvm_inv_shrink[OF O(1)])
      (use ps lk nf mem_step_frame[OF T(1)] in \<open>auto simp: foot_def\<close>)
  show ft: "foot t old = foot s old" by (simp add: foot_def ps lk)
  show "spaces t old new ys" unfolding spaces_def ft using i T(2,4) dis by blast
  have "ubyte (mem t) old va = ubyte (mem s) old va" if "va < TRAPFRAME" "pvalid (lookup 2 (mem s) old va)" for va
    by (rule ubyte_frame[OF lk], rule a) (use that in \<open>auto simp: foot_def\<close>)
  then show "same_space old s t" using lk by (simp add: same_space_def)
qed

lemma touches_trans: "touches p s t xs ys \<Longrightarrow> touches p t u ys zs \<Longrightarrow> touches p s u xs zs"
  unfolding touches_def using mem_step_trans by metis

lemma touches_refl: "uvm_inv s p xs \<Longrightarrow> touches p s s xs xs"
  by (simp add: touches_def)

lemma pvalid_or: "pvalid (e OR (perm OR PTE_V))"
proof -
  have "bit (e OR (perm OR 1)) 0" by (simp add: bit_or_iff)
  then show ?thesis by (simp add: pvalid_def and_one_eq odd_iff_mod_2_eq_one bit_0)
qed

lemma new_page_touches:
  assumes i: "uvm_inv s p xs" and n: "new_page p s t xs n a perm fill"
    and a: "a < TRAPFRAME" "a mod 4096 = 0" "\<not> pvalid (lookup 2 (mem s) p a)"
  shows "touches p s t xs (drop (Suc n) xs)"
proof -
  obtain pg ys where N: "xs = pg # ys" "mem_step s t" "uvm_inv t p (drop n ys)"
    "pt_set 2 (mem t) p = pt_set 2 (mem s) p \<union> set (take n ys)"
    "\<forall>va<MAXVA. lookup 2 (mem t) p va = (if PGROUNDDOWN va = a then PA2PTE pg OR (perm OR PTE_V) else lookup 2 (mem s) p va)"
    "PTE2PA (PA2PTE pg OR (perm OR PTE_V)) = pg"
    "\<forall>b. PGROUNDDOWN b \<notin> pt_set 2 (mem t) p \<union> {pg} \<longrightarrow> mem t b = mem s b"
    using n unfolding new_page_def by blast
  have pv: "pvalid (PA2PTE pg OR (perm OR PTE_V))" by (rule pvalid_or)
  have sub: "set (take n ys) \<subseteq> set xs" "set (drop n ys) \<subseteq> set xs"
    using set_take_subset[of n ys] set_drop_subset[of n ys] N(1) by auto
  have pt: "pt_set 2 (mem t) p \<subseteq> foot s p \<union> set xs" using N(4) sub(1) by (auto simp: foot_def)
  have "foot t p \<subseteq> foot s p \<union> set xs"
  proof
    fix q assume "q \<in> foot t p"
    then consider "q \<in> pt_set 2 (mem t) p"
      | va where "va < TRAPFRAME" "pvalid (lookup 2 (mem t) p va)" "q = PTE2PA (lookup 2 (mem t) p va)"
      by (auto simp: foot_def)
    then show "q \<in> foot s p \<union> set xs"
    proof cases
      case (2 va)
      then show ?thesis using N(5) TRAPFRAME_MAXVA[OF 2(1)] N(1,6) by (cases "PGROUNDDOWN va = a") (auto simp: foot_def)
    qed (use pt in blast)
  qed
  moreover have "foot s p \<union> set xs \<subseteq> foot t p \<union> set (drop n ys)"
  proof -
    have "pg \<in> foot t p"
      using N(5,6) a(1) TRAPFRAME_MAXVA[OF a(1)] PGROUNDDOWN_id[OF a(2)] pv by (auto simp: foot_def intro!: exI[of _ a])
    moreover have "set ys \<subseteq> foot t p \<union> set (drop n ys)"
      using N(4) set_append[of "take n ys" "drop n ys"] unfolding append_take_drop_id foot_def by blast
    moreover have "PTE2PA (lookup 2 (mem s) p va) \<in> foot t p" if v: "va < TRAPFRAME" "pvalid (lookup 2 (mem s) p va)" for va
    proof -
      have "PGROUNDDOWN va \<noteq> a" using v(2) a(3) lookup_PGROUNDDOWN[of 2 "mem s" p va] by auto
      then have "lookup 2 (mem t) p va = lookup 2 (mem s) p va" using N(5) TRAPFRAME_MAXVA[OF v(1)] by simp
      then show ?thesis using v foot_mapped[OF v(1), of t p] by simp
    qed
    then have "foot s p \<subseteq> foot t p" using N(4) by (auto simp: foot_def)
    ultimately show ?thesis using N(1) by auto
  qed
  moreover have "mem t b = mem s b" if "PGROUNDDOWN b \<notin> foot s p \<union> set xs" for b
    using N(1,7) pt that by auto
  ultimately show ?thesis using N(1-3) sub(2) by (auto simp: touches_def)
qed

lemma no_page_touches: "uvm_inv s p xs \<Longrightarrow> no_page p s t xs ys \<Longrightarrow> touches p s t xs ys"
proof -
  assume i: "uvm_inv s p xs" and n: "no_page p s t xs ys"
  have N: "pt_set 2 (mem t) p \<union> set ys = pt_set 2 (mem s) p \<union> set xs" "\<forall>va<MAXVA. lookup 2 (mem t) p va = lookup 2 (mem s) p va"
    "\<forall>b. PGROUNDDOWN b \<notin> pt_set 2 (mem t) p \<union> set xs \<longrightarrow> mem t b = mem s b"
    using n unfolding no_page_def by blast+
  have "{PTE2PA (lookup 2 (mem t) p va) |va. va < TRAPFRAME \<and> pvalid (lookup 2 (mem t) p va)}
      = {PTE2PA (lookup 2 (mem s) p va) |va. va < TRAPFRAME \<and> pvalid (lookup 2 (mem s) p va)}"
    using N(2) TRAPFRAME_MAXVA by metis
  then have "foot t p \<union> set ys = foot s p \<union> set xs" using N(1) unfolding foot_def by blast
  moreover have "mem t b = mem s b" if "PGROUNDDOWN b \<notin> foot s p \<union> set xs" for b
    using N(1,3) that by (auto simp: foot_def)
  ultimately show ?thesis using n by (auto simp: touches_def no_page_def)
qed

lemma unmap_touches:
  assumes i: "uvm_inv s p xs" and n: "uvm_unmap p s t xs fs R" and R: "\<forall>r\<in>R. r < TRAPFRAME"
  shows "touches p s t xs (fs @ xs)"
proof -
  have N: "pt_set 2 (mem t) p = pt_set 2 (mem s) p"
    "set fs = {PTE2PA (lookup 2 (mem s) p r) | r. r \<in> R \<and> pvalid (lookup 2 (mem s) p r)}"
    "\<forall>va<MAXVA. lookup 2 (mem t) p va =
          (if PGROUNDDOWN va \<in> R \<and> pvalid (lookup 2 (mem s) p va) then 0 else lookup 2 (mem s) p va)"
    "\<forall>a. PGROUNDDOWN a \<notin> pt_set 2 (mem s) p \<union> set fs \<longrightarrow> mem t a = mem s a"
    using n unfolding uvm_unmap_def by blast+
  have fs: "set fs \<subseteq> foot s p" using N(2) R by (auto simp: foot_def)
  have "PTE2PA (lookup 2 (mem t) p va) \<in> foot s p" if "va < TRAPFRAME" "pvalid (lookup 2 (mem t) p va)" for va
    using N(3) TRAPFRAME_MAXVA[OF that(1)] that by (auto simp: foot_def split: if_splits)
  then have "foot t p \<subseteq> foot s p" using N(1) by (auto simp: foot_def)
  moreover have "PTE2PA (lookup 2 (mem s) p va) \<in> foot t p \<union> set fs"
    if v: "va < TRAPFRAME" "pvalid (lookup 2 (mem s) p va)" for va
  proof (cases "PGROUNDDOWN va \<in> R")
    case True
    then show ?thesis using N(2) v(2) lookup_PGROUNDDOWN[of 2 "mem s" p va] by (metis (mono_tags, lifting) UnI2 mem_Collect_eq)
  next
    case False
    then have "lookup 2 (mem t) p va = lookup 2 (mem s) p va" using N(3) TRAPFRAME_MAXVA[OF v(1)] by simp
    then show ?thesis using v foot_mapped[OF v(1), of t p] by simp
  qed
  then have "foot s p \<subseteq> foot t p \<union> set fs" using N(1) by (auto simp: foot_def)
  moreover have "mem t b = mem s b" if "PGROUNDDOWN b \<notin> foot s p \<union> set xs" for b
    using N(4) fs that by (auto simp: foot_def)
  ultimately show ?thesis using n fs by (auto simp: touches_def uvm_unmap_def)
qed

subsection \<open>uvmcopy\<close>

definition copy_fill :: "addr \<Rightarrow> addr \<Rightarrow> memory \<Rightarrow> memory" where
  "copy_fill pa pg m = memmove m pg pa 4096"

definition copy_body :: "addr \<Rightarrow> addr \<Rightarrow> uint64 \<Rightarrow> ('a mst_scheme, int option) K" where
  "copy_body old new i =
     kbind (walk old i False) (\<lambda>pte.
     if pte = 0 then kpanic ''uvmcopy: pte should exist''
     else kbind (load pte) (\<lambda>e.
       if e AND PTE_V = 0 then kpanic ''uvmcopy: page not present''
       else kbind (map_new_page new i (copy_fill (PTE2PA e)) (PTE_FLAGS e)) (\<lambda>b.
         if b then kret None else kthen (uvmunmap new 0 (i div PGSIZE) True) (kret (Some (- 1))))))"

lemma uvmcopy_eq: "uvmcopy old new sz = or_ret 0 (kscan (addrs_below 0 sz) (copy_body old new))"
  unfolding uvmcopy_def
  by (rule arg_cong[of _ _ "or_ret 0"], rule arg_cong[of _ _ "kscan (addrs_below 0 sz)"], intro ext)
    (auto simp: copy_body_def map_new_page_def copy_fill_def Let_def kexec split: outcome.split)

lemma page_ok_room: "page_ok e p \<Longrightarrow> unat p + 4096 < 2 ^ 64"
proof -
  assume "page_ok e p"
  then have "p < 0x88000000" by (simp add: page_ok_def PHYSTOP_eq)
  then have "unat p < unat (0x88000000 :: uint64)" by (simp add: word_less_nat_alt)
  then show ?thesis by simp
qed

lemma copy_fill_at:
  assumes "page_ok e pa" and "page_ok e pg"
  shows "copy_fill pa pg m b = (if PGROUNDDOWN b = pg then m (pa + (b - pg)) else m b)"
  unfolding copy_fill_def memmove_eq[OF page_ok_room[OF assms(1)] page_ok_room[OF assms(2)]]
  using in_page_iff[OF page_ok_facts(1)[OF assms(2)], of b] by simp

lemma copy_fill_local: "page_ok e pa \<Longrightarrow> local_fill e (copy_fill pa)"
  by (simp add: local_fill_def copy_fill_at)

text \<open>The child's space after \<open>k\<close> rounds: the first \<open>k\<close> pages, with the parent's permissions and bytes.\<close>

definition copied :: "'a mst_scheme \<Rightarrow> addr \<Rightarrow> addr \<Rightarrow> nat \<Rightarrow> bool" where
  "copied s old new k \<longleftrightarrow> (\<forall>va<TRAPFRAME. (pvalid (lookup 2 (mem s) new va) \<longleftrightarrow> unat va < k * 4096)
     \<and> (unat va < k * 4096 \<longrightarrow> PTE_FLAGS (lookup 2 (mem s) new va) = PTE_FLAGS (lookup 2 (mem s) old va)
          \<and> ubyte (mem s) new va = ubyte (mem s) old va))"

lemma flags_valid: "pvalid e \<longleftrightarrow> pvalid (PTE_FLAGS e)"
  unfolding pvalid_def PTE_FLAGS_def by (simp add: and.assoc)

lemma flags_or_valid: "pvalid e \<Longrightarrow> PTE_FLAGS e OR PTE_V = PTE_FLAGS e"
proof -
  assume "pvalid e"
  then have v: "bit e 0" by (simp add: pvalid_def and_one_eq bit_0 odd_iff_mod_2_eq_one)
  show ?thesis
    by (rule bit_word_eqI) (use v in \<open>auto simp: PTE_FLAGS_def bit_simps bit_1_iff bit_0 simp flip: bit_0\<close>)
qed

lemma flags_less: "PTE_FLAGS e < 2 ^ 10"
proof -
  have "PTE_FLAGS e \<le> 0x3FF" by (simp add: PTE_FLAGS_def word_and_le1)
  then show ?thesis by (rule le_less_trans) simp
qed

lemma page_index:
  assumes "va < TRAPFRAME" and "unat i = k * 4096"
  shows "PGROUNDDOWN va = i \<longleftrightarrow> k * 4096 \<le> unat va \<and> unat va < Suc k * 4096"
proof -
  have "PGROUNDDOWN va = i \<longleftrightarrow> unat va div 4096 * 4096 = k * 4096"
    by (simp add: word_unat_eq_iff unat_PGROUNDDOWN assms(2))
  also have "\<dots> \<longleftrightarrow> unat va div 4096 = k" by simp
  also have "\<dots> \<longleftrightarrow> k * 4096 \<le> unat va \<and> unat va < Suc k * 4096"
    using div_less_iff_less_mult[of 4096 "unat va" "Suc k"] less_eq_div_iff_mult_less_eq[of 4096 k "unat va"] by auto
  finally show ?thesis .
qed

lemma new_page_length: "new_page p s t xs n a perm fill \<Longrightarrow> length xs \<le> length (drop (Suc n) xs) + 3"
  by (auto simp: new_page_def)

lemma copied_step:
  assumes sp: "spaces s old new xs" and c: "copied s old new k" and i: "unat i = k * 4096" "i < TRAPFRAME"
    and v: "pvalid (lookup 2 (mem s) old i)"
    and n: "new_page new s t xs n i (PTE_FLAGS (lookup 2 (mem s) old i)) (copy_fill (PTE2PA (lookup 2 (mem s) old i)))"
  shows "copied t old new (Suc k)"
proof -
  let ?e = "lookup 2 (mem s) old i"
  have O: "uvm_inv s old xs" "uvm_inv s new xs" using sp by (auto simp: spaces_def)
  have al: "i mod 4096 = 0" using i(1) by (simp add: aligned_unat)
  have free: "\<not> pvalid (lookup 2 (mem s) new i)" using c i by (auto simp: copied_def)
  note T = touches_other[OF sp new_page_touches[OF O(2) n i(2) al free]]
  obtain pg ys where xs: "xs = pg # ys" using n unfolding new_page_def by blast
  have pg: "page_ok (k_end s) pg" using kmem_invD(3)[OF pt_invD(2)[OF uvm_invD(1)[OF O(2)]], of pg] xs by simp
  have pa: "page_ok (k_end s) (PTE2PA ?e)" "PTE2PA ?e \<noteq> pg"
    using uvm_invD(2,4)[OF O(1) i(2) v] xs by auto
  have L: "lookup 2 (mem t) old va = lookup 2 (mem s) old va"
    "pvalid (lookup 2 (mem s) old va) \<Longrightarrow> ubyte (mem t) old va = ubyte (mem s) old va" if "va < TRAPFRAME" for va
    using T(2) that by (auto simp: same_space_def)
  show ?thesis
    unfolding copied_def
  proof (intro allI impI conjI)
    fix va assume va: "va < TRAPFRAME" note vM = TRAPFRAME_MAXVA[OF va]
    note px = page_index[OF va i(1)]
    show "pvalid (lookup 2 (mem t) new va) \<longleftrightarrow> unat va < Suc k * 4096"
    proof (cases "PGROUNDDOWN va = i")
      case True
      have "pvalid (lookup 2 (mem t) new va)"
        using new_page_content(2)[OF n vM True] flags_valid[of "lookup 2 (mem t) new va"] flags_or_valid[OF v]
          flags_valid[of ?e] v by simp
      then show ?thesis using px True by simp
    next
      case False
      have "lookup 2 (mem t) new va = lookup 2 (mem s) new va" using n vM False by (auto simp: new_page_def)
      then show ?thesis using c va px False by (auto simp: copied_def)
    qed
    assume u: "unat va < Suc k * 4096"
    have "PTE_FLAGS (lookup 2 (mem t) new va) = PTE_FLAGS (lookup 2 (mem t) old va)
        \<and> ubyte (mem t) new va = ubyte (mem t) old va"
    proof (cases "PGROUNDDOWN va = i")
      case True
      have le: "lookup 2 (mem s) old va = ?e" by (rule lookup_page) (simp add: True PGROUNDDOWN_id[OF al])
      have off: "PGROUNDDOWN (pg + (va - i)) = pg" "PGROUNDDOWN (PTE2PA ?e + (va - i)) = PTE2PA ?e"
        using PGROUNDDOWN_add[OF page_ok_facts(1)[OF pg], of "va - i"] page_off[of ?e va] PGROUNDDOWN_offset[of va] True
        by simp_all
      have "ubyte (mem t) new va = mem s (PTE2PA ?e + (va - i))"
        unfolding new_page_content(1)[OF n vM True] using off pa(2) by (simp add: xs copy_fill_at[OF pa(1) pg])
      also have "\<dots> = ubyte (mem s) old va" by (simp add: ubyte_def le True)
      finally show ?thesis
        using new_page_content(2)[OF n vM True] flags_or_valid[OF v] L[OF va] le v by simp
    next
      case False
      then have uk: "unat va < k * 4096" using u px by simp
      then have vn: "pvalid (lookup 2 (mem s) new va)" and ob: "PTE_FLAGS (lookup 2 (mem s) new va) = PTE_FLAGS (lookup 2 (mem s) old va)"
        "ubyte (mem s) new va = ubyte (mem s) old va"
        using c va by (auto simp: copied_def)
      have vo: "pvalid (lookup 2 (mem s) old va)" using vn ob(1) flags_valid by metis
      have "lookup 2 (mem t) new va = lookup 2 (mem s) new va" using n vM False by (auto simp: new_page_def)
      then show ?thesis using new_page_bytes[OF O(2) n va vn False] ob L[OF va] vo by simp
    qed
    then show "PTE_FLAGS (lookup 2 (mem t) new va) = PTE_FLAGS (lookup 2 (mem t) old va)"
      "ubyte (mem t) new va = ubyte (mem t) old va" by blast+
  qed
qed

lemma unmap_all:
  assumes i: "uvm_inv s new xs" and c: "\<And>va. va < TRAPFRAME \<Longrightarrow> pvalid (lookup 2 (mem s) new va) \<Longrightarrow> unat va < k * 4096"
    and k: "k * 4096 \<le> unat TRAPFRAME" and n: "unat n = k"
  shows "\<exists>t fs. uvmunmap new 0 n True s = Done () t \<and> touches new s t xs (fs @ xs)
    \<and> (\<forall>va<TRAPFRAME. \<not> pvalid (lookup 2 (mem t) new va))"
proof -
  let ?R = "{a. a mod 4096 = 0 \<and> 0 \<le> a \<and> a < 0 + n * PGSIZE}"
  obtain t fs where t: "uvmunmap new 0 n True s = Done () t" and u: "uvm_unmap new s t xs fs ?R"
    using uvmunmap_run[OF i, of 0 n] k n by auto
  have un: "unat (n * PGSIZE) = k * 4096"
    using k n by (simp add: PGSIZE_def unat_word_ariths TRAPFRAME_eq)
  have R: "\<forall>r\<in>?R. r < TRAPFRAME" using un k by (auto simp: word_less_nat_alt)
  have "\<not> pvalid (lookup 2 (mem t) new va)" if va: "va < TRAPFRAME" for va
  proof
    assume v: "pvalid (lookup 2 (mem t) new va)"
    then have nr: "PGROUNDDOWN va \<notin> ?R" and vs: "pvalid (lookup 2 (mem s) new va)"
      using u TRAPFRAME_MAXVA[OF va] by (auto simp: uvm_unmap_def split: if_splits)
    have "unat va < k * 4096" by (rule c[OF va vs])
    then have "PGROUNDDOWN va < n * PGSIZE"
      unfolding word_less_nat_alt un unat_PGROUNDDOWN using div_times_less_eq_dividend[of "unat va" 4096] by linarith
    then show False using nr by simp
  qed
  then show ?thesis using t unmap_touches[OF i u R] by blast
qed

lemma copy_body_spec:
  assumes sp: "spaces s old new xs" and c: "copied s old new k" and i: "unat i = k * 4096" "i < TRAPFRAME"
    and v: "pvalid (lookup 2 (mem s) old i)"
  shows "(\<exists>t ys. copy_body old new i s = Done None t \<and> spaces t old new ys \<and> same_space old s t
        \<and> copied t old new (Suc k) \<and> length xs \<le> length ys + 3 \<and> touches new s t xs ys)
    \<or> (\<exists>t ys. copy_body old new i s = Done (Some (- 1)) t \<and> spaces t old new ys \<and> same_space old s t
        \<and> length xs < 3 \<and> (\<forall>va<TRAPFRAME. \<not> pvalid (lookup 2 (mem t) new va)) \<and> touches new s t xs ys)"
proof -
  let ?e = "lookup 2 (mem s) old i" let ?mn = "map_new_page new i (copy_fill (PTE2PA ?e)) (PTE_FLAGS ?e)"
  have O: "uvm_inv s old xs" "uvm_inv s new xs" using sp by (auto simp: spaces_def)
  note P = pt_invD[OF uvm_invD(1)[OF O(1)]] note iM = TRAPFRAME_MAXVA[OF i(2)]
  have al: "i mod 4096 = 0" using i(1) by (simp add: aligned_unat)
  have n0: "pte_addr 2 (mem s) old i \<noteq> 0" using lookup_None[OF _ P(1), of i] v by fastforce
  have e: "copy_body old new i s = kbind ?mn (\<lambda>b. if b then kret None
      else kthen (uvmunmap new 0 (i div PGSIZE) True) (kret (Some (- 1)))) s"
    using n0 v pte_addr_load(2)[OF P(1) n0] by (simp add: copy_body_def walk_find[OF iM] kexec pvalid_def)
  have free: "\<not> pvalid (lookup 2 (mem s) new i)" using c i by (auto simp: copied_def)
  have pf: "PTE_FLAGS ?e OR PTE_V \<noteq> PTE_V" using flags_or_valid[OF v] uvm_invD(5)[OF O(1) i(2) v] by simp
  from map_new_page_spec[OF O(2) i(2) al free flags_less pf copy_fill_local[OF uvm_invD(2)[OF O(1) i(2) v]]]
  show ?thesis
  proof (elim disjE exE conjE)
    fix t n assume r: "?mn s = Done True t"
      and A: "new_page new s t xs n i (PTE_FLAGS ?e) (copy_fill (PTE2PA ?e))"
    note tc = new_page_touches[OF O(2) A i(2) al free] note T = touches_other[OF sp tc]
    show ?thesis using e r T copied_step[OF sp c i v A] new_page_length[OF A] tc by (auto simp: kexec)
  next
    fix t ys assume r: "?mn s = Done False t" and A: "no_page new s t xs ys"
    note tc = no_page_touches[OF O(2) A] note T = touches_other[OF sp tc]
    have it: "uvm_inv t new ys" using T(1) by (simp add: spaces_def)
    have lk: "\<forall>va<MAXVA. lookup 2 (mem t) new va = lookup 2 (mem s) new va" and l3: "length xs < 3"
      using A by (auto simp: no_page_def)
    have val: "unat va < k * 4096" if "va < TRAPFRAME" "pvalid (lookup 2 (mem t) new va)" for va
      using c that lk TRAPFRAME_MAXVA[OF that(1)] by (auto simp: copied_def)
    have un: "unat (i div PGSIZE) = k" using i(1) by (simp add: PGSIZE_def unat_div)
    have kb: "k * 4096 \<le> unat TRAPFRAME" using i by (simp add: word_less_nat_alt)
    obtain u fs where u: "uvmunmap new 0 (i div PGSIZE) True t = Done () u" "touches new t u ys (fs @ ys)"
      "\<forall>va<TRAPFRAME. \<not> pvalid (lookup 2 (mem u) new va)"
      using unmap_all[OF it val kb un] by blast
    note U = touches_other[OF T(1) u(2)]
    show ?thesis using e r u U same_space_trans[OF T(2) U(2)] l3 touches_trans[OF tc u(2)] by (auto simp: kexec)
  qed
qed

lemma nth_addrs_below:
  assumes "sz \<le> TRAPFRAME" and "k < length (addrs_below 0 sz)"
  shows "unat (addrs_below 0 sz ! k) = k * 4096" "addrs_below 0 sz ! k < sz" "addrs_below 0 sz ! k < TRAPFRAME"
proof -
  have k: "k < (unat sz + 4095) div 4096" using assms(2) by (simp add: addrs_below_def)
  have "unat sz \<le> unat TRAPFRAME" using assms(1) by (simp add: word_le_nat_alt)
  then have szb: "unat sz \<le> 0x3FFFFFE000" by (simp add: TRAPFRAME_eq)
  have "Suc k \<le> (unat sz + 4095) div 4096" using k by simp
  then have "Suc k * 4096 \<le> unat sz + 4095" by (simp add: less_eq_div_iff_mult_less_eq)
  then have ks: "k * 4096 < unat sz" by simp
  have e: "addrs_below 0 sz ! k = of_nat k * PGSIZE" using k by (simp add: addrs_below_def)
  show u: "unat (addrs_below 0 sz ! k) = k * 4096"
    unfolding e using ks szb by (simp add: PGSIZE_def unat_word_ariths unat_of_nat mod_mult_left_eq)
  then show "addrs_below 0 sz ! k < sz" using ks by (simp add: word_less_nat_alt)
  then show "addrs_below 0 sz ! k < TRAPFRAME" using assms(1) by (rule less_le_trans)
qed

definition copy_inv :: "'a mst_scheme \<Rightarrow> addr \<Rightarrow> addr \<Rightarrow> addr list \<Rightarrow> nat \<Rightarrow> 'a mst_scheme \<Rightarrow> bool" where
  "copy_inv s old new xs k t \<longleftrightarrow> (\<exists>ys. spaces t old new ys \<and> same_space old s t \<and> copied t old new k
     \<and> length xs \<le> length ys + 3 * k \<and> touches new s t xs ys)"

definition copy_undone :: "'a mst_scheme \<Rightarrow> addr \<Rightarrow> addr \<Rightarrow> addr list \<Rightarrow> nat \<Rightarrow> 'a mst_scheme \<Rightarrow> bool" where
  "copy_undone s old new xs k t \<longleftrightarrow> (\<exists>ys. spaces t old new ys \<and> same_space old s t
     \<and> (\<forall>va<TRAPFRAME. \<not> pvalid (lookup 2 (mem t) new va)) \<and> length xs < 3 * Suc k \<and> touches new s t xs ys)"

lemma copy_inv_step:
  assumes c: "copy_inv s old new xs k t" and i: "unat i = k * 4096" "i < TRAPFRAME" and v: "pvalid (lookup 2 (mem s) old i)"
  shows "(\<exists>u. copy_body old new i t = Done None u \<and> copy_inv s old new xs (Suc k) u)
    \<or> (\<exists>r u. copy_body old new i t = Done (Some r) u \<and> r = - 1 \<and> copy_undone s old new xs k u)"
proof -
  obtain ys where C: "spaces t old new ys" "same_space old s t" "copied t old new k" "length xs \<le> length ys + 3 * k"
    "touches new s t xs ys" using c by (auto simp: copy_inv_def)
  have vt: "pvalid (lookup 2 (mem t) old i)" using C(2) v by (simp add: same_space_def)
  from copy_body_spec[OF C(1,3) i vt] show ?thesis
  proof (elim disjE exE conjE)
    fix u zs assume B: "copy_body old new i t = Done None u" "spaces u old new zs" "same_space old t u"
      "copied u old new (Suc k)" "length ys \<le> length zs + 3" "touches new t u ys zs"
    have "copy_inv s old new xs (Suc k) u"
      unfolding copy_inv_def using B C same_space_trans[OF C(2) B(3)] touches_trans[OF C(5) B(6)]
      by (intro exI[of _ zs]) simp
    then show ?thesis using B(1) by blast
  next
    fix u zs assume B: "copy_body old new i t = Done (Some (- 1)) u" "spaces u old new zs" "same_space old t u"
      "length ys < 3" "\<forall>va<TRAPFRAME. \<not> pvalid (lookup 2 (mem u) new va)" "touches new t u ys zs"
    have "copy_undone s old new xs k u"
      unfolding copy_undone_def using B C same_space_trans[OF C(2) B(3)] touches_trans[OF C(5) B(6)]
      by (intro exI[of _ zs]) simp
    then show ?thesis using B(1) by blast
  qed
qed

lemma copy_inv_0:
  assumes "spaces s old new xs" and "\<forall>va<TRAPFRAME. \<not> pvalid (lookup 2 (mem s) new va)"
  shows "copy_inv s old new xs 0 s"
  unfolding copy_inv_def copied_def using assms same_space_refl touches_refl[of s new xs]
  by (intro exI[of _ xs]) (simp add: spaces_def)

lemma copy_loop:
  assumes sp: "spaces s old new xs" and empty: "\<forall>va<TRAPFRAME. \<not> pvalid (lookup 2 (mem s) new va)"
    and as: "\<forall>k<length as. unat (as ! k) = k * 4096 \<and> as ! k < TRAPFRAME \<and> pvalid (lookup 2 (mem s) old (as ! k))"
  shows "(\<exists>t. kscan as (copy_body old new) s = Done None t \<and> copy_inv s old new xs (length as) t)
    \<or> (\<exists>k r t. k < length as \<and> kscan as (copy_body old new) s = Done (Some r) t
         \<and> r = - 1 \<and> copy_undone s old new xs k t)"
proof (rule kscan_inv[of as "copy_inv s old new xs"])
  fix k t assume k: "k < length as" and c: "copy_inv s old new xs k t"
  show "(\<exists>u. copy_body old new (as ! k) t = Done None u \<and> copy_inv s old new xs (Suc k) u)
    \<or> (\<exists>r u. copy_body old new (as ! k) t = Done (Some r) u \<and> r = - 1 \<and> copy_undone s old new xs k u)"
    by (rule copy_inv_step[OF c]) (use as k in auto)
qed (rule copy_inv_0[OF sp empty])

text \<open>C5: \<open>uvmcopy\<close> gives a child a private copy of the parent's memory. With every page of the parent
  below \<open>sz\<close> present, the call returns 0 or, only when fewer than three free pages per copied page
  are left, -1; it never panics. On 0 every byte below \<open>sz\<close> reads the same in both spaces with the
  same permission bits, and the two spaces own disjoint physical pages. On -1 everything is undone: the
  child maps nothing and every free page is free again, except those that have become tables of the
  child's page table, which stay linked in it for \<open>freewalk\<close>. No page is lost on either path: the
  pages of the child and of the free list together are those from before. Either way the parent's memory
  and mapping are unchanged, and no page outside the child's space and the free list is written.\<close>

theorem uvmcopy_correct:
  assumes sp: "spaces s old new xs" and sz: "sz \<le> TRAPFRAME"
    and present: "\<forall>va < sz. pvalid (lookup 2 (mem s) old va)"
    and empty: "\<forall>va<TRAPFRAME. \<not> pvalid (lookup 2 (mem s) new va)"
  shows "\<exists>r t ys. uvmcopy old new sz s = Done r t \<and> spaces t old new ys \<and> same_space old s t
    \<and> foot t new \<union> set ys = foot s new \<union> set xs
    \<and> (\<forall>b. PGROUNDDOWN b \<notin> foot s new \<union> set xs \<longrightarrow> mem t b = mem s b)
    \<and> (r = 0 \<and> (\<forall>va < sz. pvalid (lookup 2 (mem t) new va) \<and> ubyte (mem t) new va = ubyte (mem s) old va
          \<and> PTE_FLAGS (lookup 2 (mem t) new va) = PTE_FLAGS (lookup 2 (mem s) old va))
       \<or> r = - 1 \<and> (\<forall>va<TRAPFRAME. \<not> pvalid (lookup 2 (mem t) new va))
          \<and> set ys = (foot s new \<union> set xs) - pt_set 2 (mem t) new
          \<and> length xs < 3 * ((unat sz + 4095) div 4096))"
proof -
  let ?as = "addrs_below 0 sz"
  have N: "length ?as = (unat sz + 4095) div 4096" by (simp add: addrs_below_def)
  have as: "\<forall>k<length ?as. unat (?as ! k) = k * 4096 \<and> ?as ! k < TRAPFRAME \<and> pvalid (lookup 2 (mem s) old (?as ! k))"
    using nth_addrs_below[OF sz] present by blast
  from copy_loop[OF sp empty as] show ?thesis
  proof (elim disjE exE conjE)
    fix t assume r: "kscan ?as (copy_body old new) s = Done None t" and c: "copy_inv s old new xs (length ?as) t"
    have u: "uvmcopy old new sz s = Done 0 t" by (simp add: uvmcopy_eq or_ret_def kexec r)
    obtain ys where C: "spaces t old new ys" "same_space old s t" "copied t old new (length ?as)" "touches new s t xs ys"
      using c by (auto simp: copy_inv_def)
    have "pvalid (lookup 2 (mem t) new va) \<and> ubyte (mem t) new va = ubyte (mem s) old va
          \<and> PTE_FLAGS (lookup 2 (mem t) new va) = PTE_FLAGS (lookup 2 (mem s) old va)" if va: "va < sz" for va
    proof -
      have vT: "va < TRAPFRAME" using va sz by (rule less_le_trans)
      have "unat va < unat sz" using va by (simp add: word_less_nat_alt)
      moreover have "unat sz \<le> (unat sz + 4095) div 4096 * 4096"
        using div_mult_mod_eq[of "unat sz + 4095" 4096] mod_less_divisor[of 4096 "unat sz + 4095"] by linarith
      ultimately have "unat va < length ?as * 4096" unfolding N by (rule less_le_trans)
      then show ?thesis using C(2,3) vT present va by (auto simp: copied_def same_space_def)
    qed
    then show ?thesis using u C(1,2) C(4)[unfolded touches_def] by blast
  next
    fix k r t assume k: "k < length ?as" and r: "kscan ?as (copy_body old new) s = Done (Some r) t" "r = - 1"
      and c: "copy_undone s old new xs k t"
    have u: "uvmcopy old new sz s = Done (- 1) t" using r by (simp add: uvmcopy_eq or_ret_def kexec)
    obtain ys where C: "spaces t old new ys" "same_space old s t"
      "\<forall>va<TRAPFRAME. \<not> pvalid (lookup 2 (mem t) new va)" "length xs < 3 * Suc k" "touches new s t xs ys"
      using c by (auto simp: copy_undone_def)
    have "3 * Suc k \<le> 3 * length ?as" using k by simp
    then have "length xs < 3 * ((unat sz + 4095) div 4096)" using C(4) N by linarith
    moreover have "foot t new = pt_set 2 (mem t) new" using C(3) by (auto simp: foot_def)
    then have "set ys = (foot s new \<union> set xs) - pt_set 2 (mem t) new"
      using C(5) foot_disjoint_free[of t new ys] unfolding touches_def by blast
    ultimately show ?thesis using u C(1-3) C(5)[unfolded touches_def] by blast
  qed
qed

text \<open>A parent whose first page is present and whose other pages are not.\<close>

lemma spaces_sym: "spaces s a b xs \<Longrightarrow> spaces s b a xs"
  by (auto simp: spaces_def)

lemma ex_parent:
  "\<exists>(t :: mst) ys. spaces t 0x87FFF000 0x87FFA000 ys \<and> 5 \<le> length ys
     \<and> (\<forall>va<TRAPFRAME. \<not> pvalid (lookup 2 (mem t) 0x87FFA000 va))
     \<and> (\<forall>va<TRAPFRAME. PGROUNDDOWN va = 0 \<longrightarrow> PTE_FLAGS (lookup 2 (mem t) 0x87FFF000 va) = 0x17)
     \<and> (\<forall>va<TRAPFRAME. PGROUNDDOWN va \<noteq> 0 \<longrightarrow> lookup 2 (mem t) 0x87FFF000 va = 0)"
proof -
  let ?p = "0x87FFF000 :: addr" and ?q = "0x87FFA000 :: addr"
  have sp: "spaces ex_vm ?q ?p ex_free"
    unfolding spaces_def foot_def using ex_uvm[of ?p] ex_uvm[of ?q] ex_vm_table[of ?p] ex_vm_table[of ?q] by simp
  note N = map_new_page_spec[OF ex_vm_inv, of 0 "0x16" zero_fill]
  have "(\<exists>t n. map_new_page ?p 0 zero_fill 0x16 ex_vm = Done True t \<and> new_page ?p ex_vm t ex_free n 0 0x16 zero_fill)
    \<or> (\<exists>t ys. map_new_page ?p 0 zero_fill 0x16 ex_vm = Done False t \<and> no_page ?p ex_vm t ex_free ys)"
    by (rule N) (simp_all add: TRAPFRAME_eq ex_vm_empty zero_fill_local)
  then obtain t n where n: "new_page ?p ex_vm t ex_free n 0 0x16 zero_fill" by (auto simp: no_page_def)
  have "touches ?p ex_vm t ex_free (drop (Suc n) ex_free)" by (rule new_page_touches[OF ex_vm_inv n]) (simp_all add: TRAPFRAME_eq ex_vm_empty)
  note T = touches_other[OF sp this]
  have f: "PTE_FLAGS (lookup 2 (mem t) ?p va) = 0x17" if "va < TRAPFRAME" "PGROUNDDOWN va = 0" for va
    using new_page_content(2)[OF n TRAPFRAME_MAXVA[OF that(1)] that(2)] by simp
  have l: "lookup 2 (mem t) ?p va = 0" if "va < TRAPFRAME" "PGROUNDDOWN va \<noteq> 0" for va
    using n TRAPFRAME_MAXVA[OF that(1)] that(2) ex_vm_empty by (auto simp: new_page_def)
  have q: "\<not> pvalid (lookup 2 (mem t) ?q va)" for va
    using T(2) ex_vm_table(2)[of ?q] by (simp add: same_space_def)
  have len: "5 \<le> length (drop (Suc n) ex_free)" using new_page_length[OF n] by simp
  show ?thesis
    using spaces_sym[OF T(1)] len q f l by blast
qed

lemma page0: "(va :: uint64) < 0x1000 \<Longrightarrow> PGROUNDDOWN va = 0 \<and> va < TRAPFRAME"
proof -
  assume a: "va < 0x1000"
  then have "unat va < 4096" by (simp add: word_less_nat_alt)
  then have "unat (PGROUNDDOWN va) = 0" by (simp add: unat_PGROUNDDOWN)
  moreover have "va < TRAPFRAME" using a by (rule less_trans) (simp add: TRAPFRAME_eq)
  ultimately show ?thesis by (simp add: unat_eq_zero)
qed

lemma flags_0x17: "PTE_FLAGS e = 0x17 \<Longrightarrow> pvalid e \<and> e AND PTE_U \<noteq> 0 \<and> e AND PTE_W \<noteq> 0"
proof -
  assume f: "PTE_FLAGS e = 0x17"
  have m: "e AND k = PTE_FLAGS e AND k" if "k AND 0x3FF = k" for k
    unfolding PTE_FLAGS_def using that by (metis and.assoc and.commute)
  show ?thesis unfolding pvalid_def by (simp add: m[of 1] m[of 16] m[of 4] f)
qed

theorem uvmcopy_correct_witness:
  "\<exists>(s :: mst) t ys. uvmcopy 0x87FFF000 0x87FFA000 0x1000 s = Done 0 t \<and> spaces t 0x87FFF000 0x87FFA000 ys
     \<and> (\<forall>va < 0x1000. pvalid (lookup 2 (mem t) 0x87FFA000 va) \<and> ubyte (mem t) 0x87FFA000 va = ubyte (mem s) 0x87FFF000 va)"
proof -
  obtain s :: mst and xs where s: "spaces s 0x87FFF000 0x87FFA000 xs" "5 \<le> length xs"
    "\<forall>va<TRAPFRAME. \<not> pvalid (lookup 2 (mem s) 0x87FFA000 va)"
    "\<forall>va<TRAPFRAME. PGROUNDDOWN va = 0 \<longrightarrow> PTE_FLAGS (lookup 2 (mem s) 0x87FFF000 va) = 0x17"
    using ex_parent by blast
  have p: "\<forall>va < 0x1000. pvalid (lookup 2 (mem s) 0x87FFF000 va)" using s(4) page0 flags_0x17 by blast
  have z: "(0x1000 :: uint64) \<le> TRAPFRAME" by (simp add: TRAPFRAME_eq)
  have l: "\<not> length xs < 3 * ((unat (0x1000 :: uint64) + 4095) div 4096)" using s(2) by simp
  show ?thesis using uvmcopy_correct[OF s(1) z p s(3)] l by blast
qed

text \<open>C35: \<open>fork\<close> of a process with lazily allocated memory that it has not touched takes the kernel
  down. When some page below the size of the process is not present, \<open>uvmcopy\<close> copies the pages
  before it and then panics (given three free pages for each of them), although \<open>sys_sbrk\<close> leaves
  such holes by design and the other consumers of page tables skip them.\<close>

theorem uvmcopy_lazy_hole_panics:
  assumes sp: "spaces s old new xs" and sz: "sz \<le> TRAPFRAME" and k: "k * 4096 < unat sz"
    and present: "\<forall>va<TRAPFRAME. unat va < k * 4096 \<longrightarrow> pvalid (lookup 2 (mem s) old va)"
    and hole: "\<not> pvalid (lookup 2 (mem s) old (of_nat k * PGSIZE))"
    and empty: "\<forall>va<TRAPFRAME. \<not> pvalid (lookup 2 (mem s) new va)" and memory: "3 * k \<le> length xs"
  shows "\<exists>msg. uvmcopy old new sz s = Panic msg
    \<and> (msg = ''uvmcopy: pte should exist'' \<or> msg = ''uvmcopy: page not present'')"
proof -
  let ?as = "addrs_below 0 sz" let ?a = "of_nat k * PGSIZE :: uint64"
  have "k < (unat sz + 4095) div 4096"
    using k less_eq_div_iff_mult_less_eq[of 4096 "Suc k" "unat sz + 4095"] by simp
  then have kl: "k < length ?as" and ka: "?as ! k = ?a" by (simp_all add: addrs_below_def)
  note A = nth_addrs_below[OF sz]
  have as: "\<forall>j<length (take k ?as). unat (take k ?as ! j) = j * 4096 \<and> take k ?as ! j < TRAPFRAME
      \<and> pvalid (lookup 2 (mem s) old (take k ?as ! j))"
  proof (intro allI impI)
    fix j assume "j < length (take k ?as)"
    then have j: "j < k" "j < length ?as" by simp_all
    then show "unat (take k ?as ! j) = j * 4096 \<and> take k ?as ! j < TRAPFRAME
      \<and> pvalid (lookup 2 (mem s) old (take k ?as ! j))"
      using A[OF j(2)] present by simp
  qed
  have "\<not> (\<exists>j r t. j < length (take k ?as) \<and> kscan (take k ?as) (copy_body old new) s = Done (Some r) t
         \<and> r = - 1 \<and> copy_undone s old new xs j t)"
    using memory kl by (auto simp: copy_undone_def)
  with copy_loop[OF sp empty as] obtain t where t: "kscan (take k ?as) (copy_body old new) s = Done None t"
    and c: "copy_inv s old new xs (length (take k ?as)) t" by blast
  have so: "spaces t old new ys \<Longrightarrow> pt_ok 2 (mem t) old" for ys
    by (rule pt_invD(1)[OF uvm_invD(1), of _ _ ys]) (simp add: spaces_def)
  then have ok: "pt_ok 2 (mem t) old" and h: "\<not> pvalid (lookup 2 (mem t) old ?a)"
    using c hole by (auto simp: copy_inv_def same_space_def)
  have aM: "?a < MAXVA" using A(3)[OF kl] ka TRAPFRAME_MAXVA by simp
  have "\<exists>msg. copy_body old new ?a t = Panic msg
      \<and> (msg = ''uvmcopy: pte should exist'' \<or> msg = ''uvmcopy: page not present'')"
    using h pte_addr_load(2)[OF ok, of ?a]
    by (cases "pte_addr 2 (mem t) old ?a = 0") (simp_all add: copy_body_def walk_find[OF aM] kexec pvalid_def)
  moreover have "?as = take k ?as @ ?a # drop (Suc k) ?as" using id_take_nth_drop[OF kl] ka by simp
  then have "kscan ?as (copy_body old new) s =
      kscan (take k ?as @ ?a # drop (Suc k) ?as) (copy_body old new) s" by simp
  ultimately show ?thesis
    by (auto simp: uvmcopy_eq or_ret_def kexec kscan_append t)
qed

theorem uvmcopy_lazy_hole_panics_witness:
  "\<exists>(s :: mst) msg. uvmcopy 0x87FFF000 0x87FFA000 0x2000 s = Panic msg"
proof -
  obtain s :: mst and xs where s: "spaces s 0x87FFF000 0x87FFA000 xs" "5 \<le> length xs"
    "\<forall>va<TRAPFRAME. \<not> pvalid (lookup 2 (mem s) 0x87FFA000 va)"
    "\<forall>va<TRAPFRAME. PGROUNDDOWN va = 0 \<longrightarrow> PTE_FLAGS (lookup 2 (mem s) 0x87FFF000 va) = 0x17"
    "\<forall>va<TRAPFRAME. PGROUNDDOWN va \<noteq> 0 \<longrightarrow> lookup 2 (mem s) 0x87FFF000 va = 0"
    using ex_parent by blast
  have p: "\<forall>va<TRAPFRAME. unat va < 1 * 4096 \<longrightarrow> pvalid (lookup 2 (mem s) 0x87FFF000 va)"
  proof (intro allI impI)
    fix va :: uint64 assume "va < TRAPFRAME" "unat va < 1 * 4096"
    then show "pvalid (lookup 2 (mem s) 0x87FFF000 va)"
      using s(4) page0[of va] flags_0x17 by (simp add: word_less_nat_alt)
  qed
  have h: "\<not> pvalid (lookup 2 (mem s) 0x87FFF000 (of_nat 1 * PGSIZE))"
    using s(5) by (simp add: PGSIZE_def TRAPFRAME_eq PGROUNDDOWN_id)
  have z: "(0x2000 :: uint64) \<le> TRAPFRAME" "1 * 4096 < unat (0x2000 :: uint64)" "3 * 1 \<le> length xs"
    using s(2) by (simp_all add: TRAPFRAME_eq)
  show ?thesis using uvmcopy_lazy_hole_panics[OF s(1) z(1,2) p h s(3) z(3)] by blast
qed

theorem copyout_copyin_roundtrip_witness:
  "\<exists>(s :: mst) t. copyout 0x87FFF000 0x10 [1, 2, 3] s = Done 0 t \<and> copyin 0x87FFF000 0x10 3 t = Done (0, [1, 2, 3]) t"
proof -
  obtain s :: mst and xs where s: "spaces s 0x87FFF000 0x87FFA000 xs"
    "\<forall>va<TRAPFRAME. PGROUNDDOWN va = 0 \<longrightarrow> PTE_FLAGS (lookup 2 (mem s) 0x87FFF000 va) = 0x17"
    using ex_parent by blast
  have inv: "uvm_inv s 0x87FFF000 xs" using s(1) by (simp add: spaces_def)
  have "pvalid (lookup 2 (mem s) 0x87FFF000 (0x10 + of_nat i)) \<and> lookup 2 (mem s) 0x87FFF000 (0x10 + of_nat i) AND PTE_U \<noteq> 0
      \<and> lookup 2 (mem s) 0x87FFF000 (0x10 + of_nat i) AND PTE_W \<noteq> 0" if "i < 3" for i
  proof -
    have "(0x10 + of_nat i :: uint64) < 0x1000"
      using that by (auto simp: less_Suc_eq numeral_3_eq_3)
    then show ?thesis using page0 s(2) flags_0x17 by blast
  qed
  then have "writable s 0x87FFF000 0x10 (length [1, 2, 3 :: byte])"
    by (simp add: writable_def readable_def TRAPFRAME_eq)
  from copyout_copyin_roundtrip[OF inv this] show ?thesis by (auto simp: numeral_3_eq_3)
qed

end
