(* ===== verification/Fswrite.thy ===== *)
theory Fswrite
  imports Fsfile Sysprocspec Ufork
begin

text \<open>
  Files that grow. \<open>writei\<close> in full: from user memory, kernel memory or the kernel stack, into blocks the file has and into blocks that
  \<open>bmap\<close> allocates on the way, direct, indirect and the indirect block itself, until the bytes or the blocks of the disk run out.
\<close>

subsection \<open>The blocks of an inode\<close>

text \<open>The address of block \<open>bn\<close> of the file with the addresses \<open>a\<close> on a disk that reads as \<open>v\<close>, 0 when it has none, and the blocks in
  use by the file, its indirect block included.\<close>

definition faddr :: "(nat \<Rightarrow> block) \<Rightarrow> (nat \<Rightarrow> uint) \<Rightarrow> nat \<Rightarrow> uint" where
  "faddr v a bn = (if bn < NDIRECT then a bn
     else if bn < MAXFILE \<and> a NDIRECT \<noteq> 0 then bload32 (v (unat (a NDIRECT))) (4 * (bn - NDIRECT)) else 0)"

definition ind_of :: "(nat \<Rightarrow> uint) \<Rightarrow> nat set" where
  "ind_of a = (if a NDIRECT = 0 then {} else {unat (a NDIRECT)})"

definition owns :: "(nat \<Rightarrow> block) \<Rightarrow> (nat \<Rightarrow> uint) \<Rightarrow> nat set" where
  "owns v a = {unat (faddr v a bn) |bn. faddr v a bn \<noteq> 0} \<union> ind_of a"

definition isfree :: "superblock \<Rightarrow> (nat \<Rightarrow> block) \<Rightarrow> nat \<Rightarrow> bool" where
  "isfree k v c \<longleftrightarrow> bit_free (v (bm_block k c)) (c mod BPB)"

definition bmaps :: "superblock \<Rightarrow> nat set" where
  "bmaps k = bm_block k ` {..<unat (sb_size k)}"

text \<open>The invariant of an inode whose own block is \<open>ib\<close>: the free map has its place on the disk, no free block is a map block, the inode's
  block or block 0; the blocks of the file are blocks of the disk in use, none of them a map block or the inode's block, and no block is
  used twice.\<close>

definition inode_wf :: "superblock \<Rightarrow> nat \<Rightarrow> (nat \<Rightarrow> block) \<Rightarrow> (nat \<Rightarrow> uint) \<Rightarrow> bool" where
  "inode_wf k ib v a \<longleftrightarrow> unat (sb_bmapstart k) + unat (sb_size k) div BPB < 2 ^ 32 \<and> ib \<notin> bmaps k
     \<and> (\<forall>b<unat (sb_size k). isfree k v b \<longrightarrow> b \<notin> bmaps k \<and> b \<noteq> ib \<and> b \<noteq> 0)
     \<and> (\<forall>m\<in>owns v a. m < unat (sb_size k) \<and> \<not> isfree k v m \<and> m \<notin> bmaps k \<and> m \<noteq> ib)
     \<and> (\<forall>bn bm. faddr v a bn = faddr v a bm \<longrightarrow> faddr v a bn \<noteq> 0 \<longrightarrow> bn = bm)
     \<and> (\<forall>bn. faddr v a bn \<noteq> 0 \<longrightarrow> faddr v a bn \<noteq> a NDIRECT)"

lemma inode_wfD:
  assumes "inode_wf k ib v a"
  shows "unat (sb_bmapstart k) + unat (sb_size k) div BPB < 2 ^ 32" "ib \<notin> bmaps k"
    "b < unat (sb_size k) \<Longrightarrow> isfree k v b \<Longrightarrow> b \<notin> bmaps k \<and> b \<noteq> ib \<and> b \<noteq> 0"
    "m \<in> owns v a \<Longrightarrow> m < unat (sb_size k) \<and> \<not> isfree k v m \<and> m \<notin> bmaps k \<and> m \<noteq> ib"
    "faddr v a bn = faddr v a bm \<Longrightarrow> faddr v a bn \<noteq> 0 \<Longrightarrow> bn = bm" "faddr v a bn \<noteq> 0 \<Longrightarrow> faddr v a bn \<noteq> a NDIRECT"
  using assms by (auto simp: inode_wf_def)

lemma owns_faddr: "faddr v a bn \<noteq> 0 \<Longrightarrow> unat (faddr v a bn) \<in> owns v a"
  by (auto simp: owns_def)

lemma owns_ind: "a NDIRECT \<noteq> 0 \<Longrightarrow> unat (a NDIRECT) \<in> owns v a"
  by (simp add: owns_def ind_of_def)

lemma faddr_cong: "(a NDIRECT \<noteq> 0 \<Longrightarrow> v' (unat (a NDIRECT)) = v (unat (a NDIRECT))) \<Longrightarrow> faddr v' a = faddr v a"
  by (rule ext) (auto simp: faddr_def)

text \<open>The byte at offset \<open>x\<close>.\<close>

definition fbyte :: "(nat \<Rightarrow> block) \<Rightarrow> (nat \<Rightarrow> uint) \<Rightarrow> nat \<Rightarrow> byte" where
  "fbyte v a x = v (unat (faddr v a (x div BSIZE))) (x mod BSIZE)"

text \<open>\<open>wrote k v a off bs v' a'\<close>: the bytes \<open>bs\<close> have been written at offset \<open>off\<close> of the file, the blocks it had are still its own, those it
  has got are exactly the ones that have left the free map, and all other blocks but those of the map read as before.\<close>

definition wrote :: "superblock \<Rightarrow> (nat \<Rightarrow> block) \<Rightarrow> (nat \<Rightarrow> uint) \<Rightarrow> nat \<Rightarrow> byte list \<Rightarrow> (nat \<Rightarrow> block) \<Rightarrow> (nat \<Rightarrow> uint) \<Rightarrow> bool" where
  "wrote k v a off bs v' a' \<longleftrightarrow> (\<forall>bn. faddr v a bn \<noteq> 0 \<longrightarrow> faddr v' a' bn = faddr v a bn)
     \<and> (\<forall>x. faddr v a (x div BSIZE) \<noteq> 0 \<longrightarrow> fbyte v' a' x = bput off bs (fbyte v a) x)
     \<and> (\<forall>x. off \<le> x \<and> x < off + length bs \<longrightarrow> faddr v' a' (x div BSIZE) \<noteq> 0 \<and> fbyte v' a' x = bs ! (x - off))
     \<and> owns v a \<subseteq> owns v' a' \<and> (\<forall>c<unat (sb_size k). isfree k v' c \<longleftrightarrow> isfree k v c \<and> c \<notin> owns v' a')
     \<and> (\<forall>m. m \<notin> owns v' a' \<longrightarrow> m \<notin> bmaps k \<longrightarrow> v' m = v m)"

lemma wroteD:
  assumes "wrote k v a off bs v' a'"
  shows "faddr v a bn \<noteq> 0 \<Longrightarrow> faddr v' a' bn = faddr v a bn"
    "faddr v a (x div BSIZE) \<noteq> 0 \<Longrightarrow> fbyte v' a' x = bput off bs (fbyte v a) x"
    "off \<le> x \<Longrightarrow> x < off + length bs \<Longrightarrow> faddr v' a' (x div BSIZE) \<noteq> 0 \<and> fbyte v' a' x = bs ! (x - off)"
    "owns v a \<subseteq> owns v' a'" "c < unat (sb_size k) \<Longrightarrow> isfree k v' c \<longleftrightarrow> isfree k v c \<and> c \<notin> owns v' a'"
    "m \<notin> owns v' a' \<Longrightarrow> m \<notin> bmaps k \<Longrightarrow> v' m = v m"
  using assms unfolding wrote_def by blast+

lemma bput_out: "\<not> (off \<le> x \<and> x < off + length bs) \<Longrightarrow> bput off bs f x = f x"
  by (auto simp: bput_def)

lemma wrote_refl: "inode_wf k ib v a \<Longrightarrow> wrote k v a off [] v a"
  by (auto simp: wrote_def bput_def inode_wf_def)

lemma wrote_trans:
  assumes A: "wrote k v a off xs v' a'" and B: "wrote k v' a' (off + length xs) ys v'' a''"
  shows "wrote k v a off (xs @ ys) v'' a''"
proof -
  note A = wroteD[OF A] note B = wroteD[OF B]
  have "fbyte v'' a'' x = bput off (xs @ ys) (fbyte v a) x" if x: "faddr v a (x div BSIZE) \<noteq> 0" for x
  proof -
    have "faddr v' a' (x div BSIZE) \<noteq> 0" using A(1)[OF x] x by simp
    from B(2)[OF this] show ?thesis using A(2)[OF x] by (auto simp: bput_def nth_append)
  qed
  moreover have "faddr v'' a'' (x div BSIZE) \<noteq> 0 \<and> fbyte v'' a'' x = (xs @ ys) ! (x - off)"
    if x: "off \<le> x" "x < off + length (xs @ ys)" for x
  proof (cases "x < off + length xs")
    case True
    then show ?thesis using A(3)[OF x(1) True] B(1)[of "x div BSIZE"] B(2)[of x] x(1) by (auto simp: bput_def nth_append)
  next
    case False
    then show ?thesis using B(3)[of x] x by (auto simp: nth_append)
  qed
  moreover have "v'' m = v m" if m: "m \<notin> owns v'' a''" "m \<notin> bmaps k" for m
    using A(6)[of m] B(6)[OF m] B(4) m by auto
  moreover have "isfree k v'' c \<longleftrightarrow> isfree k v c \<and> c \<notin> owns v'' a''" if "c < unat (sb_size k)" for c
    using A(5)[OF that] B(5)[OF that] B(4) by blast
  moreover have "faddr v'' a'' bn = faddr v a bn" if "faddr v a bn \<noteq> 0" for bn using A(1)[OF that] B(1)[of bn] that by simp
  ultimately show ?thesis unfolding wrote_def using A(4) B(4) by blast
qed

lemma isfree_outside:
  assumes "\<And>m. m \<in> bmaps k \<Longrightarrow> v' m = v m" "c < unat (sb_size k)"
  shows "isfree k v' c = isfree k v c"
  using assms(1)[of "bm_block k c"] assms(2) by (auto simp: isfree_def bmaps_def)

text \<open>A block of the file is written in part.\<close>

lemma write_part:
  assumes wf: "inode_wf k ib v a" and w: "faddr v a (off div BSIZE) \<noteq> 0" and l: "length bs \<le> BSIZE - off mod BSIZE"
    and v': "v' = v(unat (faddr v a (off div BSIZE)) := bput (off mod BSIZE) bs (v (unat (faddr v a (off div BSIZE)))))"
  shows "faddr v' a = faddr v a" "inode_wf k ib v' a" "wrote k v a off bs v' a"
proof -
  let ?w = "faddr v a (off div BSIZE)"
  note W = inode_wfD[OF wf]
  have ow: "unat ?w \<in> owns v a" by (rule owns_faddr[OF w])
  show fe: "faddr v' a = faddr v a"
    by (rule faddr_cong) (use W(6)[OF w] in \<open>auto simp: v' word_unat_eq_iff\<close>)
  have oe: "owns v' a = owns v a" by (simp add: owns_def fe)
  have ie: "isfree k v' c = isfree k v c" if "c < unat (sb_size k)" for c
    by (rule isfree_outside[OF _ that]) (use W(4)[OF ow] in \<open>auto simp: v'\<close>)
  show "inode_wf k ib v' a" unfolding inode_wf_def fe oe using wf ie W(4) by (auto simp: inode_wf_def)
  have b: "fbyte v' a x = bput off bs (fbyte v a) x" for x
  proof (cases "x div BSIZE = off div BSIZE")
    case True
    have "x = off div BSIZE * BSIZE + x mod BSIZE" unfolding True[symmetric] by simp
    note e = same_base[OF this div_mult_mod_eq[symmetric, of off BSIZE]]
    have "v' (unat ?w) = bput (off mod BSIZE) bs (v (unat ?w))" by (simp add: v')
    then show ?thesis unfolding fbyte_def fe True bput_def e by (simp add: True)
  next
    case False
    have n: "\<not> (off \<le> x \<and> x < off + length bs)"
    proof
      assume a: "off \<le> x \<and> x < off + length bs"
      have "off mod BSIZE < BSIZE" by simp
      then have "off mod BSIZE + (x - off) < BSIZE" using a l by linarith
      from same_block(1)[OF this] a False show False by simp
    qed
    have "faddr v a (x div BSIZE) \<noteq> ?w" using W(5)[of "x div BSIZE" "off div BSIZE"] False w by auto
    then have "unat (faddr v a (x div BSIZE)) \<noteq> unat ?w" by (simp add: word_unat_eq_iff)
    then have "v' (unat (faddr v a (x div BSIZE))) = v (unat (faddr v a (x div BSIZE)))" by (simp add: v')
    then show ?thesis unfolding bput_out[OF n] by (simp only: fbyte_def fe)
  qed
  have r: "faddr v a (x div BSIZE) \<noteq> 0" if x: "off \<le> x" "x < off + length bs" for x
  proof -
    have "off mod BSIZE < BSIZE" by simp
    then have "off mod BSIZE + (x - off) < BSIZE" using x l by linarith
    from same_block(1)[OF this] x w show ?thesis by simp
  qed
  show "wrote k v a off bs v' a"
    unfolding wrote_def fe oe b using r ie W(4) ow by (auto simp: v' bput_def)
qed

text \<open>A free block becomes a block of the file: it leaves the free map and is entered at \<open>bn\<close>, or as the indirect block.\<close>

lemma take_block:
  assumes wf: "inode_wf k ib v a" and b: "b < unat (sb_size k)" "isfree k v b"
    and fr: "\<forall>c<unat (sb_size k). isfree k v' c \<longleftrightarrow> isfree k v c \<and> c \<noteq> b"
    and same: "\<forall>m. m \<notin> bmaps k \<longrightarrow> m \<noteq> b \<longrightarrow> m \<notin> ind_of a' \<longrightarrow> v' m = v m"
    and f: "faddr v' a' = (faddr v a)(bn := of_nat b) \<and> a' NDIRECT = a NDIRECT \<and> faddr v a bn = 0
      \<or> faddr v' a' = faddr v a \<and> a' NDIRECT = of_nat b \<and> a NDIRECT = 0"
  shows "owns v' a' = insert b (owns v a)" "inode_wf k ib v' a'" "wrote k v a off [] v' a'"
proof -
  note W = inode_wfD[OF wf]
  have b32: "b < 2 ^ 32" using b(1) unsigned_less[of "sb_size k", where ?'a = nat] by simp
  have ub: "unat (of_nat b :: uint) = b" using b32 by (simp add: unat_of_nat)
  have B: "b \<notin> bmaps k" "b \<noteq> ib" "b \<noteq> 0" using W(3)[OF b] by blast+
  have nz: "(of_nat b :: uint) \<noteq> 0" using ub B(3) by (metis unat_0)
  have no: "b \<notin> owns v a" using W(4) b(2) by blast
  show ow: "owns v' a' = insert b (owns v a)"
    using f
  proof (elim disjE conjE)
    assume A: "faddr v' a' = (faddr v a)(bn := of_nat b)" "a' NDIRECT = a NDIRECT" "faddr v a bn = 0"
    have "{unat (faddr v' a' bm) |bm. faddr v' a' bm \<noteq> 0} = insert b {unat (faddr v a bm) |bm. faddr v a bm \<noteq> 0}"
      unfolding A(1) using nz ub A(3) by (auto 4 3 simp: fun_upd_def split: if_splits)
    then show ?thesis by (simp add: owns_def ind_of_def A(2))
  next
    assume A: "faddr v' a' = faddr v a" "a' NDIRECT = of_nat b" "a NDIRECT = 0"
    then show ?thesis using nz ub by (simp add: owns_def ind_of_def)
  qed
  have fe: "faddr v' a' bm = faddr v a bm" if "faddr v a bm \<noteq> 0" for bm using f that by auto
  have nb: "faddr v a bm \<noteq> of_nat b" "a NDIRECT \<noteq> of_nat b" for bm
    using no ub nz owns_faddr[of v a bm] owns_ind[of a v] by auto
  have inj: "bm = bl" if h: "faddr v' a' bm = faddr v' a' bl" "faddr v' a' bm \<noteq> 0" for bm bl
    using f h W(5)[of bm bl] nb(1) by (auto split: if_splits) metis+
  have ind: "faddr v' a' bm \<noteq> a' NDIRECT" if "faddr v' a' bm \<noteq> 0" for bm
    using f that W(6)[of bm] nb by (auto split: if_splits)
  show "inode_wf k ib v' a'"
    unfolding inode_wf_def ow using W(1-4) fr b B no inj ind by auto
  have "v' (unat (faddr v a bm)) = v (unat (faddr v a bm))" if h: "faddr v a bm \<noteq> 0" for bm
  proof -
    have "unat (faddr v a bm) \<in> owns v a" by (rule owns_faddr[OF h])
    moreover have "unat (faddr v a bm) \<notin> ind_of a'" using ind[of bm] fe[OF h] h by (auto simp: ind_of_def word_unat_eq_iff)
    ultimately show ?thesis using same W(4) no by blast
  qed
  then have by0: "fbyte v' a' x = fbyte v a x" if "faddr v a (x div BSIZE) \<noteq> 0" for x using that fe[OF that] by (simp add: fbyte_def)
  have "ind_of a' \<subseteq> owns v' a'" by (simp add: owns_def)
  then show "wrote k v a off [] v' a'"
    unfolding wrote_def using fe by0 same fr W(4) ow by (auto simp: bput_def)
qed

lemma link_direct:
  assumes "bn < NDIRECT" "a NDIRECT \<noteq> 0 \<Longrightarrow> v' (unat (a NDIRECT)) = v (unat (a NDIRECT))"
  shows "faddr v' (a(bn := w)) = (faddr v a)(bn := w)"
  by (rule ext) (use assms in \<open>auto simp: faddr_def\<close>)

lemma bload32_zero [simp]: "bload32 (\<lambda>_. 0) n = 0"
  by (simp add: bload32_def)

lemma link_indirect:
  assumes "a NDIRECT = 0" "v' (unat w) = (\<lambda>_. 0)"
  shows "faddr v' (a(NDIRECT := w)) = faddr v a"
  by (rule ext) (use assms in \<open>auto simp: faddr_def\<close>)

lemma link_entry:
  assumes "a NDIRECT \<noteq> 0" "\<not> bn < NDIRECT" "bn < MAXFILE"
    "v' (unat (a NDIRECT)) = bstore32 (v (unat (a NDIRECT))) (4 * (bn - NDIRECT)) w"
  shows "faddr v' a = (faddr v a)(bn := w)"
proof
  fix bm
  have "bload32 (bstore32 (v (unat (a NDIRECT))) (4 * (bn - NDIRECT)) w) (4 * (bm - NDIRECT)) = bload32 (v (unat (a NDIRECT))) (4 * (bm - NDIRECT))"
    if "bm \<noteq> bn" "\<not> bm < NDIRECT"
    by (rule bload32_bstore32_other) (use that assms(2) in auto)
  then show "faddr v' a bm = ((faddr v a)(bn := w)) bm" using assms by (auto simp: faddr_def)
qed

subsection \<open>The state around it\<close>

text \<open>\<open>writei\<close> changes the cache and the log, the console when the disk is full, and the addresses and the size of one inode.\<close>

definition wframe :: "'a fsst_scheme \<Rightarrow> nat \<Rightarrow> 'a fsst_scheme \<Rightarrow> bool" where
  "wframe s ip t \<longleftrightarrow> tframe (s\<lparr>inodes := inodes t, conout := conout t\<rparr>) t
     \<and> inodes t = (inodes s)(ip := (inodes s ip)\<lparr>i_size := i_size (inodes t ip), i_addrs := i_addrs (inodes t ip)\<rparr>)"

lemma wframeD:
  assumes "wframe s ip t"
  shows "held t = held s" "cur t = cur s" "mem t = mem s" "sb t = sb s" "cur s = Some p \<Longrightarrow> procs t p = procs s p"
    "i_dev (inodes t ip) = i_dev (inodes s ip)" "i_inum (inodes t ip) = i_inum (inodes s ip)"
    "freelist t = freelist s" "free_pages t = free_pages s" "k_end t = k_end s" "iblk t ip = iblk s ip"
    "inodes t = (inodes s)(ip := (inodes s ip)\<lparr>i_size := i_size (inodes t ip), i_addrs := i_addrs (inodes t ip)\<rparr>)"
proof -
  have f: "tframe (s\<lparr>inodes := inodes t, conout := conout t\<rparr>) t" and
    i: "inodes t = (inodes s)(ip := (inodes s ip)\<lparr>i_size := i_size (inodes t ip), i_addrs := i_addrs (inodes t ip)\<rparr>)"
    using assms by (simp_all add: wframe_def)
  show "held t = held s" "cur t = cur s" "mem t = mem s" "cur s = Some p \<Longrightarrow> procs t p = procs s p" and b: "sb t = sb s"
    using tframeD[OF f] tframe_fs[OF f] by simp_all
  show "freelist t = freelist s" "free_pages t = free_pages s" "k_end t = k_end s"
    using f by (auto simp: tframe_def mst.defs)
  show d: "i_dev (inodes t ip) = i_dev (inodes s ip)" "i_inum (inodes t ip) = i_inum (inodes s ip)" by (subst i, simp)+
  show "iblk t ip = iblk s ip" by (simp add: iblk_def d b)
qed (use assms in \<open>simp add: wframe_def\<close>)

lemma conout_cache [simp]:
  "view (s\<lparr>conout := f\<rparr>) = view s" "owned (s\<lparr>conout := f\<rparr>) = owned s" "refs (s\<lparr>conout := f\<rparr>) = refs s" "home (s\<lparr>conout := f\<rparr>) = home s"
  by (rule ext, simp add: view_def owned_def refs_def home_def buf_of_def Let_def split: option.split)+

lemma conout_tx [simp]: "tx p (s\<lparr>conout := f\<rparr>) L H D = tx p s L H D"
  by (simp add: tx_def bc_inv_def bio_ok_def)

lemma tframe_conout: "tframe s t \<Longrightarrow> tframe (s\<lparr>conout := f\<rparr>) (t\<lparr>conout := f\<rparr>)"
  by (cases s; cases t) (simp add: tframe_def mst.defs)

lemma wframe_tframe: "tframe s t \<Longrightarrow> wframe s ip t"
  using tframe_fs[of s t] tframeD(13)[of s t] by (auto simp: wframe_def)

lemma wframe_trans:
  assumes "wframe s ip t" "wframe t ip u"
  shows "wframe s ip u"
proof -
  let ?f = "\<lambda>r. r\<lparr>inodes := inodes u, conout := conout u\<rparr>"
  have "tframe (?f s) (?f t)"
    using tframe_conout[OF tframe_inodes[of "s\<lparr>inodes := inodes t, conout := conout t\<rparr>" t "inodes u"], of "conout u"] assms(1)
    by (simp add: wframe_def)
  moreover have "tframe (?f t) u" using assms(2) by (simp add: wframe_def)
  ultimately have "tframe (?f s) u" by (rule tframe_trans)
  moreover have "inodes u = (inodes s)(ip := (inodes s ip)\<lparr>i_size := i_size (inodes u ip), i_addrs := i_addrs (inodes u ip)\<rparr>)"
  proof
    fix j
    note A = assms[unfolded wframe_def, THEN conjunct2, THEN fun_cong, of j]
    show "inodes u j = ((inodes s)(ip := (inodes s ip)\<lparr>i_size := i_size (inodes u ip), i_addrs := i_addrs (inodes u ip)\<rparr>)) j"
    proof (cases "j = ip")
      case True
      have "inodes u ip = (inodes t ip)\<lparr>i_size := i_size (inodes u ip), i_addrs := i_addrs (inodes u ip)\<rparr>" using A(2) True by simp
      also have "\<dots> = (inodes s ip)\<lparr>i_size := i_size (inodes u ip), i_addrs := i_addrs (inodes u ip)\<rparr>"
        by (subst A(1)[unfolded True fun_upd_same]) simp
      finally show ?thesis using True by simp
    qed (use A in simp)
  qed
  ultimately show ?thesis by (simp add: wframe_def)
qed

text \<open>Room in the log for \<open>n\<close> blocks besides those of the free map and the indirect block, which is counted before it exists.\<close>

definition wroom :: "superblock \<Rightarrow> nat set \<Rightarrow> (nat \<Rightarrow> uint) \<Rightarrow> nat \<Rightarrow> bool" where
  "wroom k L a n \<longleftrightarrow> card (L \<union> bmaps k \<union> ind_of a) + (if a NDIRECT = 0 then 1 else 0) + n < LOGSIZE"

lemma finite_bmaps [simp]: "finite (bmaps k)"
  by (simp add: bmaps_def)

lemma finite_ind [simp]: "finite (ind_of a)"
  by (simp add: ind_of_def)

lemma wroom_mono: "wroom k L a n \<Longrightarrow> m \<le> n \<Longrightarrow> wroom k L a m"
  by (auto simp: wroom_def)

lemma wroom_tx:
  assumes "finite L" "wroom k L a n"
  shows "tx_room L Map.empty n" "n = Suc m \<Longrightarrow> tx_room L [b \<mapsto> x] m"
proof -
  have "card L \<le> card (L \<union> bmaps k \<union> ind_of a)" using assms(1) by (intro card_mono) auto
  then show "tx_room L Map.empty n" "n = Suc m \<Longrightarrow> tx_room L [b \<mapsto> x] m"
    using assms(2) by (auto simp: wroom_def tx_room_def LOGSIZE_def MAXOPBLOCKS_def NBUF_def split: if_splits)
qed

lemma wroom_step:
  assumes "finite L" "wroom k L a (Suc n)" "a' NDIRECT = a NDIRECT" "L' \<subseteq> insert b (L \<union> bmaps k \<union> ind_of a)"
  shows "wroom k L' a' n"
proof -
  let ?R = "L \<union> bmaps k \<union> ind_of a"
  have i: "ind_of a' = ind_of a" using assms(3) by (simp add: ind_of_def)
  have "card (L' \<union> bmaps k \<union> ind_of a') \<le> card (insert b ?R)" unfolding i using assms(1,4) by (intro card_mono) auto
  also have "\<dots> \<le> Suc (card ?R)" using assms(1) by (simp add: card_insert_if)
  finally show ?thesis using assms(2,3) by (auto simp: wroom_def)
qed

lemma wroom_ind:
  assumes "finite L" "wroom k L a n" "a NDIRECT = 0" "a' NDIRECT \<noteq> 0" "L' \<subseteq> insert (unat (a' NDIRECT)) (L \<union> bmaps k)"
  shows "wroom k L' a' n"
proof -
  let ?R = "L \<union> bmaps k"
  have "card (L' \<union> bmaps k \<union> ind_of a') \<le> card (insert (unat (a' NDIRECT)) ?R)"
    using assms(1,4,5) by (intro card_mono) (auto simp: ind_of_def)
  also have "\<dots> \<le> Suc (card ?R)" using assms(1) by (simp add: card_insert_if)
  finally show ?thesis using assms(2-4) by (auto simp: wroom_def ind_of_def)
qed

text \<open>The invariant of an inode in a state in which messages can be printed.\<close>

definition file_wf :: "'a fsst_scheme \<Rightarrow> nat \<Rightarrow> bool" where
  "file_wf s ip \<longleftrightarrow> inode_wf (sb s) (unat (iblk s ip)) (view s) (i_addrs (inodes s ip)) \<and> i_dev (inodes s ip) = ROOTDEV
     \<and> PR_LOCK \<notin> held s"

definition disk_full :: "'a fsst_scheme \<Rightarrow> bool" where
  "disk_full s \<longleftrightarrow> (\<forall>c<unat (sb_size (sb s)). \<not> block_free s c)"

definition extended :: "'a fsst_scheme \<Rightarrow> nat \<Rightarrow> nat \<Rightarrow> byte list \<Rightarrow> 'a fsst_scheme \<Rightarrow> bool" where
  "extended s ip off bs t \<longleftrightarrow> wframe s ip t \<and> i_size (inodes t ip) = i_size (inodes s ip) \<and> file_wf t ip
     \<and> wrote (sb s) (view s) (i_addrs (inodes s ip)) off bs (view t) (i_addrs (inodes t ip))"

lemma extended_refl: "file_wf s ip \<Longrightarrow> extended s ip off [] s"
  using wrote_refl wframe_tframe[OF tframe_refl] by (auto simp: extended_def file_wf_def)

lemma extended_trans:
  assumes "extended s ip off xs t" "extended t ip (off + length xs) ys u"
  shows "extended s ip off (xs @ ys) u"
  using assms wframe_trans[of s ip t u] wrote_trans wframeD(4)[of s ip t] by (fastforce simp: extended_def)

lemma extended_frame:
  assumes "file_wf s ip" "wframe s ip t" "inodes t = inodes s" "view t = view s"
  shows "extended s ip off [] t"
  using assms wrote_refl wframeD(1,4,11)[OF assms(2)] by (auto simp: extended_def file_wf_def)

lemma block_free_isfree: "block_free s c = isfree (sb s) (view s) c"
  by (simp add: block_free_def isfree_def)

lemma fmap_wf:
  assumes "inode_wf (sb s) ib (view s) a" "dom H \<subseteq> owns (view s) a"
  shows "fmap_ok s H"
proof -
  note W = inode_wfD[OF assms(1)]
  have "H (bm_block (sb s) b) = None" if "b < unat (sb_size (sb s))" for b
  proof -
    have "bm_block (sb s) b \<in> bmaps (sb s)" using that by (auto simp: bmaps_def)
    then show ?thesis using W(4) assms(2) by (meson domIff subsetD)
  qed
  moreover have "H b = None \<and> (\<forall>c<unat (sb_size (sb s)). bm_block (sb s) c \<noteq> b)"
    if "b < unat (sb_size (sb s))" "block_free s b" for b
    using W(3)[OF that(1)] W(4)[of b] that(2) assms(2) by (auto simp: block_free_isfree bmaps_def)
  ultimately show ?thesis using W(1) unfolding fmap_ok_def Let_def by blast
qed

text \<open>\<open>balloc\<close> for a file: a free block, or none and a message on the console.\<close>

lemma balloc_file:
  fixes s :: "'a fsst_scheme"
  assumes t: "tx p s L H {}" and room: "tx_room L H 2" and wf: "file_wf s ip" and H: "dom H \<subseteq> owns (view s) (i_addrs (inodes s ip))"
  shows "(\<exists>b t. balloc ROOTDEV s = Done (of_nat b) t \<and> b < unat (sb_size (sb s)) \<and> isfree (sb s) (view s) b
        \<and> (of_nat b :: uint) \<noteq> 0 \<and> unat (of_nat b :: uint) = b
        \<and> tframe s t \<and> tx p t (insert b (insert (bm_block (sb s) b) L)) H {} \<and> bm_block (sb s) b \<in> bmaps (sb s)
        \<and> (\<forall>c<unat (sb_size (sb s)). isfree (sb s) (view t) c \<longleftrightarrow> isfree (sb s) (view s) c \<and> c \<noteq> b)
        \<and> view t b = (\<lambda>_. 0) \<and> (\<forall>m. m \<notin> bmaps (sb s) \<longrightarrow> m \<noteq> b \<longrightarrow> view t m = view s m))
    \<or> (\<exists>t. balloc ROOTDEV s = Done 0 t \<and> wframe s ip t \<and> inodes t = inodes s \<and> tx p t L H {} \<and> view t = view s \<and> disk_full t)"
proof -
  have wi: "inode_wf (sb s) (unat (iblk s ip)) (view s) (i_addrs (inodes s ip))" and pr: "PR_LOCK \<notin> held s"
    using wf by (simp_all add: file_wf_def)
  note W = inode_wfD[OF wi] note fm = fmap_wf[OF wi H]
  from balloc_run[OF t fm room pr] show ?thesis
  proof (elim disjE exE conjE)
    fix b t assume B: "balloc ROOTDEV s = Done (of_nat b) t" "took p s L H b t"
    have T: "b < unat (sb_size (sb s))" "isfree (sb s) (view s) b" "tframe s t" "tx p t (insert b (insert (bm_block (sb s) b) L)) H {}"
        "view t = (view s)(bm_block (sb s) b := bit_set (b mod BPB) (view s (bm_block (sb s) b)), b := \<lambda>_. 0)"
      using B(2) by (auto simp: took_def block_free_isfree)
    have sb: "sb t = sb s" using tframe_fs[OF T(3)] by simp
    have bm: "bm_block (sb s) b \<in> bmaps (sb s)" using T(1) by (simp add: bmaps_def)
    have ub: "unat (of_nat b :: uint) = b"
      using T(1) unsigned_less[of "sb_size (sb s)", where ?'a = nat] by (simp add: unat_of_nat)
    have "b \<noteq> 0" using W(3)[OF T(1,2)] by blast
    then have nz: "(of_nat b :: uint) \<noteq> 0" using ub by (metis unat_0)
    have "isfree (sb s) (view t) c \<longleftrightarrow> isfree (sb s) (view s) c \<and> c \<noteq> b" if "c < unat (sb_size (sb s))" for c
      using map_after_alloc[OF fm refl T(1) _ that sb T(5)] T(2) sb by (simp add: block_free_isfree)
    moreover have "view t b = (\<lambda>_. 0)" "\<forall>m. m \<notin> bmaps (sb s) \<longrightarrow> m \<noteq> b \<longrightarrow> view t m = view s m" using bm by (auto simp: T(5))
    ultimately show ?thesis using B(1) T(1-4) ub nz bm by blast
  next
    fix str t assume B: "balloc ROOTDEV s = Done 0 (printed str t)" "tx p t L H {}" "view t = view s" "tframe s t"
      "\<forall>c<unat (sb_size (sb s)). \<not> block_free s c"
    have fs: "sb t = sb s" "inodes t = inodes s" using tframe_fs[OF B(4)] by simp_all
    have "wframe s ip (printed str t)"
      using tframe_conout[OF B(4), of "conout t @ str"] fs(2) by (simp add: wframe_def printed_def)
    moreover have "disk_full (printed str t)" using B(5) fs(1) B(3) by (simp add: disk_full_def printed_def block_free_def)
    ultimately show ?thesis using B(1-3) fs(2) by (auto simp: printed_def)
  qed
qed

subsection \<open>bmap\<close>

text \<open>The step that \<open>bmap\<close> takes for a missing direct block and for a missing indirect block.\<close>

definition grab :: "nat \<Rightarrow> nat \<Rightarrow> ('a fsst_scheme, uint) K" where
  "grab ip j = kbind (balloc ROOTDEV) (\<lambda>a.
     if a = 0 then kret 0 else kthen (set_inode ip (\<lambda>n. n\<lparr>i_addrs := (i_addrs n)(j := a)\<rparr>)) (kret a))"

lemma grab_spec:
  fixes s :: "'a fsst_scheme"
  assumes t: "tx p s L Map.empty {}" and room: "tx_room L Map.empty 2" and wf: "file_wf s ip"
    and j: "j \<le> NDIRECT" "i_addrs (inodes s ip) j = 0"
  shows "(\<exists>b t. grab ip j s = Done b t \<and> b \<noteq> 0 \<and> extended s ip off [] t \<and> i_addrs (inodes t ip) = (i_addrs (inodes s ip))(j := b)
        \<and> faddr (view t) (i_addrs (inodes t ip)) = (if j < NDIRECT then (faddr (view s) (i_addrs (inodes s ip)))(j := b)
             else faddr (view s) (i_addrs (inodes s ip)))
        \<and> (\<exists>L'. tx p t L' Map.empty {} \<and> unat b \<in> L' \<and> L' \<subseteq> insert (unat b) (L \<union> bmaps (sb s))))
    \<or> (\<exists>t. grab ip j s = Done 0 t \<and> extended s ip off [] t \<and> inodes t = inodes s \<and> view t = view s \<and> tx p t L Map.empty {} \<and> disk_full t)"
proof -
  let ?a = "i_addrs (inodes s ip)" and ?k = "sb s" and ?v = "view s"
  have wi: "inode_wf ?k (unat (iblk s ip)) ?v ?a" using wf by (simp add: file_wf_def)
  note W = inode_wfD[OF wi]
  have e: "dom (Map.empty :: nat \<rightharpoonup> nat \<times> uint) \<subseteq> owns ?v ?a" by simp
  from balloc_file[OF t room wf e] show ?thesis
  proof (elim disjE exE conjE)
    fix b t
    assume B: "balloc ROOTDEV s = Done (of_nat b) t" "b < unat (sb_size ?k)" "isfree ?k ?v b" "(of_nat b :: uint) \<noteq> 0"
      "unat (of_nat b :: uint) = b" "tframe s t" "tx p t (insert b (insert (bm_block ?k b) L)) Map.empty {}" "bm_block ?k b \<in> bmaps ?k"
      "\<forall>c<unat (sb_size ?k). isfree ?k (view t) c \<longleftrightarrow> isfree ?k ?v c \<and> c \<noteq> b" "view t b = (\<lambda>_. 0)"
      "\<forall>m. m \<notin> bmaps ?k \<longrightarrow> m \<noteq> b \<longrightarrow> view t m = ?v m"
    let ?a' = "?a(j := of_nat b)"
    define u where "u = t\<lparr>inodes := (inodes s)(ip := (inodes s ip)\<lparr>i_addrs := ?a'\<rparr>)\<rparr>"
    have fs: "sb t = ?k" "inodes t = inodes s" using tframe_fs[OF B(6)] by simp_all
    have run: "grab ip j s = Done (of_nat b) u" using B(1,4) fs by (simp add: grab_def set_inode_def kexec u_def)
    have iv: "view t (unat (?a NDIRECT)) = ?v (unat (?a NDIRECT))" if "?a NDIRECT \<noteq> 0"
      using B(3,11) W(4) owns_ind[of ?a ?v] that by blast
    have fa: "faddr (view t) ?a' = (if j < NDIRECT then (faddr ?v ?a)(j := of_nat b) else faddr ?v ?a)"
    proof (cases "j = NDIRECT")
      case True
      then show ?thesis using link_indirect[of ?a "view t" "of_nat b" ?v] j(2) B(5,10) by simp
    next
      case False
      then have lt: "j < NDIRECT" using j(1) by simp
      then show ?thesis using link_direct[of j ?a "view t" ?v "of_nat b"] iv by simp
    qed
    have f: "faddr (view t) ?a' = (faddr ?v ?a)(j := of_nat b) \<and> ?a' NDIRECT = ?a NDIRECT \<and> faddr ?v ?a j = 0
      \<or> faddr (view t) ?a' = faddr ?v ?a \<and> ?a' NDIRECT = of_nat b \<and> ?a NDIRECT = 0"
      using fa j by (cases "j = NDIRECT") (simp_all add: faddr_def)
    have sm: "\<forall>m. m \<notin> bmaps ?k \<longrightarrow> m \<noteq> b \<longrightarrow> m \<notin> ind_of ?a' \<longrightarrow> view t m = ?v m" using B(11) by blast
    note T = take_block[OF wi B(2,3,9) sm f]
    have U: "view u = view t" "sb u = ?k" "i_addrs (inodes u ip) = ?a'" "i_size (inodes u ip) = i_size (inodes s ip)"
      "i_dev (inodes u ip) = i_dev (inodes s ip)" "held u = held s" "iblk u ip = iblk s ip"
      using fs tframeD(1)[OF B(6)] by (simp_all add: u_def iblk_def)
    have cu: "conout u = conout s" using tframeD(13)[OF B(6)] by (simp add: u_def)
    have "wframe s ip u"
      unfolding wframe_def cu using tframe_inodes[OF B(6), of "inodes u"] by (simp add: u_def)
    then have "extended s ip off [] u" using T(2,3) wf U by (simp add: extended_def file_wf_def)
    moreover have "tx p u (insert b (insert (bm_block ?k b) L)) Map.empty {}" using B(7) by (simp add: u_def)
    ultimately show ?thesis
      using run B(4,5,8) U(3) fa[folded U(1,3)]
      by (intro disjI1 exI[of _ "of_nat b"] exI[of _ u] conjI exI[of _ "insert b (insert (bm_block ?k b) L)"]) auto
  next
    fix t assume B: "balloc ROOTDEV s = Done 0 t" "wframe s ip t" "inodes t = inodes s" "tx p t L Map.empty {}" "view t = ?v" "disk_full t"
    have "grab ip j s = Done 0 t" using B(1) by (simp add: grab_def kexec)
    then show ?thesis using B extended_frame[OF wf B(2,3,5)] by blast
  qed
qed

text \<open>The entry of the indirect block.\<close>

definition grab_entry :: "uint \<Rightarrow> nat \<Rightarrow> ('a fsst_scheme, uint) K" where
  "grab_entry ind bi =
     kbind (bread ROOTDEV ind) (\<lambda>bp.
     kbind (get_data bp) (\<lambda>d.
     kbind (if bload32 d (4 * bi) = 0 then
         kbind (balloc ROOTDEV) (\<lambda>a.
         kthen (kwhen (a \<noteq> 0) (kthen (set_data bp (\<lambda>d. bstore32 d (4 * bi) a)) (log_write bp))) (kret a))
       else kret (bload32 d (4 * bi))) (\<lambda>a.
     kthen (brelse bp) (kret a))))"

lemma bmap_grab:
  fixes s :: "'a fsst_scheme"
  assumes "i_dev (inodes s ip) = ROOTDEV" "bn < MAXFILE"
  shows "bmap ip bn s = (let a = i_addrs (inodes s ip) in
     if bn < NDIRECT then if a bn = 0 then grab ip bn s else Done (a bn) s
     else kbind (if a NDIRECT = 0 then grab ip NDIRECT else kret (a NDIRECT))
       (\<lambda>ind. if ind = 0 then kret 0 else grab_entry ind (bn - NDIRECT)) s)"
proof -
  have n: "\<not> bn < NDIRECT \<Longrightarrow> bn - NDIRECT < NINDIRECT" using assms(2) by (simp add: MAXFILE_def)
  have g: "kbind (get_inode ip) f s = f (inodes s ip) s" for f :: "inode \<Rightarrow> ('a fsst_scheme, uint) K"
    by (simp add: get_inode_def kexec)
  show ?thesis unfolding bmap_def g assms(1) grab_def[symmetric] grab_entry_def[symmetric] Let_def using n by (simp add: kret_def)
qed

lemma file_wf_cong:
  assumes "wframe s ip t" "view t = view s" "i_addrs (inodes t ip) = i_addrs (inodes s ip)"
  shows "file_wf t ip = file_wf s ip"
  using assms(2,3) wframeD(1,4,6,11)[OF assms(1)] by (simp add: file_wf_def)

text \<open>What a block that \<open>bmap\<close> or a part of it returns leaves: its address is entered in the file, or the disk is full; no other
  address of the file changes.\<close>

definition gets :: "nat \<Rightarrow> 'a fsst_scheme \<Rightarrow> nat \<Rightarrow> nat set \<Rightarrow> nat \<Rightarrow> nat \<Rightarrow> uint \<Rightarrow> 'a fsst_scheme \<Rightarrow> bool" where
  "gets p s ip L off bn r t \<longleftrightarrow> extended s ip off [] t \<and> r = faddr (view t) (i_addrs (inodes t ip)) bn \<and> (r = 0 \<longrightarrow> disk_full t)
     \<and> (\<forall>bm. bm \<noteq> bn \<longrightarrow> faddr (view t) (i_addrs (inodes t ip)) bm = faddr (view s) (i_addrs (inodes s ip)) bm)
     \<and> (\<exists>L'. tx p t L' Map.empty {} \<and> L' \<subseteq> insert (unat r) (L \<union> bmaps (sb s) \<union> ind_of (i_addrs (inodes s ip))))"

lemma grab_entry_spec:
  fixes s :: "'a fsst_scheme" and ip :: nat
  defines "a \<equiv> i_addrs (inodes s ip)"
  assumes t: "tx p s L Map.empty {}" and room: "wroom (sb s) L a (Suc (Suc (Suc n)))" and wf: "file_wf s ip"
    and nz: "a NDIRECT \<noteq> 0" and bn: "\<not> bn < NDIRECT" "bn < MAXFILE"
  shows "\<exists>r t. grab_entry (a NDIRECT) (bn - NDIRECT) s = Done r t \<and> gets p s ip L off bn r t \<and> inodes t = inodes s"
proof -
  let ?w = "a NDIRECT" and ?o = "4 * (bn - NDIRECT)" and ?k = "sb s" and ?v = "view s"
  let ?m = "unat ?w"
  have wi: "inode_wf ?k (unat (iblk s ip)) ?v a" using wf by (simp add: file_wf_def a_def)
  note W = inode_wfD[OF wi]
  have fin: "finite L" using txD(5)[OF t] .
  have fe: "faddr ?v a bn = bload32 (?v ?m) ?o" using nz bn by (simp add: faddr_def)
  have om: "?m \<in> owns ?v a" by (rule owns_ind) (fact nz)
  have em: "(Map.empty :: nat \<rightharpoonup> nat \<times> uint) ?m = None" by simp
  note R = wroom_tx[OF fin room]
  show ?thesis
  proof (cases "bload32 (?v ?m) ?o = 0")
    case False
    obtain i b c where r: "bread ROOTDEV ?w s = Done i b" "get_data i b = Done (?v ?m) b" "brelse i b = Done () c"
        "tx p c L Map.empty {}" "view c = ?v" "tframe s c"
      using read_release[OF t em R(1)] by blast
    have ic: "inodes c = inodes s" using tframe_fs[OF r(6)] by simp
    have "grab_entry ?w (bn - NDIRECT) s = Done (bload32 (?v ?m) ?o) c" using r(1-3) False by (simp add: grab_entry_def kexec)
    moreover have "gets p s ip L off bn (bload32 (?v ?m) ?o) c"
      using extended_frame[OF wf wframe_tframe[OF r(6)] ic r(5)] r(4,5) fe False ic by (auto simp: gets_def a_def[symmetric])
    ultimately show ?thesis using ic by blast
  next
    case True
    obtain i c where c: "bread ROOTDEV ?w s = Done i c" "tx p c L [?m \<mapsto> (i, p_pid (procs c p))] {}" "view c = ?v" "tframe s c"
        "get_data i c = Done (?v ?m) c"
      using read_map[OF t em R(1)] by blast
    have cs: "sb c = ?k" "inodes c = inodes s" using tframe_fs[OF c(4)] by simp_all
    have wc: "file_wf c ip" using file_wf_cong[OF wframe_tframe[OF c(4)]] c(3) cs(2) wf by simp
    have dm: "dom [?m \<mapsto> (i, p_pid (procs c p))] \<subseteq> owns (view c) (i_addrs (inodes c ip))" using om c(3) cs(2) by (simp add: a_def)
    have r2: "tx_room L [?m \<mapsto> (i, p_pid (procs c p))] 2" using R(2) by (simp add: tx_room_def)
    from balloc_file[OF c(2) r2 wc dm, unfolded c(3) cs(1)] show ?thesis
    proof (elim disjE exE conjE)
      fix b d
      assume B: "balloc ROOTDEV c = Done (of_nat b) d" "b < unat (sb_size ?k)" "isfree ?k ?v b" "(of_nat b :: uint) \<noteq> 0"
        "unat (of_nat b :: uint) = b" "tframe c d" "tx p d (insert b (insert (bm_block ?k b) L)) [?m \<mapsto> (i, p_pid (procs c p))] {}"
        "bm_block ?k b \<in> bmaps ?k" "\<forall>e<unat (sb_size ?k). isfree ?k (view d) e \<longleftrightarrow> isfree ?k ?v e \<and> e \<noteq> b" "view d b = (\<lambda>_. 0)"
        "\<forall>m. m \<notin> bmaps ?k \<longrightarrow> m \<noteq> b \<longrightarrow> view d m = ?v m"
      let ?L = "insert b (insert (bm_block ?k b) L)" and ?f = "\<lambda>x. bstore32 x ?o (of_nat b)"
      have sub: "?L \<subseteq> insert b (L \<union> bmaps ?k \<union> ind_of a)" using B(8) by auto
      have "finite ?L" using fin by simp
      from wroom_tx(1)[OF this wroom_step[where a = a and a' = a, OF fin room refl sub]]
      have lr: "Suc (card ?L) < LOGSIZE" by (simp add: tx_room_def)
      have o: "[?m \<mapsto> (i, p_pid (procs c p))] ?m = Some (i, p_pid (procs d p))" using tx_pid[OF c(2) B(6)] by simp
      obtain e where e: "kthen (set_data i ?f) (kthen (log_write i) (brelse i)) d = Done () e"
          "tx p e (insert ?m ?L) ([?m \<mapsto> (i, p_pid (procs c p))](?m := None)) {}" "view e = (view d)(?m := ?f (view d ?m))" "tframe d e"
        using edit_release[OF B(7) o lr, of ?f] by blast
      have run: "grab_entry ?w (bn - NDIRECT) s = Done (of_nat b) e"
        using c(1,5) True B(1,4) e(1) by (auto simp: grab_entry_def kexec split: outcome.splits)
      have fr: "tframe s e" by (rule tframe_trans[OF tframe_trans[OF c(4) B(6)] e(4)])
      have es: "sb e = ?k" "inodes e = inodes s" "held e = held s" "iblk e ip = iblk s ip"
        using tframe_fs[OF fr] tframeD(1)[OF fr] by (simp_all add: iblk_def)
      have mb: "?m \<noteq> b" "?m \<notin> bmaps ?k" using W(4)[OF om] B(3) by auto
      have vm: "view e ?m = bstore32 (?v ?m) ?o (of_nat b)" using B(11) mb by (simp add: e(3))
      have f: "faddr (view e) a = (faddr ?v a)(bn := of_nat b)" by (rule link_entry[where a = a and v = ?v and v' = "view e", OF nz bn vm])
      have fe0: "faddr ?v a bn = 0" using fe True by simp
      have isf: "\<forall>x<unat (sb_size ?k). isfree ?k (view e) x \<longleftrightarrow> isfree ?k ?v x \<and> x \<noteq> b"
      proof (intro allI impI)
        fix x assume x: "x < unat (sb_size ?k)"
        have "isfree ?k (view e) x = isfree ?k (view d) x" by (rule isfree_outside[OF _ x]) (use mb in \<open>auto simp: e(3)\<close>)
        then show "isfree ?k (view e) x \<longleftrightarrow> isfree ?k ?v x \<and> x \<noteq> b" using B(9) x by simp
      qed
      have sm: "\<forall>m. m \<notin> bmaps ?k \<longrightarrow> m \<noteq> b \<longrightarrow> m \<notin> ind_of a \<longrightarrow> view e m = ?v m"
        using B(11) nz by (auto simp: e(3) ind_of_def)
      note T = take_block[OF wi B(2,3) isf sm, of bn, OF disjI1, OF conjI[OF f conjI[OF refl fe0]]]
      have "extended s ip off [] e"
        using T(2,3) wf es wframe_tframe[OF fr] by (simp add: extended_def file_wf_def a_def)
      moreover have "tx p e (insert ?m ?L) Map.empty {}" using e(2) by simp
      moreover have "insert ?m ?L \<subseteq> insert (unat (of_nat b :: uint)) (L \<union> bmaps ?k \<union> ind_of a)" using B(5,8) nz by (auto simp: ind_of_def)
      ultimately have "gets p s ip L off bn (of_nat b) e"
        unfolding gets_def using f es(2) B(4) by (auto simp: a_def)
      then show ?thesis using run es(2) by blast
    next
      fix d assume B: "balloc ROOTDEV c = Done 0 d" "wframe c ip d" "inodes d = inodes c" "tx p d L [?m \<mapsto> (i, p_pid (procs c p))] {}"
        "view d = ?v" "disk_full d"
      have "cur c = Some p" using txD(2)[OF c(2)] by (simp add: bio_ok_def)
      then have o: "[?m \<mapsto> (i, p_pid (procs c p))] ?m = Some (i, p_pid (procs d p))" using wframeD(5)[OF B(2)] by simp
      obtain e where e: "brelse i d = Done () e" "tx p e L ([?m \<mapsto> (i, p_pid (procs c p))](?m := None)) {}" "view e = view d" "tframe d e"
        using tx_brelse[OF B(4) o disjI2] by blast
      have run: "grab_entry ?w (bn - NDIRECT) s = Done 0 e" using c(1,5) True B(1) e(1) by (simp add: grab_entry_def kexec)
      have fr: "wframe s ip e" by (rule wframe_trans[OF wframe_trans[OF wframe_tframe[OF c(4)] B(2)] wframe_tframe[OF e(4)]])
      have ie: "inodes e = inodes s" "sb e = sb d" using tframe_fs[OF e(4)] B(3) cs(2) by simp_all
      have ve: "view e = ?v" using e(3) B(5) by simp
      have "disk_full e" using B(6) ie(2) e(3) by (simp add: disk_full_def block_free_def)
      then have "gets p s ip L off bn 0 e"
        using extended_frame[OF wf fr ie(1) ve] e(2) ve ie(1) fe True by (auto simp: gets_def a_def[symmetric])
      then show ?thesis using run ie(1) by blast
    qed
  qed
qed

definition mapped :: "nat \<Rightarrow> 'a fsst_scheme \<Rightarrow> nat \<Rightarrow> nat \<Rightarrow> nat \<Rightarrow> nat \<Rightarrow> uint \<Rightarrow> 'a fsst_scheme \<Rightarrow> bool" where
  "mapped p s ip off bn n r t \<longleftrightarrow> extended s ip off [] t \<and> r = faddr (view t) (i_addrs (inodes t ip)) bn \<and> (r = 0 \<longrightarrow> disk_full t)
     \<and> (\<forall>bm. bm \<noteq> bn \<longrightarrow> faddr (view t) (i_addrs (inodes t ip)) bm = faddr (view s) (i_addrs (inodes s ip)) bm)
     \<and> (i_addrs (inodes t ip) NDIRECT \<noteq> 0 \<longrightarrow> i_addrs (inodes s ip) NDIRECT \<noteq> 0 \<or> NDIRECT \<le> bn)
     \<and> (\<exists>L'. tx p t L' Map.empty {} \<and> wroom (sb s) (insert (unat r) L') (i_addrs (inodes t ip)) n)"

lemma gets_mapped:
  assumes g: "gets p s ip L off bn r t" and room: "wroom (sb s) L (i_addrs (inodes s ip)) (Suc n)" and fin: "finite L"
    and i: "i_addrs (inodes t ip) NDIRECT = i_addrs (inodes s ip) NDIRECT"
  shows "mapped p s ip off bn n r t"
proof -
  obtain L' where L: "tx p t L' Map.empty {}" "L' \<subseteq> insert (unat r) (L \<union> bmaps (sb s) \<union> ind_of (i_addrs (inodes s ip)))"
    using g by (auto simp: gets_def)
  have "insert (unat r) L' \<subseteq> insert (unat r) (L \<union> bmaps (sb s) \<union> ind_of (i_addrs (inodes s ip)))" using L(2) by blast
  from wroom_step[where a' = "i_addrs (inodes t ip)" and a = "i_addrs (inodes s ip)", OF fin room i this]
  show ?thesis using g L(1) i by (auto simp: mapped_def gets_def)
qed

lemma bmap_direct:
  fixes s :: "'a fsst_scheme"
  assumes t: "tx p s L Map.empty {}" and room: "wroom (sb s) L (i_addrs (inodes s ip)) (Suc (Suc (Suc n)))" and wf: "file_wf s ip"
    and bn: "bn < NDIRECT"
  shows "\<exists>r t. bmap ip bn s = Done r t \<and> mapped p s ip off bn (Suc (Suc n)) r t"
proof -
  let ?a = "i_addrs (inodes s ip)"
  have fin: "finite L" using txD(5)[OF t] .
  have "bn < MAXFILE" using bn by (simp add: MAXFILE_def)
  then have e: "bmap ip bn s = (if ?a bn = 0 then grab ip bn s else Done (?a bn) s)"
    using bmap_grab[of s ip bn] wf bn by (simp add: file_wf_def)
  have "\<exists>r t. bmap ip bn s = Done r t \<and> gets p s ip L off bn r t \<and> i_addrs (inodes t ip) NDIRECT = ?a NDIRECT"
  proof (cases "?a bn = 0")
    case False
    then have "gets p s ip L off bn (?a bn) s" using extended_refl[OF wf] t bn by (auto simp: gets_def faddr_def)
    then show ?thesis using e False by simp
  next
    case True
    have r2: "tx_room L Map.empty 2" using wroom_tx(1)[OF fin room] by (simp add: tx_room_def)
    from grab_spec[OF t r2 wf less_imp_le[OF bn] True, of off] show ?thesis
    proof (elim disjE exE conjE)
      fix b u L' assume G: "grab ip bn s = Done b u" "b \<noteq> 0" "extended s ip off [] u" "i_addrs (inodes u ip) = ?a(bn := b)"
        "faddr (view u) (i_addrs (inodes u ip)) = (if bn < NDIRECT then (faddr (view s) ?a)(bn := b) else faddr (view s) ?a)"
        "tx p u L' Map.empty {}" "L' \<subseteq> insert (unat b) (L \<union> bmaps (sb s))"
      then have "gets p s ip L off bn b u" using bn by (auto simp: gets_def faddr_def)
      then show ?thesis using e True G(1,4) bn by auto
    next
      fix u assume G: "grab ip bn s = Done 0 u" "extended s ip off [] u" "inodes u = inodes s" "view u = view s" "tx p u L Map.empty {}"
        "disk_full u"
      then have "gets p s ip L off bn 0 u" using bn True by (auto simp: gets_def faddr_def)
      then show ?thesis using e True G(1,3) by auto
    qed
  qed
  then show ?thesis using gets_mapped[OF _ room fin] by blast
qed

lemma bmap_indirect:
  fixes s :: "'a fsst_scheme"
  assumes t: "tx p s L Map.empty {}" and room: "wroom (sb s) L (i_addrs (inodes s ip)) (Suc (Suc (Suc n)))" and wf: "file_wf s ip"
    and bn: "\<not> bn < NDIRECT" "bn < MAXFILE"
  shows "\<exists>r t. bmap ip bn s = Done r t \<and> mapped p s ip off bn (Suc (Suc n)) r t"
proof -
  let ?a = "i_addrs (inodes s ip)" and ?k = "sb s"
  have fin: "finite L" using txD(5)[OF t] .
  have e: "bmap ip bn s = kbind (if ?a NDIRECT = 0 then grab ip NDIRECT else kret (?a NDIRECT))
       (\<lambda>ind. if ind = 0 then kret 0 else grab_entry ind (bn - NDIRECT)) s"
    using bmap_grab[of s ip bn] wf bn by (simp add: file_wf_def)
  show ?thesis
  proof (cases "?a NDIRECT = 0")
    case False
    obtain r u where u: "grab_entry (?a NDIRECT) (bn - NDIRECT) s = Done r u" "gets p s ip L off bn r u" "inodes u = inodes s"
      using grab_entry_spec[OF t room wf False bn] by blast
    have "bmap ip bn s = Done r u" using e False u(1) by (simp add: kexec)
    then show ?thesis using gets_mapped[OF u(2) room fin] u(3) by auto
  next
    case True
    have r2: "tx_room L Map.empty 2" using wroom_tx(1)[OF fin room] by (simp add: tx_room_def)
    from grab_spec[OF t r2 wf order_refl True, of off] show ?thesis
    proof (elim disjE exE conjE)
      fix b u L' assume G: "grab ip NDIRECT s = Done b u" "b \<noteq> 0" "extended s ip off [] u" "i_addrs (inodes u ip) = ?a(NDIRECT := b)"
        "tx p u L' Map.empty {}" "L' \<subseteq> insert (unat b) (L \<union> bmaps ?k)"
        "faddr (view u) (i_addrs (inodes u ip)) = (if NDIRECT < NDIRECT then (faddr (view s) ?a)(NDIRECT := b) else faddr (view s) ?a)"
      let ?b = "i_addrs (inodes u ip)"
      have su: "sb u = ?k" "file_wf u ip" using G(3) wframeD(4)[of s ip u] by (auto simp: extended_def)
      have nb: "?b NDIRECT \<noteq> 0" "?b NDIRECT = b" using G(2,4) by simp_all
      have sub: "L' \<subseteq> insert (unat (?b NDIRECT)) (L \<union> bmaps ?k)" using G(6) nb(2) by simp
      have ru: "wroom (sb u) L' ?b (Suc (Suc (Suc n)))"
        unfolding su(1) by (rule wroom_ind[where a = ?a and a' = ?b, OF fin room True nb(1) sub])
      obtain r w where w: "grab_entry (?b NDIRECT) (bn - NDIRECT) u = Done r w" "gets p u ip L' off bn r w" "inodes w = inodes u"
        using grab_entry_spec[OF G(5) ru su(2) nb(1) bn] by blast
      have "mapped p u ip off bn (Suc (Suc n)) r w"
        by (rule gets_mapped[OF w(2) ru txD(5)[OF G(5)]]) (simp add: w(3))
      then have "mapped p s ip off bn (Suc (Suc n)) r w"
        using extended_trans[of s ip off "[]" u "[]" w] G(3,7) su(1) bn(1) by (auto simp: mapped_def)
      moreover have "bmap ip bn s = Done r w" using e True G(1,2) w(1) nb(2) by (simp add: kexec)
      ultimately show ?thesis by blast
    next
      fix u assume G: "grab ip NDIRECT s = Done 0 u" "extended s ip off [] u" "inodes u = inodes s" "view u = view s" "tx p u L Map.empty {}"
        "disk_full u"
      then have "gets p s ip L off bn 0 u" using bn True by (auto simp: gets_def faddr_def)
      from gets_mapped[OF this room fin] have "mapped p s ip off bn (Suc (Suc n)) 0 u" using G(3) by simp
      moreover have "bmap ip bn s = Done 0 u" using e True G(1) by (simp add: kexec)
      ultimately show ?thesis by blast
    qed
  qed
qed

lemma bmap_spec:
  fixes s :: "'a fsst_scheme"
  assumes "tx p s L Map.empty {}" and "wroom (sb s) L (i_addrs (inodes s ip)) (Suc (Suc (Suc n)))" and "file_wf s ip" and "bn < MAXFILE"
  shows "\<exists>r t. bmap ip bn s = Done r t \<and> mapped p s ip off bn (Suc (Suc n)) r t"
  using bmap_direct[OF assms(1-3)] bmap_indirect[OF assms(1-3) _ assms(4)] by blast

subsection \<open>Where the bytes come from\<close>

text \<open>\<open>gives s src bs\<close>: the bytes \<open>bs\<close> can be read at \<open>src\<close>. For a user address the pages are present and readable in the address
  space of the current process.\<close>

fun gives :: "'a mst_scheme \<Rightarrow> source \<Rightarrow> byte list \<Rightarrow> bool" where
  "gives s (UserSrc va) bs \<longleftrightarrow> (\<exists>p xs. cur s = Some p \<and> uvm_inv s (p_pagetable (procs s p)) xs
     \<and> readable s (p_pagetable (procs s p)) va (length bs)
     \<and> (\<forall>i<length bs. bs ! i = ubyte (mem s) (p_pagetable (procs s p)) (va + of_nat i)))"
| "gives s (KernSrc a) bs \<longleftrightarrow> (\<forall>i<length bs. bs ! i = mem s (a + of_nat i))"
| "gives s (LocalSrc xs) bs \<longleftrightarrow> length bs \<le> length xs \<and> (\<forall>i<length bs. bs ! i = xs ! i)"

lemma readable_part: "readable s p va n \<Longrightarrow> m \<le> n \<Longrightarrow> readable s p va m"
  by (auto simp: readable_def Let_def)

lemma readable_plus:
  assumes "readable s p va n" "m \<le> n"
  shows "readable s p (va + of_nat m) (n - m)"
proof -
  have l: "unat va + n \<le> unat TRAPFRAME" using assms(1) by (simp add: readable_def)
  then have b: "unat va + m < 2 ^ 64" using assms(2) by (simp add: TRAPFRAME_eq)
  then have "unat (va + of_nat m) = unat va + m" by (simp add: unat_word_ariths unat_of_nat)
  then show ?thesis using assms l unfolding readable_def Let_def
    by (auto simp: add.assoc simp flip: of_nat_add)
qed

lemma gives_copyin:
  assumes "gives s src bs" "m \<le> length bs"
  shows "either_copyin src m s = Done (0, take m bs) s"
proof (cases src)
  case (UserSrc va)
  then obtain p xs where U: "cur s = Some p" "uvm_inv s (p_pagetable (procs s p)) xs" "readable s (p_pagetable (procs s p)) va (length bs)"
      "\<forall>i<length bs. bs ! i = ubyte (mem s) (p_pagetable (procs s p)) (va + of_nat i)" using assms(1) by auto
  have "map (\<lambda>i. ubyte (mem s) (p_pagetable (procs s p)) (va + of_nat i)) [0..<m] = take m bs"
    using U(4) assms(2) by (intro nth_equalityI) auto
  then show ?thesis using copyin_bytes[OF U(2) readable_part[OF U(3) assms(2)]] U(1) UserSrc by (simp add: kexec)
next
  case (KernSrc a)
  then have "peek (mem s) a m = take m bs" using assms by (intro nth_equalityI) (auto simp: peek_def)
  then show ?thesis using KernSrc by (simp add: kexec)
next
  case (LocalSrc xs)
  then have "take m xs = take m bs" using assms by (intro nth_equalityI) auto
  then show ?thesis using LocalSrc by (simp add: kexec)
qed

lemma gives_plus:
  assumes "gives s src bs" "m \<le> length bs"
  shows "gives s (src_plus src m) (drop m bs)"
proof (cases src)
  case (UserSrc va)
  then obtain p xs where U: "cur s = Some p" "uvm_inv s (p_pagetable (procs s p)) xs" "readable s (p_pagetable (procs s p)) va (length bs)"
      "\<forall>i<length bs. bs ! i = ubyte (mem s) (p_pagetable (procs s p)) (va + of_nat i)" using assms(1) by auto
  have "drop m bs ! i = ubyte (mem s) (p_pagetable (procs s p)) (va + of_nat m + of_nat i)" if "i < length (drop m bs)" for i
    using U(4)[rule_format, of "m + i"] that assms(2) by (simp add: add.assoc)
  then show ?thesis using U(1,2) readable_plus[OF U(3) assms(2)] UserSrc by auto
qed (use assms in \<open>auto simp: add.assoc simp flip: of_nat_add\<close>)

lemma gives_frame:
  assumes "gives s src bs" and f: "wframe s ip t"
  shows "gives t src bs"
proof (cases src)
  case (UserSrc va)
  note F = wframeD[OF f]
  obtain p xs where U: "cur s = Some p" "uvm_inv s (p_pagetable (procs s p)) xs" "readable s (p_pagetable (procs s p)) va (length bs)"
      "\<forall>i<length bs. bs ! i = ubyte (mem s) (p_pagetable (procs s p)) (va + of_nat i)" using assms(1) UserSrc by auto
  have "KMEM_LOCK \<notin> held t" using pt_invD(5)[OF uvm_invD(1)[OF U(2)]] F(1) by simp
  from uvm_inv_cong[OF U(2) F(3,8,9,10) this] have "uvm_inv t (p_pagetable (procs t p)) xs" using F(5)[OF U(1)] by simp
  moreover have "readable t (p_pagetable (procs t p)) va (length bs)" using U(3) F(3) F(5)[OF U(1)] by (simp add: readable_def)
  ultimately show ?thesis using U(1,4) F(2,3) F(5)[OF U(1)] UserSrc by auto
qed (use assms(1) wframeD(3)[OF f] in simp_all)

subsection \<open>writei\<close>

lemma wroom_sub:
  assumes "wroom k L' a n" "L \<subseteq> L'" "finite L'"
  shows "wroom k L a n"
proof -
  have "card (L \<union> bmaps k \<union> ind_of a) \<le> card (L' \<union> bmaps k \<union> ind_of a)" using assms(2,3) by (intro card_mono) auto
  then show ?thesis using assms(1) by (auto simp: wroom_def)
qed

text \<open>No block is allocated that the write does not need: a block of the file is old or has a byte written to it, and the indirect
  block is old or the write was to reach beyond the direct blocks.\<close>

definition grew :: "'a fsst_scheme \<Rightarrow> nat \<Rightarrow> nat \<Rightarrow> nat \<Rightarrow> nat \<Rightarrow> 'a fsst_scheme \<Rightarrow> bool" where
  "grew s ip off r n t \<longleftrightarrow> (\<forall>bn. faddr (view t) (i_addrs (inodes t ip)) bn \<noteq> 0 \<longrightarrow>
       faddr (view s) (i_addrs (inodes s ip)) bn \<noteq> 0 \<or> (\<exists>x. off \<le> x \<and> x < off + r \<and> x div BSIZE = bn))
     \<and> (i_addrs (inodes t ip) NDIRECT \<noteq> 0 \<longrightarrow> i_addrs (inodes s ip) NDIRECT \<noteq> 0 \<or> NDIRECT * BSIZE < off + n)"

lemma grew_mapped:
  assumes M: "mapped p s ip off (off div BSIZE) k w u" and g: "grew u ip off' r' n' t" and n: "0 < n" "n' + off' \<le> n + off" "off \<le> off'"
    and w: "w \<noteq> 0 \<Longrightarrow> 0 < r \<and> off' + r' \<le> off + r" "w = 0 \<Longrightarrow> r' = 0"
  shows "grew s ip off r n t"
proof -
  let ?bn = "off div BSIZE"
  have u: "faddr (view u) (i_addrs (inodes u ip)) bm = faddr (view s) (i_addrs (inodes s ip)) bm" if "bm \<noteq> ?bn" for bm
    using M that by (simp add: mapped_def)
  have wz: "w = faddr (view u) (i_addrs (inodes u ip)) ?bn" using M by (simp add: mapped_def)
  have "faddr (view s) (i_addrs (inodes s ip)) bm \<noteq> 0 \<or> (\<exists>x. off \<le> x \<and> x < off + r \<and> x div BSIZE = bm)"
    if "faddr (view t) (i_addrs (inodes t ip)) bm \<noteq> 0" for bm
  proof -
    from g that consider "faddr (view u) (i_addrs (inodes u ip)) bm \<noteq> 0" | x where "off' \<le> x" "x < off' + r'" "x div BSIZE = bm"
      unfolding grew_def by blast
    then show ?thesis
    proof cases
      case 1
      then show ?thesis using u[of bm] wz w(1) by (cases "bm = ?bn") auto
    next
      case (2 x)
      then have "w \<noteq> 0" using w(2) by auto
      then show ?thesis using 2 w(1) n(3) by (intro disjI2 exI[of _ x]) auto
    qed
  qed
  moreover have "i_addrs (inodes s ip) NDIRECT \<noteq> 0 \<or> NDIRECT * BSIZE < off + n" if nz: "i_addrs (inodes t ip) NDIRECT \<noteq> 0"
  proof -
    consider "i_addrs (inodes s ip) NDIRECT \<noteq> 0" | "NDIRECT \<le> ?bn" | "NDIRECT * BSIZE < off' + n'"
      using g nz M unfolding grew_def mapped_def by blast
    then show ?thesis
    proof cases
      case 2
      then have "NDIRECT * BSIZE \<le> ?bn * BSIZE" by simp
      also have "\<dots> \<le> off" by simp
      finally show ?thesis using n(1) by linarith
    qed (use n in linarith)+
  qed
  ultimately show ?thesis by (auto simp: grew_def)
qed

lemma grew_cong:
  assumes "faddr (view u) (i_addrs (inodes u ip)) = faddr (view t) (i_addrs (inodes t ip))" "i_addrs (inodes u ip) = i_addrs (inodes t ip)"
  shows "grew s ip off r n u = grew s ip off r n t" "grew u ip off r n s = grew t ip off r n s"
  unfolding grew_def assms(1) unfolding assms(2) by (rule refl)+

text \<open>One round of the loop on a block of the file.\<close>

lemma write_block:
  fixes s :: "'a fsst_scheme"
  assumes t: "tx p s L Map.empty {}" and room: "tx_room L Map.empty (Suc k)" and wf: "file_wf s ip" and g: "gives s src bs"
    and w: "w = faddr (view s) (i_addrs (inodes s ip)) (off div BSIZE)" "w \<noteq> 0" and m: "m \<le> length bs" "m \<le> BSIZE - off mod BSIZE"
  shows "\<exists>i b1 b2 b3 c. bread ROOTDEV w s = Done i b1 \<and> either_copyin src m b1 = Done (0, take m bs) b1
    \<and> set_data i (bput (off mod BSIZE) (take m bs)) b1 = Done () b2 \<and> log_write i b2 = Done () b3 \<and> brelse i b3 = Done () c
    \<and> tx p c (insert (unat w) L) Map.empty {} \<and> extended s ip off (take m bs) c \<and> inodes c = inodes s
    \<and> faddr (view c) (i_addrs (inodes s ip)) = faddr (view s) (i_addrs (inodes s ip))"
proof -
  let ?f = "bput (off mod BSIZE) (take m bs)" and ?a = "i_addrs (inodes s ip)"
  have em: "(Map.empty :: nat \<rightharpoonup> nat \<times> uint) (unat w) = None" by simp
  obtain c where c: "edit_block w ?f s = Done () c" "tx p c (insert (unat w) L) Map.empty {}"
      "view c = (view s)(unat w := ?f (view s (unat w)))" "tframe s c"
    using tx_edit[where w = w, OF t em room] by blast
  obtain i b1 b2 b3 where e: "bread ROOTDEV w s = Done i b1" "set_data i ?f b1 = Done () b2" "log_write i b2 = Done () b3"
      "brelse i b3 = Done () c"
    using edit_parts[OF c(1)] by blast
  have "tframe s b1" using read_map[where w = w, OF t em room] e(1) by auto
  then have "gives b1 src bs" by (rule gives_frame[OF g wframe_tframe])
  then have ci: "either_copyin src m b1 = Done (0, take m bs) b1" by (rule gives_copyin[OF _ m(1)])
  have wi: "inode_wf (sb s) (unat (iblk s ip)) (view s) ?a" using wf by (simp add: file_wf_def)
  have l: "length (take m bs) \<le> BSIZE - off mod BSIZE" using m(2) by simp
  note P = write_part[OF wi w(2)[unfolded w(1)] l c(3)[unfolded w(1)]]
  have fs: "inodes c = inodes s" "sb c = sb s" "held c = held s" "iblk c ip = iblk s ip"
    using tframe_fs[OF c(4)] tframeD(1)[OF c(4)] by (simp_all add: iblk_def)
  have "extended s ip off (take m bs) c"
    using P(2,3) wf fs wframe_tframe[OF c(4)] by (simp add: extended_def file_wf_def)
  then show ?thesis using e ci c(2) fs(1) P(1) by blast
qed

lemma writei_loop_grows:
  fixes s :: "'a fsst_scheme"
  assumes "tx p s L Map.empty {}" and "wroom (sb s) L (i_addrs (inodes s ip)) (touched off (length bs) + Suc (Suc n))"
    and "file_wf s ip" and "gives s src bs" and "off + length bs \<le> MAXFILE * BSIZE"
  shows "\<exists>r t L'. writei_loop ip src off tot (length bs) s = Done (off + r, tot + r) t \<and> r \<le> length bs \<and> (r < length bs \<longrightarrow> disk_full t)
    \<and> extended s ip off (take r bs) t \<and> tx p t L' Map.empty {} \<and> wroom (sb s) L' (i_addrs (inodes t ip)) (Suc (Suc n))
    \<and> grew s ip off r (length bs) t"
  using assms
proof (induction "length bs" arbitrary: s L off tot bs src rule: less_induct)
  case less
  show ?case
  proof (cases "bs = []")
    case True
    then show ?thesis using less.prems(1,2) extended_refl[OF less.prems(3)]
      by (intro exI[of _ 0] exI[of _ s] exI[of _ L]) (simp add: writei_loop.simps[of _ _ _ _ 0] kexec touched_def grew_def)
  next
    case False
    let ?l = "length bs" let ?m = "min ?l (BSIZE - off mod BSIZE)" and ?bn = "off div BSIZE"
    let ?q = "touched (off + ?m) (?l - ?m)"
    have l0: "?l \<noteq> 0" using False by simp
    have room: "wroom (sb s) L (i_addrs (inodes s ip)) (Suc (Suc (Suc (?q + n))))"
      using less.prems(2) unfolding touched_step[OF l0, of off] by simp
    have "off < MAXFILE * BSIZE" using less.prems(5) l0 by linarith
    then have bn: "?bn < MAXFILE" by (simp add: less_mult_imp_div_less)
    obtain w u where u: "bmap ip ?bn s = Done w u" "mapped p s ip off ?bn (Suc (Suc (?q + n))) w u"
      using bmap_spec[OF less.prems(1) room less.prems(3) bn] by blast
    obtain L1 where M: "extended s ip off [] u" "w = faddr (view u) (i_addrs (inodes u ip)) ?bn" "w = 0 \<longrightarrow> disk_full u"
        "tx p u L1 Map.empty {}" "wroom (sb s) (insert (unat w) L1) (i_addrs (inodes u ip)) (Suc (Suc (?q + n)))"
      using u(2) by (auto simp: mapped_def)
    have fin: "finite L1" using txD(5)[OF M(4)] .
    have su: "sb u = sb s" "wframe s ip u" "file_wf u ip" using M(1) wframeD(4) by (auto simp: extended_def)
    have r1: "wroom (sb s) L1 (i_addrs (inodes u ip)) (Suc (Suc (?q + n)))" by (rule wroom_sub[OF M(5)]) (use fin in auto)
    show ?thesis
    proof (cases "w = 0")
      case True
      have "writei_loop ip src off tot ?l s = Done (off + 0, tot + 0) u"
        unfolding writei_loop.simps[of ip src off tot ?l] using l0 u(1) True by (simp add: kexec)
      moreover have "grew s ip off 0 ?l u"
        by (rule grew_mapped[OF u(2), of off 0 0]) (use l0 True in \<open>auto simp: grew_def\<close>)
      ultimately show ?thesis using M True wroom_mono[OF r1, of "Suc (Suc n)"] by (intro exI[of _ 0] exI[of _ u] exI[of _ L1]) simp
    next
      case False
      have gu: "gives u src bs" by (rule gives_frame[OF less.prems(4) su(2)])
      obtain i b1 b2 b3 c where c: "bread ROOTDEV w u = Done i b1" "either_copyin src ?m b1 = Done (0, take ?m bs) b1"
          "set_data i (bput (off mod BSIZE) (take ?m bs)) b1 = Done () b2" "log_write i b2 = Done () b3" "brelse i b3 = Done () c"
          "tx p c (insert (unat w) L1) Map.empty {}" "extended u ip off (take ?m bs) c" "inodes c = inodes u"
          "faddr (view c) (i_addrs (inodes u ip)) = faddr (view u) (i_addrs (inodes u ip))"
        using write_block[OF M(4) wroom_tx(1)[OF fin r1] su(3) gu M(2) False, of ?m] by auto
      have sc: "sb c = sb s" "wframe u ip c" "file_wf c ip" using c(7) su(1) wframeD(4)[of u ip c] by (auto simp: extended_def)
      have len: "length (drop ?m bs) = ?l - ?m" by simp
      have lt: "length (drop ?m bs) < ?l" unfolding len by (rule chunk_progress[OF l0])
      have gc: "gives c (src_plus src ?m) (drop ?m bs)" by (rule gives_plus[OF gives_frame[OF gu sc(2)]]) simp
      have rc: "wroom (sb c) (insert (unat w) L1) (i_addrs (inodes c ip)) (touched (off + ?m) (length (drop ?m bs)) + Suc (Suc n))"
        using M(5) unfolding sc(1) c(8) len by simp
      have le: "off + ?m + length (drop ?m bs) \<le> MAXFILE * BSIZE" using less.prems(5) unfolding len by simp
      obtain r t L' where t: "writei_loop ip (src_plus src ?m) (off + ?m) (tot + ?m) (?l - ?m) c = Done (off + ?m + r, tot + ?m + r) t"
          "r \<le> ?l - ?m" "r < ?l - ?m \<longrightarrow> disk_full t" "extended c ip (off + ?m) (take r (drop ?m bs)) t" "tx p t L' Map.empty {}"
          "wroom (sb c) L' (i_addrs (inodes t ip)) (Suc (Suc n))" "grew c ip (off + ?m) r (?l - ?m) t"
        using less.hyps[OF lt c(6) rc sc(3) gc le, of "tot + ?m"] unfolding len by blast
      have nd: "i_dev (inodes u ip) = ROOTDEV" using su(3) by (simp add: file_wf_def)
      have run: "writei_loop ip src off tot ?l s = Done (off + (?m + r), tot + (?m + r)) t"
        unfolding writei_loop.simps[of ip src off tot ?l] add.assoc[symmetric]
        using l0 u(1) False nd c(1-5) t(1) by (simp add: kexec get_inode_def Let_def)
      have tk: "take (?m + r) bs = take ?m bs @ take r (drop ?m bs)" by (rule take_add)
      have "extended s ip off ([] @ take ?m bs) c" using extended_trans[OF M(1)] c(7) by simp
      then have sc': "extended s ip off (take ?m bs) c" by simp
      have lm: "length (take ?m bs) = ?m" by simp
      have "extended c ip (off + length (take ?m bs)) (take r (drop ?m bs)) t" unfolding lm by (rule t(4))
      then have "extended s ip off (take (?m + r) bs) t" unfolding tk by (rule extended_trans[OF sc'])
      moreover have "grew u ip (off + ?m) r (?l - ?m) t" using t(7) grew_cong(2)[of c ip u] c(8,9) by simp
      then have "grew s ip off (?m + r) ?l t"
        by (rule grew_mapped[OF u(2)]) (use l0 False chunk_progress[OF l0, of off] in auto)
      ultimately show ?thesis using run t(2,3,5,6) sc(1) by (intro exI[of _ "?m + r"] exI[of _ t] exI[of _ L']) auto
    qed
  qed
qed

text \<open>The block of the inode is none of the blocks that the invariant speaks about.\<close>

lemma inode_block_apart:
  assumes wf: "inode_wf k ib v a" and v': "v' = v(ib := d)"
  shows "faddr v' a = faddr v a" "owns v' a = owns v a" "inode_wf k ib v' a" "c < unat (sb_size k) \<Longrightarrow> isfree k v' c = isfree k v c"
    "faddr v a (x div BSIZE) \<noteq> 0 \<Longrightarrow> fbyte v' a x = fbyte v a x"
proof -
  note W = inode_wfD[OF wf]
  show f: "faddr v' a = faddr v a" by (rule faddr_cong) (use W(4) owns_ind[of a v] in \<open>auto simp: v'\<close>)
  show o: "owns v' a = owns v a" by (simp add: owns_def f)
  show i: "isfree k v' c = isfree k v c" if "c < unat (sb_size k)" for c by (rule isfree_outside[OF _ that]) (use W(2) in \<open>auto simp: v'\<close>)
  show "inode_wf k ib v' a" unfolding inode_wf_def f o using wf i W(4) by (auto simp: inode_wf_def)
  assume "faddr v a (x div BSIZE) \<noteq> 0"
  then have "unat (faddr v a (x div BSIZE)) \<noteq> ib" using W(4) owns_faddr by blast
  then have "v' (unat (faddr v a (x div BSIZE))) = v (unat (faddr v a (x div BSIZE)))" by (simp add: v')
  then show "fbyte v' a x = fbyte v a x" by (simp only: fbyte_def f)
qed

text \<open>All bytes of the file have blocks.\<close>

definition no_holes :: "'a fsst_scheme \<Rightarrow> nat \<Rightarrow> bool" where
  "no_holes s ip \<longleftrightarrow> (\<forall>x<unat (i_size (inodes s ip)). faddr (view s) (i_addrs (inodes s ip)) (x div BSIZE) \<noteq> 0)"

lemma file_byte_fbyte:
  "faddr (view s) (i_addrs (inodes s ip)) (x div BSIZE) \<noteq> 0 \<Longrightarrow> file_byte s ip x = fbyte (view s) (i_addrs (inodes s ip)) x"
  by (auto simp: file_byte_def fbyte_def fblk_def faddr_def split: if_splits)

text \<open>What a write that stops after the bytes \<open>bs\<close> leaves.\<close>

definition file_written :: "'a fsst_scheme \<Rightarrow> nat \<Rightarrow> uint \<Rightarrow> byte list \<Rightarrow> 'a fsst_scheme \<Rightarrow> bool" where
  "file_written s ip off bs t \<longleftrightarrow> wframe s ip t \<and> file_wf t ip \<and> no_holes t ip
     \<and> file_bytes t ip = file_write (file_bytes s ip) (unat off) bs
     \<and> owns (view s) (i_addrs (inodes s ip)) \<subseteq> owns (view t) (i_addrs (inodes t ip))
     \<and> (\<forall>c<unat (sb_size (sb s)). block_free t c \<longleftrightarrow> block_free s c \<and> c \<notin> owns (view t) (i_addrs (inodes t ip)))
     \<and> (\<forall>m. m \<notin> owns (view t) (i_addrs (inodes t ip)) \<longrightarrow> m \<notin> bmaps (sb s) \<longrightarrow> m \<noteq> unat (iblk s ip) \<longrightarrow> view t m = view s m)
     \<and> load_dinode (view t (unat (iblk s ip))) (unat (i_inum (inodes s ip)) mod IPB)
         = \<lparr>d_type = i_type (inodes s ip), d_major = i_major (inodes s ip), d_minor = i_minor (inodes s ip),
            d_nlink = i_nlink (inodes s ip), d_size = i_size (inodes t ip),
            d_addrs = \<lambda>i. if i \<le> NDIRECT then i_addrs (inodes t ip) i else 0\<rparr>
     \<and> (\<forall>j. j \<noteq> unat (i_inum (inodes s ip)) mod IPB \<longrightarrow>
          load_dinode (view t (unat (iblk s ip))) j = load_dinode (view s (unat (iblk s ip))) j)"

lemma written_bytes:
  fixes s t u :: "'a fsst_scheme"
  assumes ext: "extended s ip (unat off) bs u" and nh: "no_holes s ip" and off: "off \<le> i_size (inodes s ip)"
    and le: "unat off + length bs \<le> MAXFILE * BSIZE"
    and it: "inodes t = (inodes u)(ip := (Fsfile.grown (inodes u ip) (off + of_nat (length bs))))"
    and vt: "view t = (view u)(unat (iblk s ip) := d)"
  shows "file_bytes t ip = file_write (file_bytes s ip) (unat off) bs" "no_holes t ip"
proof -
  let ?a = "i_addrs (inodes u ip)" and ?z = "i_size (inodes s ip)"
  note W = wroteD[OF ext[unfolded extended_def, THEN conjunct2, THEN conjunct2, THEN conjunct2]]
  have E: "wframe s ip u" "i_size (inodes u ip) = ?z" "file_wf u ip" using ext by (auto simp: extended_def)
  have wi: "inode_wf (sb s) (unat (iblk s ip)) (view u) ?a" using E(3) wframeD(4,11)[OF E(1)] by (simp add: file_wf_def)
  note P = inode_block_apart[OF wi vt]
  have at: "i_addrs (inodes t ip) = ?a" using it by simp
  have uo: "unat (off + of_nat (length bs)) = unat off + length bs" by (rule write_bound(2)[OF le order_refl])
  have sz: "unat (i_size (inodes t ip)) = max (unat ?z) (unat off + length bs)"
    using it E(2) uo by (simp add: max_def word_le_nat_alt)
  have in_u: "faddr (view u) ?a (x div BSIZE) \<noteq> 0 \<and> fbyte (view u) ?a x = bput (unat off) bs (file_byte s ip) x"
    if x: "x < unat (i_size (inodes t ip))" for x
  proof (cases "x < unat ?z")
    case True
    then have f: "faddr (view s) (i_addrs (inodes s ip)) (x div BSIZE) \<noteq> 0" using nh by (simp add: no_holes_def)
    then show ?thesis using W(1)[OF f] W(2)[OF f] file_byte_fbyte[OF f] by (simp add: bput_def)
  next
    case False
    then have "unat off \<le> x" "x < unat off + length bs" using x sz off by (auto simp: word_le_nat_alt)
    then show ?thesis using W(3)[of x] by (simp add: bput_def)
  qed
  show "no_holes t ip" unfolding no_holes_def at P(1) using in_u by blast
  have "file_byte t ip x = bput (unat off) bs (file_byte s ip) x" if "x < unat (i_size (inodes t ip))" for x
  proof -
    have "faddr (view t) (i_addrs (inodes t ip)) (x div BSIZE) \<noteq> 0" using in_u[OF that] by (simp add: at P(1))
    from file_byte_fbyte[OF this] show ?thesis using in_u[OF that] P(5)[of x] by (simp add: at)
  qed
  then show "file_bytes t ip = file_write (file_bytes s ip) (unat off) bs"
    by (intro file_bytes_write) (use off sz in \<open>simp_all add: word_le_nat_alt\<close>)
qed

lemma writei_finish:
  fixes s u :: "'a fsst_scheme"
  assumes t: "tx p u L Map.empty {}" and room: "tx_room L Map.empty (Suc k)" and ext: "extended s ip (unat off) bs u"
    and nh: "no_holes s ip" and off: "off \<le> i_size (inodes s ip)" and le: "unat off + length bs \<le> MAXFILE * BSIZE"
    and e: "e = unat off + length bs"
  shows "\<exists>b t. set_inode ip (\<lambda>i. if unat (i_size i) < e then i\<lparr>i_size := of_nat e\<rparr> else i) u = Done () b \<and> iupdate ip b = Done () t
    \<and> tx p t (insert (unat (iblk s ip)) L) Map.empty {} \<and> file_written s ip off bs t \<and> (disk_full u \<longrightarrow> disk_full t)
    \<and> faddr (view t) (i_addrs (inodes t ip)) = faddr (view u) (i_addrs (inodes u ip)) \<and> i_addrs (inodes t ip) = i_addrs (inodes u ip)"
proof -
  let ?e = "off + of_nat (length bs)" and ?m = "unat (iblk s ip)" and ?j = "unat (i_inum (inodes s ip)) mod IPB"
  have E: "wframe s ip u" "i_size (inodes u ip) = i_size (inodes s ip)" "file_wf u ip" using ext by (auto simp: extended_def)
  note F = wframeD[OF E(1)]
  note W = wroteD[OF ext[unfolded extended_def, THEN conjunct2, THEN conjunct2, THEN conjunct2]]
  define b where "b = u\<lparr>inodes := (inodes u)(ip := Fsfile.grown (inodes u ip) ?e)\<rparr>"
  have B: "inodes b ip = Fsfile.grown (inodes u ip) ?e" "tx p b L Map.empty {}" "view b = view u" "iblk b ip = iblk s ip" "sb b = sb s"
    using t F(4,11) by (simp_all add: b_def iblk_def)
  have si: "set_inode ip (\<lambda>i. if unat (i_size i) < e then i\<lparr>i_size := of_nat e\<rparr> else i) u = Done () b"
    unfolding set_inode_def e grow_eq[OF write_bound(2)[OF le order_refl]] by (simp add: kexec b_def)
  have wb: "wframe u ip b" by (simp add: wframe_def b_def Fsfile.grown_def)
  let ?f = "\<lambda>d. store_dinode d (unat (i_inum (inodes b ip)) mod IPB) (dinode_of (inodes b ip))"
  have em: "(Map.empty :: nat \<rightharpoonup> nat \<times> uint) ?m = None" by simp
  obtain c where c: "edit_block (iblk s ip) ?f b = Done () c" "tx p c (insert ?m L) Map.empty {}"
      "view c = (view b)(?m := ?f (view b ?m))" "tframe b c"
    using tx_edit[where w = "iblk s ip", OF B(2) em room] by blast
  have "i_dev (inodes b ip) = ROOTDEV" using E(3) by (simp add: B(1) file_wf_def)
  then have iu: "iupdate ip b = Done () c" using c(1) iupdate_edit[of b ip] B(4) by simp
  have ic: "inodes c = inodes b" using tframe_fs[OF c(4)] by simp
  have fr: "wframe s ip c" by (rule wframe_trans[OF wframe_trans[OF E(1) wb] wframe_tframe[OF c(4)]])
  note C = wframeD[OF fr]
  have it: "inodes c = (inodes u)(ip := Fsfile.grown (inodes u ip) ?e)" using ic by (simp add: b_def)
  have vt: "view c = (view u)(?m := ?f (view u ?m))" by (simp only: c(3) B(3))
  have ac: "i_addrs (inodes c ip) = i_addrs (inodes u ip)" using it by simp
  have wi: "inode_wf (sb s) ?m (view u) (i_addrs (inodes u ip))" using E(3) F(4,11) by (simp add: file_wf_def)
  note P = inode_block_apart[OF wi vt]
  have wc: "file_wf c ip" using P(3) E(3) C(1,4,6,11) F(1,6) by (simp add: file_wf_def ac)
  have bf: "\<forall>x<unat (sb_size (sb s)). block_free c x \<longleftrightarrow> block_free s x \<and> x \<notin> owns (view c) (i_addrs (inodes c ip))"
    using W(5) P(4) C(4) by (simp add: block_free_isfree ac P(2))
  have vw: "\<forall>m. m \<notin> owns (view c) (i_addrs (inodes c ip)) \<longrightarrow> m \<notin> bmaps (sb s) \<longrightarrow> m \<noteq> ?m \<longrightarrow> view c m = view s m"
    using W(6) unfolding ac P(2) by (simp add: vt)
  have ow: "owns (view s) (i_addrs (inodes s ip)) \<subseteq> owns (view c) (i_addrs (inodes c ip))" using W(4) unfolding ac P(2) .
  have "view u ?m = view s ?m" using W(6)[of ?m] inode_wfD(2,4)[OF wi] by blast
  moreover have "i_inum (inodes b ip) = i_inum (inodes s ip)" using F(7) by (simp add: B(1))
  ultimately have vm: "view c ?m = store_dinode (view s ?m) ?j (dinode_of (inodes c ip))" by (simp add: vt ic)
  have ci: "i_type (inodes c ip) = i_type (inodes s ip)" "i_major (inodes c ip) = i_major (inodes s ip)"
    "i_minor (inodes c ip) = i_minor (inodes s ip)" "i_nlink (inodes c ip) = i_nlink (inodes s ip)" by (subst C(12), simp)+
  have ld: "load_dinode (view c ?m) ?j = \<lparr>d_type = i_type (inodes s ip), d_major = i_major (inodes s ip), d_minor = i_minor (inodes s ip),
      d_nlink = i_nlink (inodes s ip), d_size = i_size (inodes c ip), d_addrs = \<lambda>i. if i \<le> NDIRECT then i_addrs (inodes c ip) i else 0\<rparr>"
    unfolding vm load_store_dinode dinode_of_def ci by (simp cong: if_cong)
  have lo: "\<forall>j. j \<noteq> ?j \<longrightarrow> load_dinode (view c ?m) j = load_dinode (view s ?m) j"
    unfolding vm by (intro allI impI, rule load_dinode_cong, rule store_dinode_frame) auto
  have "file_written s ip off bs c"
    unfolding file_written_def using fr wc written_bytes[OF ext nh off le it vt] ow bf vw ld lo by blast
  moreover have "disk_full u \<longrightarrow> disk_full c" using P(4) by (simp add: disk_full_def block_free_isfree C(4) F(4))
  moreover have "faddr (view c) (i_addrs (inodes c ip)) = faddr (view u) (i_addrs (inodes u ip))" using P(1) unfolding ac .
  ultimately show ?thesis using si iu c(2) ac by blast
qed

text \<open>On a disk with one map block, the room that \<open>begin_op\<close> reserves for a system call is enough for any write that \<open>filewrite\<close> passes on,
  at most three blocks long.\<close>

lemma reserved_room:
  assumes "unat (sb_bmapstart k) + unat (sb_size k) div BPB < 2 ^ 32" "unat (sb_size k) \<le> BPB" "n \<le> 3 * BSIZE"
    "finite L" "card L + MAXOPBLOCKS \<le> LOGSIZE"
  shows "wroom k L a (touched off n + 2)"
proof -
  have N: "unat (sb_size k) < 2 ^ 32" using unsigned_less[of "sb_size k", where ?'a = nat] by simp
  have "bm_block k b = unat (sb_bmapstart k)" if "b < unat (sb_size k)" for b
    using bm_block_eq[OF assms(1) less_imp_le[OF that] N] that assms(2) by simp
  then have "bmaps k \<subseteq> {unat (sb_bmapstart k)}" by (auto simp: bmaps_def)
  then have m: "card (bmaps k) \<le> 1" using card_mono[of "{unat (sb_bmapstart k)}" "bmaps k"] by simp
  have "card (L \<union> bmaps k \<union> ind_of a) \<le> card L + card (bmaps k) + card (ind_of a)"
    using card_Un_le[of "L \<union> bmaps k" "ind_of a"] card_Un_le[of L "bmaps k"] by linarith
  moreover have "card (ind_of a) + (if a NDIRECT = 0 then 1 else 0) = 1" by (simp add: ind_of_def)
  moreover have "off mod BSIZE < BSIZE" by simp
  then have "off mod BSIZE + n + (BSIZE - 1) < 5 * BSIZE" using assms(3) by linarith
  then have "(off mod BSIZE + n + (BSIZE - 1)) div BSIZE < 5" by (rule less_mult_imp_div_less)
  then have "touched off n \<le> 4" unfolding touched_def by (split if_split) linarith
  ultimately show ?thesis using m assms(5) by (simp add: wroom_def MAXOPBLOCKS_def LOGSIZE_def)
qed

text \<open>C7: \<open>writei\<close> writes the abstract file, whatever the source of the bytes and whether or not the blocks exist. In a transaction in which
  the caller holds no buffer, with room in the log for the blocks touched, the free map, the indirect block and two more, on an
  inode that keeps the invariant and has no holes, and with \<open>bs\<close> readable at the source (user memory, kernel memory or
  the kernel stack), a write at an offset inside the file or at its end that does not exceed the largest file writes the
  bytes of \<open>bs\<close> from the first on and returns their number; it stops before the last one only when the disk is full. The file then is the old
  one with those bytes replaced or appended; the blocks it had are still its own and those that \<open>bmap\<close> has given it are exactly
  the ones that have left the free map, the indirect block included; the inode on disk has the new size and addresses; the other inodes
  of its block and all other blocks read as before; the invariant holds again. Any other write returns -1 and changes nothing.\<close>

theorem writei_refines:
  fixes s :: "'a fsst_scheme" and off :: uint
  assumes t: "tx p s L Map.empty {}" and room: "wroom (sb s) L (i_addrs (inodes s ip)) (touched (unat off) (length bs) + 2)"
    and wf: "file_wf s ip" and nh: "no_holes s ip" and g: "gives s src bs" and len: "length bs < 2 ^ 32"
  shows "if off \<le> i_size (inodes s ip) \<and> unat off + length bs \<le> MAXFILE * BSIZE
    then \<exists>r t L'. writei ip src off (of_nat (length bs)) s = Done (int r) t \<and> r \<le> length bs \<and> (r < length bs \<longrightarrow> disk_full t)
       \<and> tx p t L' Map.empty {} \<and> wframe s ip t \<and> file_wf t ip \<and> no_holes t ip
       \<and> file_bytes t ip = file_write (file_bytes s ip) (unat off) (take r bs)
       \<and> owns (view s) (i_addrs (inodes s ip)) \<subseteq> owns (view t) (i_addrs (inodes t ip))
       \<and> (\<forall>c<unat (sb_size (sb s)). block_free t c \<longleftrightarrow> block_free s c \<and> c \<notin> owns (view t) (i_addrs (inodes t ip)))
       \<and> (\<forall>bn. faddr (view t) (i_addrs (inodes t ip)) bn \<noteq> 0 \<longrightarrow> faddr (view s) (i_addrs (inodes s ip)) bn \<noteq> 0
            \<or> (\<exists>x. unat off \<le> x \<and> x < unat off + r \<and> x div BSIZE = bn))
       \<and> (i_addrs (inodes t ip) NDIRECT \<noteq> 0 \<longrightarrow> i_addrs (inodes s ip) NDIRECT \<noteq> 0 \<or> NDIRECT * BSIZE < unat off + length bs)
       \<and> (\<forall>m. m \<notin> owns (view t) (i_addrs (inodes t ip)) \<longrightarrow> m \<notin> bmaps (sb s) \<longrightarrow> m \<noteq> unat (iblk s ip) \<longrightarrow> view t m = view s m)
       \<and> load_dinode (view t (unat (iblk s ip))) (unat (i_inum (inodes s ip)) mod IPB)
           = \<lparr>d_type = i_type (inodes s ip), d_major = i_major (inodes s ip), d_minor = i_minor (inodes s ip),
              d_nlink = i_nlink (inodes s ip), d_size = i_size (inodes t ip),
              d_addrs = \<lambda>i. if i \<le> NDIRECT then i_addrs (inodes t ip) i else 0\<rparr>
       \<and> (\<forall>j. j \<noteq> unat (i_inum (inodes s ip)) mod IPB \<longrightarrow>
            load_dinode (view t (unat (iblk s ip))) j = load_dinode (view s (unat (iblk s ip))) j)
    else writei ip src off (of_nat (length bs)) s = Done (- 1) s"
proof (cases "off \<le> i_size (inodes s ip) \<and> unat off + length bs \<le> MAXFILE * BSIZE")
  case True
  note u = write_bound[OF conjunct2[OF True] order_refl]
  have room': "wroom (sb s) L (i_addrs (inodes s ip)) (touched (unat off) (length bs) + Suc (Suc 0))" using room by simp
  obtain r a L1 where a: "writei_loop ip src (unat off) 0 (length bs) s = Done (unat off + r, 0 + r) a" "r \<le> length bs" "r < length bs \<longrightarrow> disk_full a"
      "extended s ip (unat off) (take r bs) a" "tx p a L1 Map.empty {}" "wroom (sb s) L1 (i_addrs (inodes a ip)) (Suc (Suc 0))"
      "grew s ip (unat off) r (length bs) a"
    using writei_loop_grows[OF t room' wf g conjunct2[OF True]] by blast
  have le: "unat off + length (take r bs) \<le> MAXFILE * BSIZE" and e: "unat off + r = unat off + length (take r bs)" using True a(2) by simp_all
  obtain b c where c: "set_inode ip (\<lambda>i. if unat (i_size i) < unat off + r then i\<lparr>i_size := of_nat (unat off + r)\<rparr> else i) a = Done () b"
      "iupdate ip b = Done () c" "tx p c (insert (unat (iblk s ip)) L1) Map.empty {}" "file_written s ip off (take r bs) c"
      "disk_full a \<longrightarrow> disk_full c" "faddr (view c) (i_addrs (inodes c ip)) = faddr (view a) (i_addrs (inodes a ip))"
      "i_addrs (inodes c ip) = i_addrs (inodes a ip)"
    using writei_finish[OF a(5) wroom_tx(1)[OF txD(5)[OF a(5)] a(6)] a(4) nh conjunct1[OF True] le e] by blast
  have no: "\<not> i_size (inodes s ip) < off" "\<not> off + of_nat (length bs) < off" "\<not> MAXFILE * BSIZE < unat (off + of_nat (length bs))"
    using True unfolding word_less_nat_alt u(2) by (simp_all add: word_le_nat_alt)
  have run: "writei ip src off (of_nat (length bs)) s = Done (int r) c"
    unfolding writei_def using no a(1) c(1,2) u(1) by (simp add: kexec get_inode_def)
  have "r < length bs \<longrightarrow> disk_full c" using a(3) c(5) by blast
  moreover have "grew s ip (unat off) r (length bs) c" using a(7) grew_cong(1)[OF c(6,7)] by simp
  ultimately show ?thesis using True run a(2) c(3) c(4)[unfolded file_written_def] unfolding grew_def by (simp only: if_True simp_thms) blast
next
  case False
  have ul: "unat (of_nat (length bs) :: uint) = length bs" using len by (simp add: unat_of_nat)
  have "i_size (inodes s ip) < off \<or> off + of_nat (length bs) < off \<or> MAXFILE * BSIZE < unat (off + of_nat (length bs))"
  proof (cases "unat off + length bs < 2 ^ 32")
    case True
    then have "unat (off + of_nat (length bs)) = unat off + length bs" by (simp add: unat_word_ariths ul)
    then show ?thesis using False by (auto simp: not_le)
  next
    case False
    then have "off + of_nat (length bs) < off" using no_olen_add_nat[of off "of_nat (length bs)"] by (simp add: ul not_le)
    then show ?thesis by blast
  qed
  then have "writei ip src off (of_nat (length bs)) s = Done (- 1) s" unfolding writei_def by (auto simp: kexec get_inode_def)
  then show ?thesis using False by (simp only: if_False)
qed

text \<open>Three bytes of user memory are written to an empty file.\<close>

lemma user_memory_tx:
  "tx p (s\<lparr>mem := m, freelist := f, free_pages := n, k_end := e, procs := P\<rparr>) L H D = tx p s L H D"
  "view (s\<lparr>mem := m, freelist := f, free_pages := n, k_end := e, procs := P\<rparr>) = view s"
proof -
  let ?t = "s\<lparr>mem := m, freelist := f, free_pages := n, k_end := e, procs := P\<rparr>"
  have c: "view ?t = view s" "owned ?t = owned s" "refs ?t = refs s" "home ?t = home s"
    by (rule ext, simp add: view_def owned_def refs_def home_def buf_of_def Let_def split: option.split)+
  then show "view ?t = view s" by simp
  show "tx p ?t L H D = tx p s L H D" by (simp add: tx_def bc_inv_def bio_ok_def c)
qed

lemma ex_map_free2: "bit_free ex_map 61"
  by code_simp

lemma ex_empty_file:
  assumes "sb s = ex_sb" "view s = (\<lambda>m. if m = 45 then ex_map else (\<lambda>_. 0))" "inodes s = (\<lambda>_. ex_file 0 0)" "held s = {}"
  shows "file_wf s 0" "no_holes s 0" "wroom (sb s) {} (i_addrs (inodes s 0)) 3" "faddr (view s) (i_addrs (inodes s 0)) bn = 0"
    "block_free s 60" "block_free s 61"
proof -
  have a: "i_addrs (inodes s 0) = (\<lambda>_. 0)" by (simp add: assms(3) ex_file_def fun_eq_iff)
  show f: "faddr (view s) (i_addrs (inodes s 0)) bn = 0" for bn by (simp add: faddr_def a)
  have bm: "bmaps ex_sb = {45}" using ex_bm by (auto simp: bmaps_def intro!: image_eqI[of _ _ 0])
  have ib: "iblk s 0 = 0" by (simp add: iblk_def IBLOCK_def assms(1,3) ex_file_def ex_sb_def load_superblock_def bload32_def IPB_def BSIZE_def)
  have ow: "owns (view s) (i_addrs (inodes s 0)) = {}" by (simp add: owns_def f) (simp add: ind_of_def a)
  have fr: "isfree ex_sb (view s) b \<longleftrightarrow> bit_free ex_map b" if "b < 100" for b
    using that ex_bm[OF that] by (simp add: isfree_def assms(2) BPB_def BSIZE_def)
  have ge: "60 \<le> b" if "b < 100" "isfree ex_sb (view s) b" for b using ex_map_used fr[OF that(1)] that(2) by (meson not_le)
  have "\<forall>b<unat (sb_size ex_sb). isfree ex_sb (view s) b \<longrightarrow> b \<notin> {45} \<and> b \<noteq> 0 \<and> b \<noteq> 0"
    by (auto dest: ge)
  then have "inode_wf ex_sb 0 (view s) (i_addrs (inodes s 0))"
    unfolding inode_wf_def ow f bm by (simp add: BPB_def BSIZE_def)
  then show "file_wf s 0" by (simp add: file_wf_def assms(1,4) ib) (simp add: assms(3) ex_file_def)
  show "no_holes s 0" by (simp add: no_holes_def assms(3) ex_file_def)
  show "wroom (sb s) {} (i_addrs (inodes s 0)) 3" by (simp add: wroom_def assms(1) bm ind_of_def a LOGSIZE_def MAXOPBLOCKS_def)
  show "block_free s 60" "block_free s 61" using fr[of 60] fr[of 61] ex_map_free ex_map_free2 by (simp_all add: block_free_isfree assms(1))
qed

theorem writei_refines_witness:
  "\<exists>(s :: fsst) t. writei 0 (UserSrc 0x10) 0 3 s = Done 3 t \<and> file_bytes s 0 = []
     \<and> file_bytes t 0 = map (\<lambda>i. ubyte (mem s) 0x87FFF000 (0x10 + of_nat i)) [0..<3]"
proof -
  obtain r :: fsst where r: "tx 0 r {} Map.empty {}" "sb r = ex_sb" "view r = (\<lambda>m. if m = 45 then ex_map else (\<lambda>_. 0))" "held r = {}"
    using ex_fs by blast
  obtain q :: mst and xs where q: "spaces q 0x87FFF000 0x87FFA000 xs"
    "\<forall>va<TRAPFRAME. PGROUNDDOWN va = 0 \<longrightarrow> PTE_FLAGS (lookup 2 (mem q) 0x87FFF000 va) = 0x17"
    using ex_parent by blast
  let ?pt = "0x87FFF000 :: addr"
  define s where "s = r\<lparr>mem := mem q, freelist := freelist q, free_pages := free_pages q, k_end := k_end q,
    procs := (procs r)(0 := (procs r 0)\<lparr>p_pagetable := ?pt\<rparr>), inodes := \<lambda>_. ex_file 0 0\<rparr>"
  have s: "tx 0 s {} Map.empty {}" "sb s = ex_sb" "view s = (\<lambda>m. if m = 45 then ex_map else (\<lambda>_. 0))" "inodes s = (\<lambda>_. ex_file 0 0)" "held s = {}"
      "mem s = mem q" "p_pagetable (procs s 0) = ?pt"
    using r by (simp_all add: s_def user_memory_tx)
  note E = ex_empty_file[OF s(2-5)]
  have cur: "cur s = Some 0" using txD(2)[OF s(1)] by (simp add: bio_ok_def)
  have uq: "uvm_inv q ?pt xs" using q(1) by (simp add: spaces_def)
  have us: "uvm_inv s ?pt xs" by (rule uvm_inv_cong[OF uq]) (simp_all add: s_def r(4))
  have "pvalid (lookup 2 (mem s) ?pt (0x10 + of_nat i)) \<and> lookup 2 (mem s) ?pt (0x10 + of_nat i) AND PTE_U \<noteq> 0" if "i < 3" for i
  proof -
    have "(0x10 + of_nat i :: uint64) < 0x1000" using that by (auto simp: less_Suc_eq numeral_3_eq_3)
    then show ?thesis using page0 q(2) flags_0x17 s(6) by metis
  qed
  then have rd: "readable s ?pt 0x10 3" by (simp add: readable_def TRAPFRAME_eq Let_def)
  define bs where "bs = map (\<lambda>i. ubyte (mem s) ?pt (0x10 + of_nat i)) [0..<3]"
  have len: "length bs = 3" by (simp add: bs_def)
  have g: "gives s (UserSrc 0x10) bs" using cur us rd s(7) len by (auto simp: bs_def)
  have room: "wroom (sb s) {} (i_addrs (inodes s 0)) (touched (unat (0 :: uint)) (length bs) + 2)"
    using E(3) len by (simp add: touched_def BSIZE_def numeral_3_eq_3)
  have z: "(0 :: uint) \<le> i_size (inodes s 0) \<and> unat (0 :: uint) + length bs \<le> MAXFILE * BSIZE"
    by (simp add: len MAXFILE_def NDIRECT_def BSIZE_def)
  have l32: "length bs < 2 ^ 32" by (simp add: len)
  obtain n t where t: "writei 0 (UserSrc 0x10) 0 (of_nat (length bs)) s = Done (int n) t" "n \<le> length bs" "n < length bs \<longrightarrow> disk_full t" "wframe s 0 t"
      "file_bytes t 0 = file_write (file_bytes s 0) (unat (0 :: uint)) (take n bs)"
      "\<forall>c<unat (sb_size (sb s)). block_free t c \<longleftrightarrow> block_free s c \<and> c \<notin> owns (view t) (i_addrs (inodes t 0))"
      "\<forall>bn. faddr (view t) (i_addrs (inodes t 0)) bn \<noteq> 0 \<longrightarrow> faddr (view s) (i_addrs (inodes s 0)) bn \<noteq> 0
            \<or> (\<exists>x. unat (0 :: uint) \<le> x \<and> x < unat (0 :: uint) + n \<and> x div BSIZE = bn)"
      "i_addrs (inodes t 0) NDIRECT \<noteq> 0 \<longrightarrow> i_addrs (inodes s 0) NDIRECT \<noteq> 0 \<or> NDIRECT * BSIZE < unat (0 :: uint) + length bs"
    using writei_refines[OF s(1) room E(1,2) g l32, unfolded if_P[OF z]] by blast
  have ind: "i_addrs (inodes t 0) NDIRECT = 0" using t(8) by (auto simp: s(4) ex_file_def len NDIRECT_def BSIZE_def)
  have "bn = 0" if "faddr (view t) (i_addrs (inodes t 0)) bn \<noteq> 0" for bn
    using t(7)[rule_format, OF that] E(4)[of bn] t(2) len by (auto simp: BSIZE_def)
  then have "owns (view t) (i_addrs (inodes t 0)) \<subseteq> {unat (faddr (view t) (i_addrs (inodes t 0)) 0)}"
    by (auto simp: owns_def ind_of_def ind)
  moreover have neq: "(60 :: nat) \<noteq> 61" by simp
  ultimately have "60 \<notin> owns (view t) (i_addrs (inodes t 0)) \<or> 61 \<notin> owns (view t) (i_addrs (inodes t 0))"
    using neq by (metis singletonD subsetD)
  then have "block_free t 60 \<or> block_free t 61" using t(6) E(5,6) by (auto simp: s(2))
  then have "\<not> disk_full t" using wframeD(4)[OF t(4)] by (auto simp: disk_full_def s(2) intro: exI[of _ 60] exI[of _ 61])
  then have n: "n = length bs" using t(2,3) by auto
  have "file_bytes s 0 = []" by (simp add: file_bytes_def s(4) ex_file_def)
  then show ?thesis using t(1,5) n len unfolding bs_def by (intro exI[of _ s] exI[of _ t]) (simp add: file_write_def)
qed

end
