(* ===== verification/Pipespec.thy ===== *)
theory Pipespec
  imports Sysprocspec Ufork
begin

text \<open>
  Bounded queues in the kernel. The pipe buffer, the transmit buffer of the UART and the input buffer of the console
  are queues in the sense of the locale \<open>fifo\<close>; \<open>pipewrite\<close> and \<open>piperead\<close> move bytes between user memory and
  the queue of a pipe, in order.
\<close>

subsection \<open>The three rings are queues\<close>

definition pipe_bytes :: "pipe \<Rightarrow> byte list" where
  "pipe_bytes p = ring PIPESIZE (pi_data p) (pi_nread p) (pi_nwrite p)"

definition pipe_put :: "byte \<Rightarrow> pipe \<Rightarrow> pipe" where
  "pipe_put c p = p\<lparr>pi_data := (pi_data p)(unat (pi_nwrite p) mod PIPESIZE := c), pi_nwrite := pi_nwrite p + 1\<rparr>"

definition pipe_get :: "pipe \<Rightarrow> byte \<times> pipe" where
  "pipe_get p = (pi_data p (unat (pi_nread p) mod PIPESIZE), p\<lparr>pi_nread := pi_nread p + 1\<rparr>)"

interpretation pq: fifo pipe_bytes PIPESIZE pipe_put pipe_get
proof unfold_locales
  fix s x assume "length (pipe_bytes s) < PIPESIZE"
  then show "pipe_bytes (pipe_put x s) = pipe_bytes s @ [x]"
    by (simp add: pipe_bytes_def pipe_put_def ring_push PIPESIZE_def)
next
  fix s assume "pipe_bytes s \<noteq> []"
  then show "pipe_bytes s = fst (pipe_get s) # pipe_bytes (snd (pipe_get s))"
    by (simp add: pipe_bytes_def pipe_get_def ring_Nil_iff ring_pop)
qed

definition uart_queue :: "'a dvst_scheme \<Rightarrow> byte list" where
  "uart_queue s = ring UART_TX_BUF_SIZE (uart_tx_buf s) (uart_tx_r s) (uart_tx_w s)"

definition uart_put :: "byte \<Rightarrow> 'a dvst_scheme \<Rightarrow> 'a dvst_scheme" where
  "uart_put c s = s\<lparr>uart_tx_buf := (uart_tx_buf s)(unat (uart_tx_w s) mod UART_TX_BUF_SIZE := c), uart_tx_w := uart_tx_w s + 1\<rparr>"

definition uart_get :: "'a dvst_scheme \<Rightarrow> byte \<times> 'a dvst_scheme" where
  "uart_get s = (uart_tx_buf s (unat (uart_tx_r s) mod UART_TX_BUF_SIZE), s\<lparr>uart_tx_r := uart_tx_r s + 1\<rparr>)"

interpretation uq: fifo uart_queue UART_TX_BUF_SIZE uart_put uart_get
proof unfold_locales
  fix s :: "'a dvst_scheme" and x assume "length (uart_queue s) < UART_TX_BUF_SIZE"
  then show "uart_queue (uart_put x s) = uart_queue s @ [x]"
    by (simp add: uart_queue_def uart_put_def ring_push UART_TX_BUF_SIZE_def)
next
  fix s :: "'a dvst_scheme" assume "uart_queue s \<noteq> []"
  then show "uart_queue s = fst (uart_get s) # uart_queue (snd (uart_get s))"
    by (simp add: uart_queue_def uart_get_def ring_Nil_iff ring_pop)
qed

definition cons_input :: "'a dvst_scheme \<Rightarrow> byte list" where
  "cons_input s = ring INPUT_BUF_SIZE (cons_buf s) (cons_r s) (cons_e s)"

definition cons_put :: "byte \<Rightarrow> 'a dvst_scheme \<Rightarrow> 'a dvst_scheme" where
  "cons_put c s = s\<lparr>cons_buf := (cons_buf s)(unat (cons_e s) mod INPUT_BUF_SIZE := c), cons_e := cons_e s + 1\<rparr>"

definition cons_get :: "'a dvst_scheme \<Rightarrow> byte \<times> 'a dvst_scheme" where
  "cons_get s = (cons_buf s (unat (cons_r s) mod INPUT_BUF_SIZE), s\<lparr>cons_r := cons_r s + 1\<rparr>)"

interpretation cq: fifo cons_input INPUT_BUF_SIZE cons_put cons_get
proof unfold_locales
  fix s :: "'a dvst_scheme" and x assume "length (cons_input s) < INPUT_BUF_SIZE"
  then show "cons_input (cons_put x s) = cons_input s @ [x]"
    by (simp add: cons_input_def cons_put_def ring_push INPUT_BUF_SIZE_def)
next
  fix s :: "'a dvst_scheme" assume "cons_input s \<noteq> []"
  then show "cons_input s = fst (cons_get s) # cons_input (snd (cons_get s))"
    by (simp add: cons_input_def cons_get_def ring_Nil_iff ring_pop)
qed

subsection \<open>pipewrite\<close>

text \<open>The test for a full pipe.\<close>

lemma ring_full:
  fixes r w :: "'w::len word"
  assumes "n < 2 ^ LENGTH('w)"
  shows "w = r + of_nat n \<longleftrightarrow> unat (w - r) = n"
proof
  assume "w = r + of_nat n"
  then show "unat (w - r) = n" using assms by (simp add: unat_of_nat)
next
  assume "unat (w - r) = n"
  moreover have "of_nat (unat (w - r)) = w - r" by simp
  ultimately have "w - r = of_nat n" by (simp only:)
  then show "w = r + of_nat n" by (simp add: algebra_simps)
qed

lemma pipe_full: "pi_nwrite p = pi_nread p + of_nat PIPESIZE \<longleftrightarrow> length (pipe_bytes p) = PIPESIZE"
  unfolding pipe_bytes_def length_ring by (rule ring_full) (simp add: PIPESIZE_def)

lemma pipe_empty: "pi_nread p = pi_nwrite p \<longleftrightarrow> pipe_bytes p = []"
  by (auto simp: pipe_bytes_def ring_Nil_iff)

lemma pipe_put_fields [simp]: "pi_readopen (pipe_put c p) = pi_readopen p" "pi_writeopen (pipe_put c p) = pi_writeopen p"
  by (simp_all add: pipe_put_def)

definition user_bytes :: "'a mst_scheme \<Rightarrow> addr \<Rightarrow> uint64 \<Rightarrow> nat \<Rightarrow> byte list" where
  "user_bytes s pt va n = map (\<lambda>i. ubyte (mem s) pt (va + of_nat i)) [0..<n]"

text \<open>What \<open>pipewrite\<close> needs: the writer runs with only the lock of the pipe held, is not killed, the pipe has a reader and the
  buffer is readable.\<close>

definition writer :: "addr \<Rightarrow> nat \<Rightarrow> addr list \<Rightarrow> 'a ftst_scheme \<Rightarrow> bool" where
  "writer pi pr xs s \<longleftrightarrow> cur s = Some pr \<and> held s = {PIPE_LOCK pi} \<and> \<not> p_killed (procs s pr) \<and> pi_readopen (pipes s pi)
     \<and> uvm_inv s (p_pagetable (procs s pr)) xs \<and> length (pipe_bytes (pipes s pi)) \<le> PIPESIZE"

text \<open>The states in which an attempt of \<open>pipewrite\<close> ends: all bytes written, or asleep on a full pipe.\<close>

definition wrote :: "addr \<Rightarrow> nat \<Rightarrow> pipe \<Rightarrow> 'a ftst_scheme \<Rightarrow> 'a ftst_scheme" where
  "wrote pi pr P s = s\<lparr>held := {}, procs := wakes (Some pr) (ChNread pi) (procs s), pipes := (pipes s)(pi := P)\<rparr>"

definition blocked :: "addr \<Rightarrow> nat \<Rightarrow> pipe \<Rightarrow> 'a ftst_scheme \<Rightarrow> 'a ftst_scheme" where
  "blocked pi pr P s = s\<lparr>held := {PROC_LOCK pr}, pipes := (pipes s)(pi := P),
     procs := (wakes (Some pr) (ChNread pi) (procs s))(pr := sleep_mark (ChNwrite pi) (procs s pr))\<rparr>"

lemma write_byte:
  fixes s :: "'a ftst_scheme"
  assumes w: "writer pi pr xs s" and r: "readable s (p_pagetable (procs s pr)) (addr + of_nat i) (Suc n)"
    and room: "length (pipe_bytes (pipes s pi)) < PIPESIZE"
  defines "b \<equiv> ubyte (mem s) (p_pagetable (procs s pr)) (addr + of_nat i)"
  defines "t \<equiv> s\<lparr>pipes := (pipes s)(pi := pipe_put b (pipes s pi))\<rparr>"
  shows "pipewrite_loop pi pr addr i (Suc n) s = pipewrite_loop pi pr addr (Suc i) n t" "writer pi pr xs t"
proof -
  let ?pt = "p_pagetable (procs s pr)"
  have inv: "uvm_inv s ?pt xs" using w by (simp add: writer_def)
  have "readable s ?pt (addr + of_nat i) (Suc 0)" using r by (auto simp: readable_def)
  from copyin_bytes[OF inv this] have c: "copyin ?pt (addr + of_nat i) (Suc 0) s = Done (0, [b]) s" by (simp add: b_def)
  have nf: "pi_nwrite (pipes s pi) \<noteq> pi_nread (pipes s pi) + of_nat PIPESIZE" using room pipe_full[of "pipes s pi"] by simp
  show "pipewrite_loop pi pr addr i (Suc n) s = pipewrite_loop pi pr addr (Suc i) n t"
    using w c nf by (simp add: writer_def kexec set_pipe_def t_def pipe_put_def)
  have "uvm_inv t ?pt xs" by (rule uvm_inv_cong[OF inv]) (use w in \<open>simp_all add: t_def writer_def\<close>)
  then show "writer pi pr xs t" using w room by (simp add: writer_def t_def pq.put_items)
qed

lemma write_full:
  assumes w: "writer pi pr xs s" and full: "length (pipe_bytes (pipes s pi)) = PIPESIZE"
  shows "pipewrite_loop pi pr addr i (Suc n) s = Swtch (blocked pi pr (pipes s pi) s)"
proof -
  let ?t = "s\<lparr>procs := wakes (Some pr) (ChNread pi) (procs s)\<rparr>"
  have f: "pi_nwrite (pipes s pi) = pi_nread (pipes s pi) + of_nat PIPESIZE" using full pipe_full[of "pipes s pi"] by simp
  have "sleep (ChNwrite pi) (PIPE_LOCK pi) ?t = Swtch (blocked pi pr (pipes s pi) s)"
    using sleep_exec[of ?t pr "PIPE_LOCK pi" "ChNwrite pi"] w by (simp add: writer_def blocked_def)
  then show ?thesis using w f by (simp add: writer_def kexec)
qed

lemma write_loop:
  fixes s :: "'a ftst_scheme"
  assumes "writer pi pr xs s" and "readable s (p_pagetable (procs s pr)) (addr + of_nat i) n"
  defines "room \<equiv> PIPESIZE - length (pipe_bytes (pipes s pi))"
  shows "\<exists>P. pipe_bytes P = pipe_bytes (pipes s pi) @ user_bytes s (p_pagetable (procs s pr)) (addr + of_nat i) (min n room)
    \<and> pi_readopen P = pi_readopen (pipes s pi) \<and> pi_writeopen P = pi_writeopen (pipes s pi)
    \<and> pipewrite_loop pi pr addr i n s = (if n \<le> room then Done (int (i + n)) (wrote pi pr P s) else Swtch (blocked pi pr P s))"
  using assms(1,2) unfolding room_def
proof (induction n arbitrary: i s)
  case 0
  then show ?case by (intro exI[of _ "pipes s pi"]) (simp add: kexec writer_def wrote_def user_bytes_def)
next
  case (Suc n)
  let ?p = "pipes s pi" and ?pt = "p_pagetable (procs s pr)" and ?va = "addr + of_nat i"
  have le: "length (pipe_bytes ?p) \<le> PIPESIZE" using Suc.prems(1) by (simp add: writer_def)
  show ?case
  proof (cases "length (pipe_bytes ?p) = PIPESIZE")
    case True
    then show ?thesis using write_full[OF Suc.prems(1) True] by (intro exI[of _ ?p]) (simp add: user_bytes_def)
  next
    case False
    then have room: "length (pipe_bytes ?p) < PIPESIZE" using le by simp
    define b where "b = ubyte (mem s) ?pt ?va"
    define t where "t = s\<lparr>pipes := (pipes s)(pi := pipe_put b ?p)\<rparr>"
    note B = write_byte[OF Suc.prems(1,2) room, folded b_def, folded t_def]
    have t: "pipes t pi = pipe_put b ?p" "procs t = procs s" "mem t = mem s" by (simp_all add: t_def)
    have va: "addr + of_nat (Suc i) = ?va + of_nat (Suc 0)" by (simp add: algebra_simps)
    have "readable s ?pt (addr + of_nat (Suc i)) n" unfolding va using readable_tail[OF Suc.prems(2), of "Suc 0"] by simp
    then have "readable t (p_pagetable (procs t pr)) (addr + of_nat (Suc i)) n" by (simp add: readable_def t)
    from Suc.IH[OF B(2) this] obtain P where P:
        "pipe_bytes P = pipe_bytes ?p @ b # user_bytes t ?pt (addr + of_nat (Suc i)) (min n (PIPESIZE - Suc (length (pipe_bytes ?p))))"
        "pi_readopen P = pi_readopen ?p" "pi_writeopen P = pi_writeopen ?p"
        "pipewrite_loop pi pr addr (Suc i) n t =
          (if n \<le> PIPESIZE - Suc (length (pipe_bytes ?p)) then Done (int (Suc i + n)) (wrote pi pr P t) else Swtch (blocked pi pr P t))"
      using pq.put_items[OF room] by (auto simp: t)
    have ub: "b # user_bytes t ?pt (addr + of_nat (Suc i)) k = user_bytes s ?pt ?va (Suc k)" for k
      unfolding user_bytes_def map_upt_Suc by (simp add: b_def t algebra_simps)
    have m: "Suc (min n (PIPESIZE - Suc (length (pipe_bytes ?p)))) = min (Suc n) (PIPESIZE - length (pipe_bytes ?p))" using room by simp
    have "wrote pi pr P t = wrote pi pr P s" "blocked pi pr P t = blocked pi pr P s" by (simp_all add: wrote_def blocked_def t_def)
    moreover have "n \<le> PIPESIZE - Suc (length (pipe_bytes ?p)) \<longleftrightarrow> Suc n \<le> PIPESIZE - length (pipe_bytes ?p)" using room by linarith
    ultimately show ?thesis using P B(1) ub m by (intro exI[of _ P]) (simp del: pipewrite_loop.simps of_nat_Suc)
  qed
qed

text \<open>C18: writing to a pipe. \<open>pipewrite\<close> appends the bytes of the user buffer, in order, to what the pipe holds. When they fit it returns
  their number, with the sleeping readers woken; otherwise exactly as many as fit are appended, the readers are woken and the writer goes to
  sleep until there is room. User memory is unchanged, and the ends of the pipe stay open.\<close>

theorem pipewrite_correct:
  fixes s :: "'a ftst_scheme"
  assumes "cur s = Some pr" "held s = {}" "\<not> p_killed (procs s pr)" "pi_readopen (pipes s pi)"
    and "uvm_inv s (p_pagetable (procs s pr)) xs" "readable s (p_pagetable (procs s pr)) addr n"
    and "length (pipe_bytes (pipes s pi)) \<le> PIPESIZE"
  defines "room \<equiv> PIPESIZE - length (pipe_bytes (pipes s pi))"
  shows "\<exists>P. pipe_bytes P = pipe_bytes (pipes s pi) @ user_bytes s (p_pagetable (procs s pr)) addr (min n room)
    \<and> pi_readopen P \<and> pi_writeopen P = pi_writeopen (pipes s pi)
    \<and> pipewrite pi addr (int n) s = (if n \<le> room then Done (int n) (wrote pi pr P s) else Swtch (blocked pi pr P s))"
proof -
  let ?s = "s\<lparr>held := {PIPE_LOCK pi}\<rparr>"
  have "uvm_inv ?s (p_pagetable (procs s pr)) xs" by (rule uvm_inv_cong[OF assms(5)]) simp_all
  then have w: "writer pi pr xs ?s" using assms(1,3,4,7) by (simp add: writer_def)
  have "readable ?s (p_pagetable (procs ?s pr)) (addr + of_nat 0) n" using assms(6) by (simp add: readable_def)
  from write_loop[OF w this] obtain P where P: "pipe_bytes P = pipe_bytes (pipes s pi) @ user_bytes s (p_pagetable (procs s pr)) addr (min n room)"
      "pi_readopen P" "pi_writeopen P = pi_writeopen (pipes s pi)"
      "pipewrite_loop pi pr addr 0 n ?s = (if n \<le> room then Done (int n) (wrote pi pr P ?s) else Swtch (blocked pi pr P ?s))"
    using assms(4) by (auto simp: room_def user_bytes_def)
  have "wrote pi pr P ?s = wrote pi pr P s" "blocked pi pr P ?s = blocked pi pr P s" by (simp_all add: wrote_def blocked_def)
  then have "pipewrite pi addr (int n) s = (if n \<le> room then Done (int n) (wrote pi pr P s) else Swtch (blocked pi pr P s))"
    using P(4) assms(1,2) by (simp add: pipewrite_def kexec)
  then show ?thesis using P(1-3) by blast
qed

subsection \<open>piperead\<close>

lemma uwritten_pipes:
  fixes s t :: "'a ftst_scheme"
  assumes "uwritten p s t xs va bs"
  shows "uwritten p (s\<lparr>pipes := q\<rparr>) (t\<lparr>pipes := q\<rparr>) xs va bs"
proof -
  obtain m f k where t: "t = s\<lparr>mem := m, freelist := f, free_pages := k\<rparr>" using assms unfolding uwritten_def mem_step_def by auto
  then have "t\<lparr>pipes := q\<rparr> = s\<lparr>pipes := q, mem := m, freelist := f, free_pages := k\<rparr>" by simp
  then have "mem_step (s\<lparr>pipes := q\<rparr>) (t\<lparr>pipes := q\<rparr>)" unfolding mem_step_def by blast
  moreover have i: "uvm_inv t p xs" using assms by (simp add: uwritten_def)
  have "uvm_inv (t\<lparr>pipes := q\<rparr>) p xs"
    by (rule uvm_inv_cong[OF i]) (use pt_invD(5)[OF uvm_invD(1)[OF i]] in simp_all)
  ultimately show ?thesis using assms by (simp add: uwritten_def)
qed

lemma uwritten_frame:
  fixes s t :: "'a ftst_scheme"
  assumes "uwritten p s t xs va bs"
  shows "procs t = procs s" "pipes t = pipes s" "held t = held s" "cur t = cur s" "ftable t = ftable s"
  using assms unfolding uwritten_def mem_step_def by auto

lemma min_take: "take (min n (length xs)) xs = take n xs" "drop (min n (length xs)) xs = drop n xs"
  by (simp_all add: min_def)

lemma read_loop:
  fixes s :: "'a ftst_scheme" and pi :: addr
  assumes "uvm_inv s (p_pagetable (procs s pr)) xs" and "writable s (p_pagetable (procs s pr)) (addr + of_nat i) n"
  defines "k \<equiv> min n (length (pipe_bytes (pipes s pi)))"
  shows "\<exists>u P. piperead_loop pi pr addr i n s = Done (int (i + k)) (u\<lparr>pipes := (pipes s)(pi := P)\<rparr>)
    \<and> uwritten (p_pagetable (procs s pr)) s u xs (addr + of_nat i) (take k (pipe_bytes (pipes s pi)))
    \<and> pipe_bytes P = drop k (pipe_bytes (pipes s pi)) \<and> pi_readopen P = pi_readopen (pipes s pi) \<and> pi_writeopen P = pi_writeopen (pipes s pi)"
  using assms(1,2) unfolding k_def
proof (induction n arbitrary: i s)
  case 0
  then show ?case by (intro exI[of _ s] exI[of _ "pipes s pi"]) (simp add: kexec uwritten_def)
next
  case (Suc n)
  let ?p = "pipes s pi" and ?pt = "p_pagetable (procs s pr)" and ?va = "addr + of_nat i"
  show ?case
  proof (cases "pipe_bytes ?p = []")
    case True
    then show ?thesis using pipe_empty[of ?p] Suc.prems by (intro exI[of _ s] exI[of _ ?p]) (simp add: kexec uwritten_def)
  next
    case False
    define ch where "ch = fst (pipe_get ?p)" define q where "q = snd (pipe_get ?p)"
    have cs: "pipe_bytes ?p = ch # pipe_bytes q" using pq.get_items[OF False] by (simp add: ch_def q_def)
    let ?s = "s\<lparr>pipes := (pipes s)(pi := q)\<rparr>"
    have inv: "uvm_inv ?s ?pt xs" by (rule uvm_inv_cong[OF Suc.prems(1)]) (use pt_invD(5)[OF uvm_invD(1)[OF Suc.prems(1)]] in simp_all)
    have fit: "unat ?va + Suc n \<le> unat TRAPFRAME" using Suc.prems(2) by (simp add: writable_def readable_def)
    have "writable ?s ?pt ?va (length [ch])" using Suc.prems(2) by (auto simp: writable_def readable_def)
    then obtain v where v: "copyout ?pt ?va [ch] ?s = Done 0 v" "uwritten ?pt ?s v xs ?va [ch]" using copyout_bytes[OF inv] by blast
    note F = uwritten_frame[OF v(2)]
    have va: "addr + of_nat (Suc i) = ?va + of_nat (Suc 0)" by (simp add: algebra_simps)
    have iv: "uvm_inv v ?pt xs" using v(2) by (simp add: uwritten_def)
    have "writable s ?pt (addr + of_nat (Suc i)) n" unfolding va using writable_tail[OF Suc.prems(2), of "Suc 0"] by simp
    then have "writable ?s ?pt (addr + of_nat (Suc i)) n" by (simp add: writable_def readable_def)
    then have "writable v ?pt (addr + of_nat (Suc i)) n" by (simp only: uwritten_writable(1)[OF v(2)])
    then have w: "writable v (p_pagetable (procs v pr)) (addr + of_nat (Suc i)) n" "uvm_inv v (p_pagetable (procs v pr)) xs" using F(1) iv by simp_all
    have vq: "pipes v pi = q" by (simp add: F(2))
    have pv: "p_pagetable (procs v pr) = ?pt" by (simp add: F(1))
    from Suc.IH[OF w(2,1), unfolded vq pv min_take] obtain u P where u:
        "piperead_loop pi pr addr (Suc i) n v = Done (int (Suc i + min n (length (pipe_bytes q)))) (u\<lparr>pipes := (pipes v)(pi := P)\<rparr>)"
        "uwritten ?pt v u xs (addr + of_nat (Suc i)) (take n (pipe_bytes q))"
        "pipe_bytes P = drop n (pipe_bytes q)" "pi_readopen P = pi_readopen q" "pi_writeopen P = pi_writeopen q"
      by blast
    have "uwritten ?pt s (v\<lparr>pipes := pipes s\<rparr>) xs ?va [ch]" using uwritten_pipes[OF v(2), of "pipes s"] by simp
    moreover have "uwritten ?pt (v\<lparr>pipes := pipes s\<rparr>) (u\<lparr>pipes := pipes s\<rparr>) xs (?va + of_nat (length [ch])) (take n (pipe_bytes q))"
      using uwritten_pipes[OF u(2), of "pipes s"] unfolding va by simp
    ultimately have "uwritten ?pt s (u\<lparr>pipes := pipes s\<rparr>) xs ?va ([ch] @ take n (pipe_bytes q))"
      by (rule uwritten_append) (use fit in simp)
    then have w': "uwritten ?pt s (u\<lparr>pipes := pipes s\<rparr>) xs ?va (take (Suc n) (pipe_bytes ?p))" by (simp add: cs)
    have "piperead_loop pi pr addr i (Suc n) s = piperead_loop pi pr addr (Suc i) n v"
      using pipe_empty[of ?p] False v(1) by (simp add: kexec set_pipe_def q_def ch_def pipe_get_def)
    moreover have "(pipes v)(pi := P) = (pipes s)(pi := P)" by (simp add: F(2))
    moreover have "Suc i + min n (length (pipe_bytes q)) = i + min (Suc n) (length (pipe_bytes ?p))" unfolding cs by simp
    ultimately have e: "piperead_loop pi pr addr i (Suc n) s
        = Done (int (i + min (Suc n) (length (pipe_bytes ?p)))) (u\<lparr>pipes := pipes s\<rparr>\<lparr>pipes := (pipes s)(pi := P)\<rparr>)"
      using u(1) by (simp only:) simp
    have "pi_readopen P = pi_readopen ?p" "pi_writeopen P = pi_writeopen ?p" unfolding u(4,5) by (simp_all add: q_def pipe_get_def)
    moreover have "pipe_bytes P = drop (Suc n) (pipe_bytes ?p)" unfolding u(3) cs by simp
    ultimately show ?thesis using e w' unfolding min_take by blast
  qed
qed

text \<open>C19: reading from a pipe. When the pipe is empty and has a writer, the reader goes to sleep with nothing changed. Otherwise \<open>piperead\<close>
  takes the oldest bytes of the pipe, as many as there are and at most \<open>n\<close>, stores them in order at \<open>addr\<close> in user memory and nowhere else, leaves the
  rest in the pipe, wakes the sleeping writers and returns the number of bytes.\<close>

theorem piperead_correct:
  fixes s :: "'a ftst_scheme" and pi :: addr
  assumes "cur s = Some pr" "held s = {}" "\<not> p_killed (procs s pr)"
    and "uvm_inv s (p_pagetable (procs s pr)) xs" "writable s (p_pagetable (procs s pr)) addr n"
  defines "bs \<equiv> pipe_bytes (pipes s pi)"
  shows "if bs = [] \<and> pi_writeopen (pipes s pi)
    then piperead pi addr (int n) s = Swtch (s\<lparr>held := {PROC_LOCK pr}, procs := (procs s)(pr := sleep_mark (ChNread pi) (procs s pr))\<rparr>)
    else \<exists>u P. piperead pi addr (int n) s
          = Done (int (min n (length bs))) (u\<lparr>pipes := (pipes s)(pi := P), procs := wakes (Some pr) (ChNwrite pi) (procs s)\<rparr>)
        \<and> uwritten (p_pagetable (procs s pr)) s u xs addr (take n bs) \<and> pipe_bytes P = drop n bs
        \<and> pi_readopen P = pi_readopen (pipes s pi) \<and> pi_writeopen P = pi_writeopen (pipes s pi)"
proof (cases "bs = [] \<and> pi_writeopen (pipes s pi)")
  case True
  let ?s = "s\<lparr>held := {PIPE_LOCK pi}\<rparr>"
  have "sleep (ChNread pi) (PIPE_LOCK pi) ?s = Swtch (s\<lparr>held := {PROC_LOCK pr}, procs := (procs s)(pr := sleep_mark (ChNread pi) (procs s pr))\<rparr>)"
    using sleep_exec[of ?s pr "PIPE_LOCK pi" "ChNread pi"] assms(1) by simp
  then show ?thesis using True assms(1-3) pipe_empty[of "pipes s pi"] by (simp add: piperead_def kexec bs_def)
next
  case False
  let ?s = "s\<lparr>held := {PIPE_LOCK pi}\<rparr>" and ?pt = "p_pagetable (procs s pr)"
  have inv: "uvm_inv ?s ?pt xs" by (rule uvm_inv_cong[OF assms(4)]) simp_all
  have wr: "writable ?s ?pt addr n = writable s ?pt addr n" by (simp add: writable_def readable_def)
  have s: "pipes ?s = pipes s" "procs ?s = procs s" "addr + of_nat 0 = addr" "0 + k = k" for k :: nat by simp_all
  from read_loop[of ?s pr xs addr 0 n pi, unfolded s min_take, OF inv assms(5)[folded wr]] obtain u P where u:
      "piperead_loop pi pr addr 0 n ?s = Done (int (min n (length bs))) (u\<lparr>pipes := (pipes s)(pi := P)\<rparr>)"
      "uwritten ?pt ?s u xs addr (take n bs)" "pipe_bytes P = drop n bs"
      "pi_readopen P = pi_readopen (pipes s pi)" "pi_writeopen P = pi_writeopen (pipes s pi)"
    unfolding bs_def by blast
  note F = uwritten_frame[OF u(2)]
  obtain m f k where m: "u = ?s\<lparr>mem := m, freelist := f, free_pages := k\<rparr>" using u(2) unfolding uwritten_def mem_step_def by auto
  have "uwritten ?pt s (u\<lparr>held := {}\<rparr>) xs addr (take n bs)"
  proof -
    have "u\<lparr>held := {}\<rparr> = s\<lparr>mem := m, freelist := f, free_pages := k\<rparr>" using assms(2) by (simp add: m)
    then have "mem_step s (u\<lparr>held := {}\<rparr>)" unfolding mem_step_def by blast
    moreover have "uvm_inv u ?pt xs" using u(2) by (simp add: uwritten_def)
    then have "uvm_inv (u\<lparr>held := {}\<rparr>) ?pt xs" by (rule uvm_inv_cong) simp_all
    ultimately show ?thesis using u(2) by (simp add: uwritten_def)
  qed
  moreover have "piperead pi addr (int n) s
      = Done (int (min n (length bs))) (u\<lparr>held := {}, pipes := (pipes s)(pi := P), procs := wakes (Some pr) (ChNwrite pi) (procs s)\<rparr>)"
    using False assms(1-3) pipe_empty[of "pipes s pi"] u(1) F by (auto simp: piperead_def kexec bs_def)
  ultimately show ?thesis using False u(3-5) by (simp only: if_False) blast
qed

subsection \<open>uartputc\<close>

text \<open>What the device has been given, followed by what waits in the buffer.\<close>

definition uart_stream :: "'a dvst_scheme \<Rightarrow> string" where
  "uart_stream s = conout s @ map (\<lambda>c. char_of (unat c)) (uart_queue s)"

lemma uart_full: "uart_tx_w s = uart_tx_r s + of_nat UART_TX_BUF_SIZE \<longleftrightarrow> length (uart_queue s) = UART_TX_BUF_SIZE"
  unfolding uart_queue_def length_ring by (rule ring_full) (simp add: UART_TX_BUF_SIZE_def)

lemma uart_empty: "uart_tx_w s = uart_tx_r s \<longleftrightarrow> uart_queue s = []"
  by (auto simp: uart_queue_def ring_Nil_iff)

lemma uart_queue_upd [simp]:
  "uart_queue (s\<lparr>procs := P\<rparr>) = uart_queue s" "uart_queue (s\<lparr>conout := x\<rparr>) = uart_queue s"
  "uart_queue (s\<lparr>uart_room := n\<rparr>) = uart_queue s" "uart_queue (s\<lparr>held := H\<rparr>) = uart_queue s"
  by (simp_all add: uart_queue_def)

lemma uartstart_stream:
  fixes s :: "'a dvst_scheme"
  assumes "\<forall>i<NPROC. PROC_LOCK i \<notin> held s" and "length (uart_queue s) \<le> n"
  shows "\<exists>t. uartstart_loop n s = Done () t \<and> uart_stream t = uart_stream s \<and> held t = held s \<and> cur t = cur s
    \<and> length (uart_queue t) = length (uart_queue s) - uart_room s \<and> uart_room t = uart_room s - length (uart_queue s)"
  using assms
proof (induction n arbitrary: s)
  case (Suc n)
  show ?case
  proof (cases "uart_queue s = [] \<or> uart_room s = 0")
    case True
    then show ?thesis using uart_empty[of s] by (intro exI[of _ s]) (auto simp: kexec)
  next
    case False
    define c where "c = fst (uart_get s)" define u where "u = snd (uart_get s)"
    have q: "uart_queue s = c # uart_queue u" using uq.get_items[of s] False by (simp add: c_def u_def)
    let ?v = "u\<lparr>procs := wakes (cur s) ChUartR (procs s), conout := conout s @ [char_of (unat c)], uart_room := uart_room s - 1\<rparr>"
    have f: "held u = held s" "cur u = cur s" "procs u = procs s" "conout u = conout s" "uart_room u = uart_room s" by (simp_all add: u_def uart_get_def)
    have "uartstart_loop (Suc n) s = uartstart_loop n ?v"
      using uart_empty[of s] False Suc.prems(1) by (simp add: kexec c_def u_def uart_get_def)
    moreover have "uart_stream ?v = uart_stream s" by (simp add: uart_stream_def q f)
    moreover have "\<exists>t. uartstart_loop n ?v = Done () t \<and> uart_stream t = uart_stream ?v \<and> held t = held ?v \<and> cur t = cur ?v
      \<and> length (uart_queue t) = length (uart_queue ?v) - uart_room ?v \<and> uart_room t = uart_room ?v - length (uart_queue ?v)"
      by (rule Suc.IH) (use Suc.prems q f in simp_all)
    moreover have "length (uart_queue u) - (uart_room s - 1) = length (uart_queue s) - uart_room s" using q False by auto
    ultimately show ?thesis using q f by (auto simp del: uartstart_loop.simps)
  qed
qed (auto simp: kexec)

text \<open>Output through the UART buffer. When the buffer is full the writer goes to sleep with nothing changed. Otherwise the byte is
  queued behind everything handed to the driver before and nothing is lost or reordered; the driver then sends as much as the device takes,
  so that the buffer is empty or the device busy, and the buffer never overflows.\<close>

theorem uartputc_stream:
  fixes s :: "'a dvst_scheme"
  assumes "cur s = Some p" "held s = {}" and "length (uart_queue s) \<le> UART_TX_BUF_SIZE"
  shows "if length (uart_queue s) = UART_TX_BUF_SIZE
    then uartputc c s = Swtch (s\<lparr>held := {PROC_LOCK p}, procs := (procs s)(p := sleep_mark ChUartR (procs s p))\<rparr>)
    else \<exists>t. uartputc c s = Done () t \<and> uart_stream t = uart_stream s @ [char_of (unat c)] \<and> held t = {}
      \<and> (uart_queue t = [] \<or> uart_room t = 0) \<and> length (uart_queue t) \<le> UART_TX_BUF_SIZE"
proof (cases "length (uart_queue s) = UART_TX_BUF_SIZE")
  case True
  let ?s = "s\<lparr>held := {UART_TX_LOCK}\<rparr>"
  have "sleep ChUartR UART_TX_LOCK ?s = Swtch (s\<lparr>held := {PROC_LOCK p}, procs := (procs s)(p := sleep_mark ChUartR (procs s p))\<rparr>)"
    using sleep_exec[of ?s p UART_TX_LOCK ChUartR] assms(1) by simp
  then show ?thesis using True assms(2) uart_full[of s] by (simp add: uartputc_def kexec)
next
  case False
  let ?s = "uart_put c (s\<lparr>held := {UART_TX_LOCK}\<rparr>)"
  have lt: "length (uart_queue (s\<lparr>held := {UART_TX_LOCK}\<rparr>)) < UART_TX_BUF_SIZE" using False assms(3) by simp
  note q = uq.put_items[OF lt, of c]
  have f: "held ?s = {UART_TX_LOCK}" "conout ?s = conout s" by (simp_all add: uart_put_def)
  have n: "unat (uart_tx_w ?s - uart_tx_r ?s) = length (uart_queue ?s)" by (simp add: uart_queue_def)
  obtain t where t: "uartstart_loop (length (uart_queue ?s)) ?s = Done () t" "uart_stream t = uart_stream ?s" "held t = {UART_TX_LOCK}"
      "length (uart_queue t) = length (uart_queue ?s) - uart_room ?s" "uart_room t = uart_room ?s - length (uart_queue ?s)"
    using uartstart_stream[of ?s "length (uart_queue ?s)"] f(1) by auto
  let ?u = "t\<lparr>held := {}\<rparr>"
  have "uartputc c s = Done () ?u"
    using t(1,3) False assms(2) uart_full[of s] n by (simp add: uartputc_def kexec uartstart_def uart_put_def)
  moreover have "uart_stream ?u = uart_stream s @ [char_of (unat c)]" using t(2) q f(2) by (simp add: uart_stream_def)
  moreover have "uart_queue ?u = [] \<or> uart_room ?u = 0" using t(4,5) by (cases "uart_room ?s \<le> length (uart_queue ?s)") auto
  moreover have "length (uart_queue ?u) \<le> UART_TX_BUF_SIZE" using t(4) q lt by simp
  ultimately show ?thesis using False by auto
qed

theorem uartputc_stream_witness:
  "\<exists>t. uartputc 65 boot_kos = Done () t \<and> uart_stream t = uart_stream boot_kos @ ''A'' \<and> held t = {}"
proof -
  have "uart_queue boot_kos = []" by (simp add: uart_queue_def boot_kos_defs)
  moreover have "char_of (65 :: nat) = CHR ''A''" by code_simp
  ultimately show ?thesis using uartputc_stream[of boot_kos 0 65] by (auto simp: UART_TX_BUF_SIZE_def)
qed

subsection \<open>Examples\<close>

lemma page0_addr: "n \<le> 4096 \<Longrightarrow> i < n \<Longrightarrow> PGROUNDDOWN (of_nat i) = 0"
  using in_chunk(1)[of i 0] by (simp add: PGROUNDDOWN_id)

lemma ex_mapped:
  "\<exists>(t :: kos) ys. mem_step ex_heap t \<and> uvm_inv t 0x87FFF000 ys \<and> writable t 0x87FFF000 0 3 \<and> user_bytes t 0x87FFF000 0 3 = [0, 0, 0]"
proof -
  have "\<not> pvalid (lookup 2 (mem ex_heap) 0x87FFF000 0)" by (simp add: ex_heap_def ex_vm_empty)
  moreover have "3 \<le> length ex_free" by (simp add: ex_free_def)
  ultimately obtain t ys where t: "mem_step ex_heap t" "uvm_inv t 0x87FFF000 ys" "heap_page t 0x87FFF000 0"
    using lazy_alloc_fresh[OF ex_heap_inv, of 0] by (auto simp: TRAPFRAME_eq)
  have b: "ubyte (mem t) 0x87FFF000 (of_nat i) = 0 \<and> PTE_FLAGS (lookup 2 (mem t) 0x87FFF000 (of_nat i)) = 0x17" if "i < 3" for i
  proof -
    have "(of_nat i :: uint64) < TRAPFRAME" using that by (simp add: word_less_nat_alt unat_of_nat TRAPFRAME_eq)
    then show ?thesis using t(3) page0_addr[of 3 i] that by (simp add: heap_page_def PGROUNDDOWN_id)
  qed
  have "writable t 0x87FFF000 0 3" using b flags_0x17 by (simp add: writable_def readable_def Let_def TRAPFRAME_eq)
  moreover have "user_bytes t 0x87FFF000 0 3 = [0, 0, 0]"
    using b[of 0] b[of 1] b[of 2] by (simp add: user_bytes_def numeral_3_eq_3 numeral_2_eq_2)
  ultimately show ?thesis using t by blast
qed

definition ex_pipe :: pipe where
  "ex_pipe = zero_pipe\<lparr>pi_data := (\<lambda>i. if i = 511 then 7 else 8), pi_nread := 511, pi_nwrite := 513, pi_readopen := True, pi_writeopen := True\<rparr>"

lemma ex_pipe_open [simp]: "pi_readopen ex_pipe" "pi_writeopen ex_pipe"
  by (simp_all add: ex_pipe_def)

lemma ex_pipe_bytes: "pipe_bytes ex_pipe = [7, 8]"
proof -
  have "[0..<2] = [0, Suc 0]" by (simp add: upt_rec)
  then show ?thesis by (simp add: pipe_bytes_def ring_def ex_pipe_def PIPESIZE_def)
qed

lemma ex_pipe_state:
  "\<exists>(t :: kos) ys. cur t = Some 0 \<and> held t = {} \<and> \<not> p_killed (procs t 0) \<and> p_pagetable (procs t 0) = 0x87FFF000
    \<and> uvm_inv t 0x87FFF000 ys \<and> writable t 0x87FFF000 0 3 \<and> user_bytes t 0x87FFF000 0 3 = [0, 0, 0] \<and> pipes t = (\<lambda>_. ex_pipe)"
proof -
  obtain t :: kos and ys where t: "mem_step ex_heap t" "uvm_inv t 0x87FFF000 ys" "writable t 0x87FFF000 0 3" "user_bytes t 0x87FFF000 0 3 = [0, 0, 0]"
    using ex_mapped by blast
  have f: "cur t = Some 0" "held t = {}" "\<not> p_killed (procs t 0)" "p_pagetable (procs t 0) = 0x87FFF000"
    using t(1) unfolding mem_step_def by (auto simp: ex_heap_def zero_proc_def)
  let ?t = "t\<lparr>pipes := \<lambda>_. ex_pipe\<rparr>"
  have "uvm_inv ?t 0x87FFF000 ys" by (rule uvm_inv_cong[OF t(2)]) (simp_all add: f)
  then show ?thesis using t(3,4) f by (intro exI[of _ ?t] exI[of _ ys]) (simp add: writable_def readable_def user_bytes_def)
qed

theorem pipewrite_correct_witness:
  "\<exists>(s :: kos) t. pipewrite 0x87000000 0 3 s = Done 3 t \<and> pipe_bytes (pipes t 0x87000000) = [7, 8, 0, 0, 0]"
proof -
  obtain s :: kos and ys where s: "cur s = Some 0" "held s = {}" "\<not> p_killed (procs s 0)" "p_pagetable (procs s 0) = 0x87FFF000"
      "uvm_inv s 0x87FFF000 ys" "writable s 0x87FFF000 0 3" "user_bytes s 0x87FFF000 0 3 = [0, 0, 0]" "pipes s = (\<lambda>_. ex_pipe)"
    using ex_pipe_state by blast
  have r: "pi_readopen (pipes s 0x87000000)" "readable s 0x87FFF000 0 3" "length (pipe_bytes (pipes s 0x87000000)) \<le> PIPESIZE"
    using s(6) by (simp_all add: s(8) ex_pipe_bytes PIPESIZE_def writable_def)
  from pipewrite_correct[OF s(1-3) r(1) _ _ r(3), of ys 0 3, unfolded s(4), OF s(5) r(2)]
  obtain P where P: "pipe_bytes P = [7, 8, 0, 0, 0]" "pipewrite 0x87000000 0 3 s = Done 3 (wrote 0x87000000 0 P s)"
    by (auto simp: s(7,8) ex_pipe_bytes PIPESIZE_def)
  then show ?thesis by (intro exI[of _ s] exI[of _ "wrote 0x87000000 0 P s"]) (simp add: wrote_def)
qed

theorem piperead_correct_witness:
  "\<exists>(s :: kos) t. piperead 0x87000000 0 3 s = Done 2 t \<and> pipe_bytes (pipes t 0x87000000) = [] \<and> user_bytes t 0x87FFF000 0 2 = [7, 8]"
proof -
  obtain s :: kos and ys where s: "cur s = Some 0" "held s = {}" "\<not> p_killed (procs s 0)" "p_pagetable (procs s 0) = 0x87FFF000"
      "uvm_inv s 0x87FFF000 ys" "writable s 0x87FFF000 0 3" "user_bytes s 0x87FFF000 0 3 = [0, 0, 0]" "pipes s = (\<lambda>_. ex_pipe)"
    using ex_pipe_state by blast
  from piperead_correct[OF s(1-3), of ys 0 3 "0x87000000", unfolded s(4), OF s(5,6)]
  obtain u P where u: "piperead 0x87000000 0 3 s
        = Done 2 (u\<lparr>pipes := (pipes s)(0x87000000 := P), procs := wakes (Some 0) (ChNwrite 0x87000000) (procs s)\<rparr>)"
      "uwritten 0x87FFF000 s u ys 0 [7, 8]" "pipe_bytes P = []"
    by (auto simp: s(8) ex_pipe_bytes)
  have v: "\<forall>i<3. pvalid (lookup 2 (mem s) 0x87FFF000 (of_nat i))" using s(6) by (auto simp: writable_def readable_def Let_def)
  have "ubyte (mem u) 0x87FFF000 (of_nat i) = [7, 8] ! i" if "i < 2" for i
  proof -
    have "(of_nat i :: uint64) < TRAPFRAME" "unat (of_nat i :: uint64) = i"
      using that by (simp_all add: word_less_nat_alt unat_of_nat TRAPFRAME_eq)
    then show ?thesis using u(2) v that by (simp add: uwritten_def)
  qed
  from this[of 0] this[of 1] have "user_bytes u 0x87FFF000 0 2 = [7, 8]" by (simp add: user_bytes_def numeral_2_eq_2)
  then show ?thesis using u(1,3) by (intro exI[of _ s] exI) (auto simp: user_bytes_def)
qed

end
