(* ===== verification/Virtiospec.thy ===== *)
theory Virtiospec
  imports Bootstate Procexec
begin

text \<open>
  The disk driver implements the completed transfer that the buffer cache relies on: a request that is submitted,
  served by the device and reported by an interrupt has the effect of \<open>virtio_disk_rw\<close> and gives back its descriptors.

  The device is a parameter. \<open>virtio_device\<close> states what the virtio specification promises of it: it follows the chain of three descriptors
  at the head of the avail ring, moves the data between the buffer and the disk, writes the status and adds the chain to the used ring.
\<close>

unbundle bit_operations_syntax

subsection \<open>The device\<close>

definition req_chain :: "'a vdst_scheme \<Rightarrow> nat \<Rightarrow> nat \<Rightarrow> nat \<Rightarrow> bool" where
  "req_chain s h j b \<longleftrightarrow> (let k = unat (vq_next (vd_desc s j)) in
     vq_addr (vd_desc s h) = VReq h \<and> vq_flags (vd_desc s h) = VRING_DESC_F_NEXT \<and> vq_next (vd_desc s h) = of_nat j
     \<and> vq_addr (vd_desc s j) = VData b \<and> vq_len (vd_desc s j) = of_nat BSIZE
     \<and> vq_flags (vd_desc s j) = (if vr_type (vd_ops s h) = VIRTIO_BLK_T_OUT then 0 else VRING_DESC_F_WRITE) OR VRING_DESC_F_NEXT
     \<and> vq_addr (vd_desc s k) = VStatus h \<and> vq_flags (vd_desc s k) = VRING_DESC_F_WRITE)"

definition served :: "nat \<Rightarrow> nat \<Rightarrow> 'a vdst_scheme \<Rightarrow> 'a vdst_scheme" where
  "served h b s =
     (let n = unat (vr_sector (vd_ops s h)) div 2;
          s1 = (if vr_type (vd_ops s h) = VIRTIO_BLK_T_OUT
                then s\<lparr>disk := (disk s)(n := b_data (bufs s b)), wtrace := wtrace s @ [(n, b_data (bufs s b))]\<rparr>
                else s\<lparr>bufs := (bufs s)(b := (bufs s b)\<lparr>b_data := disk s n\<rparr>)\<rparr>)
      in s1\<lparr>vd_info_status := (vd_info_status s)(h := 0),
            vd_used_ring := (vd_used_ring s)(unat (vd_used_idx s) mod NUM := of_nat h), vd_used_idx := vd_used_idx s + 1\<rparr>)"

lemma served_effect:
  "bufs (served h b s) = (if vr_type (vd_ops s h) = VIRTIO_BLK_T_OUT then bufs s
     else (bufs s)(b := (bufs s b)\<lparr>b_data := disk s (unat (vr_sector (vd_ops s h)) div 2)\<rparr>))"
  "disk (served h b s) = (if vr_type (vd_ops s h) = VIRTIO_BLK_T_OUT
     then (disk s)(unat (vr_sector (vd_ops s h)) div 2 := b_data (bufs s b)) else disk s)"
  "wtrace (served h b s) = (if vr_type (vd_ops s h) = VIRTIO_BLK_T_OUT
     then wtrace s @ [(unat (vr_sector (vd_ops s h)) div 2, b_data (bufs s b))] else wtrace s)"
  by (simp_all add: served_def Let_def)

definition virtio_device :: "('a vdst_scheme \<Rightarrow> 'a vdst_scheme) \<Rightarrow> bool" where
  "virtio_device dev \<longleftrightarrow> (\<forall>s h j b. vd_avail_idx s = vd_used_idx s + 1 \<longrightarrow> vd_avail_ring s (unat (vd_used_idx s) mod NUM) = of_nat h
     \<longrightarrow> h < NUM \<longrightarrow> j < NUM \<longrightarrow> req_chain s h j b \<longrightarrow> dev s = served h b s)"

subsection \<open>Descriptors\<close>

definition free_descs :: "'a vdst_scheme \<Rightarrow> nat set" where
  "free_descs s = {i. i < NUM \<and> vd_free s i}"

lemma finite_free_descs [simp]: "finite (free_descs s)"
  by (simp add: free_descs_def)

lemma alloc_desc_spec:
  assumes "free_descs s \<noteq> {}"
  shows "\<exists>i\<in>free_descs s. alloc_desc s = Done (Some i) (s\<lparr>vd_free := (vd_free s)(i := False)\<rparr>)"
proof -
  obtain x where "x \<in> free_descs s" using assms by blast
  then have "List.find (vd_free s) [0..<NUM] \<noteq> None" by (auto simp: find_None_iff free_descs_def)
  then obtain i where i: "List.find (vd_free s) [0..<NUM] = Some i" by blast
  then have "i \<in> free_descs s" by (auto simp: find_Some_iff free_descs_def)
  then show ?thesis using i by (intro bexI[of _ i]) (simp_all add: alloc_desc_def kexec)
qed

lemma free_descs_take: "free_descs (s\<lparr>vd_free := (vd_free s)(i := False)\<rparr>) = free_descs s - {i}"
  by (auto simp: free_descs_def)

lemma alloc3_desc_spec:
  assumes "3 \<le> card (free_descs s)"
  shows "\<exists>i j k. distinct [i, j, k] \<and> {i, j, k} \<subseteq> free_descs s
    \<and> alloc3_desc s = Done (Some (i, j, k)) (s\<lparr>vd_free := (vd_free s)(i := False, j := False, k := False)\<rparr>)"
proof -
  have ne: "A \<noteq> {}" if "0 < card A" for A :: "nat set" using that by auto
  obtain i where i: "i \<in> free_descs s" "alloc_desc s = Done (Some i) (s\<lparr>vd_free := (vd_free s)(i := False)\<rparr>)"
    using alloc_desc_spec[of s] assms ne by force
  let ?s1 = "s\<lparr>vd_free := (vd_free s)(i := False)\<rparr>"
  have c1: "2 \<le> card (free_descs ?s1)" using assms i(1) by (simp add: free_descs_take card_Diff_singleton)
  obtain j where j: "j \<in> free_descs ?s1" "alloc_desc ?s1 = Done (Some j) (?s1\<lparr>vd_free := (vd_free ?s1)(j := False)\<rparr>)"
    using alloc_desc_spec[of ?s1] c1 ne by force
  let ?s2 = "?s1\<lparr>vd_free := (vd_free ?s1)(j := False)\<rparr>"
  have c2: "1 \<le> card (free_descs ?s2)" using c1 j(1) unfolding free_descs_take[of ?s1 j] by (simp add: card_Diff_singleton)
  obtain k where k: "k \<in> free_descs ?s2" "alloc_desc ?s2 = Done (Some k) (?s2\<lparr>vd_free := (vd_free ?s2)(k := False)\<rparr>)"
    using alloc_desc_spec[of ?s2] c2 ne by force
  have "j \<in> free_descs s - {i}" "k \<in> free_descs s - {i} - {j}" using j(1) k(1) unfolding free_descs_take by simp_all
  then show ?thesis using i j(2) k(2) by (intro exI[of _ i] exI[of _ j] exI[of _ k]) (auto simp: alloc3_desc_def kexec)
qed

lemma free_desc_exec:
  assumes "i < NUM" and "\<not> vd_free s i" and "\<forall>i<NPROC. PROC_LOCK i \<notin> held s"
  shows "free_desc i s = Done () (s\<lparr>vd_desc := (vd_desc s)(i := zero_desc), vd_free := (vd_free s)(i := True),
    procs := wakes (cur s) ChDiskFree (procs s)\<rparr>)"
  using assms by (simp add: free_desc_def kexec)

lemma wakes_idem: "wakes me ch (wakes me ch P) = wakes me ch P"
  by (rule ext) (simp add: wakes_def woken_def)

subsection \<open>Submitting a request\<close>

definition filled :: "nat \<Rightarrow> bool \<Rightarrow> nat \<Rightarrow> nat \<Rightarrow> nat \<Rightarrow> 'a vdst_scheme \<Rightarrow> 'a vdst_scheme" where
  "filled b wr i j k s = s\<lparr>held := {VDISK_LOCK}, vd_free := (vd_free s)(i := False, j := False, k := False),
     vd_ops := (vd_ops s)(i := \<lparr>vr_type = if wr then VIRTIO_BLK_T_OUT else VIRTIO_BLK_T_IN, vr_reserved = 0,
       vr_sector = ucast (b_blockno (bufs s b) * of_nat (BSIZE div 512))\<rparr>),
     vd_desc := (vd_desc s)(i := \<lparr>vq_addr = VReq i, vq_len = 16, vq_flags = VRING_DESC_F_NEXT, vq_next = of_nat j\<rparr>,
       j := \<lparr>vq_addr = VData b, vq_len = of_nat BSIZE, vq_flags = (if wr then 0 else VRING_DESC_F_WRITE) OR VRING_DESC_F_NEXT, vq_next = of_nat k\<rparr>,
       k := \<lparr>vq_addr = VStatus i, vq_len = 1, vq_flags = VRING_DESC_F_WRITE, vq_next = 0\<rparr>),
     vd_info_status := (vd_info_status s)(i := 0xff), bufs := (bufs s)(b := (bufs s b)\<lparr>b_disk := True\<rparr>),
     vd_info_b := (vd_info_b s)(i := Some b), vd_avail_ring := (vd_avail_ring s)(unat (vd_avail_idx s) mod NUM := of_nat i),
     vd_avail_idx := vd_avail_idx s + 1, vd_writes := vd_writes s @ [(0x050, 0)]\<rparr>"

lemma submit_exec:
  assumes "held s = {}" and "3 \<le> card (free_descs s)"
  shows "\<exists>i j k. distinct [i, j, k] \<and> {i, j, k} \<subseteq> free_descs s \<and> virtio_disk_submit b wr s = Done i (filled b wr i j k s)"
proof -
  have c: "3 \<le> card (free_descs (s\<lparr>held := {VDISK_LOCK}\<rparr>))" using assms(2) by (simp add: free_descs_def)
  obtain i j k where d: "distinct [i, j, k]" "{i, j, k} \<subseteq> free_descs s"
      "alloc3_desc (s\<lparr>held := {VDISK_LOCK}\<rparr>)
        = Done (Some (i, j, k)) (s\<lparr>held := {VDISK_LOCK}, vd_free := (vd_free s)(i := False, j := False, k := False)\<rparr>)"
    using alloc3_desc_spec[OF c] by (auto simp: free_descs_def)
  have "virtio_disk_submit b wr s = Done i (filled b wr i j k s)"
    using assms(1) d(3) by (simp add: virtio_disk_submit_def virtio_fill_def set_desc_def set_buf_def R_write_def kexec filled_def)
  then show ?thesis using d(1,2) by blast
qed

lemma filled_chain:
  assumes "distinct [i, j, k]" and "{i, j, k} \<subseteq> free_descs s"
  shows "req_chain (filled b wr i j k s) i j b"
proof -
  have "unat (of_nat k :: ushort) = k" using assms(2) by (simp add: free_descs_def NUM_def unat_of_nat)
  then show ?thesis using assms(1) by (simp add: req_chain_def filled_def VIRTIO_BLK_T_OUT_def VIRTIO_BLK_T_IN_def)
qed

subsection \<open>The interrupt\<close>

text \<open>One completed request: the buffer is no longer owned by the device and the process that waits for it is woken.\<close>

lemma intr_one:
  assumes "held s = {}" and "vd_used_idx s = vd_seen s + 1" and "vd_used_ring s (unat (vd_seen s) mod NUM) = of_nat i" "i < NUM"
    and "vd_info_status s i = 0" "vd_info_b s i = Some b"
  shows "virtio_disk_intr s = Done () (s\<lparr>vd_writes := vd_writes s @ [(0x064, vd_read s (vd_writes s) 0x060 AND 3)],
    bufs := (bufs s)(b := (bufs s b)\<lparr>b_disk := False\<rparr>), procs := wakes (cur s) (ChBuf b) (procs s), vd_seen := vd_used_idx s\<rparr>)"
proof -
  have "unat (of_nat i :: uint) = i" using assms(4) by (simp add: unat_of_nat NUM_def)
  moreover have "unat (vd_seen s + 1 - vd_seen s) = Suc 0" by simp
  ultimately show ?thesis using assms by (simp add: virtio_disk_intr_def R_read_def R_write_def set_buf_def kexec)
qed

subsection \<open>Giving the descriptors back\<close>

lemma finish_exec:
  assumes h: "held s = {VDISK_LOCK}" and d: "distinct [i, j, k]" "i < NUM" "j < NUM" "k < NUM"
    and f: "\<not> vd_free s i" "\<not> vd_free s j" "\<not> vd_free s k"
    and c: "vq_flags (vd_desc s i) AND VRING_DESC_F_NEXT \<noteq> 0" "vq_next (vd_desc s i) = of_nat j"
      "vq_flags (vd_desc s j) AND VRING_DESC_F_NEXT \<noteq> 0" "vq_next (vd_desc s j) = of_nat k"
      "vq_flags (vd_desc s k) AND VRING_DESC_F_NEXT = 0"
  shows "virtio_disk_finish i s = Done () (s\<lparr>held := {}, vd_info_b := (vd_info_b s)(i := None),
    vd_desc := (vd_desc s)(i := zero_desc, j := zero_desc, k := zero_desc), vd_free := (vd_free s)(i := True, j := True, k := True),
    procs := wakes (cur s) ChDiskFree (procs s)\<rparr>)"
proof -
  have u: "unat (of_nat j :: ushort) = j" "unat (of_nat k :: ushort) = k" using d(3,4) by (simp_all add: unat_of_nat NUM_def)
  obtain n where n: "NUM = Suc (Suc n)" by (rule that[of 6]) (simp add: NUM_def)
  show ?thesis unfolding virtio_disk_finish_def free_chain_def n using assms u by (simp add: kexec free_desc_exec wakes_idem)
qed

subsection \<open>A transfer\<close>

text \<open>The sector of a block, computed in 32 bits.\<close>

lemma sector_block:
  fixes n :: uint
  assumes "unat n < 2 ^ 31"
  shows "unat (ucast (n * of_nat (BSIZE div 512)) :: uint64) div 2 = unat n"
proof -
  have "unat (n * of_nat (BSIZE div 512)) = unat n * 2" using assms by (simp add: BSIZE_def unat_word_ariths)
  moreover have "unat (n * of_nat (BSIZE div 512)) < 2 ^ 64"
    by (rule order.strict_trans[OF unsigned_less[where ?'a = nat]]) simp
  ultimately show ?thesis by (simp add: unsigned_ucast_eq take_bit_nat_eq_self)
qed

text \<open>The queue between transfers: nothing is pending and every completed request has been seen.\<close>

definition vq_idle :: "'a vdst_scheme \<Rightarrow> bool" where
  "vq_idle s \<longleftrightarrow> vd_avail_idx s = vd_used_idx s \<and> vd_seen s = vd_used_idx s \<and> 3 \<le> card (free_descs s)"

text \<open>C12: the disk driver carries out a transfer. On an idle queue, \<open>virtio_disk_rw\<close> submits its request and goes to sleep. Once the device has
  served the request, the interrupt handler wakes the process, which finds the transfer done when it runs again and returns. The buffers and
  the disk are then exactly what the completed transfer on which the buffer cache is built leaves, the queue is idle again with the same free descriptors,
  and no lock is held.\<close>

theorem virtio_rw_refines:
  fixes s :: "'a vdst_scheme" and dev :: "'a vdst_scheme \<Rightarrow> 'a vdst_scheme"
  assumes dev: "virtio_device dev" and q: "vq_idle s" and me: "cur s = Some p" "p < NPROC" "held s = {}"
    and b: "unat (b_blockno (bufs s b)) < 2 ^ 31" "\<not> b_disk (bufs s b)"
  shows "\<exists>i t u v w x. virtio_disk_submit b wr s = Done i t \<and> virtio_disk_wait b t = Swtch u \<and> p_state (procs u p) = SLEEPING
    \<and> virtio_disk_intr (dev (u\<lparr>cur := None, held := {}\<rparr>)) = Done () v \<and> p_state (procs v p) = RUNNABLE
    \<and> virtio_disk_wait b (v\<lparr>cur := Some p, held := {VDISK_LOCK}\<rparr>) = Done () w \<and> virtio_disk_finish i w = Done () x
    \<and> (\<exists>y. virtio_disk_rw b wr s = Done () y \<and> bufs x = bufs y \<and> disk x = disk y \<and> wtrace x = wtrace y)
    \<and> vq_idle x \<and> vd_free x = vd_free s \<and> held x = {}"
proof -
  obtain i j k where d: "distinct [i, j, k]" "{i, j, k} \<subseteq> free_descs s" and sub: "virtio_disk_submit b wr s = Done i (filled b wr i j k s)"
    using submit_exec[OF me(3)] q unfolding vq_idle_def by blast
  have lt: "i < NUM" "j < NUM" "k < NUM" "vd_free s i" "vd_free s j" "vd_free s k" using d(2) by (auto simp: free_descs_def)
  let ?t = "filled b wr i j k s"
  let ?u = "?t\<lparr>held := {PROC_LOCK p}, procs := (procs s)(p := sleep_mark (ChBuf b) (procs s p))\<rparr>"
  have t: "cur ?t = Some p" "held ?t = {VDISK_LOCK}" "procs ?t = procs s" "b_disk (bufs ?t b)" using me(1) by (simp_all add: filled_def)
  have wait: "virtio_disk_wait b ?t = Swtch ?u"
    using sleep_exec[OF t(1,2), of "ChBuf b"] t(3,4) by (simp add: virtio_disk_wait_def kexec)
  let ?u' = "?u\<lparr>cur := None, held := {}\<rparr>"
  have ch: "req_chain ?u' i j b" using filled_chain[OF d, of b wr] by (simp add: req_chain_def)
  have av: "vd_avail_idx ?u' = vd_used_idx ?u' + 1" "vd_avail_ring ?u' (unat (vd_used_idx ?u') mod NUM) = of_nat i"
    using q by (simp_all add: filled_def vq_idle_def)
  have dv: "dev ?u' = served i b ?u'" using dev av lt(1,2) ch unfolding virtio_device_def by blast
  have sec: "unat (vr_sector (vd_ops ?t i)) div 2 = unat (b_blockno (bufs s b))" using sector_block[OF b(1)] by (simp add: filled_def)
  define v0 where "v0 = served i b ?u'"
  have v0: "held v0 = {}" "cur v0 = None" "procs v0 = procs ?u" "vd_used_idx v0 = vd_seen v0 + 1"
      "vd_used_ring v0 (unat (vd_seen v0) mod NUM) = of_nat i" "vd_info_status v0 i = 0" "vd_info_b v0 i = Some b" "vd_seen v0 = vd_seen s"
      "vd_used_idx v0 = vd_used_idx s + 1" "vd_avail_idx v0 = vd_used_idx s + 1" "vd_desc v0 = vd_desc ?t" "vd_free v0 = vd_free ?t"
    using q by (simp_all add: v0_def served_def Let_def filled_def vq_idle_def)
  define v where "v = v0\<lparr>vd_writes := vd_writes v0 @ [(0x064, vd_read v0 (vd_writes v0) 0x060 AND 3)],
    bufs := (bufs v0)(b := (bufs v0 b)\<lparr>b_disk := False\<rparr>), procs := wakes None (ChBuf b) (procs ?u), vd_seen := vd_used_idx v0\<rparr>"
  have int: "virtio_disk_intr (dev ?u') = Done () v" unfolding dv v0_def[symmetric] v_def using intr_one[OF v0(1,4,5) lt(1) v0(6,7)] v0(2,3) by simp
  have woke: "p_state (procs v p) = RUNNABLE" using me(2) by (simp add: v_def wakes_def woken_def sleep_mark_def)
  let ?w = "v\<lparr>cur := Some p, held := {VDISK_LOCK}\<rparr>"
  have w: "virtio_disk_wait b ?w = Done () ?w" by (simp add: virtio_disk_wait_def kexec v_def)
  have fin: "virtio_disk_finish i ?w = Done () (?w\<lparr>held := {}, vd_info_b := (vd_info_b ?w)(i := None),
      vd_desc := (vd_desc ?w)(i := zero_desc, j := zero_desc, k := zero_desc), vd_free := (vd_free ?w)(i := True, j := True, k := True),
      procs := wakes (cur ?w) ChDiskFree (procs ?w)\<rparr>)" (is "_ = Done () ?x")
    by (rule finish_exec[OF _ d(1) lt(1-3)])
      (use d(1) in \<open>simp_all add: v_def v0(11,12), simp_all add: filled_def VRING_DESC_F_NEXT_def VRING_DESC_F_WRITE_def\<close>)
  define x where "x = ?x"
  have fr: "vd_free x = vd_free s" using lt(4-6) by (simp add: x_def v_def v0(12) filled_def fun_eq_iff)
  then have idle: "vq_idle x" using q by (simp add: vq_idle_def x_def v_def v0(9,10) free_descs_def)
  let ?n = "unat (b_blockno (bufs s b))"
  have u: "vd_ops ?u' = vd_ops ?t" "bufs ?u' = (bufs s)(b := (bufs s b)\<lparr>b_disk := True\<rparr>)" "disk ?u' = disk s" "wtrace ?u' = wtrace s"
    by (simp_all add: filled_def)
  have o: "vr_type (vd_ops ?t i) = VIRTIO_BLK_T_OUT \<longleftrightarrow> wr" by (simp add: filled_def VIRTIO_BLK_T_OUT_def VIRTIO_BLK_T_IN_def)
  have nb: "(bufs s b)\<lparr>b_disk := False\<rparr> = bufs s b" "(bufs s b)\<lparr>b_data := z, b_disk := False\<rparr> = (bufs s b)\<lparr>b_data := z\<rparr>" for z
    using b(2) by (cases "bufs s b", simp)+
  note V = served_effect[of i b ?u', unfolded u o sec, folded v0_def]
  have eff: "bufs x = (if wr then bufs s else (bufs s)(b := bufs s b\<lparr>b_data := disk s ?n\<rparr>))"
      "disk x = (if wr then (disk s)(?n := b_data (bufs s b)) else disk s)"
      "wtrace x = (if wr then wtrace s @ [(?n, b_data (bufs s b))] else wtrace s)"
    using nb by (simp_all add: x_def v_def V fun_upd_idem)
  have "\<exists>y. virtio_disk_rw b wr s = Done () y \<and> bufs x = bufs y \<and> disk x = disk y \<and> wtrace x = wtrace y"
    unfolding eff by (simp add: virtio_disk_rw_def kexec Let_def)
  moreover have "p_state (procs ?u p) = SLEEPING" "held x = {}" by (simp_all add: sleep_mark_def x_def)
  ultimately show ?thesis using sub wait int woke w fin[folded x_def] idle fr by blast
qed

definition ex_device :: "kos \<Rightarrow> kos" where
  "ex_device s = (let h = unat (vd_avail_ring s (unat (vd_used_idx s) mod NUM)); j = unat (vq_next (vd_desc s h)) in
     case vq_addr (vd_desc s j) of VData b \<Rightarrow> served h b s | _ \<Rightarrow> s)"

lemma ex_device_ok: "virtio_device ex_device"
  unfolding virtio_device_def
proof (intro allI impI)
  fix s :: kos and h j b
  assume a: "vd_avail_ring s (unat (vd_used_idx s) mod NUM) = of_nat h" "h < NUM" "j < NUM" "req_chain s h j b"
  have "unat (of_nat h :: ushort) = h" "unat (of_nat j :: ushort) = j" using a(2,3) by (simp_all add: unat_of_nat NUM_def)
  then show "ex_device s = served h b s" using a(1,4) by (simp add: ex_device_def req_chain_def Let_def)
qed

theorem virtio_rw_refines_witness:
  "\<exists>i t u v w x. virtio_disk_submit 3 True (boot_kos\<lparr>vd_free := \<lambda>_. True\<rparr>) = Done i t \<and> virtio_disk_wait 3 t = Swtch u
    \<and> virtio_disk_intr (ex_device (u\<lparr>cur := None, held := {}\<rparr>)) = Done () v
    \<and> virtio_disk_wait 3 (v\<lparr>cur := Some 0, held := {VDISK_LOCK}\<rparr>) = Done () w \<and> virtio_disk_finish i w = Done () x \<and> held x = {}"
proof -
  let ?s = "boot_kos\<lparr>vd_free := \<lambda>_. True\<rparr>"
  have "free_descs ?s = {..<8}" by (auto simp: free_descs_def NUM_def)
  then have "vq_idle ?s" by (simp add: vq_idle_def) (simp add: boot_kos_defs)
  moreover have "unat (b_blockno (bufs ?s 3)) < 2 ^ 31" "\<not> b_disk (bufs ?s 3)" by (simp_all add: boot_kos_defs zero_buf_def)
  ultimately show ?thesis using virtio_rw_refines[OF ex_device_ok, of ?s 0 3 True] by (simp add: NPROC_def) blast
qed

end
