(* ===== verification/Ugrep.thy ===== *)
theory Ugrep
  imports Fslayout
begin

text \<open>
  The user program grep (user/grep.c). A C string is the list of its characters before the NUL. \<open>match\<close>, \<open>matchhere\<close> and
  \<open>matchstar\<close> are the matcher; \<open>grep_loop\<close> is the loop of \<open>grep\<close> over its buffer of 1024 bytes.

  The bytes that \<open>read\<close> returns are a prefix of the remaining input whose length is chosen by the parameter \<open>rd\<close> (a file gives as much
  as is asked for, a pipe or the console may give less); \<open>reads_ok\<close> is what the system call promises.
\<close>

subsection \<open>The matcher\<close>

function (sequential) matchhere :: "string \<Rightarrow> string \<Rightarrow> bool" and matchstar :: "char \<Rightarrow> string \<Rightarrow> string \<Rightarrow> bool" where
  "matchhere re str =
     (case re of
        [] \<Rightarrow> True
      | c # re1 \<Rightarrow>
          if re1 \<noteq> [] \<and> hd re1 = CHR ''*'' then matchstar c (tl re1) str
          else if c = CHR ''$'' \<and> re1 = [] then str = []
          else if str \<noteq> [] \<and> (c = CHR ''.'' \<or> c = hd str) then matchhere re1 (tl str)
          else False)"
| "matchstar c re str =
     (if matchhere re str then True
      else if str \<noteq> [] \<and> (hd str = c \<or> c = CHR ''.'') then matchstar c re (tl str)
      else False)"
  by pat_completeness auto

termination
  by (relation "measures [\<lambda>x. case x of Inl (re, _) \<Rightarrow> length re | Inr (_, re, _) \<Rightarrow> length re,
      \<lambda>x. case x of Inl (_, t) \<Rightarrow> length t | Inr (_, _, t) \<Rightarrow> length t, \<lambda>x. case x of Inl _ \<Rightarrow> 0 | Inr _ \<Rightarrow> 1]")
    (auto split: if_splits)

declare matchhere.simps [simp del] matchstar.simps [simp del]

fun match_any :: "string \<Rightarrow> string \<Rightarrow> bool" where
  "match_any re [] = matchhere re []"
| "match_any re (x # str) = (if matchhere re (x # str) then True else match_any re str)"

definition match :: "string \<Rightarrow> string \<Rightarrow> bool" where
  "match re str = (if re \<noteq> [] \<and> hd re = CHR ''^'' then matchhere (tl re) str else match_any re str)"

subsection \<open>The program\<close>

definition BUFSZ :: nat where "BUFSZ = 1024"

text \<open>The inner loop: \<open>p\<close> is the str from \<open>p\<close> to the end of the buffer. It stops where \<open>strchr\<close> meets a NUL or finds no newline.
  The result is what is written and the str that is kept.\<close>

function grep_lines :: "string \<Rightarrow> string \<Rightarrow> string \<times> string" where
  "grep_lines pattern p =
     (let line = takeWhile (\<lambda>c. c \<noteq> CHR 0x0A \<and> c \<noteq> CHR 0x00) p; rest = drop (length line) p in
      if rest = [] \<or> hd rest = CHR 0x00 then ([], p)
      else case grep_lines pattern (tl rest) of (out, keep) \<Rightarrow>
        ((if match pattern line then line @ [CHR 0x0A] else []) @ out, keep))"
  by pat_completeness auto
termination
proof (relation "measure (\<lambda>(_, p). length p)")
  fix pattern p :: string and line rest
  assume "line = takeWhile (\<lambda>c. c \<noteq> CHR 0x0A \<and> c \<noteq> CHR 0x00) p" "rest = drop (length line) p" "\<not> (rest = [] \<or> hd rest = CHR 0x00)"
  then show "((pattern, tl rest), (pattern, p)) \<in> measure (\<lambda>(_, p). length p)" by (cases p) auto
qed simp

declare grep_lines.simps [simp del]

function grep_loop :: "(nat \<Rightarrow> string \<Rightarrow> nat) \<Rightarrow> string \<Rightarrow> string \<Rightarrow> string \<Rightarrow> string" where
  "grep_loop rd pattern keep input =
     (let n = BUFSZ - length keep - 1; k = min n (rd n input); got = take k input in
      if got = [] then []
      else case grep_lines pattern (keep @ got) of (out, keep') \<Rightarrow> out @ grep_loop rd pattern keep' (drop k input))"
  by pat_completeness auto
termination
  by (relation "measure (\<lambda>(_, _, _, input). length input)") auto

declare grep_loop.simps [simp del]

definition grep :: "(nat \<Rightarrow> string \<Rightarrow> nat) \<Rightarrow> string \<Rightarrow> string \<Rightarrow> string" where
  "grep rd pattern input = grep_loop rd pattern [] input"

subsection \<open>What a pattern means\<close>

text \<open>A pattern is a sequence of characters and dots, each possibly starred, between optional anchors.\<close>

datatype piece = Once char | Many char

definition accepts :: "char \<Rightarrow> char \<Rightarrow> bool" where
  "accepts c x \<longleftrightarrow> c = CHR ''.'' \<or> c = x"

fun pieces :: "string \<Rightarrow> piece list \<times> bool" where
  "pieces [] = ([], False)"
| "pieces [c] = (if c = CHR ''$'' then ([], True) else ([Once c], False))"
| "pieces (c # d # re) =
     (if d = CHR ''*'' then case pieces re of (ps, e) \<Rightarrow> (Many c # ps, e)
      else case pieces (d # re) of (ps, e) \<Rightarrow> (Once c # ps, e))"

fun lang :: "piece list \<Rightarrow> string set" where
  "lang [] = {[]}"
| "lang (Once c # ps) = {x # w | x w. accepts c x \<and> w \<in> lang ps}"
| "lang (Many c # ps) = {u @ w | u w. list_all (accepts c) u \<and> w \<in> lang ps}"

text \<open>\<open>finds re pre text\<close>: the str is \<open>pre\<close>, then a word of the pattern, then anything, or nothing if the pattern is anchored at its end.\<close>

definition finds :: "string \<Rightarrow> string \<Rightarrow> bool" where
  "finds re str \<longleftrightarrow> (\<exists>w post. str = w @ post \<and> w \<in> lang (fst (pieces re)) \<and> (snd (pieces re) \<longrightarrow> post = []))"

definition spec_match :: "string \<Rightarrow> string \<Rightarrow> bool" where
  "spec_match re str \<longleftrightarrow> (if re \<noteq> [] \<and> hd re = CHR ''^'' then finds (tl re) str else (\<exists>pre t. str = pre @ t \<and> finds re t))"

lemma finds_Nil [simp]: "finds [] str"
  by (simp add: finds_def)

lemma finds_end: "finds [CHR ''$''] str \<longleftrightarrow> str = []"
  by (simp add: finds_def)

lemma finds_Once:
  assumes "snd (pieces (c # re)) = snd (pieces re)" and "fst (pieces (c # re)) = Once c # fst (pieces re)"
  shows "finds (c # re) str \<longleftrightarrow> str \<noteq> [] \<and> accepts c (hd str) \<and> finds re (tl str)"
  using assms by (cases str) (auto simp: finds_def Cons_eq_append_conv)

lemma finds_Many: "finds (c # CHR ''*'' # re) str \<longleftrightarrow> (\<exists>u t. str = u @ t \<and> list_all (accepts c) u \<and> finds re t)"
proof -
  obtain ps e where p: "pieces re = (ps, e)" by (cases "pieces re")
  have "finds (c # CHR ''*'' # re) str \<longleftrightarrow>
      (\<exists>u v post. str = (u @ v) @ post \<and> list_all (accepts c) u \<and> v \<in> lang ps \<and> (e \<longrightarrow> post = []))"
    unfolding finds_def by (simp add: p del: append_assoc) blast
  also have "\<dots> \<longleftrightarrow> (\<exists>u t. str = u @ t \<and> list_all (accepts c) u \<and> finds re t)" by (auto simp: finds_def p)
  finally show ?thesis .
qed

lemma finds_Many_step:
  "finds (c # CHR ''*'' # re) str \<longleftrightarrow> finds re str \<or> (str \<noteq> [] \<and> accepts c (hd str) \<and> finds (c # CHR ''*'' # re) (tl str))"
proof
  assume "finds (c # CHR ''*'' # re) str"
  then obtain u t where "str = u @ t" "list_all (accepts c) u" "finds re t" unfolding finds_Many by blast
  then show "finds re str \<or> (str \<noteq> [] \<and> accepts c (hd str) \<and> finds (c # CHR ''*'' # re) (tl str))"
    unfolding finds_Many by (cases u) auto
next
  assume "finds re str \<or> (str \<noteq> [] \<and> accepts c (hd str) \<and> finds (c # CHR ''*'' # re) (tl str))"
  then show "finds (c # CHR ''*'' # re) str"
  proof
    assume "finds re str"
    then show ?thesis unfolding finds_Many by (intro exI[of _ "[]"] exI[of _ str]) simp
  next
    assume a: "str \<noteq> [] \<and> accepts c (hd str) \<and> finds (c # CHR ''*'' # re) (tl str)"
    then obtain u t where "tl str = u @ t" "list_all (accepts c) u" "finds re t" unfolding finds_Many by blast
    then show ?thesis using a unfolding finds_Many by (intro exI[of _ "hd str # u"] exI[of _ t]) (cases str; simp)
  qed
qed

lemma matchhere_finds:
  "matchhere re str = finds re str" "matchstar c re str = finds (c # CHR ''*'' # re) str"
proof (induction re str and c re str rule: matchhere_matchstar.induct)
  case (1 re str)
  show ?case
  proof (cases re)
    case Nil
    then show ?thesis by (simp add: matchhere.simps)
  next
    case (Cons c re1)
    consider "re1 \<noteq> [] \<and> hd re1 = CHR ''*''" | "\<not> (re1 \<noteq> [] \<and> hd re1 = CHR ''*'')" "c = CHR ''$''" "re1 = []"
      | "\<not> (re1 \<noteq> [] \<and> hd re1 = CHR ''*'')" "\<not> (c = CHR ''$'' \<and> re1 = [])" by blast
    then show ?thesis
    proof cases
      case 1
      then have "re = c # CHR ''*'' # tl re1" using Cons by (cases re1) auto
      then show ?thesis using "1.IH"(1)[OF Cons 1] 1 Cons by (simp add: matchhere.simps)
    next
      case 2
      then show ?thesis using Cons by (simp add: matchhere.simps finds_end)
    next
      case 3
      have f: "finds re str \<longleftrightarrow> str \<noteq> [] \<and> accepts c (hd str) \<and> finds re1 (tl str)"
        unfolding Cons by (rule finds_Once; use 3 in \<open>cases re1; auto split: prod.splits\<close>)
      show ?thesis using "1.IH"(2)[OF Cons 3(1)] 3 Cons f by (auto simp: matchhere.simps accepts_def)
    qed
  qed
next
  case (2 c re str)
  show ?case using 2 unfolding finds_Many_step[of c re str] by (subst matchstar.simps) (auto simp: accepts_def)
qed

lemma match_spec: "match re str = spec_match re str"
proof -
  have m: "match_any re t \<longleftrightarrow> (\<exists>pre u. t = pre @ u \<and> finds re u)" for t
  proof (induction t)
    case (Cons x t)
    then show ?case by (auto simp: matchhere_finds Cons_eq_append_conv)
  qed (simp add: matchhere_finds)
  show ?thesis unfolding match_def spec_match_def matchhere_finds m ..
qed

text \<open>C29: the matcher of grep decides the language of its pattern: \<open>match\<close> returns true exactly when some part of the str (the
  beginning, for a pattern that starts with \<open>^\<close>) is a word of the pattern, read as a sequence of characters, dots and starred
  characters, which reaches the end of the str if the pattern ends in \<open>$\<close>. It terminates on every pattern and str.\<close>

theorem match_correct: "match re str = spec_match re str"
  by (rule match_spec)

subsection \<open>What grep prints\<close>

abbreviation NL :: char where "NL \<equiv> CHR 0x0A"
abbreviation NUL :: char where "NUL \<equiv> CHR 0x00"

definition reads_ok :: "(nat \<Rightarrow> string \<Rightarrow> nat) \<Rightarrow> bool" where
  "reads_ok rd \<longleftrightarrow> (\<forall>n input. 0 < n \<longrightarrow> input \<noteq> [] \<longrightarrow> 0 < rd n input)"

text \<open>The lines of an input that end in a newline, and those of them that a pattern selects.\<close>

definition full_lines :: "string \<Rightarrow> string list" where
  "full_lines input = butlast (split_on NL input)"

definition selected :: "string \<Rightarrow> string list \<Rightarrow> string" where
  "selected pattern ls = concat (map (\<lambda>l. l @ [NL]) (filter (match pattern) ls))"

lemma selected_append [simp]: "selected pattern (xs @ ys) = selected pattern xs @ selected pattern ys"
  by (simp add: selected_def)

lemma split_on_line: "c \<notin> set xs \<Longrightarrow> split_on c (xs @ c # ys) = xs # split_on c ys"
  using split_on_prefix[of c xs "c # ys"] by simp

lemma split_on_none: "c \<notin> set xs \<Longrightarrow> split_on c xs = [xs]"
  using split_on_prefix[of c xs "[]"] by simp

lemma split_on_append: "split_on c (xs @ ys) = butlast (split_on c xs) @ split_on c (last (split_on c xs) @ ys)"
proof (induction xs)
  case (Cons x xs)
  obtain l ls where l: "split_on c xs = l # ls" by (cases "split_on c xs") auto
  show ?case
  proof (cases "x = c \<or> ls \<noteq> []")
    case True
    then show ?thesis using Cons l by auto
  next
    case False
    then show ?thesis using Cons l by auto
  qed
qed simp

lemma last_split_on: "c \<notin> set (last (split_on c xs))" "set (last (split_on c xs)) \<subseteq> set xs"
proof (induction xs)
  case (Cons x xs)
  obtain l ls where l: "split_on c xs = l # ls" by (cases "split_on c xs") auto
  { case 1 then show ?case using Cons l by (cases ls) auto }
  { case 2 then show ?case using Cons l by (cases ls) auto }
qed simp_all

lemma grep_lines_spec:
  "NUL \<notin> set p \<Longrightarrow> grep_lines pattern p = (selected pattern (butlast (split_on NL p)), last (split_on NL p))"
proof (induction pattern p rule: grep_lines.induct)
  case (1 pattern p)
  let ?line = "takeWhile (\<lambda>c. c \<noteq> NL \<and> c \<noteq> NUL) p" and ?rest = "drop (length (takeWhile (\<lambda>c. c \<noteq> NL \<and> c \<noteq> NUL) p)) p"
  have p: "p = ?line @ ?rest" by (simp add: dropWhile_eq_drop[symmetric])
  have l: "NL \<notin> set ?line" by (auto dest: set_takeWhileD)
  show ?case
  proof (cases ?rest)
    case Nil
    then have "split_on NL p = [p]" using p l by (intro split_on_none) simp
    then show ?thesis using Nil by (subst grep_lines.simps) (simp add: selected_def)
  next
    case (Cons x r)
    have "x = NL \<or> x = NUL" using Cons hd_dropWhile[of "\<lambda>c. c \<noteq> NL \<and> c \<noteq> NUL" p] by (auto simp: dropWhile_eq_drop)
    moreover have "x \<in> set p" "set r \<subseteq> set p" using Cons in_set_dropD[of _ "length ?line" p] by (auto simp: Cons)
    ultimately have x: "x = NL" "NUL \<notin> set r" using "1.prems" by auto
    have sp: "split_on NL p = ?line # split_on NL r" using split_on_line[OF l, of r] p Cons x(1) by simp
    have "grep_lines pattern r = (selected pattern (butlast (split_on NL r)), last (split_on NL r))"
      using "1.IH"[OF refl refl] Cons x by simp
    then show ?thesis using Cons x(1) sp by (subst grep_lines.simps) (simp add: Let_def selected_def del: drop_eq_Nil drop_eq_Nil2)
  qed
qed

lemma grep_loop_spec:
  "reads_ok rd \<Longrightarrow> NL \<notin> set keep \<Longrightarrow> NUL \<notin> set (keep @ input) \<Longrightarrow> \<forall>l\<in>set (split_on NL (keep @ input)). length l < BUFSZ - 1 \<Longrightarrow>
    grep_loop rd pattern keep input = selected pattern (full_lines (keep @ input))"
proof (induction rd pattern keep input rule: grep_loop.induct)
  case (1 rd pattern keep input)
  let ?n = "BUFSZ - length keep - 1" let ?k = "min ?n (rd ?n input)"
  have "hd (split_on NL (keep @ input)) = keep @ hd (split_on NL input)" using split_on_prefix[OF "1.prems"(2), of input] by simp
  then have "length keep < BUFSZ - 1" using "1.prems"(4) list.set_sel(1)[OF split_on_nonempty, of NL "keep @ input"] by force
  then have n: "0 < ?n" by simp
  show ?case
  proof (cases "input = []")
    case True
    then show ?thesis using split_on_none[OF "1.prems"(2)] by (subst grep_loop.simps) (simp add: full_lines_def selected_def)
  next
    case False
    have k: "0 < ?k" using "1.prems"(1) n False unfolding reads_ok_def by (metis min_less_iff_conj)
    let ?got = "take ?k input" let ?keep = "last (split_on NL (keep @ ?got))" let ?in = "drop ?k input"
    have got: "?got \<noteq> []" using k False by simp
    have e: "keep @ input = (keep @ ?got) @ ?in" by simp
    have sp: "split_on NL (keep @ input) = butlast (split_on NL (keep @ ?got)) @ split_on NL (?keep @ ?in)"
      unfolding e by (rule split_on_append)
    have nn: "NUL \<notin> set (keep @ ?got)" using "1.prems"(3) by (auto dest: in_set_takeD)
    note gl = grep_lines_spec[OF nn, of pattern]
    have "grep_loop rd pattern ?keep ?in = selected pattern (full_lines (?keep @ ?in))"
    proof (rule "1.IH"[OF refl refl refl got gl[symmetric]])
      show "reads_ok rd" by (rule "1.prems"(1))
      show "NL \<notin> set ?keep" by (rule last_split_on(1))
      show "NUL \<notin> set (?keep @ ?in)" using last_split_on(2)[of NL "keep @ ?got"] nn "1.prems"(3) by (auto dest: in_set_dropD)
      show "\<forall>l\<in>set (split_on NL (?keep @ ?in)). length l < BUFSZ - 1" using "1.prems"(4) unfolding sp by simp
    qed
    then have "grep_loop rd pattern keep input
        = selected pattern (butlast (split_on NL (keep @ ?got))) @ selected pattern (full_lines (?keep @ ?in))"
      using got gl by (subst grep_loop.simps) (simp only: Let_def if_False prod.case)
    then show ?thesis unfolding full_lines_def sp by (simp add: butlast_append)
  qed
qed

text \<open>C30: grep prints exactly the lines that match, in order, however the input is cut into reads: for an input without NUL bytes whose
  lines are shorter than 1023 bytes, the output is the newline-terminated lines that the pattern selects, each once. A last line
  without a newline is not printed.\<close>

theorem grep_correct:
  assumes "reads_ok rd" and "NUL \<notin> set input" and "\<forall>l\<in>set (split_on NL input). length l < 1023"
  shows "grep rd pattern input = concat (map (\<lambda>l. l @ [NL]) (filter (spec_match pattern) (full_lines input)))"
proof -
  have "match pattern = spec_match pattern" by (rule ext) (simp only: match_spec)
  then show ?thesis using grep_loop_spec[OF assms(1), of "[]" input pattern] assms(2,3)
    by (simp add: grep_def BUFSZ_def selected_def)
qed

theorem grep_correct_witness:
  "grep (\<lambda>n input. 2) ''b*c$'' (''ab'' @ [NL] @ ''xbbc'' @ [NL] @ ''c'') = ''xbbc'' @ [NL]"
proof -
  have "grep (\<lambda>n input. 2) ''b*c$'' (''ab'' @ [NL] @ ''xbbc'' @ [NL] @ ''c'')
      = concat (map (\<lambda>l. l @ [NL]) (filter (spec_match ''b*c$'') (full_lines (''ab'' @ [NL] @ ''xbbc'' @ [NL] @ ''c''))))"
    by (rule grep_correct) (simp_all add: reads_ok_def)
  also have "full_lines (''ab'' @ [NL] @ ''xbbc'' @ [NL] @ ''c'') = [''ab'', ''xbbc'']" by (simp add: full_lines_def)
  also have "filter (spec_match ''b*c$'') [''ab'', ''xbbc''] = [''xbbc'']"
  proof -
    have "match ''b*c$'' ''xbbc''" "\<not> match ''b*c$'' ''ab''" by code_simp+
    then show ?thesis by (simp add: match_spec)
  qed
  finally show ?thesis by simp
qed

text \<open>C40: a line that does not fit in the buffer ends the search. When the first 1023 bytes of the input contain no newline, grep prints
  nothing at all, whatever the pattern and whatever follows.\<close>

theorem grep_long_line_stops:
  assumes "1023 \<le> length input" and "NL \<notin> set (take 1023 input)" and "NUL \<notin> set (take 1023 input)"
  shows "grep (\<lambda>n rest. n) pattern input = []"
proof -
  have "grep_lines pattern (take 1023 input) = ([], take 1023 input)"
    using grep_lines_spec[OF assms(3), of pattern] split_on_none[OF assms(2)] by (simp add: selected_def)
  moreover have "grep_loop (\<lambda>n rest. n) pattern (take 1023 input) rest = []" for rest
    using assms(1) by (subst grep_loop.simps) (simp add: BUFSZ_def)
  moreover have "take 1023 input \<noteq> []" using assms(1) by auto
  ultimately show ?thesis unfolding grep_def by (subst grep_loop.simps) (simp add: BUFSZ_def)
qed

theorem grep_long_line_stops_witness:
  "grep (\<lambda>n rest. n) ''x'' (replicate 1030 CHR ''a'' @ [NL] @ ''x'' @ [NL]) = []"
  by (rule grep_long_line_stops) (simp_all add: set_replicate_conv_if)

end
