(* ===== verification/Ush.thy ===== *)
theory Ush
  imports Fslayout Sysfile
begin

text \<open>
  The command parser of the shell (user/sh.c). The line is a list of characters without NUL; the pointers \<open>ps\<close>, \<open>q\<close>, \<open>eq\<close> are
  positions in it, \<open>es\<close> is its length, and the character at \<open>es\<close> is the terminating NUL. A command keeps, as in the code, the positions
  at which its words begin and end; \<open>nulterminate\<close> then writes a NUL behind every word. A panic of the shell is an error value.

  The loops recurse on the position, which every token moves forward. The four functions that call each other have a bound on the depth
  of the calls: a call of \<open>parseline\<close> from a parenthesis comes at least one character later, so four calls for every remaining character
  are enough (\<open>parse_no_fuel\<close>).
\<close>

unbundle bit_operations_syntax

subsection \<open>Commands\<close>

record redir =
  r_file :: nat
  r_efile :: nat
  r_mode :: uint
  r_fd :: int

datatype cmd = EXEC "(nat \<times> nat) list" | REDIR cmd redir | PIPE cmd cmd | LIST cmd cmd | BACK cmd

datatype sh_error = Shpanic string | Nofuel

definition MAXARGS :: nat where "MAXARGS = 10"

definition sbind :: "sh_error + 'b \<Rightarrow> ('b \<Rightarrow> sh_error + 'c) \<Rightarrow> sh_error + 'c" where
  "sbind m f = (case m of Inl e \<Rightarrow> Inl e | Inr x \<Rightarrow> f x)"

subsection \<open>Tokens\<close>

definition char_at :: "string \<Rightarrow> nat \<Rightarrow> char" where
  "char_at buf s = (if s < length buf then buf ! s else CHR 0x00)"

definition whitespace :: string where
  "whitespace = [CHR '' '', CHR 0x09, CHR 0x0D, CHR 0x0A, CHR 0x0B]"

definition symbols :: string where
  "symbols = ''<|>&;()''"

definition skip_ws :: "string \<Rightarrow> nat \<Rightarrow> nat" where
  "skip_ws buf s = s + length (takeWhile (\<lambda>c. c \<in> set whitespace) (drop s buf))"

definition word_char :: "char \<Rightarrow> bool" where
  "word_char c \<longleftrightarrow> c \<notin> set whitespace \<and> c \<notin> set symbols"

text \<open>\<open>gettoken\<close> gives the token, the positions \<open>q\<close> and \<open>eq\<close>, and the new value of \<open>*ps\<close>.\<close>

definition gettoken :: "string \<Rightarrow> nat \<Rightarrow> char \<times> nat \<times> nat \<times> nat" where
  "gettoken buf ps =
     (let q = skip_ws buf ps; c = char_at buf q;
          (ret, eq) =
            (if c = CHR 0x00 then (c, q)
             else if c \<in> {CHR ''|'', CHR ''('', CHR '')'', CHR '';'', CHR ''&'', CHR ''<''} then (c, q + 1)
             else if c = CHR ''>'' then (if char_at buf (q + 1) = CHR ''>'' then (CHR ''+'', q + 2) else (c, q + 1))
             else (CHR ''a'', q + length (takeWhile word_char (drop q buf))))
      in (ret, q, eq, skip_ws buf eq))"

definition speek :: "string \<Rightarrow> nat \<Rightarrow> string \<Rightarrow> nat \<times> bool" where
  "speek buf ps toks = (let s = skip_ws buf ps in (s, char_at buf s \<noteq> CHR 0x00 \<and> char_at buf s \<in> set toks))"

definition after_token :: "string \<Rightarrow> nat \<Rightarrow> nat" where
  "after_token buf ps = (case gettoken buf ps of (_, _, _, ps') \<Rightarrow> ps')"

lemma skip_ws_le: "s \<le> skip_ws buf s"
  by (simp add: skip_ws_def)

lemma skip_ws_bound: "s \<le> length buf \<Longrightarrow> skip_ws buf s \<le> length buf"
  using length_takeWhile_le[of "\<lambda>c. c \<in> set whitespace" "drop s buf"] by (simp add: skip_ws_def)

lemma takeWhile_next: "length (takeWhile P xs) < length xs \<Longrightarrow> \<not> P (xs ! length (takeWhile P xs))"
  by (rule nth_length_takeWhile)

lemma skip_ws_stop: "skip_ws buf s < length buf \<Longrightarrow> buf ! skip_ws buf s \<notin> set whitespace"
  using takeWhile_next[of "\<lambda>c. c \<in> set whitespace" "drop s buf"] by (auto simp: skip_ws_def)

lemma skip_ws_idem [simp]: "skip_ws buf (skip_ws buf s) = skip_ws buf s"
proof (cases "skip_ws buf s < length buf")
  case True
  then have "\<not> buf ! skip_ws buf s \<in> set whitespace" by (rule skip_ws_stop)
  then have "takeWhile (\<lambda>c. c \<in> set whitespace) (drop (skip_ws buf s) buf) = []"
    using True by (simp add: Cons_nth_drop_Suc[symmetric])
  then show ?thesis by (simp add: skip_ws_def[of buf "skip_ws buf s"])
qed (simp add: skip_ws_def[of buf "skip_ws buf s"])

text \<open>A token moves the position forward, within the line.\<close>

lemma gettoken_step:
  assumes "gettoken buf ps = (ret, q, eq, ps')"
  shows "ps \<le> q" "q \<le> eq" "eq \<le> ps'" "ret \<noteq> CHR 0x00 \<Longrightarrow> q < length buf" "ret \<noteq> CHR 0x00 \<Longrightarrow> q < eq" "ps \<le> length buf \<Longrightarrow> ps' \<le> length buf"
proof -
  let ?q = "skip_ws buf ps"
  have q: "q = ?q" and ps': "ps' = skip_ws buf eq" using assms by (auto simp: gettoken_def Let_def split: if_splits prod.splits)
  show "ps \<le> q" unfolding q by (rule skip_ws_le)
  show "q \<le> eq" unfolding q using assms by (auto simp: gettoken_def Let_def split: if_splits)
  show "eq \<le> ps'" unfolding ps' by (rule skip_ws_le)
  show "q < length buf" if "ret \<noteq> CHR 0x00" unfolding q
    using assms that by (auto simp: gettoken_def Let_def char_at_def split: if_splits)
  show "q < eq" if "ret \<noteq> CHR 0x00"
  proof -
    have "?q < length buf" using assms that by (auto simp: gettoken_def Let_def char_at_def split: if_splits)
    then have "takeWhile word_char (drop ?q buf) \<noteq> []" if "word_char (buf ! ?q)" using that by (simp add: Cons_nth_drop_Suc[symmetric])
    moreover have "word_char (buf ! ?q)" if "buf ! ?q \<notin> set symbols"
      using skip_ws_stop[of buf ps] \<open>?q < length buf\<close> that by (simp add: word_char_def)
    ultimately show ?thesis unfolding q using assms that \<open>?q < length buf\<close>
      by (auto simp: gettoken_def Let_def char_at_def symbols_def split: if_splits)
  qed
  assume "ps \<le> length buf"
  then have "?q \<le> length buf" by (rule skip_ws_bound)
  moreover have "?q + length (takeWhile word_char (drop ?q buf)) \<le> length buf"
    using calculation length_takeWhile_le[of word_char "drop ?q buf"] by simp
  ultimately have "eq \<le> length buf"
    using assms by (auto simp: gettoken_def Let_def char_at_def split: if_splits)
  then show "ps' \<le> length buf" unfolding ps' by (rule skip_ws_bound)
qed

lemma sbind_cong [fundef_cong]:
  "m = m' \<Longrightarrow> (\<And>x. m' = Inr x \<Longrightarrow> f x = f' x) \<Longrightarrow> sbind m f = sbind m' f'"
  by (simp add: sbind_def split: sum.split)

lemma sbind_val [simp]: "sbind (Inr x) f = f x" and sbind_err [simp]: "sbind (Inl e) f = Inl e"
  by (simp_all add: sbind_def)

lemma sbind_Inr: "sbind m f = Inr y \<longleftrightarrow> (\<exists>x. m = Inr x \<and> f x = Inr y)"
  by (simp add: sbind_def split: sum.split)

lemma speek_step:
  assumes "speek buf ps toks = (ps', b)"
  shows "ps' = skip_ws buf ps" "ps \<le> ps'" "b \<Longrightarrow> ps' < length buf" "ps \<le> length buf \<Longrightarrow> ps' \<le> length buf"
    "b \<Longrightarrow> char_at buf ps' \<noteq> CHR 0x00"
  using assms skip_ws_le[of ps buf] skip_ws_bound[of ps buf] by (auto simp: speek_def Let_def char_at_def split: if_splits)

lemma after_token_less:
  assumes "char_at buf ps \<noteq> CHR 0x00" "skip_ws buf ps = ps"
  shows "ps < after_token buf ps" "after_token buf ps \<le> length buf"
proof -
  obtain ret q eq ps' where g: "gettoken buf ps = (ret, q, eq, ps')" by (cases "gettoken buf ps")
  note G = gettoken_step[OF g]
  have "ps < length buf" using assms(1) by (auto simp: char_at_def split: if_splits)
  moreover have "ret \<noteq> CHR 0x00" using g assms by (auto simp: gettoken_def Let_def split: if_splits)
  ultimately show "ps < after_token buf ps" "after_token buf ps \<le> length buf" using G(1-3,5,6) g by (simp_all add: after_token_def)
qed

lemma speek_token:
  assumes "speek buf ps toks = (ps1, True)"
  shows "ps < after_token buf ps1" "after_token buf ps1 \<le> length buf" "ps < length buf"
  using speek_step[OF assms] after_token_less[of buf ps1] by auto

subsection \<open>Redirections and arguments\<close>

definition redircmd :: "char \<Rightarrow> nat \<Rightarrow> nat \<Rightarrow> redir" where
  "redircmd tok q eq =
     (if tok = CHR ''<'' then \<lparr>r_file = q, r_efile = eq, r_mode = O_RDONLY, r_fd = 0\<rparr>
      else if tok = CHR ''>'' then \<lparr>r_file = q, r_efile = eq, r_mode = O_WRONLY OR O_CREATE OR O_TRUNC, r_fd = 1\<rparr>
      else \<lparr>r_file = q, r_efile = eq, r_mode = O_WRONLY OR O_CREATE, r_fd = 1\<rparr>)"

lemma redirs_less:
  assumes "(ps1, True) = speek buf ps toks" "(tok, q1, eq1, ps2) = gettoken buf ps1" "(CHR ''a'', q, eq, ps3) = gettoken buf ps2"
  shows "length buf - ps3 < length buf - ps"
  using speek_step[OF assms(1)[symmetric]] gettoken_step[OF assms(2)[symmetric]] gettoken_step[OF assms(3)[symmetric]] by auto

text \<open>\<open>parseredirs\<close> gives the redirections in order; the code wraps the command in each of them, the last one outermost.\<close>

function parseredirs :: "string \<Rightarrow> nat \<Rightarrow> sh_error + (redir list \<times> nat)" where
  "parseredirs buf ps =
     (case speek buf ps ''<>'' of (ps1, found) \<Rightarrow>
      if \<not> found then Inr ([], ps1)
      else case gettoken buf ps1 of (tok, _, _, ps2) \<Rightarrow>
        case gettoken buf ps2 of (tok2, q, eq, ps3) \<Rightarrow>
          if tok2 \<noteq> CHR ''a'' then Inl (Shpanic ''missing file for redirection'')
          else sbind (parseredirs buf ps3) (\<lambda>(rs, ps4). Inr (redircmd tok q eq # rs, ps4)))"
  by pat_completeness auto
termination
  by (relation "measure (\<lambda>(buf, ps). length buf - ps)") (auto elim!: redirs_less)

declare parseredirs.simps [simp del]

lemma parseredirs_step:
  "parseredirs buf ps = Inr (rs, ps') \<Longrightarrow> ps \<le> ps' \<and> (ps \<le> length buf \<longrightarrow> ps' \<le> length buf)"
proof (induction buf ps arbitrary: rs ps' rule: parseredirs.induct)
  case (1 buf ps)
  obtain ps1 found where s: "speek buf ps ''<>'' = (ps1, found)" by fastforce
  obtain tok q1 e1 ps2 where g: "gettoken buf ps1 = (tok, q1, e1, ps2)" by (cases "gettoken buf ps1")
  obtain tok2 q eq ps3 where h: "gettoken buf ps2 = (tok2, q, eq, ps3)" by (cases "gettoken buf ps2")
  note S = speek_step[OF s] and G = gettoken_step[OF g] and H = gettoken_step[OF h]
  show ?case
  proof (cases found)
    case True
    then obtain rs' where r: "tok2 = CHR ''a''" "parseredirs buf ps3 = Inr (rs', ps')"
      using "1.prems" s g h by (subst (asm) parseredirs.simps) (auto simp: sbind_Inr split: if_splits)
    have "ps3 \<le> ps' \<and> (ps3 \<le> length buf \<longrightarrow> ps' \<le> length buf)"
      by (rule "1.IH"[OF s[symmetric] _ g[symmetric] refl refl h[symmetric] refl refl _ r(2)]) (use True r(1) in simp_all)
    then show ?thesis using S G H by auto
  next
    case False
    then show ?thesis using "1.prems" s S by (subst (asm) parseredirs.simps) auto
  qed
qed

text \<open>The loop of \<open>parseexec\<close> over the arguments, with the redirections between them.\<close>

lemma args_less:
  assumes "(ps1, False) = speek buf ps toks" "(CHR ''a'', q, eq, ps2) = gettoken buf ps1" "parseredirs buf ps2 = Inr (rs, ps3)"
  shows "length buf - ps3 < length buf - ps"
  using speek_step[OF assms(1)[symmetric]] gettoken_step[OF assms(2)[symmetric]] parseredirs_step[OF assms(3)] by auto

function parseargs :: "string \<Rightarrow> nat \<Rightarrow> nat \<Rightarrow> sh_error + (((nat \<times> nat) list \<times> redir list) \<times> nat)" where
  "parseargs buf argc ps =
     (case speek buf ps ''|)&;'' of (ps1, found) \<Rightarrow>
      if found then Inr (([], []), ps1)
      else case gettoken buf ps1 of (tok, q, eq, ps2) \<Rightarrow>
        if tok = CHR 0x00 then Inr (([], []), ps2)
        else if tok \<noteq> CHR ''a'' then Inl (Shpanic ''syntax'')
        else if MAXARGS \<le> argc + 1 then Inl (Shpanic ''too many args'')
        else sbind (parseredirs buf ps2) (\<lambda>(rs, ps3).
          sbind (parseargs buf (argc + 1) ps3) (\<lambda>((as, rs'), ps4). Inr (((q, eq) # as, rs @ rs'), ps4))))"
  by pat_completeness auto
termination
  by (relation "measure (\<lambda>(buf, argc, ps). length buf - ps)") (auto elim!: args_less)

declare parseargs.simps [simp del]

definition wrap :: "redir list \<Rightarrow> cmd \<Rightarrow> cmd" where
  "wrap rs c = fold (\<lambda>r c. REDIR c r) rs c"

subsection \<open>The grammar\<close>

lemma backs_less:
  assumes "(ps1, True) = speek buf ps toks"
  shows "length buf - after_token buf ps1 < length buf - ps"
  using speek_token[OF assms[symmetric]] by linarith

text \<open>The loop of \<open>parseline\<close> over \<open>&\<close>.\<close>

function parsebacks :: "string \<Rightarrow> cmd \<Rightarrow> nat \<Rightarrow> cmd \<times> nat" where
  "parsebacks buf c ps =
     (case speek buf ps ''&'' of (ps1, found) \<Rightarrow>
      if found then parsebacks buf (BACK c) (after_token buf ps1) else (c, ps1))"
  by pat_completeness auto
termination
  by (relation "measure (\<lambda>(buf, c, ps). length buf - ps)") (auto elim!: backs_less)

declare parsebacks.simps [simp del]

fun parseline :: "nat \<Rightarrow> string \<Rightarrow> nat \<Rightarrow> sh_error + (cmd \<times> nat)"
and parsepipe :: "nat \<Rightarrow> string \<Rightarrow> nat \<Rightarrow> sh_error + (cmd \<times> nat)"
and parseexec :: "nat \<Rightarrow> string \<Rightarrow> nat \<Rightarrow> sh_error + (cmd \<times> nat)"
and parseblock :: "nat \<Rightarrow> string \<Rightarrow> nat \<Rightarrow> sh_error + (cmd \<times> nat)" where
  "parseline 0 buf ps = Inl Nofuel"
| "parseline (Suc n) buf ps =
     sbind (parsepipe n buf ps) (\<lambda>(c, ps1).
     case parsebacks buf c ps1 of (c', ps2) \<Rightarrow>
     case speek buf ps2 '';'' of (ps3, found) \<Rightarrow>
     if found then sbind (parseline n buf (after_token buf ps3)) (\<lambda>(r, ps4). Inr (LIST c' r, ps4))
     else Inr (c', ps3))"
| "parsepipe 0 buf ps = Inl Nofuel"
| "parsepipe (Suc n) buf ps =
     sbind (parseexec n buf ps) (\<lambda>(c, ps1).
     case speek buf ps1 ''|'' of (ps2, found) \<Rightarrow>
     if found then sbind (parsepipe n buf (after_token buf ps2)) (\<lambda>(r, ps3). Inr (PIPE c r, ps3))
     else Inr (c, ps2))"
| "parseexec 0 buf ps = Inl Nofuel"
| "parseexec (Suc n) buf ps =
     (case speek buf ps ''('' of (ps1, found) \<Rightarrow>
      if found then parseblock n buf ps1
      else sbind (parseredirs buf ps1) (\<lambda>(rs, ps2).
           sbind (parseargs buf 0 ps2) (\<lambda>((as, rs'), ps3). Inr (wrap (rs @ rs') (EXEC as), ps3))))"
| "parseblock 0 buf ps = Inl Nofuel"
| "parseblock (Suc n) buf ps =
     (case speek buf ps ''('' of (ps1, found) \<Rightarrow>
      if \<not> found then Inl (Shpanic ''parseblock'')
      else sbind (parseline n buf (after_token buf ps1)) (\<lambda>(c, ps2).
        case speek buf ps2 '')'' of (ps3, closed) \<Rightarrow>
        if \<not> closed then Inl (Shpanic ''syntax - missing )'')
        else sbind (parseredirs buf (after_token buf ps3)) (\<lambda>(rs, ps4). Inr (wrap rs c, ps4))))"

subsection \<open>nulterminate\<close>

fun nulterminate :: "cmd \<Rightarrow> string \<Rightarrow> string" where
  "nulterminate (EXEC as) buf = fold (\<lambda>(q, eq) b. b[eq := CHR 0x00]) as buf"
| "nulterminate (REDIR c r) buf = (nulterminate c buf)[r_efile r := CHR 0x00]"
| "nulterminate (PIPE l r) buf = nulterminate r (nulterminate l buf)"
| "nulterminate (LIST l r) buf = nulterminate r (nulterminate l buf)"
| "nulterminate (BACK c) buf = nulterminate c buf"

definition parse_fuel :: "string \<Rightarrow> nat" where
  "parse_fuel buf = 4 * length buf + 4"

definition parsecmd :: "string \<Rightarrow> sh_error + (cmd \<times> string)" where
  "parsecmd buf =
     sbind (parseline (parse_fuel buf) buf 0) (\<lambda>(c, ps).
     case speek buf ps '''' of (s, _) \<Rightarrow>
     if s \<noteq> length buf then Inl (Shpanic ''syntax'')
     else Inr (c, nulterminate c buf))"

subsection \<open>What the parsers return\<close>

text \<open>A word: a maximal run of characters that are neither white space nor symbols.\<close>

definition word :: "string \<Rightarrow> nat \<times> nat \<Rightarrow> bool" where
  "word buf w = (case w of (q, eq) \<Rightarrow> q < eq \<and> eq \<le> length buf \<and> (\<forall>i. q \<le> i \<longrightarrow> i < eq \<longrightarrow> word_char (buf ! i))
     \<and> (eq < length buf \<longrightarrow> \<not> word_char (buf ! eq)))"

definition rword :: "string \<Rightarrow> redir \<Rightarrow> bool" where
  "rword buf r = word buf (r_file r, r_efile r)"

fun good :: "string \<Rightarrow> cmd \<Rightarrow> bool" where
  "good buf (EXEC as) \<longleftrightarrow> list_all (word buf) as \<and> length as < MAXARGS"
| "good buf (REDIR c r) \<longleftrightarrow> good buf c \<and> rword buf r"
| "good buf (PIPE l r) \<longleftrightarrow> good buf l \<and> good buf r"
| "good buf (LIST l r) \<longleftrightarrow> good buf l \<and> good buf r"
| "good buf (BACK c) \<longleftrightarrow> good buf c"

text \<open>\<open>ok buf P ps b m\<close>: \<open>m\<close> is the result of a parser that started at \<open>ps\<close>. Its value satisfies \<open>P\<close>, it stopped at or after \<open>ps\<close>
  within the line, and if \<open>b\<close> holds it did not run out of fuel.\<close>

definition ok :: "string \<Rightarrow> ('b \<Rightarrow> bool) \<Rightarrow> nat \<Rightarrow> bool \<Rightarrow> sh_error + ('b \<times> nat) \<Rightarrow> bool" where
  "ok buf P ps b m = (case m of Inl e \<Rightarrow> b \<longrightarrow> e \<noteq> Nofuel | Inr (x, ps') \<Rightarrow> P x \<and> ps \<le> ps' \<and> ps' \<le> length buf)"

lemma ok_Inr [simp]: "ok buf P ps b (Inr (x, ps')) \<longleftrightarrow> P x \<and> ps \<le> ps' \<and> ps' \<le> length buf"
  by (simp add: ok_def)

lemma ok_panic [simp]: "ok buf P ps b (Inl (Shpanic m))" and ok_nofuel: "\<not> b \<Longrightarrow> ok buf P ps b (Inl Nofuel)"
  by (simp_all add: ok_def)

lemma ok_bind:
  assumes "ok buf P ps1 b1 m" "ps \<le> ps1" "b \<Longrightarrow> b1"
    and "\<And>x ps2. P x \<Longrightarrow> ps1 \<le> ps2 \<Longrightarrow> ps2 \<le> length buf \<Longrightarrow> ok buf Q ps b (f (x, ps2))"
  shows "ok buf Q ps b (sbind m f)"
proof (cases m)
  case (Inl e)
  then show ?thesis using assms(1,3) by (auto simp: ok_def sbind_def)
next
  case (Inr r)
  then show ?thesis using assms(1,4) by (cases r) (simp add: sbind_def)
qed

lemma ok_weaken: "ok buf P ps1 b1 m \<Longrightarrow> ps \<le> ps1 \<Longrightarrow> (b \<Longrightarrow> b1) \<Longrightarrow> ok buf P ps b m"
  by (auto simp: ok_def split: sum.splits)

lemma gettoken_word:
  assumes "gettoken buf ps = (CHR ''a'', q, eq, ps')" "ps \<le> length buf"
  shows "word buf (q, eq)"
proof -
  note G = gettoken_step[OF assms(1)]
  have e: "eq = q + length (takeWhile word_char (drop q buf))" using assms(1) by (auto simp: gettoken_def Let_def split: if_splits)
  have "word_char (buf ! i)" if "q \<le> i" "i < eq" for i
  proof -
    have i: "i - q < length (takeWhile word_char (drop q buf))" using that e by simp
    then have "takeWhile word_char (drop q buf) ! (i - q) = drop q buf ! (i - q)" by (rule takeWhile_nth)
    then show ?thesis using set_takeWhileD[OF nth_mem[OF i]] that G(4) by auto
  qed
  moreover have "\<not> word_char (buf ! eq)" if "eq < length buf"
    using takeWhile_next[of word_char "drop q buf"] that e G(4) by simp
  ultimately show ?thesis using G(3,5,6) assms(2) by (auto simp: word_def)
qed

lemma rword_redircmd [simp]: "rword buf (redircmd tok q eq) = word buf (q, eq)"
  by (simp add: rword_def redircmd_def)

lemma redirs_ok: "ps \<le> length buf \<Longrightarrow> ok buf (list_all (rword buf)) ps True (parseredirs buf ps)"
proof (induction buf ps rule: parseredirs.induct)
  case (1 buf ps)
  obtain ps1 found where s: "speek buf ps ''<>'' = (ps1, found)" by fastforce
  obtain tok q1 e1 ps2 where g: "gettoken buf ps1 = (tok, q1, e1, ps2)" by (cases "gettoken buf ps1")
  obtain tok2 q eq ps3 where h: "gettoken buf ps2 = (tok2, q, eq, ps3)" by (cases "gettoken buf ps2")
  note S = speek_step[OF s] and G = gettoken_step[OF g] and H = gettoken_step[OF h]
  have le: "ps1 \<le> length buf" "ps2 \<le> length buf" "ps3 \<le> length buf" "ps \<le> ps3" using S G H "1.prems" by auto
  show ?case
  proof (cases "found \<and> tok2 = CHR ''a''")
    case True
    then have w: "word buf (q, eq)" using gettoken_word[of buf ps2 q eq ps3] h le(2) by simp
    have ih: "ok buf (list_all (rword buf)) ps3 True (parseredirs buf ps3)"
      by (rule "1.IH"[OF s[symmetric] _ g[symmetric] refl refl h[symmetric] refl refl _ le(3)]) (use True in simp_all)
    show ?thesis unfolding parseredirs.simps[of buf ps]
      using True by (simp add: s g h) (rule ok_bind[OF ih], use le w in auto)
  qed (use S(2) le in \<open>auto simp: parseredirs.simps[of buf ps] s g h\<close>)
qed

definition good_args :: "string \<Rightarrow> nat \<Rightarrow> (nat \<times> nat) list \<times> redir list \<Rightarrow> bool" where
  "good_args buf argc r = (case r of (as, rs) \<Rightarrow> list_all (word buf) as \<and> argc + length as < MAXARGS \<and> list_all (rword buf) rs)"

lemma args_ok: "ps \<le> length buf \<Longrightarrow> argc < MAXARGS \<Longrightarrow> ok buf (good_args buf argc) ps True (parseargs buf argc ps)"
proof (induction buf argc ps rule: parseargs.induct)
  case (1 buf argc ps)
  obtain ps1 found where s: "speek buf ps ''|)&;'' = (ps1, found)" by fastforce
  obtain tok q eq ps2 where g: "gettoken buf ps1 = (tok, q, eq, ps2)" by (cases "gettoken buf ps1")
  note S = speek_step[OF s] and G = gettoken_step[OF g]
  have le: "ps1 \<le> length buf" "ps2 \<le> length buf" "ps \<le> ps2" using S G "1.prems" by auto
  show ?case
  proof (cases "\<not> found \<and> tok = CHR ''a'' \<and> argc + 1 < MAXARGS")
    case True
    then have w: "word buf (q, eq)" using gettoken_word[of buf ps1 q eq ps2] g le(1) by simp
    have ih: "ok buf (good_args buf (argc + 1)) ps3 True (parseargs buf (argc + 1) ps3)"
      if "parseredirs buf ps2 = Inr (rs, ps3)" "ps3 \<le> length buf" for rs ps3
      by (rule "1.IH"[OF s[symmetric] _ g[symmetric] refl refl _ _ _ that(1) refl that(2)]) (use True in simp_all)
    have "ok buf (good_args buf argc) ps True (sbind (parseredirs buf ps2) (\<lambda>(rs, ps3).
          sbind (parseargs buf (argc + 1) ps3) (\<lambda>((as, rs'), ps4). Inr (((q, eq) # as, rs @ rs'), ps4))))"
    proof (cases "parseredirs buf ps2")
      case (Inr r)
      obtain rs ps3 where r: "r = (rs, ps3)" by (cases r)
      have R: "list_all (rword buf) rs" "ps2 \<le> ps3" "ps3 \<le> length buf" using redirs_ok[OF le(2)] Inr r by simp_all
      show ?thesis unfolding Inr r
        by (simp only: sbind_val prod.case) (rule ok_bind[OF ih[OF Inr[unfolded r] R(3)]], use le R w in \<open>auto simp: good_args_def\<close>)
    qed (use redirs_ok[OF le(2)] in \<open>auto simp: ok_def sbind_def\<close>)
    then show ?thesis using True by (simp add: parseargs.simps[of buf argc ps] s g)
  qed (use S(2) le "1.prems" in \<open>auto simp: parseargs.simps[of buf argc ps] s g good_args_def\<close>)
qed

lemma backs_ok:
  "ps \<le> length buf \<Longrightarrow> good buf c \<Longrightarrow> parsebacks buf c ps = (c', ps') \<Longrightarrow> good buf c' \<and> ps \<le> ps' \<and> ps' \<le> length buf"
proof (induction buf c ps rule: parsebacks.induct)
  case (1 buf c ps)
  obtain ps1 found where s: "speek buf ps ''&'' = (ps1, found)" by fastforce
  show ?case
  proof (cases found)
    case True
    have T: "ps < after_token buf ps1" "after_token buf ps1 \<le> length buf" using speek_token[of buf ps "''&''" ps1] s True by simp_all
    have "parsebacks buf (BACK c) (after_token buf ps1) = (c', ps')" using "1.prems"(3) True by (simp add: parsebacks.simps[of buf c ps] s)
    then show ?thesis using "1.IH"[OF s[symmetric] True T(2)] T(1) "1.prems"(2) by auto
  next
    case False
    then show ?thesis using "1.prems" speek_step[OF s] by (auto simp: parsebacks.simps[of buf c ps] s)
  qed
qed

lemma good_wrap [simp]: "good buf (wrap rs c) \<longleftrightarrow> good buf c \<and> list_all (rword buf) rs"
  by (induction rs arbitrary: c) (auto simp: wrap_def)

lemma parse_ok:
  "ps \<le> length buf \<Longrightarrow> ok buf (good buf) ps (4 * (length buf - ps) + 4 \<le> n) (parseline n buf ps)"
  "ps \<le> length buf \<Longrightarrow> ok buf (good buf) ps (4 * (length buf - ps) + 3 \<le> n) (parsepipe n buf ps)"
  "ps \<le> length buf \<Longrightarrow> ok buf (good buf) ps (4 * (length buf - ps) + 2 \<le> n) (parseexec n buf ps)"
  "ps \<le> length buf \<Longrightarrow> ok buf (good buf) ps (4 * (length buf - ps) + 1 \<le> n) (parseblock n buf ps)"
proof (induction n arbitrary: ps)
  case (Suc n)
  { case 1
    show ?case unfolding parseline.simps
    proof (rule ok_bind[OF Suc(2)[OF 1]])
      fix c ps1 assume c: "good buf c" "ps \<le> ps1" "ps1 \<le> length buf"
      obtain c2 ps2 where b: "parsebacks buf c ps1 = (c2, ps2)" by fastforce
      obtain ps3 found where s: "speek buf ps2 '';'' = (ps3, found)" by fastforce
      note B = backs_ok[OF c(3,1) b] and S = speek_step(2,4)[OF s] and T = speek_token[of buf ps2 "'';''" ps3]
      show "ok buf (good buf) ps (4 * (length buf - ps) + 4 \<le> Suc n)
          (case (c, ps1) of (c, ps1) \<Rightarrow> case parsebacks buf c ps1 of (c', ps2) \<Rightarrow> case speek buf ps2 '';'' of (ps3, found) \<Rightarrow>
            if found then sbind (parseline n buf (after_token buf ps3)) (\<lambda>(r, ps4). Inr (LIST c' r, ps4)) else Inr (c', ps3))"
        using B S T s c(2) by (simp add: b) (auto intro!: ok_bind[OF Suc(1)])
    qed auto }
  { case 2
    show ?case unfolding parsepipe.simps
    proof (rule ok_bind[OF Suc(3)[OF 2]])
      fix c ps1 assume c: "good buf c" "ps \<le> ps1" "ps1 \<le> length buf"
      obtain ps3 found where s: "speek buf ps1 ''|'' = (ps3, found)" by fastforce
      note S = speek_step(2,4)[OF s] and T = speek_token[of buf ps1 "''|''" ps3]
      show "ok buf (good buf) ps (4 * (length buf - ps) + 3 \<le> Suc n)
          (case (c, ps1) of (c, ps1) \<Rightarrow> case speek buf ps1 ''|'' of (ps2, found) \<Rightarrow>
            if found then sbind (parsepipe n buf (after_token buf ps2)) (\<lambda>(r, ps3). Inr (PIPE c r, ps3)) else Inr (c, ps2))"
        using S T s c by simp (auto intro!: ok_bind[OF Suc(2)])
    qed auto }
  { case 3
    obtain ps1 found where s: "speek buf ps ''('' = (ps1, found)" by fastforce
    note S = speek_step(2,4)[OF s]
    show ?case
    proof (cases found)
      case True
      then show ?thesis using s S 3 by (auto intro!: ok_weaken[OF Suc(4)])
    next
      case False
      then show ?thesis using s S 3
        by (auto intro!: ok_bind[OF redirs_ok] ok_bind[OF args_ok] simp: good_args_def MAXARGS_def)
    qed }
  { case 4
    obtain ps1 found where s: "speek buf ps ''('' = (ps1, found)" by fastforce
    note S = speek_step(2,4)[OF s] and T = speek_token[of buf ps "''(''" ps1]
    show ?case
    proof (cases found)
      case True
      have T: "ps < after_token buf ps1" "after_token buf ps1 \<le> length buf" using T s True by simp_all
      have "ok buf (good buf) ps (4 * (length buf - ps) + 1 \<le> Suc n) (sbind (parseline n buf (after_token buf ps1)) (\<lambda>(c, ps2).
        case speek buf ps2 '')'' of (ps3, closed) \<Rightarrow>
        if \<not> closed then Inl (Shpanic ''syntax - missing )'')
        else sbind (parseredirs buf (after_token buf ps3)) (\<lambda>(rs, ps4). Inr (wrap rs c, ps4))))"
      proof (rule ok_bind[OF Suc(1)[OF T(2)]])
        fix c ps2 assume c: "good buf c" "after_token buf ps1 \<le> ps2" "ps2 \<le> length buf"
        obtain ps3 closed where s2: "speek buf ps2 '')'' = (ps3, closed)" by fastforce
        show "ok buf (good buf) ps (4 * (length buf - ps) + 1 \<le> Suc n) (case (c, ps2) of (c, ps2) \<Rightarrow>
            case speek buf ps2 '')'' of (ps3, closed) \<Rightarrow> if \<not> closed then Inl (Shpanic ''syntax - missing )'')
            else sbind (parseredirs buf (after_token buf ps3)) (\<lambda>(rs, ps4). Inr (wrap rs c, ps4)))"
          using s2 c T speek_token[of buf ps2 "'')''" ps3] by (auto intro!: ok_bind[OF redirs_ok])
      qed (use T in auto)
      then show ?thesis using s True by simp
    qed (use s in simp) }
qed (simp_all add: ok_nofuel)

subsection \<open>The bound on the depth of calls does not matter\<close>

definition fle :: "sh_error + 'b \<Rightarrow> sh_error + 'b \<Rightarrow> bool" where
  "fle m m' \<longleftrightarrow> m = Inl Nofuel \<or> m = m'"

lemma fle_refl [simp]: "fle m m" and fle_bot [simp]: "fle (Inl Nofuel) m"
  by (simp_all add: fle_def)

lemma fle_bind: "fle m m' \<Longrightarrow> (\<And>x. fle (f x) (f' x)) \<Longrightarrow> fle (sbind m f) (sbind m' f')"
  by (auto simp: fle_def sbind_def split: sum.splits)

lemmas parse_simps = parseline.simps parsepipe.simps parseexec.simps parseblock.simps

lemma parse_mono:
  "fle (parseline n buf ps) (parseline (Suc n) buf ps)" "fle (parsepipe n buf ps) (parsepipe (Suc n) buf ps)"
  "fle (parseexec n buf ps) (parseexec (Suc n) buf ps)" "fle (parseblock n buf ps) (parseblock (Suc n) buf ps)"
proof (induction n arbitrary: ps)
  case (Suc n)
  { case 1 show ?case unfolding parseline.simps(2)[of "Suc n" buf ps] parseline.simps(2)[of n buf ps]
      by (rule fle_bind[OF Suc(2)]) (auto simp del: parse_simps split: prod.split intro!: fle_bind[OF Suc(1)]) }
  { case 2 show ?case unfolding parsepipe.simps(2)[of "Suc n" buf ps] parsepipe.simps(2)[of n buf ps]
      by (rule fle_bind[OF Suc(3)]) (auto simp del: parse_simps split: prod.split intro!: fle_bind[OF Suc(2)]) }
  { case 3 show ?case unfolding parseexec.simps(2)[of "Suc n" buf ps] parseexec.simps(2)[of n buf ps]
      using Suc(4) by (auto simp del: parse_simps split: prod.split) }
  { case 4 show ?case unfolding parseblock.simps(2)[of "Suc n" buf ps] parseblock.simps(2)[of n buf ps]
      by (auto simp del: parse_simps split: prod.split intro!: fle_bind[OF Suc(1)]) }
qed simp_all

lemma parse_enough:
  assumes "parse_fuel buf \<le> n"
  shows "parseline n buf 0 = parseline (parse_fuel buf) buf 0" "parseline n buf 0 \<noteq> Inl Nofuel"
proof -
  have f: "parseline m buf 0 \<noteq> Inl Nofuel" if "parse_fuel buf \<le> m" for m
    using parse_ok(1)[of 0 buf m] that by (auto simp: ok_def parse_fuel_def)
  show "parseline n buf 0 \<noteq> Inl Nofuel" by (rule f[OF assms])
  show "parseline n buf 0 = parseline (parse_fuel buf) buf 0" using assms
  proof (induction n rule: dec_induct)
    case (step m)
    then show ?case using parse_mono(1)[of m buf 0] f[of m] by (auto simp: fle_def)
  qed simp
qed

subsection \<open>The words of a parsed command\<close>

fun toks :: "cmd \<Rightarrow> (nat \<times> nat) list" where
  "toks (EXEC as) = as"
| "toks (REDIR c r) = toks c @ [(r_file r, r_efile r)]"
| "toks (PIPE l r) = toks l @ toks r"
| "toks (LIST l r) = toks l @ toks r"
| "toks (BACK c) = toks c"

fun arg_counts :: "cmd \<Rightarrow> nat list" where
  "arg_counts (EXEC as) = [length as]"
| "arg_counts (REDIR c r) = arg_counts c"
| "arg_counts (PIPE l r) = arg_counts l @ arg_counts r"
| "arg_counts (LIST l r) = arg_counts l @ arg_counts r"
| "arg_counts (BACK c) = arg_counts c"

definition put_nuls :: "(nat \<times> nat) list \<Rightarrow> string \<Rightarrow> string" where
  "put_nuls ws buf = fold (\<lambda>(q, eq) b. b[eq := CHR 0x00]) ws buf"

lemma nulterminate_toks: "nulterminate c buf = put_nuls (toks c) buf"
  by (induction c arbitrary: buf) (auto simp: put_nuls_def)

lemma put_nuls_nth:
  "length (put_nuls ws buf) = length buf"
  "i < length buf \<Longrightarrow> put_nuls ws buf ! i = (if i \<in> snd ` set ws then CHR 0x00 else buf ! i)"
proof (induction ws arbitrary: buf)
  case (Cons w ws)
  { case 1 show ?case using Cons(1)[of "buf[snd w := CHR 0x00]"] by (cases w) (simp add: put_nuls_def) }
  { case 2 then show ?case using Cons(2)[of "buf[snd w := CHR 0x00]"] by (cases w) (auto simp: put_nuls_def nth_list_update) }
qed (simp_all add: put_nuls_def)

lemma good_toks: "good buf c \<Longrightarrow> list_all (word buf) (toks c) \<and> list_all (\<lambda>n. n < MAXARGS) (arg_counts c)"
  by (induction c) (auto simp: rword_def)

text \<open>The C string that starts at position \<open>q\<close>.\<close>

definition cstring :: "string \<Rightarrow> nat \<Rightarrow> string" where
  "cstring buf q = takeWhile (\<lambda>c. c \<noteq> CHR 0x00) (drop q buf)"

lemma takeWhile_prefix:
  assumes "\<And>i. i < n \<Longrightarrow> P (xs ! i)" "n \<le> length xs" "n < length xs \<Longrightarrow> \<not> P (xs ! n)"
  shows "takeWhile P xs = take n xs"
  using takeWhile_eq_take_P_nth[of n xs P] assms by blast

lemma terminated_word:
  assumes ws: "list_all (word buf) ws" and w: "(q, eq) \<in> set ws" and nul: "CHR 0x00 \<notin> set buf"
  shows "cstring (put_nuls ws buf) q = take (eq - q) (drop q buf)"
proof -
  have q: "q < eq" "eq \<le> length buf" "\<And>i. q \<le> i \<Longrightarrow> i < eq \<Longrightarrow> word_char (buf ! i)"
    using ws w by (auto simp: list_all_iff word_def)
  have keep: "put_nuls ws buf ! i = buf ! i" if "q \<le> i" "i < eq" for i
  proof -
    have "i \<notin> snd ` set ws"
    proof
      assume "i \<in> snd ` set ws"
      then obtain p where "(p, i) \<in> set ws" by auto
      then have "\<not> word_char (buf ! i)" using ws that q(2) by (auto simp: list_all_iff word_def)
      then show False using q(3)[OF that] by simp
    qed
    then show ?thesis using put_nuls_nth(2)[of i buf ws] that q(2) by simp
  qed
  have "takeWhile (\<lambda>c. c \<noteq> CHR 0x00) (drop q (put_nuls ws buf)) = take (eq - q) (drop q (put_nuls ws buf))"
  proof (rule takeWhile_prefix)
    fix i assume i: "i < eq - q"
    then have "q + i < length buf" using q(2) by linarith
    then have "buf ! (q + i) \<noteq> CHR 0x00" using nul nth_mem[of "q + i" buf] by metis
    then show "drop q (put_nuls ws buf) ! i \<noteq> CHR 0x00" using keep[of "q + i"] i q(2) put_nuls_nth(1)[of ws buf] by simp
  next
    assume "eq - q < length (drop q (put_nuls ws buf))"
    then have "eq < length buf" using put_nuls_nth(1)[of ws buf] q by simp
    moreover have "eq \<in> snd ` set ws" using w by force
    ultimately show "\<not> drop q (put_nuls ws buf) ! (eq - q) \<noteq> CHR 0x00" using put_nuls_nth(1)[of ws buf] put_nuls_nth(2)[of eq buf ws] q by simp
  qed (use q put_nuls_nth(1)[of ws buf] in simp)
  also have "\<dots> = take (eq - q) (drop q buf)"
    by (rule nth_equalityI) (use q keep put_nuls_nth(1)[of ws buf] in auto)
  finally show ?thesis by (simp add: cstring_def)
qed

text \<open>C28: the shell's parser terminates. On every line the recursive descent ends within four calls per character: with that bound on the depth of
  calls, or any larger one, it never runs out, and the result does not depend on the bound.\<close>

theorem parse_terminates:
  "\<forall>k. parseline (parse_fuel buf + k) buf 0 = parseline (parse_fuel buf) buf 0 \<and> parseline (parse_fuel buf + k) buf 0 \<noteq> Inl Nofuel"
  by (intro allI conjI parse_enough le_add1)

text \<open>C15: the shape of parsed commands. When \<open>parsecmd\<close> accepts a line, every command in it has fewer than MAXARGS arguments, so that the
  argument vector has room for its null pointer; and every argument and file name is a non-empty run of characters other than
  white space and symbols, which after \<open>nulterminate\<close> is exactly the C string at its position: terminating one word
  never damages another.\<close>

theorem parsecmd_words:
  assumes "parsecmd buf = Inr (c, buf')" and "CHR 0x00 \<notin> set buf"
  shows "list_all (\<lambda>n. n < MAXARGS) (arg_counts c)
    \<and> (\<forall>(q, eq)\<in>set (toks c). q < eq \<and> cstring buf' q = take (eq - q) (drop q buf) \<and> list_all word_char (cstring buf' q))"
proof -
  obtain ps where p: "parseline (parse_fuel buf) buf 0 = Inr (c, ps)" and b: "buf' = nulterminate c buf"
    using assms(1) by (auto simp: parsecmd_def sbind_Inr speek_def Let_def split: if_splits)
  have g: "good buf c" using parse_ok(1)[of 0 buf "parse_fuel buf"] p by simp
  note G = good_toks[OF g]
  have "\<forall>(q, eq)\<in>set (toks c). q < eq \<and> cstring buf' q = take (eq - q) (drop q buf) \<and> list_all word_char (cstring buf' q)"
  proof (clarify)
    fix q eq assume w: "(q, eq) \<in> set (toks c)"
    have "word buf (q, eq)" using G w by (auto simp: list_all_iff)
    moreover have "cstring buf' q = take (eq - q) (drop q buf)"
      unfolding b nulterminate_toks by (rule terminated_word[OF _ w assms(2)]) (use G in simp)
    ultimately show "q < eq \<and> cstring buf' q = take (eq - q) (drop q buf) \<and> list_all word_char (cstring buf' q)"
      by (auto simp: word_def list_all_length)
  qed
  then show ?thesis using G by simp
qed

theorem parsecmd_words_witness:
  "\<exists>c buf'. parsecmd ''cat <a|wc'' = Inr (c, buf') \<and> c = PIPE (REDIR (EXEC [(0, 3)]) \<lparr>r_file = 5, r_efile = 6, r_mode = 0, r_fd = 0\<rparr>) (EXEC [(7, 9)])
    \<and> cstring buf' 0 = ''cat'' \<and> cstring buf' 5 = ''a'' \<and> cstring buf' 7 = ''wc''"
proof -
  let ?c = "PIPE (REDIR (EXEC [(0, 3)]) \<lparr>r_file = 5, r_efile = 6, r_mode = 0, r_fd = 0\<rparr>) (EXEC [(7, 9)])"
  obtain buf' where p: "parsecmd ''cat <a|wc'' = Inr (?c, buf')"
    by (rule that[of "nulterminate ?c ''cat <a|wc''"]) code_simp
  have n: "CHR 0x00 \<notin> set ''cat <a|wc''" by simp
  have "\<forall>(q, eq)\<in>set (toks ?c). q < eq \<and> cstring buf' q = take (eq - q) (drop q ''cat <a|wc'') \<and> list_all word_char (cstring buf' q)"
    using parsecmd_words[OF p n] by (rule conjunct2)
  then show ?thesis using p by (intro exI[of _ ?c] exI[of _ buf']) simp
qed

end
