(* ===== verification/Umalloc.thy ===== *)
theory Umalloc
  imports Kernel_Prelude
begin

text \<open>
  The storage allocator of user programs (user/umalloc.c). A header is at a byte address and has a link and a size in units of 16 bytes;
  the state has the headers, the pointer \<open>freep\<close> (0 before the first call), the address of the static header \<open>base\<close> and the end of the
  memory got from \<open>sbrk\<close> so far. Headers are only read where one was written, and the theorems show that those in use do not overlap.

  The loops follow the circular list of free blocks and end only when the list is well formed: they are partial functions, and
  that they return is part of the theorems. \<open>sbrk\<close> is a parameter: it gets the end of the memory obtained so far and the number of bytes,
  and gives the address of the new area or nothing. \<open>sbrk_ok\<close> is what is used of it: a new area lies behind every earlier one, and
  addresses stay below \<open>2 ^ 36\<close>, which is what sizes of 32 bits can count.
\<close>

subsection \<open>State\<close>

record um =
  nx :: "nat \<Rightarrow> nat"
  sz :: "nat \<Rightarrow> uint"
  freep :: nat
  um_base :: nat
  um_top :: nat

definition sbrk_ok :: "(nat \<Rightarrow> int \<Rightarrow> nat option) \<Rightarrow> bool" where
  "sbrk_ok sbrk \<longleftrightarrow> (\<forall>b n a. 0 < n \<longrightarrow> sbrk b n = Some a \<longrightarrow> b \<le> a \<and> int a + n < 2 ^ 36)"

subsection \<open>free\<close>

partial_function (option) free_find :: "um \<Rightarrow> nat \<Rightarrow> nat \<Rightarrow> nat option" where
  "free_find s bp p =
     (if p < bp \<and> bp < nx s p then Some p
      else if nx s p \<le> p \<and> (p < bp \<or> bp < nx s p) then Some p
      else free_find s bp (nx s p))"

definition free_at :: "nat \<Rightarrow> nat \<Rightarrow> um \<Rightarrow> um" where
  "free_at bp p s =
     (let s1 = (if bp + 16 * unat (sz s bp) = nx s p
                then s\<lparr>sz := (sz s)(bp := sz s bp + sz s (nx s p)), nx := (nx s)(bp := nx s (nx s p))\<rparr>
                else s\<lparr>nx := (nx s)(bp := nx s p)\<rparr>);
          s2 = (if p + 16 * unat (sz s1 p) = bp
                then s1\<lparr>sz := (sz s1)(p := sz s1 p + sz s1 bp), nx := (nx s1)(p := nx s1 bp)\<rparr>
                else s1\<lparr>nx := (nx s1)(p := bp)\<rparr>)
      in s2\<lparr>freep := p\<rparr>)"

definition ufree :: "nat \<Rightarrow> um \<Rightarrow> um option" where
  "ufree ap s = (let bp = ap - 16 in map_option (\<lambda>p. free_at bp p s) (free_find s bp (freep s)))"

subsection \<open>malloc\<close>

text \<open>\<open>nu * sizeof(Header)\<close> has 64 bits; the parameter of \<open>sbrk\<close> is an int.\<close>

definition sbrk_arg :: "uint \<Rightarrow> int" where
  "sbrk_arg nu = sint (ucast (ucast nu * 16 :: uint64) :: 32 word)"

definition morecore :: "(nat \<Rightarrow> int \<Rightarrow> nat option) \<Rightarrow> uint \<Rightarrow> um \<Rightarrow> (nat \<times> um) option" where
  "morecore sbrk nu s =
     (let nu = (if nu < 4096 then 4096 else nu) in
      case sbrk (um_top s) (sbrk_arg nu) of
        None \<Rightarrow> Some (0, s)
      | Some hp \<Rightarrow>
          map_option (\<lambda>t. (freep t, t)) (ufree (hp + 16) (s\<lparr>um_top := nat (int hp + sbrk_arg nu), sz := (sz s)(hp := nu)\<rparr>)))"

definition take_block :: "uint \<Rightarrow> nat \<Rightarrow> nat \<Rightarrow> um \<Rightarrow> nat \<times> um" where
  "take_block nunits prevp p s =
     (if sz s p = nunits then (p + 16, s\<lparr>nx := (nx s)(prevp := nx s p), freep := prevp\<rparr>)
      else let n = sz s p - nunits; q = p + 16 * unat n in
        (q + 16, s\<lparr>sz := (sz s)(p := n, q := nunits), freep := prevp\<rparr>))"

partial_function (option) malloc_loop :: "(nat \<Rightarrow> int \<Rightarrow> nat option) \<Rightarrow> uint \<Rightarrow> nat \<Rightarrow> nat \<Rightarrow> um \<Rightarrow> (nat \<times> um) option" where
  "malloc_loop sbrk nunits prevp p s =
     (if nunits \<le> sz s p then Some (take_block nunits prevp p s)
      else if p = freep s
      then Option.bind (morecore sbrk nunits s) (\<lambda>(p, s). if p = 0 then Some (0, s) else malloc_loop sbrk nunits p (nx s p) s)
      else malloc_loop sbrk nunits p (nx s p) s)"

definition nunits_of :: "uint \<Rightarrow> uint" where
  "nunits_of nbytes = ucast (((ucast nbytes :: uint64) + 16 - 1) div 16 + 1)"

definition umalloc :: "(nat \<Rightarrow> int \<Rightarrow> nat option) \<Rightarrow> uint \<Rightarrow> um \<Rightarrow> (nat \<times> um) option" where
  "umalloc sbrk nbytes s =
     (let s = (if freep s = 0 then s\<lparr>nx := (nx s)(um_base s := um_base s), freep := um_base s, sz := (sz s)(um_base s := 0)\<rparr> else s)
      in malloc_loop sbrk (nunits_of nbytes) (freep s) (nx s (freep s)) s)"

subsection \<open>The circular list\<close>

text \<open>\<open>links f xs e\<close>: following \<open>f\<close> from the first element of \<open>xs\<close> passes through \<open>xs\<close> and then comes to \<open>e\<close>.\<close>

fun links :: "(nat \<Rightarrow> nat) \<Rightarrow> nat list \<Rightarrow> nat \<Rightarrow> bool" where
  "links f [] e = True"
| "links f (x # xs) e = (f x = hd (xs @ [e]) \<and> links f xs e)"

lemma links_append: "links f (xs @ ys) e \<longleftrightarrow> links f xs (hd (ys @ [e])) \<and> links f ys e"
  by (induction xs) (auto simp: hd_append)

lemma links_cong: "(\<And>x. x \<in> set xs \<Longrightarrow> f x = g x) \<Longrightarrow> links f xs e = links g xs e"
  by (induction xs) auto

lemma links_next: "links f xs e \<Longrightarrow> x \<in> set xs \<Longrightarrow> f x \<in> insert e (set xs)"
  by (induction xs) (auto simp: hd_append split: if_splits)

text \<open>The search of \<open>free\<close> passes over a stretch of the list where it does not stop.\<close>

lemma free_find_skip:
  assumes "links (nx s) xs e" "\<And>x. x \<in> set xs \<Longrightarrow> \<not> (x < bp \<and> bp < nx s x) \<and> \<not> (nx s x \<le> x \<and> (x < bp \<or> bp < nx s x))"
  shows "free_find s bp (hd (xs @ [e])) = free_find s bp e"
  using assms
proof (induction xs)
  case (Cons x xs)
  have "free_find s bp x = free_find s bp (nx s x)" using Cons.prems(2)[of x] by (subst free_find.simps) auto
  then show ?case using Cons by simp
qed simp

lemma links_sorted: "links f xs e \<Longrightarrow> sorted_wrt (<) xs \<Longrightarrow> x \<in> set xs \<Longrightarrow> f x = e \<or> (x < f x \<and> f x \<in> set xs)"
  by (induction xs) (auto simp: hd_append neq_Nil_conv split: if_splits)

subsection \<open>Well-formed heaps\<close>

definition bend :: "um \<Rightarrow> nat \<Rightarrow> nat" where
  "bend s a = a + 16 * unat (sz s a)"

text \<open>\<open>fl\<close> are the free blocks in the order of their addresses, \<open>al\<close> the blocks in use. The list goes from \<open>base\<close> through the free
  blocks and back, and no two blocks overlap.\<close>

definition um_inv :: "um \<Rightarrow> nat list \<Rightarrow> nat set \<Rightarrow> bool" where
  "um_inv s fl al \<longleftrightarrow> freep s \<in> insert (um_base s) (set fl) \<and> 0 < um_base s \<and> sz s (um_base s) = 0 \<and> links (nx s) (um_base s # fl) (um_base s)
     \<and> sorted_wrt (<) fl \<and> set fl \<inter> al = {}
     \<and> (\<forall>a\<in>set fl \<union> al. um_base s + 16 \<le> a \<and> 0 < sz s a \<and> bend s a \<le> um_top s)
     \<and> (\<forall>a\<in>set fl \<union> al. \<forall>b\<in>set fl \<union> al. a < b \<longrightarrow> bend s a \<le> b)
     \<and> um_base s + 16 \<le> um_top s \<and> um_top s < 2 ^ 36"

text \<open>No free block ends where the next one begins.\<close>

fun coal :: "um \<Rightarrow> nat list \<Rightarrow> bool" where
  "coal s (a # b # xs) = (bend s a \<noteq> b \<and> coal s (b # xs))"
| "coal s xs = True"

lemma um_invD:
  assumes "um_inv s fl al"
  shows "freep s \<in> insert (um_base s) (set fl)" "0 < um_base s" "sz s (um_base s) = 0" "links (nx s) (um_base s # fl) (um_base s)"
    "sorted_wrt (<) fl" "set fl \<inter> al = {}" "a \<in> set fl \<union> al \<Longrightarrow> um_base s + 16 \<le> a" "a \<in> set fl \<union> al \<Longrightarrow> 0 < sz s a"
    "a \<in> set fl \<union> al \<Longrightarrow> bend s a \<le> um_top s" "a \<in> set fl \<union> al \<Longrightarrow> b \<in> set fl \<union> al \<Longrightarrow> a < b \<Longrightarrow> bend s a \<le> b"
    "um_base s + 16 \<le> um_top s" "um_top s < 2 ^ 36"
  using assms by (auto simp: um_inv_def)

lemma bend_gt: "0 < sz s a \<Longrightarrow> a < bend s a"
  by (simp add: bend_def unat_gt_0 word_neq_0_conv[symmetric])

lemma um_base_notin: "um_inv s fl al \<Longrightarrow> um_base s \<notin> set fl \<union> al"
  using um_invD(7) by fastforce

text \<open>Memory of blocks in use is not written.\<close>

definition kept :: "um \<Rightarrow> um \<Rightarrow> nat set \<Rightarrow> bool" where
  "kept s t al \<longleftrightarrow> (\<forall>a\<in>al. \<forall>x. a \<le> x \<and> x < bend s a \<longrightarrow> nx t x = nx s x \<and> sz t x = sz s x)"

lemma kept_refl [simp]: "kept s s al"
  by (simp add: kept_def)

lemma kept_bend:
  assumes "kept s t al" "a \<in> al" "0 < sz s a"
  shows "bend t a = bend s a" "sz t a = sz s a"
proof -
  show "sz t a = sz s a" using assms bend_gt[of s a] unfolding kept_def by blast
  then show "bend t a = bend s a" by (simp add: bend_def)
qed

lemma kept_trans:
  assumes "kept s t al" "kept t u al" "\<forall>a\<in>al. 0 < sz s a"
  shows "kept s u al"
  unfolding kept_def
proof (intro ballI allI impI)
  fix a x assume a: "a \<in> al" "a \<le> x \<and> x < bend s a"
  have "bend t a = bend s a" using kept_bend(1)[OF assms(1) a(1)] assms(3) a(1) by blast
  then show "nx u x = nx s x \<and> sz u x = sz s x" using assms(1,2) a unfolding kept_def by metis
qed

lemma outside_block:
  assumes "um_inv s fl al" "a \<in> set fl \<union> al" "b \<in> insert (um_base s) (set fl \<union> al)" "a \<noteq> b" "a \<le> x" "x < bend s a"
  shows "x \<noteq> b"
proof
  assume x: "x = b"
  show False
  proof (cases "b = um_base s")
    case True
    then show False using um_invD(7)[OF assms(1,2)] assms(5) x by simp
  next
    case False
    then have "b \<in> set fl \<union> al" "a < b" using assms(3-5) x by auto
    then show False using um_invD(10)[OF assms(1,2)] assms(6) x by fastforce
  qed
qed

text \<open>A change of the headers of free blocks, of \<open>base\<close> or of a block that is being freed keeps the other blocks in use.\<close>

lemma kept_outside:
  assumes "um_inv s fl al" "al' \<subseteq> al" "Y \<subseteq> insert (um_base s) (set fl \<union> al)" "Y \<inter> al' = {}"
    "\<And>x. x \<notin> Y \<Longrightarrow> nx t x = nx s x \<and> sz t x = sz s x"
  shows "kept s t al'"
  unfolding kept_def
proof (intro ballI allI impI)
  fix a x assume a: "a \<in> al'" "a \<le> x \<and> x < bend s a"
  have "x \<notin> Y"
  proof
    assume x: "x \<in> Y"
    then have "a \<noteq> x" using a(1) assms(4) by blast
    then show False using outside_block[OF assms(1), of a x x] a assms(2,3) x by blast
  qed
  then show "nx t x = nx s x \<and> sz t x = sz s x" by (rule assms(5))
qed

subsection \<open>Putting a block on the list, joining two blocks\<close>

definition link_in :: "nat \<Rightarrow> nat \<Rightarrow> um \<Rightarrow> um" where
  "link_in bp p s = s\<lparr>nx := (nx s)(bp := nx s p, p := bp), freep := p\<rparr>"

definition join :: "nat \<Rightarrow> nat \<Rightarrow> um \<Rightarrow> um" where
  "join a b s = s\<lparr>sz := (sz s)(a := sz s a + sz s b), nx := (nx s)(a := nx s b)\<rparr>"

definition join_adj :: "nat \<Rightarrow> nat \<Rightarrow> um \<Rightarrow> um" where
  "join_adj a b s = (if bend s a = b then join a b s else s)"

lemma free_at_eq:
  assumes "p \<noteq> bp" "nx s p \<noteq> bp" "bend s bp \<noteq> p"
  shows "free_at bp p s = join_adj p bp (join_adj bp (nx s p) (link_in bp p s))"
  using assms by (cases s) (simp add: free_at_def join_adj_def join_def link_in_def bend_def Let_def fun_upd_twist)

lemma link_in_inv:
  assumes i: "um_inv s (us @ vs) al" and bp: "bp \<in> al" and u: "\<forall>x\<in>set us. x < bp" and v: "\<forall>x\<in>set vs. bp < x" and p: "p = last (um_base s # us)"
  shows "um_inv (link_in bp p s) (us @ bp # vs) (al - {bp})" "kept s (link_in bp p s) (al - {bp})"
proof -
  let ?t = "link_in bp p s"
  obtain ws where ws: "um_base s # us = ws @ [p]" unfolding p by (metis append_butlast_last_id list.distinct(1))
  have pm: "p \<in> insert (um_base s) (set us)" unfolding p by (metis last_in_set list.distinct(1) list.set(2))
  note D = um_invD[OF i]
  have d: "sorted_wrt (<) (um_base s # us @ vs)" using D(5) D(7) by fastforce
  then have "sorted_wrt (<) (ws @ p # vs)" using ws by (metis append.assoc append_Cons append_Nil)
  then have nin: "p \<notin> set ws" "p \<notin> set vs" by (auto simp: sorted_wrt_append)
  have bn: "bp \<notin> set (us @ vs)" "bp \<noteq> um_base s" using D(6) bp um_base_notin[OF i] by auto
  have pb: "p \<noteq> bp" using pm bn by auto
  have wb: "bp \<notin> set ws" using bn ws by (metis Un_iff list.set_intros(1) set_ConsD set_append)
  have l: "links (nx s) (ws @ p # vs) (um_base s)" using D(4) ws by (metis append.assoc append_Cons append_Nil)
  have t: "bend ?t = bend s" "sz ?t = sz s" "um_base ?t = um_base s" "um_top ?t = um_top s" "freep ?t = p"
      "nx ?t = (nx s)(bp := nx s p, p := bp)"
    by (simp_all add: link_in_def bend_def fun_eq_iff)
  have "links (nx ?t) ws p = links (nx s) ws p" "links (nx ?t) vs (um_base s) = links (nx s) vs (um_base s)"
    by (rule links_cong; use nin wb bn in \<open>auto simp: t(6)\<close>)+
  then have "links (nx ?t) (ws @ p # bp # vs) (um_base s)" using l pb by (simp add: links_append t(6))
  then have L: "links (nx ?t) (um_base s # us @ bp # vs) (um_base s)" using ws by (metis append.assoc append_Cons append_Nil)
  have S: "set (us @ bp # vs) \<union> (al - {bp}) = set (us @ vs) \<union> al" using bp by auto
  have so: "sorted_wrt (<) (us @ bp # vs)" using D(5) u v by (auto simp: sorted_wrt_append)
  show "um_inv ?t (us @ bp # vs) (al - {bp})"
    unfolding um_inv_def t(1-5) S using D(2,3,6-12) L so pm bn by auto
  show "kept s ?t (al - {bp})"
    by (rule kept_outside[OF i, of _ "{p, bp}"]) (use pm bp D(6) um_base_notin[OF i] in \<open>auto simp: t\<close>)
qed

lemma unat_join:
  assumes "um_inv s fl al" "a \<in> set fl \<union> al" "b \<in> set fl \<union> al" "bend s a = b"
  shows "unat (sz s a + sz s b) = unat (sz s a) + unat (sz s b)"
proof -
  have "bend s b \<le> um_top s" "um_top s < 2 ^ 36" using um_invD(9,12)[OF assms(1)] assms(3) by auto
  then have "a + 16 * unat (sz s a) + 16 * unat (sz s b) < 2 ^ 36" using assms(4) by (simp add: bend_def)
  then have "unat (sz s a) + unat (sz s b) < 2 ^ 32" by simp
  then show ?thesis by (simp add: unat_plus_simple[THEN iffD1] no_olen_add_nat)
qed

lemma join_inv:
  assumes i: "um_inv s (xs @ a # b # ys) al" and e: "bend s a = b" and f: "freep s \<noteq> b"
  shows "um_inv (join a b s) (xs @ a # ys) al" "kept s (join a b s) al" "bend (join a b s) a = bend s b"
    "x \<noteq> a \<Longrightarrow> bend (join a b s) x = bend s x" "sz (join a b s) a = sz s a + sz s b"
proof -
  let ?t = "join a b s"
  note D = um_invD[OF i]
  have d: "a \<notin> set xs" "b \<notin> set xs" "a \<noteq> b" "a \<notin> set ys" "b \<notin> set ys" using D(5) by (auto simp: sorted_wrt_append)
  have ab: "a \<noteq> um_base s" "b \<noteq> um_base s" using um_base_notin[OF i] by auto
  have un: "unat (sz s a + sz s b) = unat (sz s a) + unat (sz s b)" using unat_join[OF i _ _ e] by simp
  have t: "um_base ?t = um_base s" "um_top ?t = um_top s" "freep ?t = freep s" "nx ?t = (nx s)(a := nx s b)" "sz ?t = (sz s)(a := sz s a + sz s b)"
    by (simp_all add: join_def)
  show ea: "bend ?t a = bend s b" using un e by (simp add: bend_def t(5))
  show ex: "bend ?t x = bend s x" if "x \<noteq> a" for x using that by (simp add: bend_def t(5))
  show "sz ?t a = sz s a + sz s b" by (simp add: t(5))
  define zs where "zs = um_base s # xs"
  have zs: "um_base s # xs @ ws = zs @ ws" for ws by (simp add: zs_def)
  have "links (nx ?t) zs a = links (nx s) zs a" "links (nx ?t) ys (um_base s) = links (nx s) ys (um_base s)"
    by (rule links_cong; use d ab in \<open>auto simp: t(4) zs_def\<close>)+
  moreover have "links (nx s) (zs @ a # b # ys) (um_base s)" using D(4) unfolding zs .
  ultimately have L: "links (nx ?t) (um_base s # xs @ a # ys) (um_base s)" unfolding zs by (simp add: links_append t(4))
  have pos: "0 < sz ?t x" if "x \<in> set (xs @ a # ys) \<union> al" for x
  proof (cases "x = a")
    case True
    have "0 < unat (sz s a)" using D(8)[of a] by (simp add: unat_gt_0 word_neq_0_conv[symmetric])
    then have "0 < unat (sz s a + sz s b)" unfolding un by simp
    then show ?thesis using True by (simp add: t(5) unat_gt_0 word_neq_0_conv[symmetric])
  qed (use that D(8)[of x] in \<open>auto simp: t(5)\<close>)
  have ap: "bend ?t x \<le> y" if x: "x \<in> set (xs @ a # ys) \<union> al" "y \<in> set (xs @ a # ys) \<union> al" "x < y" for x y
  proof (cases "x = a")
    case True
    have "b \<notin> al" using D(6) by auto
    then have y: "y \<in> set (xs @ a # b # ys) \<union> al" "y \<noteq> b" using x(2) d by auto
    have "b \<le> y" using D(10)[of a y] y x(3) True e by auto
    then show ?thesis using D(10)[of b y] y True ea by auto
  next
    case False
    then show ?thesis using D(10)[of x y] x ex by auto
  qed
  have tp: "um_base s + 16 \<le> x \<and> bend ?t x \<le> um_top s" if "x \<in> set (xs @ a # ys) \<union> al" for x
    using that D(7,9)[of x] D(9)[of b] ea ex[of x] by (cases "x = a") auto
  have so: "sorted_wrt (<) (xs @ a # ys)" "set (xs @ a # ys) \<inter> al = {}" using D(5,6) by (auto simp: sorted_wrt_append)
  show "um_inv ?t (xs @ a # ys) al"
    unfolding um_inv_def t(1-3) using D(1-3,11,12) L so f tp pos ap ab by (auto simp: t(5))
  show "kept s ?t al" by (rule kept_outside[OF i, of _ "{a}"]) (use D(6) in \<open>auto simp: t\<close>)
qed

lemma coal_append: "coal s (xs @ a # ys) \<longleftrightarrow> coal s (xs @ [a]) \<and> coal s (a # ys)"
proof (induction xs)
  case (Cons x xs)
  then show ?case by (cases xs) auto
qed simp

lemma coal_cong: "(\<And>x. x \<in> set xs \<Longrightarrow> bend t x = bend s x) \<Longrightarrow> coal t xs = coal s xs"
  by (induction s xs rule: coal.induct) auto

lemma coal_cong1:
  assumes "\<And>x. x \<in> set xs \<Longrightarrow> bend t x = bend s x"
  shows "coal t (xs @ [a]) = coal s (xs @ [a])"
  using assms
proof (induction xs)
  case (Cons x xs)
  then show ?case by (cases xs) auto
qed simp

definition fsum :: "um \<Rightarrow> nat list \<Rightarrow> nat" where
  "fsum s fl = sum_list (map (\<lambda>a. unat (sz s a)) fl)"

lemma fsum_simps [simp]: "fsum s [] = 0" "fsum s (a # fl) = unat (sz s a) + fsum s fl" "fsum s (xs @ ys) = fsum s xs + fsum s ys"
  by (simp_all add: fsum_def)

lemma fsum_cong: "(\<And>x. x \<in> set xs \<Longrightarrow> sz t x = sz s x) \<Longrightarrow> fsum t xs = fsum s xs"
  by (induction xs) auto

text \<open>Joining a block with the next one if they touch: afterwards they do not.\<close>

lemma join_adj_spec:
  assumes i: "um_inv s (xs @ a # b # ys) al" and f: "freep s \<noteq> b" and c: "coal s (b # ys)"
  obtains ys' where "um_inv (join_adj a b s) (xs @ a # ys') al" "coal (join_adj a b s) (a # ys')" "kept s (join_adj a b s) al"
    "\<And>x. x \<noteq> a \<Longrightarrow> bend (join_adj a b s) x = bend s x" "sz s a \<le> sz (join_adj a b s) a"
    "fsum (join_adj a b s) (xs @ a # ys') = fsum s (xs @ a # b # ys)" "bend s a \<noteq> b \<Longrightarrow> ys' = b # ys"
proof (cases "bend s a = b")
  case True
  let ?t = "join a b s"
  note J = join_inv[OF i True f]
  have un: "unat (sz s a + sz s b) = unat (sz s a) + unat (sz s b)" using unat_join[OF i _ _ True] by simp
  have d: "a \<notin> set xs" "a \<notin> set ys" using um_invD(5)[OF i] by (auto simp: sorted_wrt_append)
  have "coal ?t ys = coal s ys" by (rule coal_cong, rule J(4)) (use d in auto)
  then have "coal ?t (a # ys)" using c J(3) by (cases ys) auto
  moreover have "fsum ?t xs = fsum s xs" "fsum ?t ys = fsum s ys" by (rule fsum_cong; use d in \<open>auto simp: join_def\<close>)+
  then have "fsum ?t (xs @ a # ys) = fsum s (xs @ a # b # ys)" by (simp add: J(5) un)
  moreover have "sz s a \<le> sz ?t a" unfolding J(5) word_le_nat_alt un by simp
  ultimately show ?thesis using that[of ys] J(1,2,4) True by (simp add: join_adj_def)
next
  case False
  then show ?thesis using that[of "b # ys"] i c by (simp add: join_adj_def)
qed

subsection \<open>free\<close>

text \<open>The search stops at the block, or \<open>base\<close>, after which the freed block belongs.\<close>

lemma free_find_spec:
  assumes i: "um_inv s (us @ vs) al" and bp: "bp \<in> al" and u: "\<forall>x\<in>set us. x < bp" and v: "\<forall>x\<in>set vs. bp < x"
  shows "free_find s bp (freep s) = Some (last (um_base s # us))" "nx s (last (um_base s # us)) = hd (vs @ [um_base s])"
proof -
  define p where "p = last (um_base s # us)"
  obtain ws where ws: "um_base s # us = ws @ [p]" unfolding p_def by (metis append_butlast_last_id list.distinct(1))
  note D = um_invD[OF i]
  have bb: "um_base s < bp" using D(7)[of bp] bp by simp
  have lt: "\<forall>x\<in>set (ws @ [p]). x < bp" unfolding ws[symmetric] using u bb by simp
  have "sorted_wrt (<) (um_base s # us @ vs)" using D(5,7) by fastforce
  then have so: "sorted_wrt (<) ((ws @ [p]) @ vs)" unfolding ws[symmetric] by simp
  have "links (nx s) ((ws @ [p]) @ vs) (um_base s)" using D(4) unfolding ws[symmetric] by simp
  then have l: "links (nx s) ws p" "nx s p = hd (vs @ [um_base s])" "links (nx s) vs (um_base s)" by (auto simp: links_append)
  then show "nx s (last (um_base s # us)) = hd (vs @ [um_base s])" by (simp add: p_def)
  have pm: "p \<in> set (um_base s # us)" unfolding ws by simp
  have pb: "p < bp" "um_base s \<le> p" using lt pm D(7)[of p] by auto
  have stop: "free_find s bp p = Some p"
    using v bb pb l(2) by (subst free_find.simps) (cases vs; auto)
  have w: "\<not> (x < bp \<and> bp < nx s x) \<and> \<not> (nx s x \<le> x \<and> (x < bp \<or> bp < nx s x))" if "x \<in> set ws" for x
    using links_sorted[OF l(1) _ that] so lt that by (fastforce simp: sorted_wrt_append)
  have vv: "\<not> (x < bp \<and> bp < nx s x) \<and> \<not> (nx s x \<le> x \<and> (x < bp \<or> bp < nx s x))" if "x \<in> set vs" for x
    using links_sorted[OF l(3) _ that] so v bb that by (fastforce simp: sorted_wrt_append)
  have fb: "free_find s bp (um_base s) = Some p"
    using free_find_skip[OF l(1) w] stop ws by (metis hd_append hd_append2 list.sel(1) snoc_eq_iff_butlast)
  have "freep s \<in> set ((ws @ [p]) @ vs)" using D(1) unfolding ws[symmetric] by simp
  then consider "freep s \<in> set ws" | "freep s = p" | "freep s \<in> set vs" by auto
  then have "free_find s bp (freep s) = Some p"
  proof cases
    case 1
    then obtain w1 w2 where e: "ws = w1 @ freep s # w2" by (meson split_list)
    then show ?thesis using free_find_skip[of s "freep s # w2" p bp] l(1) w stop by (auto simp: links_append)
  next
    case 3
    then obtain v1 v2 where e: "vs = v1 @ freep s # v2" by (meson split_list)
    then show ?thesis using free_find_skip[of s "freep s # v2" "um_base s" bp] l(3) vv fb by (auto simp: links_append)
  qed (use stop in simp)
  then show "free_find s bp (freep s) = Some (last (um_base s # us))" by (simp add: p_def)
qed

lemma split_at:
  fixes bp :: nat
  assumes "sorted_wrt (<) fl" "bp \<notin> set fl"
  obtains us vs where "fl = us @ vs" "\<forall>x\<in>set us. x < bp" "\<forall>x\<in>set vs. bp < x"
proof -
  have "\<forall>x\<in>set (dropWhile (\<lambda>x. x < bp) fl). bp < x"
    using assms
  proof (induction fl)
    case (Cons x fl)
    then show ?case by (cases "x < bp") fastforce+
  qed simp
  then show ?thesis using that[of "takeWhile (\<lambda>x. x < bp) fl" "dropWhile (\<lambda>x. x < bp) fl"] set_takeWhileD by fastforce
qed

lemma join_adj_fields [simp]:
  "freep (join_adj a b s) = freep s" "um_base (join_adj a b s) = um_base s" "um_top (join_adj a b s) = um_top s"
  by (simp_all add: join_adj_def join_def)

lemma link_in_fields [simp]:
  "freep (link_in bp p s) = p" "um_base (link_in bp p s) = um_base s" "um_top (link_in bp p s) = um_top s" "sz (link_in bp p s) = sz s"
  "bend (link_in bp p s) = bend s"
  by (simp_all add: link_in_def bend_def fun_eq_iff)

text \<open>First the freed block and the one behind it, then the one before.\<close>

lemma free_joins:
  assumes i: "um_inv s (us @ vs) al" and c: "coal s (us @ vs)" and bp: "bp \<in> al" and u: "\<forall>x\<in>set us. x < bp" and v: "\<forall>x\<in>set vs. bp < x"
  defines "p \<equiv> last (um_base s # us)" and "q \<equiv> hd (vs @ [um_base s])"
  defines "t \<equiv> join_adj p bp (join_adj bp q (link_in bp p s))"
  shows "\<exists>fl. um_inv t fl (al - {bp}) \<and> coal t fl \<and> kept s t (al - {bp}) \<and> (\<exists>b\<in>set fl. sz s bp \<le> sz t b) \<and> fsum t fl = fsum s (us @ vs) + unat (sz s bp)"
proof -
  let ?al = "al - {bp}"
  note L = link_in_inv[OF i bp u v p_def[THEN meta_eq_to_obj_eq]]
  have bb: "um_base s < bp" using um_invD(7)[OF i, of bp] bp by simp
  have pos: "\<forall>a\<in>?al. 0 < sz s a" using um_invD(8)[OF i] by blast
  have pm: "p \<in> insert (um_base s) (set us)" unfolding p_def by (metis last_in_set list.distinct(1) list.set(2))
  then have pb: "p < bp" using u bb by auto
  have cv: "coal s us" "coal s vs" using c by (cases vs; cases us rule: rev_cases; auto simp: coal_append[of s _ _ "_ # _"] coal_append[of s "_ @ [_]"])+
  obtain vs1 where 1: "um_inv (join_adj bp q (link_in bp p s)) (us @ bp # vs1) ?al" "coal (join_adj bp q (link_in bp p s)) (bp # vs1)"
      "kept (link_in bp p s) (join_adj bp q (link_in bp p s)) ?al"
      "\<forall>x. x \<noteq> bp \<longrightarrow> bend (join_adj bp q (link_in bp p s)) x = bend s x" "sz s bp \<le> sz (join_adj bp q (link_in bp p s)) bp"
      "fsum (join_adj bp q (link_in bp p s)) (us @ bp # vs1) = fsum (link_in bp p s) (us @ bp # vs)"
  proof (cases vs)
    case Nil
    then have "bend s bp \<noteq> q" using bb by (simp add: q_def bend_def)
    then show ?thesis using that[of "[]"] L(1) Nil by (simp add: join_adj_def)
  next
    case (Cons q' vs')
    have q: "q' = q" using Cons by (simp add: q_def)
    have "bp < q" using v Cons q by simp
    then have "freep (link_in bp p s) \<noteq> q" using pb by simp
    moreover have "coal (link_in bp p s) (q # vs')" using cv(2) Cons q coal_cong[of "q # vs'" "link_in bp p s" s] by simp
    ultimately show ?thesis using join_adj_spec[OF L(1)[unfolded Cons q], of thesis] that unfolding Cons q by auto
  qed
  define s1 where "s1 = join_adj bp q (link_in bp p s)"
  note 1 = 1[folded s1_def]
  have k1: "kept s s1 ?al" using kept_trans[OF L(2) 1(3) pos] .
  have f1: "fsum s1 (us @ bp # vs1) = fsum s (us @ vs) + unat (sz s bp)"
    unfolding 1(6) using fsum_cong[of "us @ bp # vs" "link_in bp p s" s] by simp
  have t: "t = join_adj p bp s1" by (simp add: t_def s1_def)
  show ?thesis
  proof (cases us rule: rev_cases)
    case Nil
    then have "bend s1 p \<noteq> bp" using 1(4) pb um_invD(3)[OF i] by (simp add: p_def bend_def)
    then have "t = s1" by (simp add: t join_adj_def)
    then show ?thesis using 1(1,2,5) k1 f1 Nil by auto
  next
    case (snoc us' p')
    have p': "p' = p" using snoc by (simp add: p_def)
    have i1: "um_inv s1 (us' @ p # bp # vs1) ?al" using 1(1) snoc p' by simp
    have fp: "freep s1 \<noteq> bp" using pb by (simp add: s1_def)
    obtain ys where 2: "um_inv t (us' @ p # ys) ?al" "coal t (p # ys)" "kept s1 t ?al" "\<forall>x. x \<noteq> p \<longrightarrow> bend t x = bend s1 x" "sz s1 p \<le> sz t p"
        "fsum t (us' @ p # ys) = fsum s1 (us' @ p # bp # vs1)" "bend s1 p \<noteq> bp \<longrightarrow> ys = bp # vs1"
      using join_adj_spec[OF i1 fp 1(2)] unfolding t by blast
    have so: "p \<notin> set us'" "bp \<notin> set us'" using um_invD(5)[OF i1] by (auto simp: sorted_wrt_append)
    have "coal t (us' @ [p]) = coal s (us' @ [p])" by (rule coal_cong1) (metis 2(4) 1(4) so)
    then have "coal t (us' @ p # ys)" using 2(2) cv(1) snoc p' by (subst coal_append) simp
    moreover have "kept s t ?al" using kept_trans[OF k1 2(3)] pos by blast
    moreover have "\<exists>b\<in>set (us' @ p # ys). sz s bp \<le> sz t b"
    proof (cases "bend s1 p = bp")
      case True
      have "unat (sz s1 p + sz s1 bp) = unat (sz s1 p) + unat (sz s1 bp)" using unat_join[OF i1 _ _ True] by simp
      then have "sz s1 bp \<le> sz t p" using True by (simp add: t join_adj_def join_def word_le_nat_alt)
      then show ?thesis using 1(5) by (intro bexI[of _ p]) auto
    next
      case False
      then have "t = s1" "ys = bp # vs1" using 2(7) by (simp_all add: t join_adj_def)
      then show ?thesis using 1(5) by auto
    qed
    moreover have "fsum t (us' @ p # ys) = fsum s (us @ vs) + unat (sz s bp)" using 2(6) f1 snoc p' by simp
    ultimately show ?thesis using 2(1) by blast
  qed
qed

lemma ufree_spec:
  assumes i: "um_inv s fl al" and c: "coal s fl" and bp: "bp \<in> al"
  shows "\<exists>t fl'. ufree (bp + 16) s = Some t \<and> um_inv t fl' (al - {bp}) \<and> coal t fl' \<and> kept s t (al - {bp}) \<and> (\<exists>b\<in>set fl'. sz s bp \<le> sz t b)
    \<and> fsum t fl' = fsum s fl + unat (sz s bp) \<and> um_base t = um_base s \<and> um_top t = um_top s"
proof -
  have "bp \<notin> set fl" using um_invD(6)[OF i] bp by blast
  then obtain us vs where f: "fl = us @ vs" "\<forall>x\<in>set us. x < bp" "\<forall>x\<in>set vs. bp < x" using split_at[OF um_invD(5)[OF i]] by blast
  let ?p = "last (um_base s # us)" and ?q = "hd (vs @ [um_base s])"
  have bb: "um_base s < bp" using um_invD(7)[OF i, of bp] bp by simp
  have "?p \<in> set (um_base s # us)" by (rule last_in_set) simp
  then have pb: "?p < bp" using f(2) bb by auto
  note F = free_find_spec[OF i[unfolded f(1)] bp f(2,3)]
  have "?q \<noteq> bp" using f(3) bb by (cases vs) auto
  moreover have "bend s bp \<noteq> ?p" using pb by (simp add: bend_def)
  ultimately have e: "free_at bp ?p s = join_adj ?p bp (join_adj bp ?q (link_in bp ?p s))" using free_at_eq[of ?p bp s] pb F(2) by simp
  have "ufree (bp + 16) s = Some (free_at bp ?p s)" using F(1) by (simp add: ufree_def)
  then show ?thesis unfolding e using free_joins[OF i[unfolded f(1)] c[unfolded f(1)] bp f(2,3)] f(1) by (auto simp del: last.simps)
qed

subsection \<open>malloc\<close>

text \<open>Taking a block, or the end of a larger one, out of the list.\<close>

lemma links_pred:
  assumes "links f (e # xs) e" "y \<in> set (e # xs)" "f y \<noteq> e"
  obtains ws zs where "e # xs = ws @ y # f y # zs"
proof -
  obtain ws vs where v: "e # xs = ws @ y # vs" using split_list[OF assms(2)] by blast
  have "links f (ws @ y # vs) e" using assms(1) unfolding v .
  then have n: "f y = hd (vs @ [e])" by (simp add: links_append)
  show ?thesis
  proof (cases vs)
    case Nil
    then show ?thesis using n assms(3) by simp
  next
    case (Cons z zs)
    then show ?thesis using n v that by simp
  qed
qed

lemma take_exact:
  assumes i: "um_inv s (xs @ ys) al" and c: "coal s (xs @ ys)" and ys: "ys = p # zs" and pr: "prevp = last (um_base s # xs)"
  defines "t \<equiv> s\<lparr>nx := (nx s)(prevp := nx s p), freep := prevp\<rparr>"
  shows "um_inv t (xs @ zs) (insert p al)" "coal t (xs @ zs)" "kept s t al" "p \<notin> al" "sz t = sz s"
proof -
  note D = um_invD[OF i[unfolded ys]]
  obtain ws where ws: "um_base s # xs = ws @ [prevp]" unfolding pr by (metis append_butlast_last_id list.distinct(1))
  have pm: "prevp \<in> set (um_base s # xs)" unfolding ws by simp
  have "sorted_wrt (<) (um_base s # xs @ p # zs)" using D(5,7) by fastforce
  then have so: "sorted_wrt (<) ((ws @ [prevp]) @ p # zs)" unfolding ws[symmetric] by simp
  then have nin: "prevp \<notin> set ws" "prevp \<notin> set zs" "prevp \<noteq> p" by (auto simp: sorted_wrt_append)
  have l: "links (nx s) ((ws @ [prevp]) @ p # zs) (um_base s)" using D(4) unfolding ws[symmetric] by simp
  have t: "sz t = sz s" "bend t = bend s" "um_base t = um_base s" "um_top t = um_top s" "freep t = prevp" "nx t = (nx s)(prevp := nx s p)"
    by (simp_all add: t_def bend_def fun_eq_iff)
  have "links (nx t) ws prevp = links (nx s) ws prevp" "links (nx t) zs (um_base s) = links (nx s) zs (um_base s)"
    by (rule links_cong; use nin in \<open>auto simp: t(6)\<close>)+
  then have "links (nx t) ((ws @ [prevp]) @ zs) (um_base s)" using l nin by (auto simp: links_append t(6))
  then have L: "links (nx t) (um_base s # xs @ zs) (um_base s)" unfolding ws[symmetric] by simp
  have S: "set (xs @ zs) \<union> insert p al = set (xs @ p # zs) \<union> al" by auto
  show pa: "p \<notin> al" using D(6) by auto
  show "um_inv t (xs @ zs) (insert p al)"
    unfolding um_inv_def t(1-5) S using D(2,3,5-12) L pm so by (auto simp: sorted_wrt_append)
  show "kept s t al"
    by (rule kept_outside[OF i[unfolded ys], of _ "{prevp}"]) (use pm D(6) um_base_notin[OF i[unfolded ys]] in \<open>auto simp: t\<close>)
  show "sz t = sz s" by (rule t(1))
  have co: "coal s (xs @ p # zs)" using c ys by simp
  have "coal s (xs @ zs)"
  proof (cases xs rule: rev_cases)
    case Nil
    then show ?thesis using co by (cases zs) auto
  next
    case (snoc xs' x)
    then have xc: "coal s (xs' @ [x])" "coal s (p # zs)" using co coal_append[of s xs' x "p # zs"] coal_append[of s xs p zs] by auto
    have "coal s (x # zs)"
    proof (cases zs)
      case (Cons z zs')
      have o: "x < p" "p < z" using D(5) snoc Cons by (auto simp: sorted_wrt_append)
      then have "bend s x \<le> p" using D(10)[of x p] snoc by simp
      then show ?thesis using o xc(2) Cons by auto
    qed simp
    then show ?thesis using xc(1) snoc coal_append[of s xs' x zs] by simp
  qed
  then show "coal t (xs @ zs)" using coal_cong[of "xs @ zs" t s] t(2) by simp
qed

lemma take_split:
  assumes i: "um_inv s fl al" and c: "coal s fl" and p: "p \<in> set fl" and pr: "prevp \<in> insert (um_base s) (set fl)" and n: "0 < n" "n < sz s p"
  defines "q \<equiv> p + 16 * unat (sz s p - n)"
  defines "t \<equiv> s\<lparr>sz := (sz s)(p := sz s p - n, q := n), freep := prevp\<rparr>"
  shows "um_inv t fl (insert q al)" "coal t fl" "kept s t al" "q \<notin> al" "sz t q = n"
proof -
  note D = um_invD[OF i]
  have un: "unat (sz s p - n) = unat (sz s p) - unat n" "unat n < unat (sz s p)" "0 < unat n"
    using n by (auto simp: unat_sub_if' word_less_nat_alt word_le_nat_alt)
  have pq: "p < q" "q < bend s p" using un by (simp_all add: q_def bend_def)
  have far: "bend s p \<le> x" if "x \<in> set fl \<union> al" "p < x" for x using D(10)[of p x] p that by simp
  have qn: "q \<notin> set fl \<union> al" using far[of q] pq by auto
  have pb: "p \<noteq> um_base s" "q \<noteq> um_base s" using um_base_notin[OF i] p pq D(7)[of p] by auto
  have t: "um_base t = um_base s" "um_top t = um_top s" "freep t = prevp" "nx t = nx s" "sz t = (sz s)(p := sz s p - n, q := n)"
    by (simp_all add: t_def)
  have bp: "bend t p = q" using pq by (simp add: bend_def t(5)) (simp add: q_def)
  have bq: "bend t q = bend s p" using un by (simp add: bend_def t(5)) (simp add: q_def)
  have bx: "bend t x = bend s x" if "x \<noteq> p" "x \<noteq> q" for x using that by (simp add: bend_def t(5))
  show "sz t q = n" by (simp add: t(5))
  show "q \<notin> al" using qn by simp
  have ap: "bend t x \<le> y" if x: "x \<in> set fl \<union> insert q al" "y \<in> set fl \<union> insert q al" "x < y" for x y
  proof -
    consider "x = p" | "x = q" | "x \<noteq> p" "x \<noteq> q" by blast
    then show ?thesis
    proof cases
      case 1
      then show ?thesis using bp far[of y] x pq by auto
    next
      case 2
      then show ?thesis using bq far[of y] x pq by auto
    next
      case 3
      have xs: "x \<in> set fl \<union> al" using x(1) 3 by simp
      show ?thesis
      proof (cases "y = q")
        case True
        have "x < p" using far[OF xs] 3 x(3) True pq by fastforce
        then show ?thesis using D(10)[OF xs, of p] p True pq bx[OF 3] by simp
      next
        case False
        then show ?thesis using D(10)[OF xs, of y] x bx[OF 3] by simp
      qed
    qed
  qed
  have tp: "um_base s + 16 \<le> x \<and> 0 < sz t x \<and> bend t x \<le> um_top s" if x: "x \<in> set fl \<union> insert q al" for x
  proof -
    have P: "um_base s + 16 \<le> p" "bend s p \<le> um_top s" using D(7,9)[of p] p by simp_all
    have z: "0 < sz s p - n" using un by (simp add: word_less_nat_alt)
    consider "x = p" | "x = q" | "x \<noteq> p" "x \<noteq> q" "x \<in> set fl \<union> al" using x by blast
    then show ?thesis
    proof cases
      case 1
      then show ?thesis using P z bp pq by (simp add: t(5))
    next
      case 2
      then show ?thesis using P bq pq n(1) by (simp add: t(5))
    next
      case 3
      then show ?thesis using D(7-9)[of x] bx[OF 3(1,2)] by (simp add: t(5))
    qed
  qed
  show "um_inv t fl (insert q al)"
    unfolding um_inv_def t(1-4) using D(2-6,11,12) pr tp ap qn pb by (auto simp: t(5))
  show "kept s t al" unfolding kept_def
  proof (intro ballI allI impI)
    fix a x assume a: "a \<in> al" "a \<le> x \<and> x < bend s a"
    have "a \<noteq> p" using a(1) p D(6) by blast
    have "x \<noteq> p" using outside_block[OF i, of a p x] a p \<open>a \<noteq> p\<close> by blast
    moreover have "x \<noteq> q"
    proof
      assume "x = q"
      then show False using far[of a] D(10)[of a p] a p pq \<open>a \<noteq> p\<close> by (cases "p < a") auto
    qed
    ultimately show "nx t x = nx s x \<and> sz t x = sz s x" by (simp add: t)
  qed
  obtain xs zs where f: "fl = xs @ p # zs" using split_list[OF p] by blast
  have so: "p \<notin> set xs" "p \<notin> set zs" "\<forall>z\<in>set zs. p < z" using D(5) f by (auto simp: sorted_wrt_append)
  have "coal t (xs @ [p]) = coal s (xs @ [p])" by (rule coal_cong1, rule bx) (use so qn f in auto)
  moreover have "coal t zs = coal s zs" by (rule coal_cong, rule bx) (use so qn f in auto)
  moreover have "q \<noteq> hd zs" if "zs \<noteq> []" using far[of "hd zs"] so that f pq by (cases zs) auto
  moreover have "coal s (xs @ [p])" "coal s (p # zs)" using c coal_append[of s xs p zs] f by auto
  ultimately show "coal t fl" unfolding f coal_append[of t xs p zs] using bp by (cases zs) auto
qed

text \<open>A heap: the free list is well formed and coalesced; before the first call there is none.\<close>

definition um_heap :: "um \<Rightarrow> nat set \<Rightarrow> bool" where
  "um_heap s al \<longleftrightarrow> (if freep s = 0 then al = {} \<and> 0 < um_base s \<and> um_base s + 16 \<le> um_top s \<and> um_top s < 2 ^ 36
     else \<exists>fl. um_inv s fl al \<and> coal s fl)"

lemma freep_nz: "um_inv s fl al \<Longrightarrow> freep s \<noteq> 0"
  using um_invD(1,2,7) by fastforce

lemma um_heapI: "um_inv s fl al \<Longrightarrow> coal s fl \<Longrightarrow> um_heap s al"
  using freep_nz[of s fl al] unfolding um_heap_def by auto

lemma take_block_spec:
  assumes i: "um_inv s fl al" and c: "coal s fl" and pr: "prevp \<in> insert (um_base s) (set fl)" and n: "0 < n" "n \<le> sz s (nx s prevp)"
  shows "\<exists>bp t. take_block n prevp (nx s prevp) s = (bp + 16, t) \<and> um_heap t (insert bp al) \<and> kept s t al \<and> bp \<notin> al \<and> sz t bp = n"
proof -
  define p where "p = nx s prevp"
  have pb: "nx s prevp \<noteq> um_base s" using n um_invD(3)[OF i] by auto
  have pr': "prevp \<in> set (um_base s # fl)" using pr by simp
  obtain ws zs where w: "um_base s # fl = ws @ prevp # p # zs" using links_pred[OF um_invD(4)[OF i] pr' pb] unfolding p_def by blast
  obtain xs where xs: "fl = xs @ p # zs" "prevp = last (um_base s # xs)"
  proof (cases ws)
    case Nil
    then have "um_base s = prevp" "fl = p # zs" using w by simp_all
    then show ?thesis using that[of "[]"] by simp
  next
    case (Cons b ws')
    then have "fl = (ws' @ [prevp]) @ p # zs" using w by simp
    then show ?thesis by (rule that) simp
  qed
  have np: "n \<le> sz s p" using n(2) by (simp add: p_def)
  show ?thesis
  proof (cases "sz s p = n")
    case True
    note T = take_exact[OF i[unfolded xs(1)] c[unfolded xs(1)] refl xs(2)]
    show ?thesis unfolding p_def[symmetric] using T(3-5) um_heapI[OF T(1,2)] True by (auto simp: take_block_def)
  next
    case False
    have p: "p \<in> set fl" using arg_cong[OF xs(1), of set] by auto
    note T = take_split[OF i c p pr n(1)]
    have "n < sz s p" using np False by simp
    then show ?thesis unfolding p_def[symmetric] using T(3-5) um_heapI[OF T(1,2)] False by (auto simp: take_block_def Let_def)
  qed
qed

text \<open>One round of the list: either a block is found, or none is large enough and memory is requested.\<close>

lemma malloc_scan:
  assumes "links (nx s) xs (freep s)" "freep s \<notin> set xs" "nx s prevp = hd (xs @ [freep s])" "prevp \<in> R" "set xs \<subseteq> R"
  shows "(\<exists>pr\<in>R. n \<le> sz s (nx s pr) \<and> malloc_loop sbrk n prevp (nx s prevp) s = Some (take_block n pr (nx s pr) s))
    \<or> (\<forall>x\<in>insert (freep s) (set xs). sz s x < n) \<and> malloc_loop sbrk n prevp (nx s prevp) s
         = Option.bind (morecore sbrk n s) (\<lambda>(p, s). if p = 0 then Some (0, s) else malloc_loop sbrk n p (nx s p) s)"
  using assms
proof (induction xs arbitrary: prevp)
  case Nil
  then have e: "nx s prevp = freep s" by simp
  show ?case
  proof (cases "n \<le> sz s (freep s)")
    case True
    then show ?thesis using Nil e by (intro disjI1 bexI[of _ prevp]) (simp_all add: malloc_loop.simps[of sbrk n prevp "freep s" s])
  next
    case False
    then show ?thesis using e by (intro disjI2) (simp add: malloc_loop.simps[of sbrk n prevp "freep s" s])
  qed
next
  case (Cons x xs)
  have x: "nx s prevp = x" "x \<noteq> freep s" using Cons.prems by auto
  show ?case
  proof (cases "n \<le> sz s x")
    case True
    then show ?thesis using x Cons.prems(4) by (auto simp: malloc_loop.simps[of sbrk n prevp x s] intro!: bexI[of _ prevp])
  next
    case False
    then have "malloc_loop sbrk n prevp x s = malloc_loop sbrk n x (nx s x) s" using x(2) by (subst malloc_loop.simps) simp
    then show ?thesis using Cons.IH[of x] Cons.prems x False by auto
  qed
qed

lemma malloc_round:
  assumes i: "um_inv s fl al" and c: "coal s fl" and n: "0 < n"
  shows "(\<exists>bp t. malloc_loop sbrk n (freep s) (nx s (freep s)) s = Some (bp + 16, t) \<and> um_heap t (insert bp al) \<and> kept s t al \<and> bp \<notin> al \<and> sz t bp = n)
    \<or> (\<forall>x\<in>set fl. sz s x < n) \<and> malloc_loop sbrk n (freep s) (nx s (freep s)) s
         = Option.bind (morecore sbrk n s) (\<lambda>(p, s). if p = 0 then Some (0, s) else malloc_loop sbrk n p (nx s p) s)"
proof -
  note D = um_invD[OF i]
  let ?R = "insert (um_base s) (set fl)"
  have "freep s \<in> set (um_base s # fl)" using D(1) by simp
  then obtain ws vs where w: "um_base s # fl = ws @ freep s # vs" using split_list by metis
  have "sorted_wrt (<) (um_base s # fl)" using D(5,7) by fastforce
  then have so: "freep s \<notin> set ws" "freep s \<notin> set vs" unfolding w by (auto simp: sorted_wrt_append)
  have l: "links (nx s) ws (freep s)" "nx s (freep s) = hd (vs @ [um_base s])" "links (nx s) vs (um_base s)"
    using D(4) unfolding w by (simp_all add: links_append)
  have h: "hd (ws @ [freep s]) = um_base s" using w by (cases ws) auto
  have R: "?R = insert (freep s) (set (vs @ ws))" using arg_cong[OF w, of set] by auto
  have "links (nx s) (vs @ ws) (freep s)" using l h by (simp add: links_append)
  moreover have "nx s (freep s) = hd ((vs @ ws) @ [freep s])" using l(2) h by (cases vs) auto
  ultimately have "(\<exists>pr\<in>?R. n \<le> sz s (nx s pr) \<and> malloc_loop sbrk n (freep s) (nx s (freep s)) s = Some (take_block n pr (nx s pr) s))
    \<or> (\<forall>x\<in>?R. sz s x < n) \<and> malloc_loop sbrk n (freep s) (nx s (freep s)) s
         = Option.bind (morecore sbrk n s) (\<lambda>(p, s). if p = 0 then Some (0, s) else malloc_loop sbrk n p (nx s p) s)"
    using malloc_scan[of s "vs @ ws" "freep s" ?R n sbrk] so unfolding R by auto
  then show ?thesis
  proof (elim disjE bexE conjE)
    fix pr assume a: "pr \<in> ?R" "n \<le> sz s (nx s pr)" "malloc_loop sbrk n (freep s) (nx s (freep s)) s = Some (take_block n pr (nx s pr) s)"
    then show ?thesis using take_block_spec[OF i c a(1) n a(2)] by auto
  qed auto
qed

text \<open>The request in bytes, and what becomes of it as an int.\<close>

lemma sbrk_arg_nat: "(ucast (ucast (nu :: uint) * 16 :: uint64) :: 32 word) = of_nat (unat nu * 16)"
proof -
  have "(ucast nu :: uint64) = of_nat (unat nu)" by simp
  then have "(ucast nu * 16 :: uint64) = of_nat (unat nu * 16)" by simp
  moreover have "unat nu * 16 < 2 ^ 64" using unsigned_less[of nu, where ?'a = nat] by simp
  ultimately show ?thesis by (simp add: unsigned_of_nat take_bit_nat_eq_self del: of_nat_mult)
qed

lemma sbrk_arg_eq: "unat nu < 2 ^ 27 \<Longrightarrow> sbrk_arg nu = 16 * int (unat nu)"
  unfolding sbrk_arg_def sbrk_arg_nat by (simp add: signed_of_nat signed_take_bit_int_eq_self del: of_nat_mult) simp

lemma signed_high: "2 ^ 31 \<le> k \<Longrightarrow> k < 2 ^ 32 \<Longrightarrow> signed_take_bit 31 (k :: int) = k - 2 ^ 32"
proof -
  assume k: "2 ^ 31 \<le> k" "k < 2 ^ 32"
  have "(k + 2 ^ 31) mod 2 ^ 32 = ((k - 2 ^ 31) + 2 ^ 32) mod 2 ^ 32" by (simp add: add.commute)
  also have "\<dots> = (k - 2 ^ 31) mod 2 ^ 32" by (rule mod_add_self2)
  also have "\<dots> = k - 2 ^ 31" using k by (intro mod_pos_pos_trivial) simp_all
  finally show ?thesis by (simp add: signed_take_bit_eq_take_bit_shift take_bit_eq_mod)
qed

lemma sbrk_arg_negative: "2 ^ 27 \<le> unat nu \<Longrightarrow> unat nu < 2 ^ 28 \<Longrightarrow> sbrk_arg nu < 0"
proof -
  assume a: "2 ^ 27 \<le> unat nu" "unat nu < 2 ^ 28"
  then have k: "2 ^ 31 \<le> int (unat nu * 16)" "int (unat nu * 16) < 2 ^ 32" by (simp_all del: of_nat_mult)
  have "sbrk_arg nu = signed_take_bit 31 (int (unat nu * 16))" unfolding sbrk_arg_def sbrk_arg_nat by (simp add: signed_of_nat del: of_nat_mult)
  then show ?thesis using signed_high[OF k] k(2) by simp
qed

lemma unat_nunits: "unat (nunits_of nb) = (unat nb + 15) div 16 + 1"
proof -
  have b: "unat nb < 2 ^ 32" using unsigned_less[of nb, where ?'a = nat] by simp
  have e: "(ucast nb :: uint64) + 16 - 1 = of_nat (unat nb + 15)" by simp
  have "unat (of_nat (unat nb + 15) :: uint64) = unat nb + 15" using b by (simp add: unat_of_nat take_bit_nat_eq_self del: of_nat_add)
  then have d: "(ucast nb + 16 - 1 :: uint64) div 16 + 1 = of_nat ((unat nb + 15) div 16 + 1)"
    unfolding e by (simp add: word_arith_nat_div del: of_nat_add)
  define m where "m = (unat nb + 15) div 16 + 1"
  have "m < 2 ^ 32" using b by (simp add: m_def)
  then show ?thesis unfolding nunits_of_def d m_def[symmetric] by (simp add: unsigned_ucast_eq unsigned_of_nat take_bit_nat_eq_self)
qed

text \<open>A new area behind all blocks is a block in use until it is freed.\<close>

lemma grow_inv:
  assumes i: "um_inv s fl al" and c: "coal s fl" and hp: "um_top s \<le> hp" "hp + 16 * unat nu < 2 ^ 36" and nu: "0 < nu"
  defines "t \<equiv> s\<lparr>um_top := hp + 16 * unat nu, sz := (sz s)(hp := nu)\<rparr>"
  shows "um_inv t fl (insert hp al)" "coal t fl" "kept s t al" "hp \<notin> al" "sz t hp = nu"
proof -
  note D = um_invD[OF i]
  have low: "x < hp \<and> bend s x \<le> hp" if "x \<in> set fl \<union> al" for x
    using D(9)[OF that] bend_gt[OF D(8)[OF that]] hp(1) by linarith
  then have hn: "hp \<notin> set fl \<union> al" by blast
  have hb: "um_base s + 16 \<le> hp" using D(11) hp(1) by simp
  have t: "um_base t = um_base s" "um_top t = hp + 16 * unat nu" "freep t = freep s" "nx t = nx s" "sz t = (sz s)(hp := nu)"
    by (simp_all add: t_def)
  have bh: "bend t hp = hp + 16 * unat nu" by (simp add: bend_def t)
  have bx: "bend t x = bend s x" if "x \<in> set fl \<union> al" for x using that hn by (auto simp: bend_def t)
  have A: "um_base s + 16 \<le> x \<and> 0 < sz t x \<and> bend t x \<le> hp + 16 * unat nu" if "x \<in> set fl \<union> insert hp al" for x
  proof (cases "x = hp")
    case True
    then show ?thesis using hb nu bh by (simp add: t)
  next
    case False
    then have x: "x \<in> set fl \<union> al" using that by simp
    show ?thesis using D(7,8)[OF x] bx[OF x] low[OF x] False by (simp add: t)
  qed
  have B: "bend t x \<le> y" if "x \<in> set fl \<union> insert hp al" "y \<in> set fl \<union> insert hp al" "x < y" for x y
  proof -
    have x: "x \<in> set fl \<union> al" using that low[of y] by auto
    show ?thesis using that x D(10)[OF x, of y] bx[OF x] low[OF x] by (cases "y = hp") auto
  qed
  have z: "sz t (um_base s) = 0" "um_base s + 16 \<le> hp + 16 * unat nu" using hb D(3) by (simp_all add: t)
  show "um_inv t fl (insert hp al)"
    unfolding um_inv_def t(1-4) using D(1,2,4-6) A B z hn hp(2) by blast
  show "coal t fl" using c coal_cong[of fl t s] bx by simp
  show "hp \<notin> al" "sz t hp = nu" using hn by (simp_all add: t)
  show "kept s t al" unfolding kept_def using low by (force simp: t)
qed

lemma morecore_spec:
  assumes i: "um_inv s fl al" and c: "coal s fl" and sb: "sbrk_ok sbrk" and n: "unat n < 2 ^ 27"
  shows "morecore sbrk n s = Some (0, s) \<and> sbrk (um_top s) (16 * int (max 4096 (unat n))) = None
    \<or> (\<exists>t fl'. morecore sbrk n s = Some (freep t, t) \<and> um_inv t fl' al \<and> coal t fl' \<and> kept s t al \<and> (\<exists>b\<in>set fl'. n \<le> sz t b))"
proof -
  define nu where "nu = (if n < 4096 then 4096 else n)"
  have nu: "unat nu < 2 ^ 27" "0 < nu" "n \<le> nu" "0 < unat nu" using n by (auto simp: nu_def word_less_nat_alt word_le_nat_alt)
  note arg = sbrk_arg_eq[OF nu(1)]
  show ?thesis
  proof (cases "sbrk (um_top s) (16 * int (unat nu))")
    case None
    moreover have "unat nu = max 4096 (unat n)" by (auto simp: nu_def word_less_nat_alt)
    ultimately show ?thesis using arg by (simp add: morecore_def Let_def nu_def[symmetric] del: of_nat_unat)
  next
    case (Some hp)
    then have "um_top s \<le> hp \<and> int hp + 16 * int (unat nu) < 2 ^ 36" using sb nu(4) unfolding sbrk_ok_def by (metis mult_pos_pos of_nat_0_less_iff zero_less_numeral)
    then have hp: "um_top s \<le> hp" "hp + 16 * unat nu < 2 ^ 36" by (auto simp del: of_nat_unat)
    define t where "t = s\<lparr>um_top := hp + 16 * unat nu, sz := (sz s)(hp := nu)\<rparr>"
    note G = grow_inv[OF i c hp nu(2), folded t_def]
    obtain u fl' where u: "ufree (hp + 16) t = Some u" "um_inv u fl' (insert hp al - {hp})" "coal u fl'" "kept t u (insert hp al - {hp})"
        "\<exists>b\<in>set fl'. sz t hp \<le> sz u b"
      using ufree_spec[OF G(1,2), of hp] by blast
    have al: "insert hp al - {hp} = al" using G(4) by simp
    have "nat (int hp + 16 * int (unat nu)) = hp + 16 * unat nu" by linarith
    then have "morecore sbrk n s = Some (freep u, u)" using Some arg u(1) by (simp add: morecore_def Let_def nu_def[symmetric] t_def)
    moreover have "kept s u al" using kept_trans[OF G(3) u(4)[unfolded al]] um_invD(8)[OF i] by blast
    moreover have "\<exists>b\<in>set fl'. n \<le> sz u b" using u(5) nu(3) G(5) by (auto intro: order_trans)
    ultimately show ?thesis using u(2,3) unfolding al by blast
  qed
qed

lemma malloc_loop_spec:
  assumes i: "um_inv s fl al" and c: "coal s fl" and sb: "sbrk_ok sbrk" and n: "0 < n" "unat n < 2 ^ 27"
  shows "\<exists>r t. malloc_loop sbrk n (freep s) (nx s (freep s)) s = Some (r, t) \<and> kept s t al
    \<and> (r = 0 \<and> um_heap t al \<and> sbrk (um_top s) (16 * int (max 4096 (unat n))) = None \<or> (\<exists>bp. r = bp + 16 \<and> bp \<notin> al \<and> um_heap t (insert bp al) \<and> sz t bp = n))"
  using malloc_round[OF i c n(1), of sbrk]
proof (elim disjE exE conjE)
  fix bp t assume "malloc_loop sbrk n (freep s) (nx s (freep s)) s = Some (bp + 16, t)" "um_heap t (insert bp al)" "kept s t al" "bp \<notin> al" "sz t bp = n"
  then show ?thesis by auto
next
  assume m: "malloc_loop sbrk n (freep s) (nx s (freep s)) s
    = Option.bind (morecore sbrk n s) (\<lambda>(p, s). if p = 0 then Some (0, s) else malloc_loop sbrk n p (nx s p) s)"
  show ?thesis using morecore_spec[OF i c sb n(2)]
  proof (elim disjE exE conjE)
    assume "morecore sbrk n s = Some (0, s)" "sbrk (um_top s) (16 * int (max 4096 (unat n))) = None"
    then show ?thesis using m um_heapI[OF i c] by auto
  next
    fix t fl' assume t: "morecore sbrk n s = Some (freep t, t)" "um_inv t fl' al" "coal t fl'" "kept s t al" "\<exists>b\<in>set fl'. n \<le> sz t b"
    have "malloc_loop sbrk n (freep s) (nx s (freep s)) s = malloc_loop sbrk n (freep t) (nx t (freep t)) t"
      using m t(1) freep_nz[OF t(2)] by simp
    moreover obtain bp u where "malloc_loop sbrk n (freep t) (nx t (freep t)) t = Some (bp + 16, u)" "um_heap u (insert bp al)" "kept t u al"
        "bp \<notin> al" "sz u bp = n"
      using malloc_round[OF t(2,3) n(1), of sbrk] t(5) by force
    moreover have "\<forall>a\<in>al. 0 < sz s a" using um_invD(8)[OF i] by blast
    ultimately show ?thesis using kept_trans[OF t(4)] by auto
  qed
qed

lemma um_heap_apart:
  assumes "um_heap s S" "a \<in> S"
  shows "0 < sz s a" "bend s a \<le> um_top s" "b \<in> S \<Longrightarrow> b \<noteq> a \<Longrightarrow> {a..<bend s a} \<inter> {b..<bend s b} = {}"
proof -
  have "freep s \<noteq> 0" using assms by (auto simp: um_heap_def split: if_splits)
  then obtain fl where i: "um_inv s fl S" using assms(1) by (auto simp: um_heap_def)
  then show "0 < sz s a" "bend s a \<le> um_top s" using um_invD(8,9)[OF i] assms(2) by blast+
  assume b: "b \<in> S" "b \<noteq> a"
  then consider "bend s a \<le> b" | "bend s b \<le> a" using um_invD(10)[OF i, of a b] um_invD(10)[OF i, of b a] assms(2) by (cases "a < b") auto
  then show "{a..<bend s a} \<inter> {b..<bend s b} = {}" by cases auto
qed

text \<open>The first call makes the list of \<open>base\<close> alone.\<close>

lemma umalloc_start:
  assumes "um_heap s al"
  obtains s' fl where "umalloc sbrk nb s = malloc_loop sbrk (nunits_of nb) (freep s') (nx s' (freep s')) s'" "um_inv s' fl al" "coal s' fl" "kept s s' al"
    "um_top s' = um_top s" "freep s \<noteq> 0 \<longrightarrow> s' = s"
proof (cases "freep s = 0")
  case True
  let ?s = "s\<lparr>nx := (nx s)(um_base s := um_base s), freep := um_base s, sz := (sz s)(um_base s := 0)\<rparr>"
  have "um_inv ?s [] al" using True assms by (simp add: um_heap_def um_inv_def)
  moreover have "kept s ?s al" using True assms by (simp add: um_heap_def kept_def)
  ultimately show ?thesis using that[of ?s "[]"] True by (simp add: umalloc_def)
next
  case False
  then obtain fl where "um_inv s fl al" "coal s fl" using assms by (auto simp: um_heap_def)
  then show ?thesis using that[of s fl] False by (simp add: umalloc_def)
qed

text \<open>C10: \<open>malloc\<close> is correct on every well-formed heap, the empty one before the first call included. For fewer than \<open>2 ^ 31 - 64\<close> bytes
  the search ends; it returns a null pointer only when \<open>sbrk\<close> refuses the request, and otherwise a pointer behind the header of a block that
  was not in use, has room for the bytes, lies inside the memory obtained, and overlaps no block in use. The heap stays well formed and
  coalesced, and not one byte of the blocks in use is written.\<close>

theorem malloc_correct:
  assumes "um_heap s al" and "sbrk_ok sbrk" and "unat nbytes < 2 ^ 31 - 64"
  shows "\<exists>r t. umalloc sbrk nbytes s = Some (r, t) \<and> kept s t al
    \<and> (if r = 0 then um_heap t al \<and> sbrk (um_top s) (16 * int (max 4096 (unat (nunits_of nbytes)))) = None
       else \<exists>bp. r = bp + 16 \<and> bp \<notin> al \<and> um_heap t (insert bp al) \<and> r + unat nbytes \<le> bend t bp \<and> bend t bp \<le> um_top t
         \<and> (\<forall>a\<in>al. bend t a = bend s a \<and> {bp..<bend t bp} \<inter> {a..<bend t a} = {}))"
proof -
  let ?n = "nunits_of nbytes"
  obtain s' fl where s': "umalloc sbrk nbytes s = malloc_loop sbrk ?n (freep s') (nx s' (freep s')) s'" "um_inv s' fl al" "coal s' fl" "kept s s' al"
      "um_top s' = um_top s"
    using umalloc_start[OF assms(1)] by metis
  have n: "0 < ?n" "unat ?n < 2 ^ 27" using assms(3) unat_nunits[of nbytes] by (auto simp: word_less_nat_alt)
  obtain r t where t: "malloc_loop sbrk ?n (freep s') (nx s' (freep s')) s' = Some (r, t)" "kept s' t al"
      "r = 0 \<and> um_heap t al \<and> sbrk (um_top s') (16 * int (max 4096 (unat ?n))) = None
        \<or> (\<exists>bp. r = bp + 16 \<and> bp \<notin> al \<and> um_heap t (insert bp al) \<and> sz t bp = ?n)"
    using malloc_loop_spec[OF s'(2,3) assms(2) n] by blast
  have pos: "\<forall>a\<in>al. 0 < sz s a" using um_heap_apart(1)[OF assms(1)] by blast
  have k: "kept s t al" by (rule kept_trans[OF s'(4) t(2) pos])
  have b: "bend t a = bend s a" if "a \<in> al" for a using kept_bend(1)[OF k that] pos that by blast
  show ?thesis
  proof (cases "r = 0")
    case True
    then show ?thesis using s'(1,5) t(1,3) k by auto
  next
    case False
    then obtain bp where bp: "r = bp + 16" "bp \<notin> al" "um_heap t (insert bp al)" "sz t bp = ?n" using t(3) by auto
    have "16 + unat nbytes \<le> 16 * unat ?n" unfolding unat_nunits by presburger
    then have "r + unat nbytes \<le> bend t bp" using bp(1,4) by (simp add: bend_def)
    moreover have "{bp..<bend t bp} \<inter> {a..<bend t a} = {}" if "a \<in> al" for a
      using um_heap_apart(3)[OF bp(3), of bp a] that bp(2) by auto
    ultimately show ?thesis using s'(1) t(1) k b bp(1-3) False um_heap_apart(2)[OF bp(3), of bp] by auto
  qed
qed

text \<open>C11: \<open>free\<close> of a pointer that \<open>malloc\<close> gave out and that was not freed yet ends, leaves the heap well formed and coalesced with that
  block no longer in use, writes no byte of the other blocks in use, and makes the memory available: the next \<open>malloc\<close> of a
  size that fits into the freed block succeeds without asking for more memory.\<close>

theorem free_correct:
  assumes "um_heap s al" and "bp \<in> al"
  shows "\<exists>t. ufree (bp + 16) s = Some t \<and> um_heap t (al - {bp}) \<and> kept s t (al - {bp})
    \<and> (\<forall>nbytes. nunits_of nbytes \<le> sz s bp \<longrightarrow> (\<exists>r u. umalloc (\<lambda>_ _. None) nbytes t = Some (r, u) \<and> r \<noteq> 0))"
proof -
  have "freep s \<noteq> 0" using assms by (auto simp: um_heap_def split: if_splits)
  then obtain fl where fl: "um_inv s fl al" "coal s fl" using assms(1) by (auto simp: um_heap_def)
  obtain t fl' where t: "ufree (bp + 16) s = Some t" "um_inv t fl' (al - {bp})" "coal t fl'" "kept s t (al - {bp})" "\<exists>b\<in>set fl'. sz s bp \<le> sz t b"
    using ufree_spec[OF fl assms(2)] by blast
  have "\<exists>r u. umalloc (\<lambda>_ _. None) nbytes t = Some (r, u) \<and> r \<noteq> 0" if "nunits_of nbytes \<le> sz s bp" for nbytes
  proof -
    have "0 < nunits_of nbytes" using unat_nunits[of nbytes] by (auto simp: word_less_nat_alt)
    then have "\<exists>b u. malloc_loop (\<lambda>_ _. None) (nunits_of nbytes) (freep t) (nx t (freep t)) t = Some (b + 16, u)"
      using malloc_round[OF t(2,3), of "nunits_of nbytes" "\<lambda>_ _. None"] t(5) that by (meson not_less order_trans)
    then show ?thesis using freep_nz[OF t(2)] by (auto simp: umalloc_def)
  qed
  then show ?thesis using t(1,4) um_heapI[OF t(2,3)] by blast
qed

definition ex_sbrk :: "nat \<Rightarrow> int \<Rightarrow> nat option" where
  "ex_sbrk b n = (if int b + n < 2 ^ 36 then Some b else None)"

definition ex_um :: um where
  "ex_um = \<lparr>nx = (\<lambda>_. 0), sz = (\<lambda>_. 0), freep = 0, um_base = 4096, um_top = 8192\<rparr>"

lemma ex_um_ok: "um_heap ex_um {}" "sbrk_ok ex_sbrk"
  by (auto simp: um_heap_def ex_um_def sbrk_ok_def ex_sbrk_def split: if_splits)

lemma ex_um_grants: "ex_sbrk (um_top ex_um) (16 * int (max 4096 (unat (nunits_of 100)))) \<noteq> None"
  unfolding unat_nunits by (simp add: ex_sbrk_def ex_um_def)

theorem malloc_correct_witness:
  "\<exists>bp t. umalloc ex_sbrk 100 ex_um = Some (bp + 16, t) \<and> um_heap t {bp} \<and> bp + 116 \<le> bend t bp"
proof -
  have "unat (100 :: uint) < 2 ^ 31 - 64" by simp
  from malloc_correct[OF ex_um_ok this] obtain r t where t: "umalloc ex_sbrk 100 ex_um = Some (r, t)"
      "if r = 0 then um_heap t {} \<and> ex_sbrk (um_top ex_um) (16 * int (max 4096 (unat (nunits_of 100)))) = None
       else \<exists>bp. r = bp + 16 \<and> bp \<notin> {} \<and> um_heap t {bp} \<and> r + unat (100 :: uint) \<le> bend t bp \<and> bend t bp \<le> um_top t
         \<and> (\<forall>a\<in>{}. bend t a = bend ex_um a \<and> {bp..<bend t bp} \<inter> {a..<bend t a} = {})" by blast
  have r: "r \<noteq> 0" using t(2) ex_um_grants by metis
  then obtain bp where "r = bp + 16" "um_heap t {bp}" "r + unat (100 :: uint) \<le> bend t bp" using t(2) unfolding if_not_P[OF r] by blast
  then show ?thesis using t(1) by auto
qed

theorem free_correct_witness:
  "\<exists>bp s t. um_heap s {bp} \<and> ufree (bp + 16) s = Some t \<and> um_heap t {}"
proof -
  obtain s' fl where s': "um_inv s' fl {}" "coal s' fl" "um_top s' = um_top ex_um" using umalloc_start[OF ex_um_ok(1)] by metis
  have n: "0 < nunits_of 100" "unat (nunits_of 100) < 2 ^ 27" using unat_nunits[of 100] by (auto simp: word_less_nat_alt)
  obtain bp s where s: "um_heap s {bp}" using malloc_loop_spec[OF s'(1,2) ex_um_ok(2) n] ex_um_grants unfolding s'(3) by auto
  then show ?thesis using free_correct[OF s, of bp] by auto
qed

end
