(* ===== verification/Spec2Isabelle.thy ===== *)
theory Spec2Isabelle
  imports Spinlock Ulazy Sleepwake Fscrash Fsinode Fswrite Pipespec Virtiospec Ugrep Ush Umalloc
begin

text \<open>
  A verification library for the kernel under src/kernel: xv6 for RISC-V, extended with a heat-aware scheduler, lazily
  allocated heaps and an activity monitor.

  \<^bold>\<open>The program.\<close> Physical pages come from a free list (kalloc.c) and are mapped by three-level page tables (vm.c). Processes
  (proc.c) run until a trap (trap.c) enters the kernel: system calls go through a table (syscall.c) to sysproc.c and
  sysfile.c, a timer tick heats the process and gives up the processor, a page fault below the size of the process allocates the
  page. Blocks of the disk are reached through a driver (virtio_disk.c), a cache with a least-recently-used list (bio.c) and a
  write-ahead log (log.c); on them stand inodes, directories and path names (fs.c), open files (file.c), pipes (pipe.c) and the console
  (console.c, uart.c). Spin locks (spinlock.c) and sleep locks (sleeplock.c) keep harts and processes apart.

  \<^bold>\<open>How code is modelled.\<close> A C function is a definition of the same name, of type \<open>('s, 'a) K\<close>: a function from the
  kernel state to \<open>Done\<close> a result and a state, \<open>Panic\<close> with the message, or \<open>Swtch\<close> when the process has given up the processor
  (theory Kernel_Prelude). The state is a record that each layer extends: \<open>kst\<close> (processes, clock, held locks, console output), \<open>mst\<close>
  (physical memory, page free list), \<open>bst\<close> (buffer cache, disk, sleep locks), \<open>lgst\<close> (log), \<open>fsst\<close> (superblock, inodes),
  \<open>dvst\<close> (UART, console), \<open>ftst\<close> (files, pipes), \<open>vdst\<close> (disk driver), \<open>kos\<close> (control registers). Integers keep their C width.
  Pointers into static tables are indices, page tables and pipes are physical addresses, and a C string is the list of its bytes
  before the NUL.

  One hart executes a function at a time. A spin lock is an element of the set \<open>held\<close>: taking a held lock or releasing a free one panics,
  as in the code. That this view is sound for several harts is theorem \<open>lock_view_refinement\<close>; the interleavings themselves are modelled
  where they are the point, as step relations: \<open>smp_step\<close> for spin locks, \<open>sw_step\<close> for \<open>sleep\<close> against \<open>wakeup\<close>. A loop
  \<open>while (condition) sleep(...)\<close> is one attempt: it goes on, or ends in \<open>Swtch\<close> with the process asleep, to be called again when woken.

  \<^bold>\<open>Theories.\<close>
  \<^item> Kernel_Prelude: machine types, outcomes, sequencing and loop combinators, their execution rules (\<open>kexec\<close>) and loop rules.
  \<^item> Riscv (riscv.h, memlayout.h, param.h), Memory (bytes and 64-bit words), Kstring (string.c), Kstate (proc.h), Printf (printf.c).
  \<^item> Spinlock (spinlock.c): mutual exclusion, nesting of interrupt disabling, and the refinement above.
  \<^item> Kalloc (kalloc.c): no page is lost or given out twice.
  \<^item> Vm (vm.c), with Pagetable and Vmspec (what a page table means), Uvm, Ucopy, Ufork, Ulazy (user address spaces: mapping,
    unmapping, copying, fork, lazy allocation, and the faults that it cannot serve).
  \<^item> Sched (scheduler, sleep, wakeup, kill and procdump of proc.c), Sleepwake (no lost wakeup), Procexec (execution of the
    process operations where they neither panic nor deadlock).
  \<^item> Bio (sleeplock.c, bio.c): the cache behaves as the disk. Log (log.c): commits are atomic under crashes.
  \<^item> Fs (fs.c), with Fslayout (path names, inode layout, free-map bits), Fstx (blocks read and written inside a
    transaction), Fsalloc (the block allocator), Fsinode (inodes from memory to the disk and back: \<open>iupdate\<close> and \<open>ilock\<close>), Fsfile
    (files as lists of bytes: \<open>readi\<close>, and \<open>writei\<close> within the blocks of the file), Fswrite (\<open>writei\<close> from any source, with the
    blocks that \<open>bmap\<close> allocates) and Fsdir (directories as maps from names to inode numbers: \<open>dirlookup\<close> and \<open>dirlink\<close>). Fscrash
    puts a change of a directory between \<open>begin_op\<close> and \<open>end_op\<close> and describes the file that the disk alone gives.
  \<^item> Ring (ring buffers and the locale \<open>fifo\<close> of bounded queues), Console (uart.c, console.c), File (pipe.c, file.c), Pipespec (the
    interpretations of \<open>fifo\<close> on the pipe, UART and console buffers, and pipes and output in order).
  \<^item> Virtio (virtio_disk.c), Proc (the life of a process), Sysproc (syscall.c arguments, sysproc.c), Exec (exec.c), Sysfile
    (sysfile.c), Trap (trap.c, plic.c, start.c, main.c), Bootstate (a concrete state for examples), Trapspec and
    Sysprocspec (traps, system calls, the lazily allocated heap, sleeping). Virtiospec shows that a request submitted to the driver, served
    by a device that follows the virtio protocol and reported by an interrupt is the transfer that the buffer cache assumes.
  \<^item> Ugrep (user/grep.c): the matcher decides the language of its pattern, and which lines are printed. Ush (user/sh.c): the command
    parser ends on every line, and what the words of an accepted line are. Umalloc (user/umalloc.c): the circular free list of
    \<open>malloc\<close> and \<open>free\<close> stays sorted and coalesced, and blocks in use are disjoint and never written.

  \<^bold>\<open>Bounds.\<close> Loops of the code are recursions on what is left to do or scans of a list of indices. Where the code tests a condition that
  the model cannot bound structurally, the recursion gets the number of iterations that remain possible: the bytes waiting in the UART buffer
  (\<open>uartstart_loop\<close>), the characters of the line being edited (\<open>kill_line\<close>), the unread input (\<open>uartintr_loop\<close>), the
  distance of the 16-bit used-ring counters (\<open>virtio_disk_intr\<close>) and \<open>NUM + 1\<close> descriptors (\<open>free_chain\<close>). Each
  iteration of the code decreases exactly that number, so that the bound is never what ends the loop. The mutually recursive parser of the
  shell gets four calls for every character of the line, and theorem \<open>parse_terminates\<close> shows that this is enough. The loops of \<open>malloc\<close> and \<open>free\<close> are partial functions, and their theorems
  show that they return.

  \<^bold>\<open>Not modelled.\<close> Assembly (entry.S, swtch.S, kernelvec.S, trampoline.S) and the single-instruction register accessors of riscv.h: a switch
  is an outcome and the registers are fields. ramdisk.c is not linked into the kernel. The virtio device, the UART, the interrupt
  controller and the clock are environment: the driver code is modelled, the device is state that changes between calls. The other
  user programs, the execution of shell commands and mkfs.c are outside: they sequence system calls or build the disk image, the
  boundary is the system call interface, and the theorems about the disk hold for any disk that satisfies their hypotheses.
\<close>

subsection \<open>Directories, files, cache, log and disk together\<close>

text \<open>C1: adding a name to a directory is atomic under crashes. In an idle file system, \<open>begin_op\<close>, \<open>dirlink\<close> of a name that the directory
  does not have, and \<open>end_op\<close>, the bracket that the system calls put around it, return 0 and perform a sequence \<open>W\<close> of disk writes after
  which the directory on the disk has the name. Cut \<open>W\<close> after any number of writes, reboot with a cold cache on what is then on the disk,
  and run \<open>initlog\<close>: recovery completes, and the directory that the disk then describes, read through its inode and its blocks, is
  exactly the old one or exactly the old one with the new name.\<close>

theorem link_crash_atomic:
  fixes s :: "'a fsst_scheme" and inum :: uint
  assumes "log_idle p s" and "link_ready s dp" and "0 \<notin> set name" and "(ucast inum :: ushort) \<noteq> 0"
    and "D = dir_map (dir_ents (file_bytes s dp))" and "D (take DIRSIZ name) = None"
  shows "\<exists>u W. kthen begin_op (kbind (dirlink dp name inum) (\<lambda>r. kthen end_op (kret r))) s = Done 0 u \<and> wtrace u = wtrace s @ W
    \<and> dir_map (dir_ents (disk_file (disk u) (unat (iblk s dp)) (islot s dp))) = D(take DIRSIZ name \<mapsto> ucast inum)
    \<and> (\<forall>k q (r :: 'b lgst_scheme). bc_idle q r \<longrightarrow> disk r = apply_writes (take k W) (disk s) \<longrightarrow>
         (\<exists>t. initlog ROOTDEV (log_start s) nlog r = Done () t
            \<and> dir_map (dir_ents (disk_file (disk t) (unat (iblk s dp)) (islot s dp))) \<in> {D, D(take DIRSIZ name \<mapsto> ucast inum)}))"
proof -
  let ?F = "\<lambda>d. disk_file d (unat (iblk s dp)) (islot s dp)"
  obtain t and L :: "nat set" where t: "kthen begin_op (dirlink dp name inum) s = Done 0 t" "txn_ready p (card L) t" "0 < card L" "LOG_LOCK \<notin> held t"
      "log_outstanding t = 1" "\<not> log_committing t" "disk t = disk s" "wtrace t = wtrace s" "log_start t = log_start s" "lg_area t = lg_area s"
      "dir_map (dir_ents (file_bytes t dp)) = D(take DIRSIZ name \<mapsto> ucast inum)"
      "synced t dp" "outside (lg_area s) t dp (unat (i_size (inodes t dp)))" "iblk t dp = iblk s dp" "islot t dp = islot s dp"
    using link_run[OF assms(1-4)] assms(5,6) by blast
  have e: "bload32 (disk t (unat (log_start t))) 0 = 0" and v: "view s = disk s"
    using assms(1) idle_view[of p s] by (simp_all add: log_idle_def t(7,9))
  obtain u W where u: "end_op t = Done () u" "wtrace u = wtrace t @ W" "\<forall>m. m \<notin> lg_area t \<longrightarrow> disk u m = view t m"
      "\<forall>k q (r :: 'b lgst_scheme). bc_idle q r \<longrightarrow> disk r = apply_writes (take k W) (disk t) \<longrightarrow>
         (\<exists>x. initlog ROOTDEV (log_start t) nlog r = Done () x
            \<and> ((\<forall>m. m \<notin> lg_area t \<longrightarrow> disk x m = disk t m) \<or> (\<forall>m. m \<notin> lg_area t \<longrightarrow> disk x m = view t m)))"
    using end_op_commit[OF t(2-6) e, of nlog] by blast
  have new: "dir_map (dir_ents (?F d)) = D(take DIRSIZ name \<mapsto> ucast inum)" if "\<forall>m. m \<notin> lg_area s \<longrightarrow> d m = view t m" for d
    using disk_file_outside[OF t(12,13) that] t(11,14,15) by simp
  have "synced s dp" "outside (lg_area s) s dp (unat (i_size (inodes s dp)))"
    using assms(2) by (auto simp: link_ready_def Let_def elim: outside_mono)
  then have old: "dir_map (dir_ents (?F d)) = D" if "\<forall>m. m \<notin> lg_area s \<longrightarrow> d m = disk s m" for d
    using disk_file_outside[of s dp "lg_area s" d] that assms(5) by (simp add: v)
  have "kthen begin_op (kbind (dirlink dp name inum) (\<lambda>r. kthen end_op (kret r))) s = Done 0 u"
    using t(1) u(1) by (auto simp: kexec split: outcome.splits)
  moreover have "\<exists>x. initlog ROOTDEV (log_start s) nlog r = Done () x \<and> dir_map (dir_ents (?F (disk x))) \<in> {D, D(take DIRSIZ name \<mapsto> ucast inum)}"
    if "bc_idle q r" "disk r = apply_writes (take k W) (disk s)" for k q and r :: "'b lgst_scheme"
    using u(4)[unfolded t(7,9,10), rule_format, OF that] old new by blast
  ultimately show ?thesis using u(2,3) new[of "disk u"] unfolding t(8,10) by blast
qed

theorem link_crash_atomic_witness:
  "\<exists>(s :: fsst) u W. kthen begin_op (kbind (dirlink 0 [97] 7) (\<lambda>r. kthen end_op (kret r))) s = Done 0 u \<and> wtrace u = wtrace s @ W
     \<and> dir_map (dir_ents (disk_file (disk u) (unat (iblk s 0)) (islot s 0))) = [[97] \<mapsto> 7]
     \<and> (\<exists>(r :: lgst) t. disk r = apply_writes (take 3 W) (disk s) \<and> initlog ROOTDEV (log_start s) 30 r = Done () t)"
proof -
  obtain s :: fsst where s: "log_idle 0 s" "link_ready s 0" "dir_ents (file_bytes s 0) = []" using ex_link by blast
  have a: "0 \<notin> set [97 :: byte]" "(ucast (7 :: uint) :: ushort) \<noteq> 0" "Map.empty = dir_map (dir_ents (file_bytes s 0))" by (simp_all add: s(3))
  have e: "take DIRSIZ [97 :: byte] = [97]" "(ucast (7 :: uint) :: ushort) = 7" by (simp_all add: DIRSIZ_def)
  obtain u W where u: "kthen begin_op (kbind (dirlink 0 [97] 7) (\<lambda>r. kthen end_op (kret r))) s = Done 0 u" "wtrace u = wtrace s @ W"
      "dir_map (dir_ents (disk_file (disk u) (unat (iblk s 0)) (islot s 0))) = [[97] \<mapsto> 7]"
      "\<And>k q (r :: lgst). bc_idle q r \<Longrightarrow> disk r = apply_writes (take k W) (disk s) \<Longrightarrow> \<exists>t. initlog ROOTDEV (log_start s) 30 r = Done () t"
    using link_crash_atomic[OF s(1,2) a refl, of 30] unfolding e by blast
  obtain r :: lgst where r: "bc_idle 0 r" "disk r = apply_writes (take 3 W) (disk s)"
    using binit_idle[of "boot_lgst\<lparr>disk := apply_writes (take 3 W) (disk s)\<rparr>" 0] boot_lgst_simps(1,2) by (auto simp: cold_cache_def bio_ok_def)
  then show ?thesis using u(1-3) u(4)[OF r] by blast
qed

end
